(* ===== verification/Prelude.thy ===== *)
theory Prelude
  imports Complex_Main "HOL-Library.AList" "HOL-Library.Product_Lexorder"
    "HOL-Library.List_Lexorder" "HOL-Library.Char_ord" "HOL-Library.Multiset"
begin

text \<open>
  Shared vocabulary of the development: the problem codes raised by the services
  (\<open>mhvp.core.problems\<close>), results as a sum, Python dictionaries as association lists in
  insertion order, and the list lemmas that several components use.
\<close>

text \<open>
  A problem also stands for the Python exceptions the services let pass: \<open>ValueError\<close>, \<open>KeyError\<close>,
  \<open>ZeroDivisionError\<close>, \<open>OverflowError\<close> of a date, and \<open>StopIteration\<close>.
\<close>

section \<open>Hint collections\<close>

named_theorems res_simps "rewriting of results (errors as values)"
named_theorems exact_simps "decimal operations that are exact on amounts"
named_theorems dict_simps "dictionaries in insertion order"

section \<open>Results\<close>

text \<open>
  The error codes of \<open>ErrorCodes\<close> that the modelled operations raise; \<open>Value_Error\<close> is
  Python's \<open>ValueError\<close> (and its subclass \<open>HeatingCalcError\<close>), \<open>Key_Error\<close> a missing
  dictionary key, \<open>Zero_Division\<close> a division by zero, \<open>Overflow_Error\<close> a date past the year 9999,
  \<open>Sum_Check\<close> the failed final check of a heating statement (a \<open>HeatingCalcError\<close> of its own text).
\<close>

datatype problem =
    Validation
  | Conflict
  | Resource_Not_Found
  | Not_Found
  | Acc_Unbalanced
  | Acc_Wrong_Entity
  | Acc_Period_Locked
  | Acc_Period_Locked_Object
  | Acc_Period_Lock_Release_Disabled
  | Acc_Posted_Immutable
  | Gate_Four_Eyes
  | Value_Error
  | Key_Error
  | Zero_Division
  | Overflow_Error
  | Bank_Auto_Review_Pending
  | Sum_Check
  | Stop_Iteration
  | Forbidden
  | Gate_Closed
  | Payment_File_State
  | Bank_Recon_Account_Ambiguous
  | Bank_Counter_Account_Not_Allowed
  | Bank_Transfer_Pair_Settled
  | Bank_Transfer_Partner_Booked_Elsewhere
  | Bank_Receipt_Missing
  | Payment_Channel_Unavailable

type_synonym 'a res = "problem + 'a"

definition bindr :: "'a res \<Rightarrow> ('a \<Rightarrow> 'b res) \<Rightarrow> 'b res" where
  "bindr x f = (case x of Inl e \<Rightarrow> Inl e | Inr a \<Rightarrow> f a)"

definition guardr :: "bool \<Rightarrow> problem \<Rightarrow> unit res" where
  "guardr ok e = (if ok then Inr () else Inl e)"

fun foldr_res :: "('s \<Rightarrow> 'a \<Rightarrow> 's res) \<Rightarrow> 's \<Rightarrow> 'a list \<Rightarrow> 's res" where
  "foldr_res f s [] = Inr s"
| "foldr_res f s (x # xs) = bindr (f s x) (\<lambda>s'. foldr_res f s' xs)"

fun mapr :: "('a \<Rightarrow> 'b res) \<Rightarrow> 'a list \<Rightarrow> 'b list res" where
  "mapr f [] = Inr []"
| "mapr f (x # xs) = bindr (f x) (\<lambda>y. bindr (mapr f xs) (\<lambda>ys. Inr (y # ys)))"

lemma bindr_Inl [simp, res_simps]: "bindr (Inl e) f = Inl e"
  by (simp add: bindr_def)

lemma bindr_Inr [simp, res_simps]: "bindr (Inr a) f = f a"
  by (simp add: bindr_def)

lemma bindr_eq_Inr [res_simps]: "bindr x f = Inr b \<longleftrightarrow> (\<exists>a. x = Inr a \<and> f a = Inr b)"
  by (cases x) auto

lemma bindr_eq_Inl [res_simps]:
  "bindr x f = Inl e \<longleftrightarrow> x = Inl e \<or> (\<exists>a. x = Inr a \<and> f a = Inl e)"
  by (cases x) auto

text \<open>Recursion through \<open>bindr\<close> only meets the value that was produced.\<close>

lemma bindr_cong [fundef_cong]:
  "x = y \<Longrightarrow> (\<And>a. y = Inr a \<Longrightarrow> f a = g a) \<Longrightarrow> bindr x f = bindr y g"
  by (cases y) auto

lemma guardr_eq_Inr [simp, res_simps]: "guardr ok e = Inr u \<longleftrightarrow> ok"
  by (simp add: guardr_def)

lemma guardr_eq_Inl [simp, res_simps]: "guardr ok e = Inl e' \<longleftrightarrow> \<not> ok \<and> e' = e"
  by (auto simp: guardr_def)

lemma foldr_res_append:
  "foldr_res f s (xs @ ys) = bindr (foldr_res f s xs) (\<lambda>s'. foldr_res f s' ys)"
  by (induction xs arbitrary: s) (auto simp: bindr_def split: sum.splits)

text \<open>An invariant of the loop body is an invariant of the loop.\<close>

lemma foldr_res_invariant:
  assumes "foldr_res f s xs = Inr s'" and "P s"
    and "\<And>s x s'. x \<in> set xs \<Longrightarrow> P s \<Longrightarrow> f s x = Inr s' \<Longrightarrow> P s'"
  shows "P s'"
  using assms
proof (induction xs arbitrary: s)
  case Nil
  then show ?case by simp
next
  case (Cons x xs)
  from Cons.prems(1) obtain t where "f s x = Inr t" and "foldr_res f t xs = Inr s'"
    by (auto simp: res_simps)
  with Cons show ?case by (metis list.set_intros)
qed

lemma mapr_eq_Inr: "mapr f xs = Inr ys \<longleftrightarrow> list_all2 (\<lambda>x y. f x = Inr y) xs ys"
  by (induction xs arbitrary: ys) (auto simp: res_simps list_all2_Cons1)

lemma list_all2_setD2: "list_all2 P xs ys \<Longrightarrow> y \<in> set ys \<Longrightarrow> \<exists>x \<in> set xs. P x y"
  by (induction rule: list_all2_induct) auto

lemma list_all2_setD1: "list_all2 P xs ys \<Longrightarrow> x \<in> set xs \<Longrightarrow> \<exists>y \<in> set ys. P x y"
  by (induction rule: list_all2_induct) auto

section \<open>Dictionaries\<close>

text \<open>
  A Python dictionary is an association list in insertion order; \<open>d[k] = v\<close> replaces the
  value at its place or appends, which is what \<open>AList.update\<close> does.
\<close>

type_synonym ('k, 'v) dict = "('k \<times> 'v) list"

definition dict_of :: "('k \<times> 'v) list \<Rightarrow> ('k, 'v) dict" where
  "dict_of kvs = fold (\<lambda>(k, v) d. AList.update k v d) kvs []"

definition dict_get :: "('k, 'v) dict \<Rightarrow> 'k \<Rightarrow> 'v \<Rightarrow> 'v" where
  "dict_get d k v = (case map_of d k of None \<Rightarrow> v | Some w \<Rightarrow> w)"

lemma update_new: "k \<notin> fst ` set d \<Longrightarrow> AList.update k v d = d @ [(k, v)]"
  by (induction d) auto

lemma fold_update_distinct:
  "distinct (map fst (d @ kvs)) \<Longrightarrow> fold (\<lambda>(k, v) d. AList.update k v d) kvs d = d @ kvs"
proof (induction kvs arbitrary: d)
  case Nil
  then show ?case by simp
next
  case (Cons kv kvs)
  obtain k v where kv: "kv = (k, v)" by force
  from Cons.prems kv have "AList.update k v d = d @ [(k, v)]"
    by (intro update_new) auto
  moreover from Cons.prems have "distinct (map fst ((d @ [kv]) @ kvs))" by simp
  ultimately show ?case using Cons.IH[of "d @ [kv]"] kv by simp
qed

lemma dict_of_distinct [dict_simps]: "distinct (map fst kvs) \<Longrightarrow> dict_of kvs = kvs"
  using fold_update_distinct[of "[]" kvs] by (simp add: dict_of_def)

lemma sum_list_update:
  fixes d :: "('k \<times> 'v::ab_group_add) list"
  shows "distinct (map fst d) \<Longrightarrow>
    sum_list (map snd (AList.update k v d)) = sum_list (map snd d) - dict_get d k 0 + v"
  by (induction d) (auto simp: dict_get_def split: option.splits dest: map_of_SomeD)

lemma update_values: "set (map snd (AList.update k v d)) \<subseteq> insert v (set (map snd d))"
  by (induction d) auto

lemma dict_get_mem: "k \<in> fst ` set d \<Longrightarrow> dict_get d k x \<in> set (map snd d)"
proof -
  assume "k \<in> fst ` set d"
  then obtain v where "map_of d k = Some v" by (metis map_of_eq_None_iff not_None_eq)
  then show ?thesis by (auto simp: dict_get_def dest!: map_of_SomeD intro: rev_image_eqI)
qed

lemma dict_get_map:
  "distinct (map f xs) \<Longrightarrow> x \<in> set xs \<Longrightarrow> dict_get (map (\<lambda>x. (f x, g x)) xs) (f x) y = g x"
  by (induction xs) (auto simp: dict_get_def image_iff)

lemma dict_get_update [dict_simps]:
  "dict_get (AList.update k v d) k' x = (if k' = k then v else dict_get d k' x)"
  by (simp add: dict_get_def update_conv')

text \<open>
  A database table is a dictionary from row ids to rows; a row is read by \<open>fetch\<close>, and an
  unknown id is reported with the caller's problem code.
\<close>

definition fetch :: "('k, 'v) dict \<Rightarrow> 'k \<Rightarrow> problem \<Rightarrow> 'v res" where
  "fetch t k e = (case map_of t k of None \<Rightarrow> Inl e | Some v \<Rightarrow> Inr v)"

lemma fetch_eq_Inr [simp, res_simps]: "fetch t k e = Inr v \<longleftrightarrow> map_of t k = Some v"
  by (simp add: fetch_def split: option.splits)

lemma fetch_eq_Inl [simp, res_simps]: "fetch t k e = Inl e' \<longleftrightarrow> map_of t k = None \<and> e' = e"
  by (auto simp: fetch_def split: option.splits)

lemma map_of_update [dict_simps]: "map_of (AList.update k v t) k' = (if k' = k then Some v else map_of t k')"
  by (simp add: update_conv')

lemma set_update:
  assumes "distinct (map fst t)"
  shows "(k, v) \<in> set (AList.update i w t) \<longleftrightarrow> (if k = i then v = w else (k, v) \<in> set t)"
  unfolding map_of_eq_Some_iff[OF assms, symmetric] map_of_eq_Some_iff[OF distinct_update[OF assms], symmetric]
  by (auto simp: map_of_update)

lemma fst_update: "fst ` set (AList.update i w t) = insert i (fst ` set t)"
  by (induction t) auto

lemma distinct_keys_update [simp]: "distinct (map fst t) \<Longrightarrow> distinct (map fst (AList.update k v t))"
  by (rule distinct_update)

text \<open>Sums over the rows of a table, and how they change with one row.\<close>

definition table_sum :: "('k \<Rightarrow> 'v \<Rightarrow> 'a::comm_monoid_add) \<Rightarrow> ('k, 'v) dict \<Rightarrow> 'a" where
  "table_sum f t = sum_list (map (\<lambda>(k, v). f k v) t)"

lemma table_sum_simps [simp]:
  "table_sum f [] = 0"
  "table_sum f ((k, v) # t) = f k v + table_sum f t"
  "table_sum f (t @ u) = table_sum f t + table_sum f u"
  by (simp_all add: table_sum_def)

lemma table_sum_update:
  assumes "distinct (map fst t)"
  shows "table_sum f (AList.update k v t) + (case map_of t k of None \<Rightarrow> 0 | Some w \<Rightarrow> f k w) = table_sum f t + f k v"
  using assms
proof (induction t)
  case (Cons kv t)
  obtain k' w where kv: "kv = (k', w)" by force
  show ?case
  proof (cases "k' = k")
    case True
    with Cons.prems kv have "map_of t k = None" by (auto simp: map_of_eq_None_iff)
    then show ?thesis using True by (simp add: kv ac_simps)
  next
    case False
    then show ?thesis using Cons by (simp add: kv ac_simps)
  qed
qed simp

lemma table_sum_put:
  fixes f :: "'k \<Rightarrow> 'v \<Rightarrow> rat"
  assumes "distinct (map fst t)" and "\<And>k. f k z = 0"
  shows "table_sum f (AList.update k v t) = table_sum f t - f k (dict_get t k z) + f k v"
  using table_sum_update[OF assms(1), of f k v] assms(2) by (cases "map_of t k") (auto simp: dict_get_def)

lemma table_sum_new: "map_of t k = None \<Longrightarrow> table_sum f (AList.update k v t) = table_sum f t + f k v"
  by (simp add: map_of_eq_None_iff update_new)

lemma table_sum_delete:
  assumes "distinct (map fst t)"
  shows "table_sum f (AList.delete k t) + (case map_of t k of None \<Rightarrow> 0 | Some w \<Rightarrow> f k w) = table_sum f t"
  using assms
proof (induction t)
  case (Cons kv t)
  obtain k' w where kv: "kv = (k', w)" by force
  show ?case
  proof (cases "k' = k")
    case True
    with Cons.prems kv have "k \<notin> fst ` set t" by auto
    then show ?thesis using True by (simp add: kv ac_simps)
  next
    case False
    then show ?thesis using Cons by (simp add: kv ac_simps)
  qed
qed simp

lemma table_sum_set:
  assumes "distinct (map fst t)"
  shows "table_sum f t = (\<Sum>k \<in> fst ` set t. f k (the (map_of t k)))"
proof -
  have "(\<Sum>k \<in> fst ` set t. f k (the (map_of t k))) = (\<Sum>k \<leftarrow> map fst t. f k (the (map_of t k)))"
    unfolding sum_list_distinct_conv_sum_set[OF assms] by simp
  also have "\<dots> = table_sum f t"
    unfolding table_sum_def map_map using assms by (intro arg_cong[where f = sum_list] map_cong) auto
  finally show ?thesis ..
qed

text \<open>A sum over the rows that satisfy \<open>P\<close> is determined by those rows.\<close>

lemma table_sum_eqI:
  assumes d: "distinct (map fst t)" "distinct (map fst t')"
    and f: "\<And>k v. \<not> P v \<Longrightarrow> f k v = 0"
    and l: "\<And>k v. P v \<Longrightarrow> map_of t k = Some v \<Longrightarrow> \<exists>v'. map_of t' k = Some v' \<and> f k v' = f k v"
    and r: "\<And>k v. P v \<Longrightarrow> map_of t' k = Some v \<Longrightarrow> \<exists>v'. map_of t k = Some v' \<and> f k v' = f k v"
  shows "table_sum f t = table_sum f t'"
proof -
  let ?g = "\<lambda>t k. case map_of t k of None \<Rightarrow> 0 | Some v \<Rightarrow> f k v"
  have eq: "?g t k = ?g t' k" for k
  proof (cases "map_of t k")
    case None
    then have "\<not> P v" if "map_of t' k = Some v" for v using r[OF _ that] by auto
    then show ?thesis using None f by (auto split: option.split)
  next
    case (Some v)
    show ?thesis
    proof (cases "P v")
      case True
      then show ?thesis using l[OF True Some] Some by auto
    next
      case False
      then have z: "?g t k = 0" using f Some by simp
      show ?thesis
      proof (cases "map_of t' k")
        case (Some w)
        then have "f k w = 0" using r[OF _ Some] \<open>map_of t k = Some v\<close> f False by (cases "P w") fastforce+
        then show ?thesis using z Some by simp
      qed (use z in simp)
    qed
  qed
  have s: "table_sum f u = (\<Sum>k \<in> fst ` set t \<union> fst ` set t'. ?g u k)"
    if "distinct (map fst u)" "fst ` set u \<subseteq> fst ` set t \<union> fst ` set t'" for u
  proof -
    have "table_sum f u = (\<Sum>k \<in> fst ` set u. ?g u k)"
      unfolding table_sum_set[OF that(1)] using that(1) by (intro sum.cong) auto
    also have "\<dots> = (\<Sum>k \<in> fst ` set t \<union> fst ` set t'. ?g u k)"
    proof (intro sum.mono_neutral_left ballI)
      fix k assume "k \<in> fst ` set t \<union> fst ` set t' - fst ` set u"
      then have "map_of u k = None" by (simp add: map_of_eq_None_iff)
      then show "?g u k = 0" by simp
    qed (use that(2) in auto)
    finally show ?thesis .
  qed
  show ?thesis using s[OF d(1)] s[OF d(2)] eq by (simp cong: sum.cong)
qed

lemma table_sum_cong:
  "(\<And>k v. (k, v) \<in> set t \<Longrightarrow> f k v = g k v) \<Longrightarrow> table_sum f t = table_sum g t"
  by (induction t) auto

section \<open>Lists\<close>

lemma sum_list_list_update:
  fixes xs :: "'a::ab_group_add list"
  shows "i < length xs \<Longrightarrow> sum_list (xs[i := y]) = sum_list xs - xs ! i + y"
proof (induction xs arbitrary: i)
  case Nil
  then show ?case by simp
next
  case (Cons x xs)
  then show ?case by (cases i) (auto simp: algebra_simps)
qed

lemma elem_le_sum_list:
  fixes xs :: "'a::ordered_comm_monoid_add list"
  shows "\<forall>y \<in> set xs. 0 \<le> y \<Longrightarrow> x \<in> set xs \<Longrightarrow> x \<le> sum_list xs"
proof (induction xs)
  case Nil
  then show ?case by simp
next
  case (Cons a xs)
  have "0 \<le> sum_list xs" using Cons.prems by (intro sum_list_nonneg) auto
  with Cons show ?case by (auto intro: add_increasing2 add_increasing)
qed

lemma sum_list_filter_split:
  fixes f :: "'a \<Rightarrow> 'b::comm_monoid_add"
  shows "sum_list (map f xs) =
    sum_list (map f (filter P xs)) + sum_list (map f (filter (\<lambda>x. \<not> P x) xs))"
  by (induction xs) (auto simp: ac_simps)

lemma foldl_add_eq:
  fixes xs :: "'a::monoid_add list"
  shows "foldl (+) s xs = s + sum_list xs"
  by (induction xs arbitrary: s) (auto simp: add.assoc)

text \<open>Python's \<open>xs[:n]\<close>: a negative \<open>n\<close> counts from the end.\<close>

definition slice_to :: "int \<Rightarrow> 'a list \<Rightarrow> 'a list" where
  "slice_to n xs = (if 0 \<le> n then take (nat n) xs else take (length xs - nat (- n)) xs)"

lemma set_slice_to: "set (slice_to n xs) \<subseteq> set xs"
  by (auto simp: slice_to_def dest: in_set_takeD)

lemma distinct_slice_to: "distinct xs \<Longrightarrow> distinct (slice_to n xs)"
  by (simp add: slice_to_def)

lemma length_slice_to:
  "0 \<le> n \<Longrightarrow> n \<le> int (length xs) \<Longrightarrow> int (length (slice_to n xs)) = n"
  by (simp add: slice_to_def)

text \<open>Python's \<open>sorted(xs, key=k)\<close>: the keys are computed once, the sort is stable.\<close>

text \<open>White space of Python's \<open>str\<close> within Latin-1; a text is blank when \<open>strip\<close> leaves nothing.\<close>

definition py_space :: "char list" where
  "py_space = map char_of [9::nat, 10, 11, 12, 13, 28, 29, 30, 31, 32, 133, 160]"

definition is_blank :: "string \<Rightarrow> bool" where
  "is_blank t = list_all (\<lambda>c. c \<in> set py_space) t"

definition py_sorted :: "('a \<Rightarrow> 'k::linorder) \<Rightarrow> 'a list \<Rightarrow> 'a list" where
  "py_sorted k xs = map snd (sort_key fst (map (\<lambda>x. (k x, x)) xs))"

lemma insort_decorate:
  "insort_key fst (k x, x) (map (\<lambda>x. (k x, x)) xs) = map (\<lambda>x. (k x, x)) (insort_key k x xs)"
  by (induction xs) auto

lemma sort_decorate:
  "sort_key fst (map (\<lambda>x. (k x, x)) xs) = map (\<lambda>x. (k x, x)) (sort_key k xs)"
  by (induction xs) (simp_all add: insort_decorate)

lemma py_sorted_eq: "py_sorted k xs = sort_key k xs"
  by (simp add: py_sorted_def sort_decorate comp_def)

lemma mset_py_sorted [simp]: "mset (py_sorted k xs) = mset xs"
  by (simp add: py_sorted_eq)

lemma set_py_sorted [simp]: "set (py_sorted k xs) = set xs"
  by (simp add: py_sorted_eq)

lemma distinct_py_sorted [simp]: "distinct (py_sorted k xs) = distinct xs"
  by (simp add: py_sorted_eq)

lemma length_py_sorted [simp]: "length (py_sorted k xs) = length xs"
  by (simp add: py_sorted_eq)

lemma sum_list_py_sorted [simp]:
  fixes f :: "'a \<Rightarrow> 'b::comm_monoid_add"
  shows "sum_list (map f (py_sorted k xs)) = sum_list (map f xs)"
  by (metis mset_map mset_py_sorted sum_mset_sum_list)

lemma py_sorted_upt: "set (py_sorted f [0..<n]) = {..<n}" "distinct (py_sorted f [0..<n])"
  by (auto simp: lessThan_atLeast0)

section \<open>State machines\<close>

text \<open>
  The contract between the operations of a component and its users: an invariant that the start states
  have and every step keeps. Each component with a step relation interprets it.
\<close>

locale machine =
  fixes start :: "'s \<Rightarrow> bool"
    and step :: "'s \<Rightarrow> 's \<Rightarrow> bool"
    and inv :: "'s \<Rightarrow> bool"
  assumes inv_start: "start s \<Longrightarrow> inv s"
    and inv_keeps: "step s s' \<Longrightarrow> inv s \<Longrightarrow> inv s'"
begin

lemma inv_runs: "step\<^sup>*\<^sup>* s s' \<Longrightarrow> inv s \<Longrightarrow> inv s'"
  by (induction rule: rtranclp_induct) (auto intro: inv_keeps)

lemma inv_reach: "start s0 \<Longrightarrow> step\<^sup>*\<^sup>* s0 s \<Longrightarrow> inv s"
  by (rule inv_runs[OF _ inv_start])

text \<open>A further property that the steps keep given the invariant.\<close>

lemma also_reach:
  assumes "start s0" and "step\<^sup>*\<^sup>* s0 s" and base: "\<And>a. start a \<Longrightarrow> p a"
    and keeps: "\<And>a b. step a b \<Longrightarrow> inv a \<Longrightarrow> p a \<Longrightarrow> p b"
  shows "p s"
  using assms(2)
proof (induction rule: rtranclp_induct)
  case base
  show ?case by (rule assms(3)) (rule assms(1))
next
  case (step a b)
  then show ?case using keeps inv_reach[OF assms(1)] by blast
qed

text \<open>How a later state relates to an earlier one.\<close>

lemma related_runs:
  assumes "step\<^sup>*\<^sup>* s s'" and "inv s" and refl: "r s s"
    and chain: "\<And>a b. step a b \<Longrightarrow> inv a \<Longrightarrow> r s a \<Longrightarrow> r s b"
  shows "r s s'"
  using assms(1)
proof (induction rule: rtranclp_induct)
  case (step a b)
  then show ?case using chain inv_runs[OF _ assms(2)] by blast
qed (rule refl)

end

end
