(* ===== verification/PyDecimal.thy ===== *)
theory PyDecimal
  imports Prelude
begin

text \<open>
  Python's \<open>decimal.Decimal\<close> under the default context (28 significant digits,
  \<open>ROUND_HALF_EVEN\<close>), at value level: a finite decimal is the rational number it denotes, and
  every arithmetic operation rounds its exact result to 28 significant digits (\<open>fix28\<close>).
  \<open>quantize\<close> rounds to a unit with an explicit mode. Trailing zeros (the exponent of a
  result) and the exceptional conditions for coefficients beyond 28 digits or for exponents
  beyond the context's range are not modelled; the money columns of the program are
  \<open>NUMERIC(14,2)\<close> and stay far below.
\<close>

type_synonym dec = rat

section \<open>Rounding modes\<close>

definition round_down :: "rat \<Rightarrow> int" where
  "round_down x = (if 0 \<le> x then \<lfloor>x\<rfloor> else \<lceil>x\<rceil>)"

definition round_half_up :: "rat \<Rightarrow> int" where
  "round_half_up x = (if 0 \<le> x then \<lfloor>x + 1 / 2\<rfloor> else \<lceil>x - 1 / 2\<rceil>)"

definition round_half_even :: "rat \<Rightarrow> int" where
  "round_half_even x =
     (let f = \<lfloor>x\<rfloor>; r = x - of_int f
      in if r < 1 / 2 then f else if 1 / 2 < r then f + 1 else if even f then f else f + 1)"

definition quantize :: "(rat \<Rightarrow> int) \<Rightarrow> rat \<Rightarrow> dec \<Rightarrow> dec" where
  "quantize mode u x = of_int (mode (x / u)) * u"

section \<open>The context: 28 significant digits\<close>

function ndig :: "int \<Rightarrow> nat" where
  "ndig n = (if n < 10 then 0 else Suc (ndig (n div 10)))"
  by pat_completeness auto
termination
  by (relation "measure nat") auto

declare ndig.simps [simp del]

text \<open>The decimal exponent of the leading digit of a number that is not zero.\<close>

definition mag :: "rat \<Rightarrow> int" where
  "mag x =
     (case quotient_of \<bar>x\<bar> of (p, q) \<Rightarrow>
        (let k = int (ndig p) - int (ndig q)
         in if 10 powi k \<le> \<bar>x\<bar> then k else k - 1))"

definition fix28 :: "rat \<Rightarrow> dec" where
  "fix28 x = (if x = 0 then 0 else quantize round_half_even (10 powi (mag x - 27)) x)"

definition dadd :: "dec \<Rightarrow> dec \<Rightarrow> dec" where "dadd x y = fix28 (x + y)"
definition dsub :: "dec \<Rightarrow> dec \<Rightarrow> dec" where "dsub x y = fix28 (x - y)"
definition dmul :: "dec \<Rightarrow> dec \<Rightarrow> dec" where "dmul x y = fix28 (x * y)"
definition ddiv :: "dec \<Rightarrow> dec \<Rightarrow> dec" where "ddiv x y = fix28 (x / y)"

definition dsum :: "dec list \<Rightarrow> dec" where "dsum xs = foldl dadd 0 xs"

section \<open>Laws of the rounding modes\<close>

lemma quantize_distance:
  assumes "0 < u"
  shows "\<bar>quantize rnd u x - x\<bar> = \<bar>of_int (rnd (x / u)) - x / u\<bar> * u"
proof -
  have "quantize rnd u x - x = (of_int (rnd (x / u)) - x / u) * u"
    using assms by (simp add: quantize_def left_diff_distrib)
  then show ?thesis using assms by (simp add: abs_mult)
qed

text \<open>What every rounding to an integer promises.\<close>

locale rounding =
  fixes rnd :: "rat \<Rightarrow> int"
  assumes rnd_int: "rnd (of_int k) = k"
    and rnd_mono: "x \<le> y \<Longrightarrow> rnd x \<le> rnd y"
begin

lemma rnd_le: "x \<le> of_int k \<Longrightarrow> rnd x \<le> k"
  using rnd_mono[of x "of_int k"] by (simp add: rnd_int)

lemma rnd_ge: "of_int k \<le> x \<Longrightarrow> k \<le> rnd x"
  using rnd_mono[of "of_int k" x] by (simp add: rnd_int)

lemma rnd_between: "\<lfloor>x\<rfloor> \<le> rnd x" "rnd x \<le> \<lceil>x\<rceil>"
  by (rule rnd_ge rnd_le, simp)+

lemma rnd_error: "\<bar>of_int (rnd x) - x\<bar> < 1"
  using rnd_between[of x] by linarith

lemma rnd_nonneg: "0 \<le> x \<Longrightarrow> 0 \<le> rnd x"
  using rnd_ge[of 0 x] by simp

lemma quantize_mono: "0 < u \<Longrightarrow> x \<le> y \<Longrightarrow> quantize rnd u x \<le> quantize rnd u y"
  by (simp add: quantize_def rnd_mono divide_right_mono mult_right_mono)

lemma quantize_exact: "0 < u \<Longrightarrow> quantize rnd u (of_int k * u) = of_int k * u"
  by (simp add: quantize_def rnd_int)

lemma quantize_idem: "0 < u \<Longrightarrow> quantize rnd u (quantize rnd u x) = quantize rnd u x"
  by (simp add: quantize_def rnd_int)

lemma quantize_nonneg: "0 < u \<Longrightarrow> 0 \<le> x \<Longrightarrow> 0 \<le> quantize rnd u x"
  by (simp add: quantize_def rnd_nonneg)

lemma quantize_error:
  assumes "0 < u"
  shows "\<bar>quantize rnd u x - x\<bar> < u"
proof -
  have "\<bar>quantize rnd u x - x\<bar> = \<bar>of_int (rnd (x / u)) - x / u\<bar> * u"
    using assms by (rule quantize_distance)
  also have "\<dots> < 1 * u"
    using rnd_error[of "x / u"] assms by (intro mult_strict_right_mono) auto
  finally show ?thesis by simp
qed

end

text \<open>Rounding to the nearest integer, with ties resolved in some symmetric way.\<close>

locale nearest_rounding = rounding +
  assumes rnd_half: "\<bar>of_int (rnd x) - x\<bar> \<le> 1 / 2"
    and rnd_minus: "rnd (- x) = - rnd x"
begin

lemma quantize_half_error:
  assumes "0 < u"
  shows "\<bar>quantize rnd u x - x\<bar> \<le> u / 2"
proof -
  have "\<bar>quantize rnd u x - x\<bar> = \<bar>of_int (rnd (x / u)) - x / u\<bar> * u"
    using assms by (rule quantize_distance)
  also have "\<dots> \<le> 1 / 2 * u"
    using rnd_half[of "x / u"] assms by (intro mult_right_mono) auto
  finally show ?thesis by simp
qed

lemma quantize_minus: "quantize rnd u (- x) = - quantize rnd u x"
  by (simp add: quantize_def rnd_minus)

end

lemma round_half_even_minus: "round_half_even (- x) = - round_half_even x"
proof (cases "x = of_int \<lfloor>x\<rfloor>")
  case True
  define k where "k = \<lfloor>x\<rfloor>"
  from True have "x = of_int k" by (simp add: k_def)
  then show ?thesis by (simp add: round_half_even_def)
next
  case False
  then have "\<lfloor>- x\<rfloor> = - \<lfloor>x\<rfloor> - 1" by linarith
  with False show ?thesis by (auto simp: round_half_even_def Let_def)
qed

interpretation rd: rounding round_down
proof
  show "round_down x \<le> round_down y" if "x \<le> y" for x y
    using that by (auto simp: round_down_def floor_mono ceiling_mono intro: order_trans[of _ 0])
qed (simp add: round_down_def)

interpretation rhu: nearest_rounding round_half_up
proof
  show "round_half_up x \<le> round_half_up y" if "x \<le> y" for x y
  proof -
    have "\<lceil>x - 1 / 2\<rceil> \<le> \<lfloor>y + 1 / 2\<rfloor>" if "x < 0" "0 \<le> y"
      using that by linarith
    with that show ?thesis
      by (auto simp: round_half_up_def floor_mono ceiling_mono)
  qed
  show "\<bar>of_int (round_half_up x) - x\<bar> \<le> 1 / 2" for x
    unfolding round_half_up_def by (cases "0 \<le> x") (simp_all only: if_True if_False, linarith+)
  show "round_half_up (- x) = - round_half_up x" for x
    by (auto simp: round_half_up_def ceiling_def) linarith+
qed (auto simp: round_half_up_def; linarith)

interpretation rhe: nearest_rounding round_half_even
proof
  show "round_half_even x \<le> round_half_even y" if "x \<le> y" for x y
  proof (cases "\<lfloor>x\<rfloor> = \<lfloor>y\<rfloor>")
    case True
    with that show ?thesis by (auto simp: round_half_even_def Let_def)
  next
    case False
    with that have "\<lfloor>x\<rfloor> + 1 \<le> \<lfloor>y\<rfloor>" by linarith
    then show ?thesis by (auto simp: round_half_even_def Let_def)
  qed
  show "\<bar>of_int (round_half_even x) - x\<bar> \<le> 1 / 2" for x
  proof -
    have "of_int \<lfloor>x\<rfloor> \<le> x" "x < of_int \<lfloor>x\<rfloor> + 1" by linarith+
    then show ?thesis
      unfolding round_half_even_def Let_def
      by (simp split: if_split add: abs_le_iff)
  qed
qed (simp_all add: round_half_even_minus, simp add: round_half_even_def)

section \<open>Laws of the context rounding\<close>

lemma ndig_bounds: "0 < n \<Longrightarrow> 10 ^ ndig n \<le> n \<and> n < 10 ^ Suc (ndig n)"
proof (induction n rule: ndig.induct)
  case (1 n)
  show ?case
  proof (cases "n < 10")
    case True
    with 1 show ?thesis by (simp add: ndig.simps[of n])
  next
    case False
    with 1 have "10 ^ ndig (n div 10) \<le> n div 10 \<and> n div 10 < 10 ^ Suc (ndig (n div 10))"
      by simp
    then have "10 * 10 ^ ndig (n div 10) \<le> n \<and> n < 10 * 10 ^ Suc (ndig (n div 10))" by linarith
    with False show ?thesis by (simp add: ndig.simps[of n])
  qed
qed

lemma mag_bounds:
  assumes "x \<noteq> 0"
  shows "10 powi mag x \<le> \<bar>x\<bar>" and "\<bar>x\<bar> < 10 powi (mag x + 1)"
proof -
  obtain p q where pq: "quotient_of \<bar>x\<bar> = (p, q)" by force
  then have q: "0 < q" and x: "\<bar>x\<bar> = of_int p / of_int q"
    by (auto intro: quotient_of_denom_pos quotient_of_div)
  have "0 < \<bar>x\<bar>" using assms by simp
  then have p: "0 < p" using q unfolding x by (simp add: zero_less_divide_iff)
  define i j where "i = ndig p" and "j = ndig q"
  have ib: "(10::rat) ^ i \<le> of_int p" "of_int p < (10::rat) ^ Suc i"
    using ndig_bounds[OF p] unfolding i_def
    by (metis of_int_le_iff of_int_less_iff of_int_numeral of_int_power)+
  have jb: "(10::rat) ^ j \<le> of_int q" "of_int q < (10::rat) ^ Suc j"
    using ndig_bounds[OF q] unfolding j_def
    by (metis of_int_le_iff of_int_less_iff of_int_numeral of_int_power)+
  let ?k = "int i - int j"
  have up: "\<bar>x\<bar> < 10 powi (?k + 1)"
  proof -
    have "\<bar>x\<bar> \<le> of_int p / 10 ^ j" unfolding x using p q jb by (intro divide_left_mono mult_pos_pos) auto
    also have "\<dots> < 10 ^ Suc i / 10 ^ j" using ib by (intro divide_strict_right_mono) auto
    also have "\<dots> = 10 powi (?k + 1)" by (simp add: power_int_diff power_int_add)
    finally show ?thesis .
  qed
  have low: "10 powi (?k - 1) \<le> \<bar>x\<bar>"
  proof -
    have "10 powi (?k - 1) = (10::rat) ^ i / 10 ^ Suc j" by (simp add: power_int_diff)
    also have "\<dots> \<le> of_int p / 10 ^ Suc j" using ib by (intro divide_right_mono) auto
    also have "\<dots> \<le> \<bar>x\<bar>" unfolding x using p q jb by (intro divide_left_mono mult_pos_pos) auto
    finally show ?thesis .
  qed
  have m: "mag x = (if 10 powi ?k \<le> \<bar>x\<bar> then ?k else ?k - 1)"
    by (simp add: mag_def pq i_def j_def)
  show "10 powi mag x \<le> \<bar>x\<bar>" "\<bar>x\<bar> < 10 powi (mag x + 1)"
    using low up by (auto simp: m)
qed

lemma fix28_0 [simp]: "fix28 0 = 0"
  by (simp add: fix28_def)

text \<open>A number with at most 28 significant digits is not changed.\<close>

lemma fix28_exact:
  assumes "\<bar>k\<bar> < 10 ^ 28"
  shows "fix28 (of_int k * 10 powi e) = of_int k * 10 powi e"
proof (cases "k = 0")
  case False
  define x :: rat where "x = of_int k * 10 powi e"
  have x0: "x \<noteq> 0" using False by (simp add: x_def)
  have "\<bar>x\<bar> < 10 ^ 28 * 10 powi e"
    unfolding x_def abs_mult using assms
    by (auto simp flip: of_int_less_iff[where ?'a = rat] intro!: mult_strict_right_mono)
  then have "10 powi mag x < (10::rat) powi (28 + e)"
    using mag_bounds(1)[OF x0] by (simp add: power_int_add)
  then have "mag x < 28 + e"
    by (metis not_less one_le_numeral power_int_increasing)
  then have n: "e = (mag x - 27) + int (nat (e - (mag x - 27)))" by simp
  define n where "n = nat (e - (mag x - 27))"
  have pw: "(10::rat) powi e = 10 powi (mag x - 27) * 10 ^ n"
    using n unfolding n_def[symmetric] by (metis power_int_add power_int_of_nat zero_neq_numeral)
  have "x = of_int (k * 10 ^ n) * 10 powi (mag x - 27)"
    using pw by (simp add: x_def mult.commute)
  moreover have "quantize round_half_even (10 powi (mag x - 27)) (of_int (k * 10 ^ n) * 10 powi (mag x - 27))
      = of_int (k * 10 ^ n) * 10 powi (mag x - 27)"
    by (rule rhe.quantize_exact) simp
  ultimately have "fix28 x = x" using x0 by (simp only: fix28_def if_False)
  then show ?thesis by (simp only: x_def)
qed simp

lemma fix28_cents [exact_simps]:
  assumes "\<bar>k\<bar> < 10 ^ 28"
  shows "fix28 (of_int k / 100) = of_int k / 100"
proof -
  have "of_int k / 100 = (of_int k * 10 powi - 2 :: rat)"
    by (simp add: power_int_minus)
  then show ?thesis using fix28_exact[OF assms, of "- 2"] by metis
qed

lemma fix28_int [exact_simps]: "\<bar>k\<bar> < 10 ^ 28 \<Longrightarrow> fix28 (of_int k) = of_int k"
  using fix28_exact[of k 0] by simp

text \<open>The relative error of one operation is at most half a unit in the 28th digit.\<close>

definition ulp28 :: rat where "ulp28 = 5 / 10 ^ 28"

lemma fix28_error: "\<bar>fix28 x - x\<bar> \<le> \<bar>x\<bar> * ulp28"
proof (cases "x = 0")
  case False
  have "\<bar>fix28 x - x\<bar> \<le> 10 powi (mag x - 27) / 2"
    using False rhe.quantize_half_error[of "10 powi (mag x - 27)" x] by (simp add: fix28_def)
  also have "\<dots> = 10 powi mag x * ulp28"
    by (simp add: power_int_diff ulp28_def)
  also have "\<dots> \<le> \<bar>x\<bar> * ulp28"
    using mag_bounds(1)[OF False] by (intro mult_right_mono) (auto simp: ulp28_def)
  finally show ?thesis .
qed simp

lemma mag_minus [simp]: "mag (- x) = mag x"
  by (simp add: mag_def)

lemma fix28_minus: "fix28 (- x) = - fix28 x"
  by (simp add: fix28_def rhe.quantize_minus)

lemma fix28_nonneg: "0 \<le> x \<Longrightarrow> 0 \<le> fix28 x"
  by (simp add: fix28_def rhe.quantize_nonneg)

lemma fix28_bounds:
  assumes "0 \<le> x"
  shows "x * (1 - ulp28) \<le> fix28 x" and "fix28 x \<le> x * (1 + ulp28)"
  using fix28_error[of x] assms by (auto simp: algebra_simps abs_le_iff)

lemma fix28_pos: "0 < x \<Longrightarrow> 0 < fix28 x"
  using fix28_bounds(1)[of x] by (auto simp: ulp28_def intro: less_le_trans[rotated])

text \<open>Rounding to 28 digits keeps the order.\<close>

lemma fix28_mono_nonneg:
  assumes "0 \<le> x" and "x \<le> y"
  shows "fix28 x \<le> fix28 y"
proof (cases "x = 0 \<or> mag x = mag y")
  case True
  then show ?thesis
    using assms fix28_nonneg[of y]
    by (cases "x = 0") (auto simp: fix28_def intro: rhe.quantize_mono)
next
  case False
  let ?u = "\<lambda>z. 10 powi (mag z - 27) :: rat"
  have x0: "x \<noteq> 0" and y0: "y \<noteq> 0" using False assms by auto
  have "(10::rat) powi mag x < 10 powi (mag y + 1)"
    using mag_bounds(1)[OF x0] mag_bounds(2)[OF y0] assms by simp
  then have "mag x < mag y + 1" by (metis not_less one_le_numeral power_int_increasing)
  with False have m: "mag x + 1 \<le> mag y" by auto
  have ux: "(10::rat) powi (mag x + 1) = of_int (10 ^ 28) * ?u x"
  proof -
    have "(10::rat) powi (mag x + 1) = 10 powi (28 + (mag x - 27))" by (simp add: add.commute)
    also have "\<dots> = 10 powi 28 * ?u x" by (rule power_int_add) simp
    finally show ?thesis by simp
  qed
  have uy: "(10::rat) powi mag y = of_int (10 ^ 27) * ?u y"
  proof -
    have "(10::rat) powi mag y = 10 powi (27 + (mag y - 27))" by simp
    also have "\<dots> = 10 powi 27 * ?u y" by (rule power_int_add) simp
    finally show ?thesis by simp
  qed
  have "fix28 x \<le> quantize round_half_even (?u x) (10 powi (mag x + 1))"
    using mag_bounds(2)[OF x0] assms x0 by (simp add: fix28_def rhe.quantize_mono)
  also have "\<dots> = 10 powi (mag x + 1)" unfolding ux by (rule rhe.quantize_exact) simp
  also have "\<dots> \<le> 10 powi mag y" using m by (rule power_int_increasing) simp_all
  also have "\<dots> = quantize round_half_even (?u y) (10 powi mag y)"
    unfolding uy by (rule rhe.quantize_exact[symmetric]) simp
  also have "\<dots> \<le> fix28 y"
    using mag_bounds(1)[OF y0] assms y0 by (simp add: fix28_def rhe.quantize_mono)
  finally show ?thesis .
qed

lemma dmul_mono: "0 \<le> x \<Longrightarrow> x \<le> y \<Longrightarrow> 0 \<le> c \<Longrightarrow> dmul x c \<le> dmul y c"
  unfolding dmul_def by (intro fix28_mono_nonneg mult_right_mono) auto

end
