(* ===== verification/Money.thy ===== *)
theory Money
  imports PyDecimal
begin

text \<open>
  The central money helpers (\<open>mhvp/core/money.py\<close>): commercial rounding to cents and the
  largest remainder distribution on cent units. Every arithmetic step is the context operation
  of Python's decimal module, so the result of \<open>distribute_cents\<close> is the one the program
  computes, including the error of the quotas in the 28th digit.
\<close>

section \<open>Rounding to cents\<close>

definition CENT :: dec where "CENT = 1 / 100"
definition INTERMEDIATE :: dec where "INTERMEDIATE = 1 / 10 ^ 8"

definition round_cents :: "dec \<Rightarrow> dec" where
  "round_cents value = quantize round_half_up CENT value"

definition round_to :: "dec \<Rightarrow> dec \<Rightarrow> dec" where
  "round_to value exponent = quantize round_half_up exponent value"

text \<open>An amount is a whole number of cents; \<open>money\<close> also bounds it.\<close>

definition is_cents :: "dec \<Rightarrow> bool" where
  "is_cents x \<longleftrightarrow> x * 100 = of_int \<lfloor>x * 100\<rfloor>"

definition to_cents :: "dec \<Rightarrow> int" where
  "to_cents x = \<lfloor>x * 100\<rfloor>"

lemma is_centsI: "is_cents (of_int k / 100)"
  by (simp add: is_cents_def)

lemma is_centsE:
  assumes "is_cents x"
  obtains k where "x = of_int k / 100"
proof
  show "x = of_int \<lfloor>x * 100\<rfloor> / 100" using assms by (simp add: is_cents_def)
qed

lemma is_cents_iff: "is_cents x \<longleftrightarrow> (\<exists>k. x = of_int k / 100)"
  by (metis is_centsE is_centsI)

lemma is_cents_0 [simp]: "is_cents 0"
  by (simp add: is_cents_def)

lemma is_cents_add: "is_cents x \<Longrightarrow> is_cents y \<Longrightarrow> is_cents (x + y)"
  by (auto simp: is_cents_iff simp flip: of_int_add add_divide_distrib)

lemma is_cents_minus: "is_cents x \<Longrightarrow> is_cents (- x)"
  by (auto simp: is_cents_iff simp flip: of_int_minus)

lemma is_cents_diff: "is_cents x \<Longrightarrow> is_cents y \<Longrightarrow> is_cents (x - y)"
  using is_cents_add[of x "- y"] is_cents_minus[of y] by simp

lemma is_cents_sum_list: "(\<And>x. x \<in> set xs \<Longrightarrow> is_cents x) \<Longrightarrow> is_cents (sum_list xs)"
  by (induction xs) (auto intro: is_cents_add)

lemma is_cents_quantize [simp]: "is_cents (quantize mode CENT x)"
  by (auto simp: quantize_def CENT_def is_cents_iff)

lemma is_cents_round_cents [simp]: "is_cents (round_cents x)"
  by (simp add: round_cents_def)

lemma quantize_cents [exact_simps]:
  assumes "is_cents x" and "\<And>k. mode (of_int k) = k"
  shows "quantize mode CENT x = x"
  using assms by (auto simp: quantize_def CENT_def elim!: is_centsE)

lemma round_cents_id [exact_simps]: "is_cents x \<Longrightarrow> round_cents x = x"
  unfolding round_cents_def by (rule quantize_cents) (simp_all add: rhu.rnd_int)

lemma round_cents_error: "\<bar>round_cents x - x\<bar> \<le> 1 / 200"
  using rhu.quantize_half_error[of CENT x] by (simp add: round_cents_def CENT_def)

lemma round_cents_mono: "x \<le> y \<Longrightarrow> round_cents x \<le> round_cents y"
  unfolding round_cents_def by (rule rhu.quantize_mono) (simp_all add: CENT_def)

lemma round_cents_minus: "round_cents (- x) = - round_cents x"
  by (simp add: round_cents_def rhu.quantize_minus)

lemma round_cents_nonneg: "0 \<le> x \<Longrightarrow> 0 \<le> round_cents x"
  unfolding round_cents_def by (rule rhu.quantize_nonneg) (simp add: CENT_def)

text \<open>The context operations are exact on amounts.\<close>

lemma fix28_money [exact_simps]:
  assumes "is_cents x" and "\<bar>x\<bar> < 10 ^ 26"
  shows "fix28 x = x"
proof -
  from assms(1) obtain k where k: "x = of_int k / 100" by (rule is_centsE)
  with assms(2) have "\<bar>of_int k :: rat\<bar> < of_int (10 ^ 28)" by simp
  then have "\<bar>k\<bar> < 10 ^ 28" by linarith
  then show ?thesis by (simp only: k fix28_cents)
qed

lemma dadd_money [exact_simps]:
  "is_cents x \<Longrightarrow> is_cents y \<Longrightarrow> \<bar>x + y\<bar> < 10 ^ 26 \<Longrightarrow> dadd x y = x + y"
  by (simp add: dadd_def fix28_money is_cents_add)

lemma dsub_money [exact_simps]:
  "is_cents x \<Longrightarrow> is_cents y \<Longrightarrow> \<bar>x - y\<bar> < 10 ^ 26 \<Longrightarrow> dsub x y = x - y"
  by (simp add: dsub_def fix28_money is_cents_diff)

lemma abs_sum_list_le:
  fixes xs :: "'a::ordered_ab_group_add_abs list"
  shows "\<bar>sum_list xs\<bar> \<le> sum_list (map abs xs)"
proof (induction xs)
  case (Cons x xs)
  then show ?case using abs_triangle_ineq[of x "sum_list xs"] by (simp add: order_trans add_left_mono)
qed simp

lemma foldl_dadd_money:
  assumes "\<forall>x \<in> set xs. is_cents x" and "is_cents s" and "\<bar>s\<bar> + sum_list (map abs xs) < 10 ^ 26"
  shows "foldl dadd s xs = s + sum_list xs"
  using assms
proof (induction xs arbitrary: s)
  case Nil
  then show ?case by simp
next
  case (Cons x xs)
  have nn: "0 \<le> sum_list (map abs xs)" by (intro sum_list_nonneg) auto
  have t: "\<bar>s + x\<bar> \<le> \<bar>s\<bar> + \<bar>x\<bar>" by (rule abs_triangle_ineq)
  with Cons.prems nn have "dadd s x = s + x" by (intro dadd_money) auto
  moreover have "\<bar>s + x\<bar> + sum_list (map abs xs) < 10 ^ 26" using Cons.prems(3) t by simp
  ultimately show ?case using Cons by (simp add: is_cents_add add.assoc)
qed

lemma dsum_money_abs:
  "\<forall>x \<in> set xs. is_cents x \<Longrightarrow> sum_list (map abs xs) < 10 ^ 26 \<Longrightarrow> dsum xs = sum_list xs"
  using foldl_dadd_money[of xs 0] by (simp add: dsum_def)

lemma dsum_money [exact_simps]:
  assumes "\<forall>x \<in> set xs. is_cents x \<and> 0 \<le> x" and "sum_list xs < 10 ^ 26"
  shows "dsum xs = sum_list xs"
proof -
  have "map abs xs = xs" using assms(1) by (simp add: map_idI)
  then show ?thesis using assms by (intro dsum_money_abs) simp_all
qed

lemma sum_list_abs_bound:
  fixes xs :: "rat list"
  assumes "\<forall>x \<in> set xs. \<bar>x\<bar> \<le> b"
  shows "sum_list (map abs xs) \<le> of_nat (length xs) * b"
  using assms by (induction xs) (auto simp: algebra_simps)

section \<open>The error of computed quotas\<close>

lemma bernoulli_lower: "0 \<le> (u::rat) \<Longrightarrow> u \<le> 1 \<Longrightarrow> 1 - of_nat n * u \<le> (1 - u) ^ n"
proof (induction n)
  case 0
  then show ?case by simp
next
  case (Suc n)
  have "1 - of_nat (Suc n) * u \<le> (1 - of_nat n * u) * (1 - u)"
    using Suc.prems by (simp add: algebra_simps)
  also have "\<dots> \<le> (1 - u) ^ n * (1 - u)"
    using Suc by (intro mult_right_mono) auto
  finally show ?case by (simp add: mult.commute)
qed

lemma bernoulli_upper:
  "0 \<le> (u::rat) \<Longrightarrow> 2 * of_nat n * u \<le> 1 \<Longrightarrow> (1 + u) ^ n \<le> 1 + 2 * of_nat n * u"
proof (induction n)
  case 0
  then show ?case by simp
next
  case (Suc n)
  have b: "2 * of_nat n * u \<le> 1" using Suc.prems by (simp add: algebra_simps)
  have "(1 + u) ^ Suc n \<le> (1 + 2 * of_nat n * u) * (1 + u)"
    using Suc.IH[OF Suc.prems(1) b] Suc.prems(1) by (simp add: mult.commute mult_right_mono)
  also have "\<dots> = 1 + 2 * of_nat n * u + u + (2 * of_nat n * u) * u"
    by (simp add: algebra_simps)
  also have "\<dots> \<le> 1 + 2 * of_nat n * u + u + 1 * u"
    using b Suc.prems(1) by (intro add_left_mono mult_right_mono) auto
  finally show ?case by (simp add: algebra_simps)
qed

lemma foldl_dadd_bounds:
  assumes "0 \<le> s" and "\<forall>x \<in> set xs. 0 \<le> x"
  shows "(s + sum_list xs) * (1 - ulp28) ^ length xs \<le> foldl dadd s xs"
    and "foldl dadd s xs \<le> (s + sum_list xs) * (1 + ulp28) ^ length xs"
proof -
  have "(s + sum_list xs) * (1 - ulp28) ^ length xs \<le> foldl dadd s xs \<and>
    foldl dadd s xs \<le> (s + sum_list xs) * (1 + ulp28) ^ length xs"
    using assms
  proof (induction xs arbitrary: s)
    case Nil
    then show ?case by simp
  next
    case (Cons x xs)
    have u: "0 \<le> ulp28" "ulp28 \<le> 1" by (simp_all add: ulp28_def)
    have nn: "0 \<le> s + x" "0 \<le> sum_list xs" using Cons.prems by (auto intro: sum_list_nonneg)
    have b: "(s + x) * (1 - ulp28) \<le> dadd s x" "dadd s x \<le> (s + x) * (1 + ulp28)"
      using fix28_bounds[OF nn(1)] by (simp_all add: dadd_def)
    have lo: "(s + x + sum_list xs) * (1 - ulp28) \<le> dadd s x + sum_list xs"
      using b(1) nn(2) u by (simp add: distrib_right) (metis add_mono mult_left_le diff_ge_0_iff_ge le_add_same_cancel1 diff_le_eq)
    have up: "dadd s x + sum_list xs \<le> (s + x + sum_list xs) * (1 + ulp28)"
      using b(2) mult_nonneg_nonneg[OF nn(2) u(1)] by (simp add: algebra_simps)
    have "0 \<le> dadd s x" using nn(1) by (simp add: dadd_def fix28_nonneg)
    note IH = Cons.IH[OF this]
    have "(s + x + sum_list xs) * (1 - ulp28) * (1 - ulp28) ^ length xs
        \<le> (dadd s x + sum_list xs) * (1 - ulp28) ^ length xs"
      using lo u by (intro mult_right_mono) auto
    moreover have "(dadd s x + sum_list xs) * (1 + ulp28) ^ length xs
        \<le> (s + x + sum_list xs) * (1 + ulp28) * (1 + ulp28) ^ length xs"
      using up u by (intro mult_right_mono) auto
    ultimately show ?case using IH Cons.prems by (auto simp: ac_simps)
  qed
  then show "(s + sum_list xs) * (1 - ulp28) ^ length xs \<le> foldl dadd s xs"
    and "foldl dadd s xs \<le> (s + sum_list xs) * (1 + ulp28) ^ length xs" by auto
qed

text \<open>Sums and products of arbitrary decimals stay within a factor of their exact bound.\<close>

lemma fix28_abs: "\<bar>fix28 x\<bar> \<le> \<bar>x\<bar> * (1 + ulp28)"
  using fix28_error[of x] by (simp add: distrib_left)

lemma foldl_dadd_abs: "\<bar>foldl dadd s xs\<bar> \<le> (\<bar>s\<bar> + sum_list (map abs xs)) * (1 + ulp28) ^ length xs"
proof (induction xs arbitrary: s)
  case (Cons x xs)
  have u: "0 \<le> ulp28" by (simp add: ulp28_def)
  have nn: "0 \<le> sum_list (map abs xs)" by (intro sum_list_nonneg) auto
  have "\<bar>dadd s x\<bar> \<le> (\<bar>s\<bar> + \<bar>x\<bar>) * (1 + ulp28)"
    unfolding dadd_def using fix28_abs[of "s + x"] abs_triangle_ineq[of s x] u
    by (meson add_nonneg_nonneg mult_right_mono order_trans zero_le_one)
  then have "\<bar>dadd s x\<bar> + sum_list (map abs xs) \<le> (\<bar>s\<bar> + \<bar>x\<bar> + sum_list (map abs xs)) * (1 + ulp28)"
    using mult_nonneg_nonneg[OF nn u] by (simp add: algebra_simps)
  then have "(\<bar>dadd s x\<bar> + sum_list (map abs xs)) * (1 + ulp28) ^ length xs
      \<le> (\<bar>s\<bar> + \<bar>x\<bar> + sum_list (map abs xs)) * (1 + ulp28) * (1 + ulp28) ^ length xs"
    using u by (intro mult_right_mono) auto
  with Cons.IH[of "dadd s x"] show ?case by (simp add: ac_simps)
qed simp

lemma dsum_abs:
  assumes "length xs \<le> 10 ^ 6"
  shows "\<bar>dsum xs\<bar> \<le> 2 * sum_list (map abs xs)"
proof -
  have "of_nat (length xs) \<le> (10 ^ 6 :: rat)" using assms by (metis of_nat_le_iff of_nat_numeral of_nat_power)
  then have "2 * of_nat (length xs) * ulp28 \<le> 1" by (simp add: ulp28_def)
  then have "(1 + ulp28) ^ length xs \<le> 2"
    using bernoulli_upper[of ulp28 "length xs"] by (simp add: ulp28_def)
  moreover have "0 \<le> sum_list (map abs xs)" by (intro sum_list_nonneg) auto
  ultimately have "sum_list (map abs xs) * (1 + ulp28) ^ length xs \<le> sum_list (map abs xs) * 2"
    by (intro mult_left_mono)
  with foldl_dadd_abs[of 0 xs] show ?thesis by (simp add: dsum_def mult.commute)
qed

text \<open>The quota of a weight as the program computes it: two context operations.\<close>

definition quota :: "dec \<Rightarrow> dec \<Rightarrow> dec \<Rightarrow> dec" where
  "quota tot weight_sum w = ddiv (dmul tot w) weight_sum"

lemma quota_bounds:
  assumes "0 \<le> t" and "0 \<le> w" and "0 < s"
  shows "t * w / s * (1 - ulp28)\<^sup>2 \<le> quota t s w" and "quota t s w \<le> t * w / s * (1 + ulp28)\<^sup>2"
    and "0 \<le> quota t s w"
proof -
  have u: "0 \<le> ulp28" "ulp28 \<le> 1" by (simp_all add: ulp28_def)
  let ?m = "dmul t w"
  have m: "t * w * (1 - ulp28) \<le> ?m" "?m \<le> t * w * (1 + ulp28)" "0 \<le> ?m"
    using fix28_bounds[of "t * w"] fix28_nonneg[of "t * w"] assms by (simp_all add: dmul_def)
  have q: "?m / s * (1 - ulp28) \<le> quota t s w" "quota t s w \<le> ?m / s * (1 + ulp28)"
    using fix28_bounds[of "?m / s"] m assms by (simp_all add: quota_def ddiv_def)
  have "t * w / s * (1 - ulp28)\<^sup>2 = t * w * (1 - ulp28) / s * (1 - ulp28)"
    by (simp add: power2_eq_square)
  also have "\<dots> \<le> ?m / s * (1 - ulp28)"
    using m u assms by (intro mult_right_mono divide_right_mono) auto
  also note q(1)
  finally show "t * w / s * (1 - ulp28)\<^sup>2 \<le> quota t s w" .
  have "?m / s * (1 + ulp28) \<le> t * w * (1 + ulp28) / s * (1 + ulp28)"
    using m u assms by (intro mult_right_mono divide_right_mono) auto
  also have "\<dots> = t * w / s * (1 + ulp28)\<^sup>2" by (simp add: power2_eq_square)
  finally show "quota t s w \<le> t * w / s * (1 + ulp28)\<^sup>2" using q(2) by simp
  show "0 \<le> quota t s w" using m assms by (simp add: quota_def ddiv_def fix28_nonneg)
qed

text \<open>
  Up to a million weights, the computed sum and every computed quota are right with a relative
  error below \<open>2 / 10^21\<close>, whatever the weights are; so are sums of quotas.
\<close>

definition quota_eps :: rat where "quota_eps = 2 / 10 ^ 21"

lemma dsum_rel:
  assumes w: "\<forall>w \<in> set ws. 0 \<le> w" and n: "length ws \<le> 10 ^ 6"
  shows "sum_list ws * (1 - 5 / 10 ^ 22) \<le> dsum ws" and "dsum ws \<le> sum_list ws * (1 + 10 / 10 ^ 22)"
proof -
  let ?W = "sum_list ws" and ?n = "length ws"
  have nu: "of_nat ?n * ulp28 \<le> 5 / 10 ^ 22"
  proof -
    have "of_nat ?n \<le> (10 ^ 6 :: rat)" using n by (metis of_nat_le_iff of_nat_numeral of_nat_power)
    then have "of_nat ?n * ulp28 \<le> 10 ^ 6 * ulp28" by (intro mult_right_mono) (auto simp: ulp28_def)
    then show ?thesis by (simp add: ulp28_def)
  qed
  have W: "0 \<le> ?W" using w by (auto intro: sum_list_nonneg)
  have "1 - 5 / 10 ^ 22 \<le> (1 - ulp28) ^ ?n"
    using bernoulli_lower[of ulp28 ?n] nu by (simp add: ulp28_def)
  then have "?W * (1 - 5 / 10 ^ 22) \<le> ?W * (1 - ulp28) ^ ?n" using W by (rule mult_left_mono)
  also have "\<dots> \<le> dsum ws" using foldl_dadd_bounds(1)[of 0 ws] w by (simp add: dsum_def)
  finally show "?W * (1 - 5 / 10 ^ 22) \<le> dsum ws" .
  have "(1 + ulp28) ^ ?n \<le> 1 + 10 / 10 ^ 22"
    using bernoulli_upper[of ulp28 ?n] nu by (simp add: ulp28_def)
  then have "?W * (1 + ulp28) ^ ?n \<le> ?W * (1 + 10 / 10 ^ 22)" using W by (intro mult_left_mono)
  moreover have "dsum ws \<le> ?W * (1 + ulp28) ^ ?n"
    using foldl_dadd_bounds(2)[of 0 ws] w by (simp add: dsum_def)
  ultimately show "dsum ws \<le> ?W * (1 + 10 / 10 ^ 22)" by simp
qed

lemma quota_rel:
  assumes t: "0 \<le> t" and w: "\<forall>w \<in> set ws. 0 \<le> w" and pos: "0 < dsum ws"
    and n: "length ws \<le> 10 ^ 6" and x: "0 \<le> x"
  shows "t * x / sum_list ws * (1 - quota_eps) \<le> quota t (dsum ws) x"
    and "quota t (dsum ws) x \<le> t * x / sum_list ws * (1 + quota_eps)"
proof -
  let ?S = "dsum ws" and ?W = "sum_list ws"
  note S = dsum_rel[OF w n]
  have Wpos: "0 < ?W"
    using S(2) pos w by (metis less_le_trans mult_eq_0_iff order_le_less sum_list_nonneg)
  have ratio: "?W / ?S \<le> 1 / (1 - 5 / 10 ^ 22)" "1 / (1 + 10 / 10 ^ 22) \<le> ?W / ?S"
    using S pos by (simp_all add: field_simps)
  have e: "t * x / ?S * c = t * x / ?W * (?W / ?S * c)" for c using Wpos by simp
  have tx: "0 \<le> t * x / ?W" using t x Wpos by simp
  have "?W / ?S * (1 + ulp28)\<^sup>2 \<le> 1 / (1 - 5 / 10 ^ 22) * (1 + ulp28)\<^sup>2"
    using ratio by (intro mult_right_mono) auto
  also have "\<dots> \<le> 1 + quota_eps" by (simp add: ulp28_def quota_eps_def power2_eq_square)
  finally have "t * x / ?S * (1 + ulp28)\<^sup>2 \<le> t * x / ?W * (1 + quota_eps)"
    unfolding e using tx by (rule mult_left_mono)
  with quota_bounds(2)[OF t x pos] show "quota t ?S x \<le> t * x / ?W * (1 + quota_eps)" by simp
  have "1 - quota_eps \<le> 1 / (1 + 10 / 10 ^ 22) * (1 - ulp28)\<^sup>2"
    by (simp add: ulp28_def quota_eps_def power2_eq_square)
  also have "\<dots> \<le> ?W / ?S * (1 - ulp28)\<^sup>2" using ratio by (intro mult_right_mono) auto
  finally have "t * x / ?W * (1 - quota_eps) \<le> t * x / ?S * (1 - ulp28)\<^sup>2"
    unfolding e using tx by (rule mult_left_mono)
  with quota_bounds(1)[OF t x pos] show "t * x / ?W * (1 - quota_eps) \<le> quota t ?S x" by simp
qed

lemma quota_sum:
  assumes t: "0 \<le> t" and w: "\<forall>w \<in> set ws. 0 \<le> w" and pos: "0 < dsum ws"
    and n: "length ws \<le> 10 ^ 6"
  shows "t * (1 - quota_eps) \<le> sum_list (map (quota t (dsum ws)) ws)"
    and "sum_list (map (quota t (dsum ws)) ws) \<le> t * (1 + quota_eps)"
proof -
  let ?W = "sum_list ws"
  have "?W \<noteq> 0" using dsum_rel(2)[OF w n] pos by auto
  moreover have "sum_list (map (\<lambda>x. t * x / W * c) xs) = t * sum_list xs / W * c" for c W xs
    by (induction xs) (simp_all add: algebra_simps add_divide_distrib)
  ultimately have sm: "sum_list (map (\<lambda>x. t * x / ?W * c) ws) = t * c" for c by simp
  have "t * (1 - quota_eps) = sum_list (map (\<lambda>x. t * x / ?W * (1 - quota_eps)) ws)" by (simp only: sm)
  also have "\<dots> \<le> sum_list (map (quota t (dsum ws)) ws)"
    using quota_rel(1)[OF t w pos n] w by (intro sum_list_mono) auto
  finally show "t * (1 - quota_eps) \<le> sum_list (map (quota t (dsum ws)) ws)" .
  have "sum_list (map (quota t (dsum ws)) ws) \<le> sum_list (map (\<lambda>x. t * x / ?W * (1 + quota_eps)) ws)"
    using quota_rel(2)[OF t w pos n] w by (intro sum_list_mono) auto
  also have "\<dots> = t * (1 + quota_eps)" by (simp only: sm)
  finally show "sum_list (map (quota t (dsum ws)) ws) \<le> t * (1 + quota_eps)" .
qed

section \<open>Largest remainder on cent units\<close>

text \<open>\<open>for i in order[:rest]: base[i] += 1\<close>\<close>

definition give_rest :: "int list \<Rightarrow> nat list \<Rightarrow> int list" where
  "give_rest base order = fold (\<lambda>i b. b[i := b ! i + 1]) order base"

definition distribute_cents :: "dec \<Rightarrow> dec list \<Rightarrow> dec list res" where
  "distribute_cents tot weights =
     (if tot \<noteq> quantize round_half_even CENT tot then Inl Value_Error
      else if weights = [] then Inl Value_Error
      else if \<exists>w \<in> set weights. w < 0 then Inl Value_Error
      else let weight_sum = dsum weights in
        if weight_sum = 0 then Inl Value_Error
        else let
            sgn = (if tot < 0 then - 1 else 1);
            cents = round_down (ddiv \<bar>tot\<bar> CENT);
            exact = map (\<lambda>w. ddiv (dmul (of_int cents) w) weight_sum) weights;
            base = map round_down exact;
            rest = cents - sum_list base;
            order = py_sorted (\<lambda>i. (- dsub (exact ! i) (of_int (base ! i)), i)) [0..<length weights];
            base' = give_rest base (slice_to rest order)
          in Inr (map (\<lambda>b. dmul (dmul sgn (of_int b)) CENT) base'))"

lemma length_give_rest [simp]: "length (give_rest base order) = length base"
  by (induction order arbitrary: base) (simp_all add: give_rest_def)

lemma sum_give_rest:
  "set order \<subseteq> {..<length base} \<Longrightarrow>
   sum_list (give_rest base order) = sum_list base + int (length order)"
proof (induction order arbitrary: base)
  case Nil
  then show ?case by (simp add: give_rest_def)
next
  case (Cons i order)
  have "give_rest base (i # order) = give_rest (base[i := base ! i + 1]) order"
    by (simp add: give_rest_def)
  with Cons show ?case by (simp add: sum_list_list_update)
qed

lemma give_rest_nonneg: "\<forall>b \<in> set base. 0 \<le> b \<Longrightarrow> \<forall>b \<in> set (give_rest base order). 0 \<le> b"
proof (induction order arbitrary: base)
  case Nil
  then show ?case by (simp add: give_rest_def)
next
  case (Cons i order)
  have "\<forall>b \<in> set (base[i := base ! i + 1]). 0 \<le> b"
  proof (cases "i < length base")
    case True
    with Cons.prems have "0 \<le> base ! i" by simp
    with Cons.prems show ?thesis by (auto dest!: subsetD[OF set_update_subset_insert])
  qed (use Cons.prems in \<open>simp add: list_update_beyond\<close>)
  then show ?case using Cons.IH by (simp add: give_rest_def)
qed

lemma nth_give_rest:
  "distinct order \<Longrightarrow> set order \<subseteq> {..<length base} \<Longrightarrow> i < length base \<Longrightarrow>
   give_rest base order ! i = base ! i + (if i \<in> set order then 1 else 0)"
proof (induction order arbitrary: base)
  case Nil
  then show ?case by (simp add: give_rest_def)
next
  case (Cons j order)
  have "give_rest base (j # order) = give_rest (base[j := base ! j + 1]) order"
    by (simp add: give_rest_def)
  with Cons show ?case by (auto simp: nth_list_update)
qed

lemma dsum_pos_iff:
  assumes "\<forall>w \<in> set ws. 0 \<le> w"
  shows "dsum ws = 0 \<longleftrightarrow> (\<forall>w \<in> set ws. w = 0)" and "0 \<le> dsum ws"
proof -
  have lo: "sum_list ws * (1 - ulp28) ^ length ws \<le> dsum ws"
    and up: "dsum ws \<le> sum_list ws * (1 + ulp28) ^ length ws"
    using foldl_dadd_bounds[of 0 ws] assms by (simp_all add: dsum_def)
  have nn: "0 \<le> sum_list ws" using assms by (auto intro: sum_list_nonneg)
  have "0 < (1 - ulp28) ^ length ws" by (simp add: ulp28_def)
  with lo nn show "0 \<le> dsum ws" by (metis mult_nonneg_nonneg order_less_imp_le order_trans)
  have "dsum ws = 0 \<longleftrightarrow> sum_list ws = 0"
  proof
    assume "dsum ws = 0"
    with lo nn \<open>0 < (1 - ulp28) ^ length ws\<close> show "sum_list ws = 0"
      by (metis mult_pos_pos not_less order_le_less)
  next
    assume "sum_list ws = 0"
    with lo up show "dsum ws = 0" by simp
  qed
  also have "\<dots> \<longleftrightarrow> (\<forall>w \<in> set ws. w = 0)"
    using assms by (subst sum_list_nonneg_eq_0_iff) auto
  finally show "dsum ws = 0 \<longleftrightarrow> (\<forall>w \<in> set ws. w = 0)" .
qed

lemma round_down_nonneg_floor: "0 \<le> x \<Longrightarrow> round_down x = \<lfloor>x\<rfloor>"
  by (simp add: round_down_def)

text \<open>
  The core of both distributions: truncating computed quotas of \<open>t\<close> cents leaves a rest between
  zero and the number of weights, so every cent of the rest finds a position of its own.
\<close>

lemma rest_bounds:
  assumes t: "0 \<le> t" "t < 10 ^ 18" and w: "\<forall>w \<in> set ws. 0 \<le> w" and pos: "0 < dsum ws"
    and n: "length ws \<le> 10 ^ 6"
    and k: "0 < k"
  shows "0 \<le> t - (\<Sum>w\<leftarrow>ws. \<lfloor>quota (of_int t / k) (dsum ws) w * k\<rfloor>)"
    and "t - (\<Sum>w\<leftarrow>ws. \<lfloor>quota (of_int t / k) (dsum ws) w * k\<rfloor>) \<le> int (length ws)"
proof -
  let ?t = "of_int t / k :: rat"
  let ?q = "quota ?t (dsum ws)"
  let ?b = "\<Sum>w\<leftarrow>ws. \<lfloor>?q w * k\<rfloor>"
  let ?Q = "sum_list (map ?q ws)"
  have t0: "0 \<le> ?t" using t k by simp
  have eps: "of_int t * quota_eps < (1 / 2 :: rat)"
  proof -
    have "(of_int t :: rat) < 10 ^ 18" using t(2) by (metis of_int_less_iff of_int_numeral of_int_power)
    then show ?thesis by (simp add: quota_eps_def)
  qed
  have sQ: "(\<Sum>w\<leftarrow>ws. ?q w * k) = ?Q * k" by (simp add: sum_list_mult_const)
  have up: "?Q * k \<le> of_int t + of_int t * quota_eps"
    using quota_sum(2)[OF t0 w pos n] k by (simp add: field_simps)
  have lo: "of_int t - of_int t * quota_eps \<le> ?Q * k"
    using quota_sum(1)[OF t0 w pos n] k by (simp add: field_simps)
  have fl: "of_int (\<Sum>w\<leftarrow>xs. \<lfloor>f w\<rfloor>) \<le> (\<Sum>w\<leftarrow>xs. f w)"
    "(\<Sum>w\<leftarrow>xs. f w) \<le> of_int (\<Sum>w\<leftarrow>xs. \<lfloor>f w\<rfloor>) + of_nat (length xs)" for f :: "rat \<Rightarrow> rat" and xs
    by (induction xs) (auto, linarith+)
  have "of_int ?b < (of_int (t + 1) :: rat)" using fl(1)[of "\<lambda>w. ?q w * k" ws] up sQ eps by simp
  then show "0 \<le> t - ?b" by (simp only: of_int_less_iff)
  have "(of_int t :: rat) < of_int (?b + int (length ws) + 1)" using fl(2)[of "\<lambda>w. ?q w * k" ws] lo sQ eps by simp
  then show "t - ?b \<le> int (length ws)" by (simp only: of_int_less_iff)
qed

lemma cents_exact:
  assumes "is_cents x" and "0 \<le> x" and "x < 10 ^ 26"
  shows "round_down (ddiv x CENT) = to_cents x" and "of_int (to_cents x) = x * 100"
    and "0 \<le> to_cents x"
proof -
  from assms(1) show e: "of_int (to_cents x) = x * 100" by (simp add: is_cents_def to_cents_def)
  from assms(2) show "0 \<le> to_cents x" by (simp add: to_cents_def)
  moreover have "of_int (to_cents x) < (of_int (10 ^ 28) :: rat)" using e assms(3) by simp
  then have "to_cents x < 10 ^ 28" by (simp only: of_int_less_iff)
  ultimately have "ddiv x CENT = of_int (to_cents x)"
    using fix28_int[of "to_cents x"] e by (simp add: ddiv_def CENT_def)
  then show "round_down (ddiv x CENT) = to_cents x" by (simp add: rd.rnd_int)
qed

lemma scaled_back [exact_simps]:
  assumes "\<bar>b\<bar> < 10 ^ 28" and "s = 1 \<or> s = - 1"
  shows "dmul (dmul s (of_int b)) CENT = s * of_int b / 100"
proof -
  obtain c where c: "s * of_int b = of_int c" "\<bar>c\<bar> < 10 ^ 28"
    using assms by (metis abs_minus_cancel mult_1 mult_minus1 of_int_minus)
  have "dmul s (of_int b) = of_int c" unfolding dmul_def c(1) by (rule fix28_int[OF c(2)])
  moreover have "dmul (of_int c) CENT = of_int c / 100"
    unfolding dmul_def CENT_def using fix28_cents[OF c(2)] by simp
  ultimately show ?thesis using c by simp
qed

lemma quantize_cent_iff: "tot = quantize round_half_even CENT tot \<longleftrightarrow> is_cents tot"
  by (metis is_cents_quantize quantize_cents rhe.rnd_int)

text \<open>The bound under which the distributions are studied: amounts below 10^16, a million weights.\<close>

definition distributable :: "dec \<Rightarrow> dec list \<Rightarrow> bool" where
  "distributable tot ws \<longleftrightarrow> \<bar>tot\<bar> < 10 ^ 16 \<and> length ws \<le> 10 ^ 6"

text \<open>A successful distribution in terms of its cent units and the order of the rest.\<close>

lemma distribute_cents_cases:
  assumes "distribute_cents tot ws = Inr parts" and "distributable tot ws"
  obtains t base order where
    "is_cents tot" "\<forall>w \<in> set ws. 0 \<le> w" "0 < dsum ws" "ws \<noteq> []"
    "t = to_cents \<bar>tot\<bar>" "of_int t = \<bar>tot\<bar> * 100"
    "base = map (\<lambda>w. \<lfloor>quota (of_int t) (dsum ws) w\<rfloor>) ws"
    "distinct order" "set order \<subseteq> {..<length ws}" "int (length order) = t - sum_list base"
    "sum_list (give_rest base order) = t"
    "parts = map (\<lambda>b. (if tot < 0 then - 1 else 1) * of_int b / 100) (give_rest base order)"
proof -
  let ?t = "to_cents \<bar>tot\<bar>"
  let ?q = "\<lambda>w. quota (of_int ?t) (dsum ws) w"
  let ?base = "map (\<lambda>w. \<lfloor>?q w\<rfloor>) ws"
  let ?ord = "py_sorted (\<lambda>i. (- dsub (map ?q ws ! i) (of_int (map (round_down \<circ> ?q) ws ! i)), i)) [0..<length ws]"
  let ?rest = "?t - sum_list ?base"
  let ?order = "slice_to ?rest ?ord"
  have b: "\<bar>tot\<bar> < 10 ^ 16" and n: "length ws \<le> 10 ^ 6" using assms(2) by (simp_all add: distributable_def)
  have c: "is_cents tot" and ne: "ws \<noteq> []" and w: "\<forall>w \<in> set ws. 0 \<le> w" and nz: "dsum ws \<noteq> 0"
    using assms(1) by (auto simp: distribute_cents_def Let_def quantize_cent_iff not_less split: if_splits)
  have pos: "0 < dsum ws" using dsum_pos_iff(2)[OF w] nz by simp
  have ca: "is_cents \<bar>tot\<bar>" using c is_cents_minus[OF c] by (simp add: abs_if)
  have T: "round_down (ddiv \<bar>tot\<bar> CENT) = ?t" "of_int ?t = \<bar>tot\<bar> * 100" "0 \<le> ?t"
    using cents_exact[OF ca] b by simp_all
  have "(of_int ?t :: rat) < of_int (10 ^ 18)" using T(2) b by simp
  then have t18: "?t < 10 ^ 18" by (simp only: of_int_less_iff)
  have nn: "0 \<le> ?q w" if "w \<in> set ws" for w
    using quota_bounds(3)[of "of_int ?t" w "dsum ws"] that w pos T(3) by auto
  then have rd: "map (round_down \<circ> ?q) ws = ?base" by (simp add: round_down_nonneg_floor)
  have rest: "0 \<le> ?rest" "?rest \<le> int (length ws)"
    using rest_bounds[OF T(3) t18 w pos n, of 1] by (simp_all add: comp_def)
  have o: "distinct ?order" "set ?order \<subseteq> {..<length ws}" "int (length ?order) = ?rest"
    using py_sorted_upt set_slice_to[of ?rest ?ord] rest
    by (auto intro: distinct_slice_to simp: length_slice_to)
  have s: "sum_list (give_rest ?base ?order) = ?t"
    using o by (subst sum_give_rest) simp_all
  have "\<forall>b \<in> set ?base. 0 \<le> b" using nn by simp
  then have b0: "0 \<le> x" if "x \<in> set (give_rest ?base ?order)" for x
    using give_rest_nonneg that by blast
  have "x \<le> ?t" if "x \<in> set (give_rest ?base ?order)" for x
    using elem_le_sum_list[of "give_rest ?base ?order" x] that b0 s by simp
  then have small: "\<bar>x\<bar> < 10 ^ 28" if "x \<in> set (give_rest ?base ?order)" for x
    using that b0 t18 by fastforce
  have "distribute_cents tot ws = Inr (map (\<lambda>b. dmul (dmul (if tot < 0 then - 1 else 1) (of_int b)) CENT)
      (give_rest (map (round_down \<circ> ?q) ws)
        (slice_to (?t - sum_list (map (round_down \<circ> ?q) ws)) ?ord)))"
    unfolding distribute_cents_def Let_def quantize_cent_iff T(1) quota_def[symmetric]
    using c ne w nz by (simp add: not_less[symmetric] comp_def)
  then have "parts = map (\<lambda>b. dmul (dmul (if tot < 0 then - 1 else 1) (of_int b)) CENT) (give_rest ?base ?order)"
    using assms(1) unfolding rd by simp
  then have "parts = map (\<lambda>b. (if tot < 0 then - 1 else 1) * of_int b / 100) (give_rest ?base ?order)"
    using small by (auto simp: scaled_back)
  then show thesis by (rule that[OF c w pos ne refl T(2) refl o s])
qed

lemma distribute_cents_parts:
  assumes "distribute_cents tot ws = Inr parts" and "distributable tot ws"
  shows "sum_list parts = tot \<and> length parts = length ws \<and> list_all is_cents parts"
proof -
  obtain t base order where
    t: "of_int t = \<bar>tot\<bar> * 100" and base: "length base = length ws"
    and s: "sum_list (give_rest base order) = t"
    and parts: "parts = map (\<lambda>b. (if tot < 0 then - 1 else 1) * of_int b / 100) (give_rest base order)"
    by (rule distribute_cents_cases[OF assms]) (metis length_map)
  have sl: "sum_list (map (\<lambda>b. c * of_int b / 100) xs) = c * of_int (sum_list xs) / 100" for c :: rat and xs
    by (induction xs) (simp_all add: distrib_left add_divide_distrib)
  have "sum_list parts = (if tot < 0 then - 1 else 1) * (\<bar>tot\<bar> * 100) / 100"
    unfolding parts sl s t ..
  then have "sum_list parts = tot" by (simp split: if_splits)
  moreover have "is_cents p" if "p \<in> set parts" for p
    using that unfolding parts by (auto simp: is_cents_iff simp flip: of_int_minus)
  ultimately show ?thesis using base by (simp add: parts list_all_iff)
qed

lemma distribute_cents_ok:
  assumes "is_cents tot" and "ws \<noteq> []" and "\<forall>w \<in> set ws. 0 \<le> w" and "\<exists>w \<in> set ws. w \<noteq> 0"
  shows "\<exists>parts. distribute_cents tot ws = Inr parts"
proof -
  have "dsum ws \<noteq> 0" using dsum_pos_iff(1)[OF assms(3)] assms(4) by blast
  then show ?thesis
    using assms unfolding distribute_cents_def quantize_cent_iff by (auto simp: Let_def not_less)
qed

text \<open>C15: The parts of a distribution add up exactly to the total, there is one per weight and each
  is a whole cent amount.\<close>

theorem distribute_cents_exact:
  assumes "distribute_cents tot ws = Inr parts" and "distributable tot ws"
  shows "sum_list parts = tot \<and> length parts = length ws \<and> list_all is_cents parts"
  using assms by (rule distribute_cents_parts)

theorem distribute_cents_exact_witness:
  "\<exists>parts. distribute_cents (- 100) [1, 1, 1] = Inr parts \<and> sum_list parts = - 100 \<and> length parts = 3"
proof -
  have "is_cents (- 100)" by (simp add: is_cents_def)
  then obtain parts where p: "distribute_cents (- 100) [1, 1, 1] = Inr parts"
    using distribute_cents_ok[of "- 100" "[1, 1, 1]"] by auto
  moreover have "distributable (- 100) [1, 1, 1]" by (simp add: distributable_def)
  ultimately show ?thesis using distribute_cents_exact[OF p] by auto
qed

text \<open>The distribution refuses exactly these inputs, always with a \<open>ValueError\<close>: a total that is
  not a whole cent amount, no weights, a negative weight, all weights zero.\<close>

lemma distribute_cents_errors:
  "distribute_cents tot ws = Inl e \<longleftrightarrow>
   e = Value_Error \<and>
   \<not> (is_cents tot \<and> ws \<noteq> [] \<and> list_all (\<lambda>w. 0 \<le> w) ws \<and> list_ex (\<lambda>w. w \<noteq> 0) ws)"
proof (cases "is_cents tot \<and> ws \<noteq> [] \<and> list_all (\<lambda>w. 0 \<le> w) ws \<and> list_ex (\<lambda>w. w \<noteq> 0) ws")
  case True
  then show ?thesis using distribute_cents_ok[of tot ws] by (auto simp: list_all_iff list_ex_iff)
next
  case False
  have "distribute_cents tot ws = Inl Value_Error"
  proof (cases "is_cents tot \<and> ws \<noteq> [] \<and> (\<forall>w \<in> set ws. 0 \<le> w)")
    case True
    with False have "dsum ws = 0"
      using dsum_pos_iff(1)[of ws] by (auto simp: list_all_iff list_ex_iff)
    then show ?thesis by (simp add: distribute_cents_def)
  next
    case outer: False
    then show ?thesis unfolding distribute_cents_def quantize_cent_iff by (auto simp: not_le)
  qed
  with False show ?thesis by auto
qed

lemma quota_error:
  assumes "0 \<le> t" and "t < 10 ^ 18" and w: "\<forall>w \<in> set ws. 0 \<le> w" and pos: "0 < dsum ws"
    and n: "length ws \<le> 10 ^ 6" and x: "x \<in> set ws"
  shows "\<bar>quota t (dsum ws) x - t * x / sum_list ws\<bar> < 1 / 100"
proof -
  define e q where "e = t * x / sum_list ws" and "q = quota t (dsum ws) x"
  have x0: "0 \<le> x" using w x by blast
  have W: "0 < sum_list ws"
    using dsum_rel(2)[OF w n] pos w by (metis less_le_trans mult_eq_0_iff order_le_less sum_list_nonneg)
  have "x \<le> sum_list ws" using w x by (rule elem_le_sum_list)
  then have "e \<le> t" using W assms(1) by (simp add: e_def divide_le_eq mult_left_mono)
  then have "e * quota_eps < 1 / 100" using assms(2) by (simp add: quota_eps_def)
  moreover have "e - e * quota_eps \<le> q" "q \<le> e + e * quota_eps"
    using quota_rel[OF assms(1) w pos n x0] unfolding e_def[symmetric] q_def[symmetric]
    by (simp_all add: right_diff_distrib distrib_left)
  ultimately show ?thesis unfolding e_def[symmetric] q_def[symmetric] abs_less_iff by linarith
qed

text \<open>C16: No part deviates from its exact share of the total by more than 1.01 cents: the quota
  rule of the largest remainder method, with the error of the decimal context included.\<close>

theorem distribute_cents_quota:
  assumes "distribute_cents tot ws = Inr parts" and "distributable tot ws" and "i < length ws"
  shows "\<bar>parts ! i - tot * ws ! i / sum_list ws\<bar> \<le> 101 / 10000"
proof -
  obtain t base order where w: "\<forall>w \<in> set ws. 0 \<le> w" and pos: "0 < dsum ws"
    and t: "t = to_cents \<bar>tot\<bar>" "of_int t = \<bar>tot\<bar> * 100"
    and base: "base = map (\<lambda>w. \<lfloor>quota (of_int t) (dsum ws) w\<rfloor>) ws"
    and o: "distinct order" "set order \<subseteq> {..<length ws}"
    and parts: "parts = map (\<lambda>b. (if tot < 0 then - 1 else 1) * of_int b / 100) (give_rest base order)"
    by (rule distribute_cents_cases[OF assms(1,2)])
  let ?x = "ws ! i"
  define q e where "q = quota (of_int t) (dsum ws) ?x" and "e = of_int t * ?x / sum_list ws"
  define b where "b = give_rest base order ! i"
  have "b = base ! i + (if i \<in> set order then 1 else 0)"
    using nth_give_rest[OF o(1), of base i] o(2) assms(3) by (simp add: b_def base)
  then have "of_int b - 1 \<le> q" "q < of_int b + 1" using assms(3) base by (auto simp: q_def) linarith+
  moreover have "(of_int t :: rat) < 10 ^ 18" "0 \<le> (of_int t :: rat)"
    using t(2) assms(2) by (simp_all add: distributable_def)
  then have "\<bar>q - e\<bar> < 1 / 100"
    using assms(2,3) unfolding q_def e_def by (intro quota_error[OF _ _ w pos]) (auto simp: distributable_def)
  ultimately have "\<bar>of_int b - e\<bar> \<le> 101 / 100" unfolding abs_le_iff abs_less_iff by linarith
  moreover have "parts ! i = (if tot < 0 then - 1 else 1) * of_int b / 100"
    using assms(3) base by (simp add: parts b_def)
  moreover have "tot * ?x / sum_list ws = (if tot < 0 then - 1 else 1) * e / 100"
    using t(2) by (simp add: e_def abs_if)
  ultimately show ?thesis
    unfolding abs_le_iff by (cases "tot < 0") (simp_all only: if_True if_False, linarith+)
qed

theorem distribute_cents_quota_witness:
  "\<exists>parts. distribute_cents 100 [1, 2] = Inr parts \<and> \<bar>parts ! 1 - 200 / 3\<bar> \<le> 101 / 10000"
proof -
  have "is_cents 100" by (simp add: is_cents_def)
  then obtain parts where p: "distribute_cents 100 [1, 2] = Inr parts"
    using distribute_cents_ok[of 100 "[1, 2]"] by auto
  moreover have "distributable 100 [1, 2]" by (simp add: distributable_def)
  ultimately show ?thesis using distribute_cents_quota[OF p, of 1] by auto
qed

end
