(* ===== verification/PyDate.thy ===== *)
theory PyDate
  imports Prelude
begin

text \<open>
  Python's \<open>datetime.date\<close>: calendar dates of the proleptic Gregorian calendar, their order,
  the day number (\<open>toordinal\<close>), differences in days and steps of one day. The range check of
  the constructor (years 1 to 9999) is not modelled: \<open>valid_date\<close> states what a date
  constructed by the program satisfies.
\<close>

datatype date = Date (year: int) (month: int) (day: int)

instantiation date :: linorder
begin

definition less_eq_date :: "date \<Rightarrow> date \<Rightarrow> bool" where
  "less_eq_date a b \<longleftrightarrow> (year a, month a, day a) \<le> (year b, month b, day b)"

definition less_date :: "date \<Rightarrow> date \<Rightarrow> bool" where
  "less_date a b \<longleftrightarrow> (year a, month a, day a) < (year b, month b, day b)"

instance
  by standard (auto simp: less_eq_date_def less_date_def date.expand)

end

definition is_leap :: "int \<Rightarrow> bool" where
  "is_leap y \<longleftrightarrow> y mod 4 = 0 \<and> (y mod 100 \<noteq> 0 \<or> y mod 400 = 0)"

text \<open>\<open>calendar.monthrange(y, m)[1]\<close>\<close>

definition month_days :: "int \<Rightarrow> int \<Rightarrow> int" where
  "month_days y m =
     (if m = 2 then (if is_leap y then 29 else 28)
      else if m = 4 \<or> m = 6 \<or> m = 9 \<or> m = 11 then 30 else 31)"

definition valid_date :: "date \<Rightarrow> bool" where
  "valid_date d \<longleftrightarrow> 1 \<le> month d \<and> month d \<le> 12 \<and> 1 \<le> day d \<and> day d \<le> month_days (year d) (month d)"

definition days_before_year :: "int \<Rightarrow> int" where
  "days_before_year y = (let p = y - 1 in p * 365 + p div 4 - p div 100 + p div 400)"

definition days_before_month :: "int \<Rightarrow> int \<Rightarrow> int" where
  "days_before_month y m = sum_list (map (month_days y) [1..m - 1])"

definition toordinal :: "date \<Rightarrow> int" where
  "toordinal d = days_before_year (year d) + days_before_month (year d) (month d) + day d"

text \<open>\<open>(b - a).days\<close>\<close>

definition day_diff :: "date \<Rightarrow> date \<Rightarrow> int" where
  "day_diff b a = toordinal b - toordinal a"

text \<open>\<open>d + timedelta(days=1)\<close> and \<open>d - timedelta(days=1)\<close>\<close>

definition next_day :: "date \<Rightarrow> date" where
  "next_day d =
     (if day d < month_days (year d) (month d) then Date (year d) (month d) (day d + 1)
      else if month d < 12 then Date (year d) (month d + 1) 1
      else Date (year d + 1) 1 1)"

definition prev_day :: "date \<Rightarrow> date" where
  "prev_day d =
     (if 1 < day d then Date (year d) (month d) (day d - 1)
      else if 1 < month d then Date (year d) (month d - 1) (month_days (year d) (month d - 1))
      else Date (year d - 1) 12 31)"

definition replace_day :: "date \<Rightarrow> int \<Rightarrow> date" where
  "replace_day d n = Date (year d) (month d) n"

definition last_of_month :: "date \<Rightarrow> date" where
  "last_of_month d = replace_day d (month_days (year d) (month d))"

definition first_of_month :: "date \<Rightarrow> date" where
  "first_of_month d = replace_day d 1"

section \<open>Calendar laws\<close>

lemma date_le_iff:
  "a \<le> b \<longleftrightarrow> year a < year b \<or> year a = year b \<and>
     (month a < month b \<or> month a = month b \<and> day a \<le> day b)"
  by (auto simp: less_eq_date_def)

lemma date_less_iff:
  "a < b \<longleftrightarrow> year a < year b \<or> year a = year b \<and>
     (month a < month b \<or> month a = month b \<and> day a < day b)"
  by (auto simp: less_date_def)

lemma month_days_bounds: "28 \<le> month_days y m" "month_days y m \<le> 31"
  by (auto simp: month_days_def)

lemma valid_first_of_month [intro]: "valid_date d \<Longrightarrow> valid_date (first_of_month d)"
  using month_days_bounds[of "year d" "month d"]
  by (auto simp: valid_date_def first_of_month_def replace_day_def)

lemma valid_last_of_month [intro]: "valid_date d \<Longrightarrow> valid_date (last_of_month d)"
  using month_days_bounds[of "year d" "month d"]
  by (auto simp: valid_date_def last_of_month_def replace_day_def)

lemma div_step:
  fixes y n :: int
  assumes "0 < n"
  shows "y div n = (y - 1) div n + (if y mod n = 0 then 1 else 0)"
proof -
  define q r where "q = (y - 1) div n" and "r = (y - 1) mod n"
  have y: "y = n * q + (r + 1)" by (simp add: q_def r_def)
  have r: "0 \<le> r" "r < n" using assms by (simp_all add: r_def)
  show ?thesis
  proof (cases "r + 1 = n")
    case True
    then have e: "y = n * (q + 1)" using y by (simp add: algebra_simps)
    have "y div n = q + 1" "y mod n = 0" unfolding e using assms by simp_all
    then show ?thesis unfolding q_def[symmetric] by simp
  next
    case False
    then have "y div n = q" "y mod n = r + 1" using y r by simp_all
    then show ?thesis unfolding q_def[symmetric] using r by simp
  qed
qed

lemma days_before_year_Suc: "days_before_year (y + 1) = days_before_year y + 365 + (if is_leap y then 1 else 0)"
proof -
  have a: "y mod 100 = 0 \<Longrightarrow> y mod 4 = 0" and b: "y mod 400 = 0 \<Longrightarrow> y mod 100 = 0"
    by (auto simp: mod_eq_0_iff_dvd elim: dvd_trans[rotated])
  have "days_before_year (y + 1) = y * 365 + y div 4 - y div 100 + y div 400"
    by (simp add: days_before_year_def)
  also have "\<dots> = days_before_year y + 365 + (if y mod 4 = 0 then 1 else 0)
      - (if y mod 100 = 0 then 1 else 0) + (if y mod 400 = 0 then 1 else 0)"
    unfolding div_step[of 4 y, simplified] div_step[of 100 y, simplified] div_step[of 400 y, simplified]
    by (simp add: days_before_year_def Let_def)
  finally show ?thesis using a b unfolding is_leap_def by (cases "y mod 4 = 0"; cases "y mod 100 = 0"; cases "y mod 400 = 0") simp_all
qed

lemma days_before_month_1 [simp]: "days_before_month y 1 = 0"
  by (simp add: days_before_month_def)

lemma days_before_month_Suc: "1 \<le> m \<Longrightarrow> days_before_month y (m + 1) = days_before_month y m + month_days y m"
  by (simp add: days_before_month_def upto_rec2)

lemma days_before_month_13: "days_before_month y 13 = 365 + (if is_leap y then 1 else 0)"
  by (simp add: days_before_month_def upto.simps month_days_def)

lemma days_before_month_mono:
  assumes "1 \<le> m" and "m < n"
  shows "days_before_month y m + month_days y m \<le> days_before_month y n"
  using assms(2)
proof (induction n rule: int_gr_induct)
  case base
  then show ?case using assms(1) by (simp add: days_before_month_Suc)
next
  case (step n)
  then show ?case using assms(1) month_days_bounds[of y n] by (simp add: days_before_month_Suc)
qed

lemma days_before_year_mono: "y \<le> z \<Longrightarrow> days_before_year y \<le> days_before_year z"
proof (induction z rule: int_ge_induct)
  case (step z)
  then show ?case by (simp add: days_before_year_Suc)
qed simp

lemma toordinal_year:
  assumes "valid_date d"
  shows "days_before_year (year d) < toordinal d" and "toordinal d \<le> days_before_year (year d + 1)"
proof -
  have "0 \<le> days_before_month (year d) (month d)"
    by (auto simp: days_before_month_def intro!: sum_list_nonneg order_trans[OF _ month_days_bounds(1)])
  then show "days_before_year (year d) < toordinal d"
    using assms by (simp add: toordinal_def valid_date_def)
  have "days_before_month (year d) (month d) + month_days (year d) (month d) \<le> days_before_month (year d) 13"
    using assms by (intro days_before_month_mono) (auto simp: valid_date_def)
  then show "toordinal d \<le> days_before_year (year d + 1)"
    using assms by (auto simp: toordinal_def valid_date_def days_before_month_13 days_before_year_Suc)
qed

lemma toordinal_less:
  assumes "valid_date a" and "valid_date b" and "a < b"
  shows "toordinal a < toordinal b"
proof -
  consider "year a < year b" | "year a = year b" "month a < month b"
    | "year a = year b" "month a = month b" "day a < day b"
    using assms(3) by (auto simp: date_less_iff)
  then show ?thesis
  proof cases
    case 1
    then have "days_before_year (year a + 1) \<le> days_before_year (year b)"
      by (intro days_before_year_mono) simp
    then show ?thesis using toordinal_year(2)[OF assms(1)] toordinal_year(1)[OF assms(2)] by simp
  next
    case 2
    then show ?thesis
      using days_before_month_mono[of "month a" "month b" "year a"] assms(1,2)
      by (simp add: toordinal_def valid_date_def)
  next
    case 3
    then show ?thesis by (simp add: toordinal_def)
  qed
qed

text \<open>The day number is an order isomorphism on valid dates.\<close>

lemma toordinal_less_iff:
  "valid_date a \<Longrightarrow> valid_date b \<Longrightarrow> toordinal a < toordinal b \<longleftrightarrow> a < b"
  using toordinal_less by (metis less_asym linorder_neqE)

lemma toordinal_le_iff:
  "valid_date a \<Longrightarrow> valid_date b \<Longrightarrow> toordinal a \<le> toordinal b \<longleftrightarrow> a \<le> b"
  using toordinal_less_iff[of b a] by (simp add: not_less[symmetric])

lemma toordinal_inj: "valid_date a \<Longrightarrow> valid_date b \<Longrightarrow> toordinal a = toordinal b \<longleftrightarrow> a = b"
  using toordinal_le_iff[of a b] toordinal_le_iff[of b a] by auto

lemma next_day_valid [intro]: "valid_date d \<Longrightarrow> valid_date (next_day d)"
  using month_days_bounds(1)[of "year d" "month d + 1"] month_days_bounds(1)[of "year d + 1" 1]
  by (auto simp: valid_date_def next_day_def)

lemma prev_day_valid [intro]: "valid_date d \<Longrightarrow> valid_date (prev_day d)"
  using month_days_bounds(1)[of "year d" "month d - 1"]
  by (auto simp: valid_date_def prev_day_def) (simp add: month_days_def)

lemma toordinal_next_day: "valid_date d \<Longrightarrow> toordinal (next_day d) = toordinal d + 1"
  using days_before_month_Suc[of 12 "year d"] days_before_month_13[of "year d"]
    days_before_year_Suc[of "year d"] days_before_month_Suc[of "month d" "year d"]
  by (cases "month d = 12") (auto simp: toordinal_def next_day_def valid_date_def)

lemma next_prev_day: "valid_date d \<Longrightarrow> next_day (prev_day d) = d"
  by (cases d) (auto simp: next_day_def prev_day_def valid_date_def month_days_def)

lemma toordinal_prev_day: "valid_date d \<Longrightarrow> toordinal (prev_day d) = toordinal d - 1"
  using toordinal_next_day[of "prev_day d"] next_prev_day[of d] prev_day_valid[of d] by simp

lemma next_day_greater: "valid_date d \<Longrightarrow> d < next_day d"
  using toordinal_less_iff[of d "next_day d"] toordinal_next_day[of d] by auto

end
