(* ===== verification/Distribution.thy ===== *)
theory Distribution
  imports Money PyDate
begin

text \<open>
  Calculation helpers of the operating cost statements (\<open>mhvp/billing/calc.py\<close>): the keyed
  largest remainder distribution, rule versions, spans of days, the orientation deadline and the
  CO2 cost split; and the twelve monthly rates of \<open>mhvp/hoa/calc.py\<close>.
\<close>

section \<open>The keyed distribution\<close>

record 'k share =
  skey :: 'k
  weight :: dec

definition distribute_nonneg :: "dec \<Rightarrow> 'k::linorder share list \<Rightarrow> ('k, dec) dict res" where
  "distribute_nonneg tot shares =
     (let ordered = py_sorted skey shares;
          weight_sum = dsum (map weight ordered)
      in if weight_sum \<le> 0 then Inl Value_Error
         else let
             exact = dict_of (map (\<lambda>s. (skey s, ddiv (dmul tot (weight s)) weight_sum)) ordered);
             floored = map (\<lambda>(k, v). (k, quantize round_down CENT v)) exact;
             rest = round_half_even (ddiv (dsub tot (dsum (map snd floored))) CENT);
             order = py_sorted
               (\<lambda>s. (- dsub (dict_get exact (skey s) 0) (dict_get floored (skey s) 0), skey s)) ordered
           in Inr (fold (\<lambda>s d. AList.update (skey s) (dadd (dict_get d (skey s) 0) CENT) d)
                (slice_to rest order) floored))"

definition distribute :: "dec \<Rightarrow> 'k::linorder share list \<Rightarrow> ('k, dec) dict res" where
  "distribute tot shares =
     (if tot < 0
      then bindr (distribute_nonneg (- tot) shares) (\<lambda>d. Inr (map (\<lambda>(k, v). (k, - v)) d))
      else distribute_nonneg tot shares)"

text \<open>The contract under which the exactness of \<open>distribute\<close> is stated.\<close>

definition shares_ok :: "dec \<Rightarrow> 'k share list \<Rightarrow> bool" where
  "shares_ok tot shares \<longleftrightarrow>
     is_cents tot \<and> \<bar>tot\<bar> < 10 ^ 16 \<and> length shares \<le> 10 ^ 6 \<and>
     distinct (map skey shares) \<and>
     list_all (\<lambda>s. 0 \<le> weight s) shares \<and> list_ex (\<lambda>s. weight s \<noteq> 0) shares"

text \<open>\<open>for s in order[:rest]: floored[s.key] += CENT\<close> over distinct keys.\<close>

lemma add_cents:
  assumes "distinct (map fst d)" and "set ks \<subseteq> fst ` set d"
    and "\<forall>v \<in> set (map snd d). is_cents v \<and> 0 \<le> v \<and> v + of_nat (length ks) < 10 ^ 26"
  defines "d' \<equiv> fold (\<lambda>k d. AList.update k (dadd (dict_get d k 0) CENT) d) ks d"
  shows "sum_list (map snd d') = sum_list (map snd d) + of_nat (length ks) / 100"
    and "map fst d' = map fst d" and "\<forall>v \<in> set (map snd d'). is_cents v \<and> 0 \<le> v"
proof -
  have "sum_list (map snd d') = sum_list (map snd d) + of_nat (length ks) / 100 \<and>
    map fst d' = map fst d \<and> (\<forall>v \<in> set (map snd d'). is_cents v \<and> 0 \<le> v)"
    using assms(1-3) unfolding d'_def
  proof (induction ks arbitrary: d)
    case Nil
    then show ?case by auto
  next
    case (Cons k ks)
    let ?v = "dict_get d k 0"
    let ?d = "AList.update k (dadd ?v CENT) d"
    have "k \<in> fst ` set d" using Cons.prems(2) by simp
    then have "?v \<in> set (map snd d)" by (rule dict_get_mem)
    with Cons.prems(3) have v: "is_cents ?v" "0 \<le> ?v" "?v + of_nat (length (k # ks)) < 10 ^ 26"
      by blast+
    have e: "dadd ?v CENT = ?v + 1 / 100"
      using v dadd_money[of ?v "1 / 100"] by (simp add: CENT_def is_cents_def)
    have fst: "map fst ?d = map fst d"
      using Cons.prems(2) by (simp add: update_keys)
    have snd: "set (map snd ?d) \<subseteq> insert (?v + 1 / 100) (set (map snd d))"
      unfolding e by (rule update_values)
    have "is_cents (1 / 100)" by (simp add: is_cents_def)
    then have "\<forall>v \<in> set (map snd ?d). is_cents v \<and> 0 \<le> v \<and> v + of_nat (length ks) < 10 ^ 26"
      using snd v Cons.prems(3) by (fastforce intro: is_cents_add)
    moreover have "distinct (map fst ?d)" "set ks \<subseteq> fst ` set ?d"
      using Cons.prems(1,2) fst by (metis, metis image_set insert_subset list.simps(15))
    ultimately have IH: "sum_list (map snd (fold (\<lambda>k d. AList.update k (dadd (dict_get d k 0) CENT) d) ks ?d))
        = sum_list (map snd ?d) + of_nat (length ks) / 100 \<and>
      map fst (fold (\<lambda>k d. AList.update k (dadd (dict_get d k 0) CENT) d) ks ?d) = map fst ?d \<and>
      (\<forall>v \<in> set (map snd (fold (\<lambda>k d. AList.update k (dadd (dict_get d k 0) CENT) d) ks ?d)). is_cents v \<and> 0 \<le> v)"
      using Cons.IH by blast
    have "sum_list (map snd ?d) = sum_list (map snd d) + 1 / 100"
      using sum_list_update[OF Cons.prems(1)] e by simp
    with IH fst show ?case by (simp add: add_divide_distrib)
  qed
  then show "sum_list (map snd d') = sum_list (map snd d) + of_nat (length ks) / 100"
    and "map fst d' = map fst d" and "\<forall>v \<in> set (map snd d'). is_cents v \<and> 0 \<le> v" by auto
qed

lemma quantize_down_cent: "0 \<le> x \<Longrightarrow> quantize round_down CENT x = of_int \<lfloor>x * 100\<rfloor> / 100"
  by (simp add: quantize_def CENT_def round_down_nonneg_floor)

lemma ddiv_cents:
  assumes "\<bar>k\<bar> < 10 ^ 28"
  shows "ddiv (of_int k / 100) CENT = of_int k"
  using fix28_int[OF assms] by (simp add: ddiv_def CENT_def)

lemma distribute_nonneg_exact:
  assumes ok: "shares_ok tot shares" and nn: "0 \<le> tot"
  obtains d where "distribute_nonneg tot shares = Inr d" "sum_list (map snd d) = tot"
    "map fst d = map skey (py_sorted skey shares)" "\<forall>v \<in> set (map snd d). is_cents v \<and> 0 \<le> v"
proof -
  define os where "os = py_sorted skey shares"
  define ws where "ws = map weight os"
  let ?S = "dsum ws" and ?q = "\<lambda>s. quota tot (dsum ws) (weight s)"
  let ?c = "\<lambda>s. \<lfloor>?q s * 100\<rfloor>"
  let ?B = "\<Sum>s\<leftarrow>os. ?c s" and ?t = "to_cents tot"
  have sets: "set os = set shares" "length os = length shares" by (simp_all add: os_def)
  have dk: "distinct (map skey os)"
    using ok by (auto simp: shares_ok_def os_def distinct_map)
  have w: "\<forall>w \<in> set ws. 0 \<le> w" and n: "length ws \<le> 10 ^ 6" and ex: "\<exists>w \<in> set ws. w \<noteq> 0"
    using ok sets by (auto simp: shares_ok_def ws_def list_all_iff list_ex_iff)
  have pos: "0 < ?S" using dsum_pos_iff[OF w] ex by force
  have c: "is_cents tot" "tot < 10 ^ 16" using ok nn by (auto simp: shares_ok_def)
  have t: "of_int ?t = tot * 100" "0 \<le> ?t" using cents_exact(2,3)[OF c(1) nn] c(2) by simp_all
  have tt: "of_int ?t / 100 = tot" using t by simp
  have "(of_int ?t :: rat) < of_int (10 ^ 18)" using t c(2) by simp
  then have t18: "?t < 10 ^ 18" by (simp only: of_int_less_iff)
  have Bws: "?B = (\<Sum>w\<leftarrow>ws. \<lfloor>quota (of_int ?t / 100) ?S w * 100\<rfloor>)"
    unfolding tt by (simp add: ws_def comp_def)
  have rest: "0 \<le> ?t - ?B" "?t - ?B \<le> int (length os)"
    using rest_bounds[OF t(2) t18 w pos n, of 100] unfolding Bws by (simp_all add: ws_def)
  have q0: "0 \<le> ?q s" if "s \<in> set os" for s
    using quota_bounds(3)[OF nn _ pos, of "weight s"] w that by (simp add: ws_def)
  let ?fl = "map (\<lambda>s. (skey s, of_int (?c s) / 100 :: dec)) os"
  have exact: "dict_of (map (\<lambda>s. (skey s, ddiv (dmul tot (weight s)) ?S)) os) = map (\<lambda>s. (skey s, ?q s)) os"
    unfolding quota_def[symmetric] using dk by (intro dict_of_distinct) (simp add: comp_def)
  have floored: "map (\<lambda>(k, v). (k, quantize round_down CENT v)) (map (\<lambda>s. (skey s, ?q s)) os) = ?fl"
    using q0 by (simp add: quantize_down_cent)
  have fv: "\<forall>v \<in> set (map snd ?fl). is_cents v \<and> 0 \<le> v"
    using q0 by (auto simp: is_centsI)
  have fs: "sum_list (map snd ?fl) = of_int ?B / 100"
    by (induction os) (simp_all add: add_divide_distrib)
  have le: "of_int ?B / 100 \<le> tot"
    using rest(1) tt by (metis diff_ge_0_iff_ge divide_right_mono of_int_le_iff zero_le_numeral)
  then have ds: "dsum (map snd ?fl) = of_int ?B / 100"
    using dsum_money[OF fv] c(2) unfolding fs by simp
  have "\<bar>?t - ?B\<bar> < 10 ^ 28" using rest n by (simp add: ws_def)
  moreover have "dsub tot (of_int ?B / 100) = of_int (?t - ?B) / 100"
  proof -
    have "fix28 (of_int (?t - ?B) / 100) = of_int (?t - ?B) / 100"
      using rest n by (intro fix28_cents) (simp add: ws_def)
    then show ?thesis using tt by (simp add: dsub_def diff_divide_distrib)
  qed
  ultimately have r: "round_half_even (ddiv (dsub tot (dsum (map snd ?fl))) CENT) = ?t - ?B"
    unfolding ds by (simp only: ddiv_cents rhe.rnd_int)
  define order where "order = py_sorted
    (\<lambda>s. (- dsub (dict_get (map (\<lambda>s. (skey s, ?q s)) os) (skey s) 0) (dict_get ?fl (skey s) 0), skey s)) os"
  define ks where "ks = map skey (slice_to (?t - ?B) order)"
  let ?d = "fold (\<lambda>k d. AList.update k (dadd (dict_get d k 0) CENT) d) ks ?fl"
  have os: "set order = set os" "length order = length os" by (simp_all add: order_def)
  have lk: "int (length ks) = ?t - ?B" using rest os by (simp add: ks_def length_slice_to)
  have "fst ` set ?fl = skey ` set os" by (simp add: image_image)
  moreover have "set ks \<subseteq> skey ` set os" using set_slice_to[of "?t - ?B" order] os(1) by (auto simp: ks_def)
  ultimately have kset: "set ks \<subseteq> fst ` set ?fl" by (simp only:)
  have lr: "(of_nat (length ks) :: rat) = of_int (?t - ?B)" by (metis lk of_int_of_nat_eq)
  have small: "v + of_nat (length ks) < 10 ^ 26" if "v \<in> set (map snd ?fl)" for v
  proof -
    have "v \<le> tot" using elem_le_sum_list[of "map snd ?fl" v] fv that fs le by auto
    moreover note lr
    moreover have "(of_int (?t - ?B) :: rat) \<le> of_int (10 ^ 6)"
      using rest n unfolding of_int_le_iff by (simp add: ws_def)
    ultimately show ?thesis using c(2) by simp
  qed
  have A: "sum_list (map snd ?d) = sum_list (map snd ?fl) + of_nat (length ks) / 100"
    "map fst ?d = map fst ?fl" "\<forall>v \<in> set (map snd ?d). is_cents v \<and> 0 \<le> v"
    by (rule add_cents[OF _ kset]; use dk fv small in \<open>auto simp: comp_def\<close>)+
  have "sum_list (map snd ?d) = of_int ?B / 100 + of_int (?t - ?B) / 100"
    using A(1) unfolding fs lr .
  also have "\<dots> = tot" using tt by (simp add: diff_divide_distrib)
  finally have "sum_list (map snd ?d) = tot" .
  moreover have "map fst ?d = map skey (py_sorted skey shares)" using A(2) by (simp add: os_def comp_def)
  moreover have "distribute_nonneg tot shares = Inr ?d"
    using pos unfolding distribute_nonneg_def Let_def os_def[symmetric] ws_def[symmetric] exact floored r
      order_def[symmetric] by (simp add: ks_def fold_map comp_def)
  ultimately show thesis using A(3) by (intro that)
qed

lemma map_fst_negated: "map fst (map (\<lambda>(k, v). (k, - v)) d) = map fst d"
  by (induction d) auto

lemma sum_negated:
  fixes d :: "('k \<times> dec) list"
  shows "sum_list (map snd (map (\<lambda>(k, v). (k, - v)) d)) = - sum_list (map snd d)"
  by (induction d) auto

lemma shares_ok_minus: "shares_ok (- tot) shares = shares_ok tot shares"
  using is_cents_minus[of tot] is_cents_minus[of "- tot"] by (auto simp: shares_ok_def)

lemma distribute_ok:
  assumes "shares_ok tot shares"
  shows "\<exists>d. distribute tot shares = Inr d \<and> sum_list (map snd d) = tot \<and>
    map fst d = map skey (py_sorted skey shares) \<and> list_all is_cents (map snd d)"
proof (cases "tot < 0")
  case True
  have "shares_ok (- tot) shares" "0 \<le> - tot" using assms True by (simp_all add: shares_ok_minus)
  then obtain d where "distribute_nonneg (- tot) shares = Inr d" "sum_list (map snd d) = - tot"
    "map fst d = map skey (py_sorted skey shares)" "\<forall>v \<in> set (map snd d). is_cents v \<and> 0 \<le> v"
    by (rule distribute_nonneg_exact)
  moreover from this(4) have "list_all is_cents (map snd (map (\<lambda>(k, v). (k, - v)) d))"
    by (fastforce simp: list_all_iff intro: is_cents_minus)
  ultimately show ?thesis
    using True sum_negated[of d] map_fst_negated[of d] by (simp add: distribute_def del: map_map)
next
  case False
  then obtain d where "distribute_nonneg tot shares = Inr d" "sum_list (map snd d) = tot"
    "map fst d = map skey (py_sorted skey shares)" "\<forall>v \<in> set (map snd d). is_cents v \<and> 0 \<le> v"
    using distribute_nonneg_exact[OF assms] by (metis not_less)
  then show ?thesis using False by (auto simp: distribute_def list_all_iff)
qed

text \<open>C17: Every distribution over shares with distinct keys succeeds, gives one part per share in the
  stable key order, and the parts are cents that add up exactly to the total.\<close>

theorem distribute_exact:
  assumes "shares_ok tot shares"
  shows "\<exists>d. distribute tot shares = Inr d \<and> sum_list (map snd d) = tot \<and>
    map fst d = sort (map skey shares) \<and> list_all is_cents (map snd d)"
proof -
  have "map skey (py_sorted skey shares) = sort (map skey shares)"
    by (rule properties_for_sort[symmetric]) (simp_all add: py_sorted_eq)
  with distribute_ok[OF assms] show ?thesis by metis
qed

definition three_units :: "string share list" where
  "three_units = [\<lparr>skey = ''B'', weight = 1\<rparr>, \<lparr>skey = ''A'', weight = 1\<rparr>, \<lparr>skey = ''C'', weight = 1\<rparr>]"

lemma three_units_ok: "shares_ok 100 three_units"
  by (simp add: shares_ok_def three_units_def is_cents_def)

theorem distribute_exact_witness:
  "\<exists>d. distribute 100 three_units = Inr d \<and> sum_list (map snd d) = 100"
  using distribute_exact[OF three_units_ok] by auto

text \<open>C18: The order in which the shares are given never matters (D08): permuting shares with distinct
  keys gives the same dictionary.\<close>

theorem distribute_order_independent:
  assumes "mset shares = mset shares'" and "distinct (map skey shares)"
  shows "distribute tot shares = distribute tot shares'"
proof -
  have "inj_on skey (set shares)" using assms(2) by (simp add: distinct_map)
  then have "py_sorted skey shares = py_sorted skey shares'"
    unfolding py_sorted_eq using assms(1)
    by (intro sort_key_inj_key_eq) auto
  then show ?thesis by (simp add: distribute_def distribute_nonneg_def)
qed

theorem distribute_order_independent_witness:
  "distribute 100 three_units = distribute 100 (rev three_units)"
  by (rule distribute_order_independent) (simp_all add: three_units_def)

section \<open>What a distribution promises its callers\<close>

text \<open>
  The callers (economic plan, annual statement, heating statement) only rely on this: a split of
  a total that meets the precondition succeeds and its parts add up to the total. \<open>amounts\<close>
  reads the parts of a result.
\<close>

locale splitter =
  fixes split :: "dec \<Rightarrow> 'w list \<Rightarrow> 'd res"
    and ok :: "dec \<Rightarrow> 'w list \<Rightarrow> bool"
    and amounts :: "'d \<Rightarrow> dec list"
  assumes split_ok: "ok tot ws \<Longrightarrow> \<exists>d. split tot ws = Inr d"
    and split_sum: "ok tot ws \<Longrightarrow> split tot ws = Inr d \<Longrightarrow> sum_list (amounts d) = tot"
begin

lemma splits_ok:
  "list_all (\<lambda>(t, ws). ok t ws) jobs \<Longrightarrow> \<exists>ds. mapr (\<lambda>(t, ws). split t ws) jobs = Inr ds"
proof (induction jobs)
  case Nil
  then show ?case by simp
next
  case (Cons j jobs)
  then show ?case using split_ok[of "fst j" "snd j"] by (auto simp: case_prod_beta)
qed

lemma splits_sum:
  assumes "list_all (\<lambda>(t, ws). ok t ws) jobs" and "mapr (\<lambda>(t, ws). split t ws) jobs = Inr ds"
  shows "(\<Sum>d\<leftarrow>ds. sum_list (amounts d)) = sum_list (map fst jobs)"
  using assms
proof (induction jobs arbitrary: ds)
  case Nil
  then show ?case by simp
next
  case (Cons j jobs)
  then show ?case using split_sum[of "fst j" "snd j"] by (auto simp: case_prod_beta res_simps)
qed

end

interpretation dist: splitter distribute shares_ok "map snd"
proof
  show "\<exists>d. distribute tot ws = Inr d" if "shares_ok tot ws" for tot and ws :: "'a share list"
    using distribute_ok[OF that] by blast
  show "sum_list (map snd d) = tot" if "shares_ok tot ws" "distribute tot ws = Inr d"
    for tot and ws :: "'a share list" and d
    using distribute_ok[OF that(1)] that(2) by auto
qed

definition cents_ok :: "dec \<Rightarrow> dec list \<Rightarrow> bool" where
  "cents_ok tot ws \<longleftrightarrow> is_cents tot \<and> distributable tot ws \<and>
     (\<forall>w \<in> set ws. 0 \<le> w) \<and> (\<exists>w \<in> set ws. w \<noteq> 0)"

interpretation cents: splitter distribute_cents cents_ok "\<lambda>parts. parts"
proof
  show "\<exists>d. distribute_cents tot ws = Inr d" if "cents_ok tot ws" for tot ws
    using that distribute_cents_ok[of tot ws] by (force simp: cents_ok_def)
  show "sum_list d = tot" if "cents_ok tot ws" "distribute_cents tot ws = Inr d" for tot ws d
    using that distribute_cents_parts[of tot ws d] by (simp add: cents_ok_def)
qed

end
