(* ===== verification/BillingCalc.thy ===== *)
theory BillingCalc
  imports Distribution
begin

text \<open>
  The small calculation helpers of \<open>mhvp/billing/calc.py\<close> (rule versions, spans, deadline, CO2
  cost split) and the twelve monthly rates of \<open>mhvp/hoa/calc.py\<close>.
\<close>

section \<open>Rule versions and spans\<close>

definition RULE_VERSION :: string where "RULE_VERSION = ''operating-costs-v1''"

definition RULE_VERSIONS :: "(date \<times> string) list" where
  "RULE_VERSIONS = [(Date 1 1 1, RULE_VERSION)]"

definition rule_version_in :: "(date \<times> string) list \<Rightarrow> date \<Rightarrow> string res" where
  "rule_version_in versions period_from =
     (let applicable = map snd (filter (\<lambda>(valid_from, v). valid_from \<le> period_from) versions)
      in if applicable = [] then Inl Value_Error else Inr (last applicable))"

definition rule_version :: "date \<Rightarrow> string res" where
  "rule_version period_from = rule_version_in RULE_VERSIONS period_from"

definition days :: "date \<Rightarrow> date \<Rightarrow> int" where
  "days start stop = day_diff stop start + 1"

definition overlap :: "date \<Rightarrow> date \<Rightarrow> date \<Rightarrow> date option \<Rightarrow> (date \<times> date) option" where
  "overlap a0 a1 b0 b1 =
     (let start = max a0 b0; stop = min a1 (case b1 of None \<Rightarrow> a1 | Some d \<Rightarrow> d)
      in if start \<le> stop then Some (start, stop) else None)"

definition deadline :: "date \<Rightarrow> date" where
  "deadline period_to =
     (let m = month period_to + 12;
          y = year period_to + (m - 1) div 12;
          m' = (m - 1) mod 12 + 1
      in Date y m' (month_days y m'))"

lemma days_pos: "valid_date a \<Longrightarrow> valid_date b \<Longrightarrow> 1 \<le> days a b \<longleftrightarrow> a \<le> b"
  using toordinal_le_iff[of a b] by (auto simp: days_def day_diff_def)

text \<open>The overlap of two spans is their intersection, day by day; an open second span ends with
  the first.\<close>

lemma overlap_is_intersection:
  "(case overlap a0 a1 b0 b1 of None \<Rightarrow> False | Some (s, e) \<Rightarrow> s \<le> d \<and> d \<le> e) \<longleftrightarrow>
   a0 \<le> d \<and> d \<le> a1 \<and> b0 \<le> d \<and> (case b1 of None \<Rightarrow> True | Some b \<Rightarrow> d \<le> b)"
  by (auto simp: overlap_def Let_def split: option.splits)

lemma overlap_SomeD:
  "overlap a0 a1 b0 b1 = Some (s, e) \<Longrightarrow> a0 \<le> s \<and> b0 \<le> s \<and> s \<le> e \<and> e \<le> a1"
  by (auto simp: overlap_def Let_def split: if_splits)

text \<open>The orientation deadline is the last day of the month twelve months later: a valid date,
  strictly after the end of the period.\<close>

lemma deadline_twelve_months:
  assumes "valid_date d"
  shows "deadline d = last_of_month (Date (year d + 1) (month d) 1) \<and> valid_date (deadline d) \<and>
    d < deadline d"
proof -
  have m: "1 \<le> month d" "month d \<le> 12" using assms by (simp_all add: valid_date_def)
  have e: "deadline d = Date (year d + 1) (month d) (month_days (year d + 1) (month d))"
  proof -
    have "month d + 12 - 1 = 12 * 1 + (month d - 1)" by simp
    then have "(month d + 12 - 1) div 12 = 1" "(month d + 12 - 1) mod 12 = month d - 1"
      using m by (simp_all only: div_mult_self4 mod_mult_self4) simp_all
    then show ?thesis by (simp add: deadline_def Let_def)
  qed
  have v: "valid_date (deadline d)"
    using m month_days_bounds(1)[of "year d + 1" "month d"] by (simp add: e valid_date_def)
  show ?thesis
    using v m by (simp add: e last_of_month_def replace_day_def date_less_iff)
qed

text \<open>A concrete end of a leap year February.\<close>

lemma deadline_twelve_months_witness:
  "valid_date (Date 2024 2 29) \<and> deadline (Date 2024 2 29) = Date 2025 2 28"
proof -
  have v: "valid_date (Date 2024 2 29)" by (simp add: valid_date_def month_days_def is_leap_def)
  then show ?thesis
    using deadline_twelve_months[OF v]
    by (simp add: last_of_month_def replace_day_def month_days_def is_leap_def)
qed

section \<open>CO2 cost split\<close>

definition CO2_RESIDENTIAL_STEPS :: "(dec \<times> int) list" where
  "CO2_RESIDENTIAL_STEPS =
     [(0, 100), (12, 90), (17, 80), (22, 70), (27, 60), (32, 50), (37, 40), (42, 30), (47, 20), (52, 5)]"

text \<open>\<open>next(p for bound, p in reversed(steps) if specific >= bound)\<close>; without a match Python
  raises \<open>StopIteration\<close>, here \<open>None\<close>.\<close>

definition step_percent :: "(dec \<times> int) list \<Rightarrow> dec \<Rightarrow> int option" where
  "step_percent steps specific =
     map_option snd (find (\<lambda>(bound, p). bound \<le> specific) (rev steps))"

record co2_shares =
  tenant_percent :: int
  tenant :: dec
  landlord :: dec

definition co2_split :: "dec \<Rightarrow> dec \<Rightarrow> co2_shares res" where
  "co2_split specific_emissions costs =
     (if specific_emissions < 0 \<or> costs < 0 then Inl Value_Error
      else case step_percent CO2_RESIDENTIAL_STEPS specific_emissions of
        None \<Rightarrow> Inl Value_Error
      | Some p \<Rightarrow>
          (let t = quantize round_half_up CENT (ddiv (dmul costs (of_int p)) 100)
           in Inr \<lparr>tenant_percent = p, tenant = t, landlord = dsub costs t\<rparr>))"

lemma step_percent_residential:
  assumes "0 \<le> e"
  obtains p where "step_percent CO2_RESIDENTIAL_STEPS e = Some p" "5 \<le> p" "p \<le> 100"
proof -
  let ?f = "find (\<lambda>(bound, p). bound \<le> e) (rev CO2_RESIDENTIAL_STEPS)"
  have "(0, 100) \<in> set CO2_RESIDENTIAL_STEPS" by (simp add: CO2_RESIDENTIAL_STEPS_def)
  with assms have "?f \<noteq> None" unfolding find_None_iff set_rev by blast
  then obtain b p where f: "?f = Some (b, p)" by force
  then have "(b, p) \<in> set CO2_RESIDENTIAL_STEPS" by (metis find_Some_iff nth_mem set_rev)
  then have "5 \<le> p" "p \<le> 100" by (auto simp: CO2_RESIDENTIAL_STEPS_def)
  moreover have "step_percent CO2_RESIDENTIAL_STEPS e = Some p" using f by (simp add: step_percent_def)
  ultimately show thesis by (intro that)
qed

text \<open>Percentages of amounts are computed without any error before the rounding to cents.\<close>

lemma percent_exact:
  assumes "is_cents x" and "0 \<le> x" and "x < 10 ^ 22" and "0 \<le> p" and "p \<le> 100"
  shows "ddiv (dmul x (of_int p)) 100 = x * of_int p / 100"
proof -
  from assms(1) obtain k where k: "x = of_int k / 100" by (rule is_centsE)
  have "(of_int k :: rat) < of_int (10 ^ 24)" using assms(3) k by simp
  then have kb: "0 \<le> k" "k < 10 ^ 24" using assms(2) k by (simp_all only: of_int_less_iff zero_le_divide_iff) simp_all
  have "k * p \<le> k * 100" using assms kb by (intro mult_left_mono) auto
  then have b: "\<bar>k * p\<bar> < 10 ^ 28" using kb assms(4) by (simp add: abs_mult)
  have dm: "dmul x (of_int p) = of_int (k * p) / 100"
    unfolding dmul_def k using fix28_cents[OF b] by simp
  have e: "of_int (k * p) / 100 / 100 = (of_int (k * p) * 10 powi - 4 :: rat)"
    by (simp add: power_int_minus)
  have "ddiv (dmul x (of_int p)) 100 = of_int (k * p) / 100 / 100"
    unfolding ddiv_def dm e by (rule fix28_exact[OF b])
  then show ?thesis by (simp add: k)
qed

lemma percent_share_bounds:
  assumes "is_cents x" and "0 \<le> x" and "x < 10 ^ 22" and "0 \<le> p" and "p \<le> 100"
  defines "t \<equiv> quantize round_half_up CENT (ddiv (dmul x (of_int p)) 100)"
  shows "0 \<le> t" and "t \<le> x" and "is_cents t"
proof -
  have t: "t = round_cents (x * of_int p / 100)"
    unfolding t_def round_cents_def percent_exact[OF assms(1-5)] ..
  show "0 \<le> t" unfolding t using assms by (intro round_cents_nonneg) simp
  have "x * of_int p \<le> x * 100" using assms by (intro mult_left_mono) auto
  then have "t \<le> round_cents x" unfolding t by (intro round_cents_mono) simp
  with round_cents_id[OF assms(1)] show "t \<le> x" by simp
  show "is_cents t" by (simp add: t)
qed

text \<open>The CO2 split of an amount always succeeds for emissions and costs that are not negative, the
  two shares are cents between zero and the costs and add up exactly to them.\<close>

lemma co2_split_exact:
  assumes "0 \<le> emissions" and "is_cents costs" and "0 \<le> costs" and "costs < 10 ^ 22"
  shows "\<exists>r. co2_split emissions costs = Inr r \<and> tenant r + landlord r = costs \<and>
    0 \<le> tenant r \<and> 0 \<le> landlord r \<and> is_cents (tenant r) \<and> is_cents (landlord r)"
proof -
  obtain p where p: "step_percent CO2_RESIDENTIAL_STEPS emissions = Some p" "5 \<le> p" "p \<le> 100"
    using assms(1) by (rule step_percent_residential)
  define t where "t = quantize round_half_up CENT (ddiv (dmul costs (of_int p)) 100)"
  have t: "0 \<le> t" "t \<le> costs" "is_cents t"
    using percent_share_bounds[OF assms(2-4), of p] p unfolding t_def by auto
  then have "dsub costs t = costs - t" using assms by (intro dsub_money) auto
  then show ?thesis
    using p assms t by (simp add: co2_split_def t_def[symmetric] is_cents_diff)
qed

lemma co2_split_exact_witness:
  "\<exists>r. co2_split 12 100 = Inr r \<and> tenant r + landlord r = 100 \<and> 0 \<le> tenant r"
  using co2_split_exact[of 12 100] by (auto simp: is_cents_def)

section \<open>Twelve monthly rates\<close>

definition MONTHLY_REMAINDER_MODES :: "string list" where
  "MONTHLY_REMAINDER_MODES = [''report_only'', ''first_month'', ''last_month'']"

definition monthly_rates :: "dec \<Rightarrow> string \<Rightarrow> dec list res" where
  "monthly_rates annual mode =
     (if mode \<notin> set MONTHLY_REMAINDER_MODES then Inl Value_Error
      else let rate = quantize round_half_up CENT (ddiv annual 12);
               rates = replicate 12 rate;
               diff = dsub annual (dmul rate 12)
           in Inr (if mode = ''first_month'' then rates[0 := dadd (rates ! 0) diff]
                   else if mode = ''last_month'' then rates[11 := dadd (rates ! 11) diff]
                   else rates))"

lemma twelfth:
  assumes "is_cents a" and "\<bar>a\<bar> < 10 ^ 20"
  defines "rate \<equiv> quantize round_half_up CENT (ddiv a 12)"
  shows "is_cents rate" and "\<bar>rate - a / 12\<bar> \<le> 51 / 10000" and "dmul rate 12 = rate * 12"
proof -
  show c: "is_cents rate" by (simp add: rate_def)
  have "\<bar>ddiv a 12 - a / 12\<bar> \<le> \<bar>a / 12\<bar> * ulp28" unfolding ddiv_def by (rule fix28_error)
  also have "\<dots> \<le> 1 / 10000" using assms(2) by (simp add: ulp28_def abs_divide)
  finally have "\<bar>ddiv a 12 - a / 12\<bar> \<le> 1 / 10000" .
  moreover have "\<bar>rate - ddiv a 12\<bar> \<le> 1 / 200"
    using round_cents_error[of "ddiv a 12"] by (simp add: rate_def round_cents_def)
  ultimately show e: "\<bar>rate - a / 12\<bar> \<le> 51 / 10000" by linarith
  from c obtain k where k: "rate = of_int k / 100" by (rule is_centsE)
  have "is_cents (rate * 12)" unfolding k using is_centsI[of "k * 12"] by simp
  moreover have "\<bar>rate * 12\<bar> \<le> \<bar>a\<bar> + 612 / 10000" using e by linarith
  then have "\<bar>rate * 12\<bar> < 10 ^ 26" using assms(2) by simp
  ultimately show "dmul rate 12 = rate * 12" by (simp add: dmul_def fix28_money)
qed

text \<open>The twelve monthly rates of an annual amount are cents; with a remainder month they add up
  exactly to it, and in report mode the twelve equal rates miss it by at most 6.12 cents.\<close>

lemma monthly_rates_sum:
  assumes "is_cents annual" and "\<bar>annual\<bar> < 10 ^ 20" and "monthly_rates annual mode = Inr rates"
  shows "length rates = 12 \<and> list_all is_cents rates \<and>
    (if mode = ''report_only'' then \<bar>sum_list rates - annual\<bar> \<le> 612 / 10000
     else sum_list rates = annual)"
proof -
  define rate where "rate = quantize round_half_up CENT (ddiv annual 12)"
  have r: "is_cents rate" "\<bar>rate - annual / 12\<bar> \<le> 51 / 10000" "dmul rate 12 = rate * 12"
    using twelfth[OF assms(1,2)] by (simp_all add: rate_def)
  have cd: "is_cents (rate * 12)"
    using is_cents_sum_list[of "replicate 12 rate"] r(1) by (simp add: sum_list_replicate mult.commute)
  have small: "\<bar>annual - rate * 12\<bar> \<le> 612 / 10000" using r(2) by linarith
  also have "\<dots> < 10 ^ 26" by simp
  finally have d: "dsub annual (dmul rate 12) = annual - rate * 12"
    unfolding r(3) using assms(1) cd by (intro dsub_money)
  have cdiff: "is_cents (annual - rate * 12)" using assms(1) cd by (rule is_cents_diff)
  have "\<bar>rate + (annual - rate * 12)\<bar> \<le> \<bar>annual\<bar> / 12 + 51 / 10000 + 612 / 10000"
    using r(2) small by linarith
  also have "\<dots> < 10 ^ 26" using assms(2) by simp
  finally have a: "dadd rate (annual - rate * 12) = rate + (annual - rate * 12)"
    using r(1) cdiff by (intro dadd_money)
  have s: "sum_list (replicate 12 rate) = rate * 12" by (simp add: sum_list_replicate mult.commute)
  have c: "is_cents (rate + (annual - rate * 12))" using r(1) cdiff by (rule is_cents_add)
  have mode: "mode \<in> set MONTHLY_REMAINDER_MODES"
    and rates: "rates = (if mode = ''first_month'' then (replicate 12 rate)[0 := rate + (annual - rate * 12)]
      else if mode = ''last_month'' then (replicate 12 rate)[11 := rate + (annual - rate * 12)]
      else replicate 12 rate)"
    using assms(3) unfolding monthly_rates_def Let_def rate_def[symmetric] d
    by (auto simp: a split: if_splits)
  have upd: "sum_list ((replicate 12 rate)[i := rate + (annual - rate * 12)]) = annual"
    "list_all is_cents ((replicate 12 rate)[i := rate + (annual - rate * 12)])" if "i < 12" for i
  proof -
    show "sum_list ((replicate 12 rate)[i := rate + (annual - rate * 12)]) = annual"
      using that sum_list_list_update[of i "replicate 12 rate"] s by simp
    show "list_all is_cents ((replicate 12 rate)[i := rate + (annual - rate * 12)])"
      using r(1) c set_update_subset_insert[of "replicate 12 rate" i "rate + (annual - rate * 12)"]
      by (auto simp: list_all_iff)
  qed
  have "\<bar>rate * 12 - annual\<bar> \<le> 612 / 10000" using small by linarith
  then show ?thesis
    using upd(1)[of 0] upd(2)[of 0] upd(1)[of 11] upd(2)[of 11] mode r(1) s
    by (auto simp: rates MONTHLY_REMAINDER_MODES_def list_all_iff)
qed

lemma monthly_rates_sum_witness:
  "\<exists>rates. monthly_rates 1000 ''last_month'' = Inr rates \<and> sum_list rates = 1000"
proof -
  obtain rates where "monthly_rates 1000 ''last_month'' = Inr rates"
    by (simp add: monthly_rates_def MONTHLY_REMAINDER_MODES_def Let_def)
  with monthly_rates_sum[OF _ _ this] show ?thesis by (simp add: is_cents_def)
qed

end
