(* ===== verification/Proration.thy ===== *)
theory Proration
  imports BillingCalc
begin

text \<open>
  Pro rata receivables, instalments and the VAT split (\<open>mhvp/accounting/proration.py\<close>). The
  dataclasses are records, \<open>ValueError\<close> is \<open>Inl Value_Error\<close>; the JSON rendering of the
  calculation path (\<open>as_json\<close>) is left out, every value it would print is a field here.
\<close>

definition CALENDAR_DAYS :: string where "CALENDAR_DAYS = ''calendar_days''"
definition THIRTY_360 :: string where "THIRTY_360 = ''thirty_360''"
definition FULL_MONTH :: string where "FULL_MONTH = ''full_month''"
definition PRORATION_METHODS :: "string list" where
  "PRORATION_METHODS = [CALENDAR_DAYS, THIRTY_360, FULL_MONTH]"

definition ADVANCE :: string where "ADVANCE = ''advance''"
definition ARREARS :: string where "ARREARS = ''arrears''"
definition PAYMENT_MODES :: "string list" where "PAYMENT_MODES = [ADVANCE, ARREARS]"

definition PER_MONTH :: string where "PER_MONTH = ''per_month''"
definition PER_INSTALMENT :: string where "PER_INSTALMENT = ''per_instalment''"
definition AMOUNT_BASES :: "string list" where "AMOUNT_BASES = [PER_MONTH, PER_INSTALMENT]"

definition INTERVAL_MONTHS :: "string \<Rightarrow> int option" where
  "INTERVAL_MONTHS = map_of [(''monthly'', 1), (''quarterly'', 3), (''semiannual'', 6), (''annual'', 12)]"

lemmas proration_constants =
  CALENDAR_DAYS_def THIRTY_360_def FULL_MONTH_def PRORATION_METHODS_def
  ADVANCE_def ARREARS_def PAYMENT_MODES_def PER_MONTH_def PER_INSTALMENT_def AMOUNT_BASES_def

definition q2 :: "dec \<Rightarrow> dec" where "q2 value = quantize round_half_up CENT value"
definition q8 :: "dec \<Rightarrow> dec" where "q8 value = quantize round_half_up (1 / 10 ^ 8) value"

definition add_months :: "date \<Rightarrow> int \<Rightarrow> date" where
  "add_months d months =
     (let index = year d * 12 + month d - 1 + months in Date (index div 12) (index mod 12 + 1) 1)"

definition months_between :: "date \<Rightarrow> date \<Rightarrow> int" where
  "months_between start stop = (year stop - year start) * 12 + month stop - month start"

record segment =
  seg_start :: date
  seg_end :: date
  seg_amount :: dec
  seg_method :: string
  seg_days :: int
  seg_base_days :: int
  seg_fraction :: dec
  seg_exact :: dec
  seg_rounded :: dec
  seg_adjustment :: dec

record month_result =
  mr_month :: date
  mr_method :: string
  mr_segments :: "segment list"
  mr_total :: dec
  mr_exact_total :: dec
  mr_full_month :: bool

definition fraction :: "string \<Rightarrow> date \<Rightarrow> date \<Rightarrow> (int \<times> int \<times> dec) res" where
  "fraction method start stop =
     (let last = last_of_month start in
      if method = CALENDAR_DAYS then
        (let base = day last; n = day_diff stop start + 1
         in Inr (n, base, q8 (ddiv (of_int n) (of_int base))))
      else if method = THIRTY_360 then
        (let base = 30; d1 = min (day start) 30;
             d2 = (if stop = last then 30 else min (day stop) 30);
             n = d2 - d1 + 1
         in Inr (n, base, q8 (ddiv (of_int n) (of_int base))))
      else if method = FULL_MONTH then Inr (1, 1, q8 (ddiv 1 1))
      else Inl Value_Error)"

type_synonym period = "date \<times> date option \<times> dec"

definition cut_period :: "date \<Rightarrow> date \<Rightarrow> period \<Rightarrow> (date \<times> date \<times> dec) option" where
  "cut_period lower upper p =
     (case p of (valid_from, valid_to, amount) \<Rightarrow>
        (let s = max valid_from lower;
             e = (case valid_to of None \<Rightarrow> upper | Some t \<Rightarrow> min t upper)
         in if s \<le> e then Some (s, e, amount) else None))"

definition cut_periods :: "date \<Rightarrow> date \<Rightarrow> period list \<Rightarrow> (date \<times> date \<times> dec) list" where
  "cut_periods lower upper periods =
     List.map_filter (cut_period lower upper) (py_sorted fst periods)"

definition segment_of ::
  "string \<Rightarrow> date \<Rightarrow> date \<Rightarrow> dec \<Rightarrow> int \<Rightarrow> int \<Rightarrow> dec \<Rightarrow> segment" where
  "segment_of method s e amount n base ratio =
     \<lparr>seg_start = s, seg_end = e, seg_amount = amount, seg_method = method,
      seg_days = n, seg_base_days = base, seg_fraction = ratio,
      seg_exact = q8 (ddiv (dmul amount (of_int n)) (of_int base)),
      seg_rounded = q2 (q8 (ddiv (dmul amount (of_int n)) (of_int base))), seg_adjustment = 0\<rparr>"

definition make_segment :: "string \<Rightarrow> date \<times> date \<times> dec \<Rightarrow> segment res" where
  "make_segment method c =
     (case c of (s, e, amount) \<Rightarrow>
        bindr (fraction method s e) (\<lambda>(n, base, ratio). Inr (segment_of method s e amount n base ratio)))"

text \<open>The rounding difference of the month goes to its last segment.\<close>

definition adjust_last :: "dec \<Rightarrow> segment list \<Rightarrow> segment list" where
  "adjust_last diff segs =
     (if diff = 0 then segs
      else butlast segs @
        [(last segs)\<lparr>seg_adjustment := diff, seg_rounded := dadd (seg_rounded (last segs)) diff\<rparr>])"

definition prorate_month ::
  "date \<Rightarrow> string \<Rightarrow> period list \<Rightarrow> date option \<Rightarrow> date option \<Rightarrow> month_result res" where
  "prorate_month m method periods contract_start contract_end =
     (if method \<notin> set PRORATION_METHODS then Inl Value_Error
      else let first = first_of_month m; last' = last_of_month m;
               lower = (case contract_start of None \<Rightarrow> first | Some d \<Rightarrow> max first d);
               upper = (case contract_end of None \<Rightarrow> last' | Some d \<Rightarrow> min last' d);
               empty = \<lparr>mr_month = first, mr_method = method, mr_segments = [], mr_total = 0,
                 mr_exact_total = 0, mr_full_month = True\<rparr>
           in if upper < lower then Inr empty
              else let cut = cut_periods lower upper periods in
                if cut = [] then Inr empty
                else let full = (fst (hd cut) = first \<and> fst (snd (last cut)) = last' \<and> length cut = 1)
                  in if method = FULL_MONTH then
                       (case last cut of (s, e, amount) \<Rightarrow>
                          (let seg = \<lparr>seg_start = s, seg_end = e, seg_amount = amount, seg_method = method,
                                 seg_days = 1, seg_base_days = 1, seg_fraction = 1, seg_exact = q8 amount,
                                 seg_rounded = q2 amount, seg_adjustment = 0\<rparr>
                           in Inr (empty\<lparr>mr_full_month := full, mr_segments := [seg],
                                mr_exact_total := seg_exact seg, mr_total := seg_rounded seg\<rparr>)))
                     else bindr (mapr (make_segment method) cut) (\<lambda>segs.
                       (let exact_total = dsum (map seg_exact segs);
                            tot = q2 exact_total;
                            parts = dsum (map seg_rounded segs);
                            diff = dsub tot parts
                        in Inr (empty\<lparr>mr_full_month := full, mr_segments := adjust_last diff segs,
                             mr_exact_total := exact_total, mr_total := tot\<rparr>))))"

record instalment =
  in_period_start :: date
  in_period_end :: date
  in_due_month :: date
  in_mode :: string
  in_amount_basis :: string
  in_months :: "month_result list"
  in_total :: dec
  in_exact_total :: dec

text \<open>\<open>INTERVAL_MONTHS[interval]\<close> raises \<open>KeyError\<close> for an unknown interval.\<close>

definition instalment_period :: "date \<Rightarrow> string \<Rightarrow> date \<Rightarrow> (date \<times> date \<times> date \<times> date) res" where
  "instalment_period anchor interval m =
     (case INTERVAL_MONTHS interval of
        None \<Rightarrow> Inl Key_Error
      | Some n \<Rightarrow>
          (let offset = months_between (first_of_month anchor) (first_of_month m);
               index = offset div n;
               start = add_months (first_of_month anchor) (index * n);
               last_month = add_months start (n - 1)
           in Inr (start, last_of_month last_month, start, last_month)))"

definition instalment_for_month ::
  "date \<Rightarrow> string \<Rightarrow> date \<Rightarrow> string \<Rightarrow> string \<Rightarrow> string \<Rightarrow> period list \<Rightarrow> date option \<Rightarrow> date option
   \<Rightarrow> instalment option res" where
  "instalment_for_month m interval anchor payment_mode amount_basis method periods c_start c_end =
     (if payment_mode \<notin> set PAYMENT_MODES then Inl Value_Error
      else if amount_basis \<notin> set AMOUNT_BASES then Inl Value_Error
      else case INTERVAL_MONTHS interval of
        None \<Rightarrow> Inl Key_Error
      | Some n \<Rightarrow>
          bindr (instalment_period anchor interval m) (\<lambda>(p_start, p_end, first_month, last_month).
            (let due_month = (if payment_mode = ADVANCE then first_month else last_month)
             in if due_month \<noteq> first_of_month m then Inr None
                else let divisor = (if amount_basis = PER_MONTH then 1 else of_int n);
                         scaled = map (\<lambda>(f, t, a). (f, t, q8 (ddiv a divisor))) periods
                  in bindr (mapr (\<lambda>k. prorate_month (add_months first_month k) method scaled c_start c_end)
                       [0..n - 1]) (\<lambda>months.
                    (let exact_total = dsum (map mr_exact_total months)
                     in Inr (Some \<lparr>in_period_start = p_start, in_period_end = p_end,
                          in_due_month = due_month, in_mode = payment_mode,
                          in_amount_basis = amount_basis, in_months = months,
                          in_total = q2 exact_total, in_exact_total = exact_total\<rparr>))))))"

record vat_split =
  vs_net :: dec
  vs_vat_percent :: dec
  vs_vat :: dec
  vs_gross :: dec

definition split_vat :: "dec \<Rightarrow> dec \<Rightarrow> vat_split" where
  "split_vat net vat_percent =
     (let vat = (if vat_percent \<noteq> 0 then q2 (q8 (ddiv (dmul net vat_percent) 100)) else 0)
      in \<lparr>vs_net = q2 net, vs_vat_percent = vat_percent, vs_vat = vat, vs_gross = dadd (q2 net) vat\<rparr>)"

definition due_date_for :: "string \<Rightarrow> int \<Rightarrow> date \<Rightarrow> date option" where
  "due_date_for rule d m =
     (let first = first_of_month m; last = last_of_month first in
      if rule = ''day'' then Some (replace_day first (min d (day last)))
      else if rule = ''last_day'' then Some last
      else if rule = ''day_next_month'' then
        (let nxt = add_months first 1 in Some (replace_day nxt (min d (day (last_of_month nxt)))))
      else None)"

section \<open>Bounds of a segment\<close>

definition date_opt_ok :: "date option \<Rightarrow> bool" where
  "date_opt_ok d \<longleftrightarrow> (case d of None \<Rightarrow> True | Some x \<Rightarrow> valid_date x)"

definition period_ok :: "period \<Rightarrow> bool" where
  "period_ok p \<longleftrightarrow> (case p of (f, t, a) \<Rightarrow> valid_date f \<and> date_opt_ok t \<and> \<bar>a\<bar> < 10 ^ 12)"

definition periods_ok :: "period list \<Rightarrow> bool" where
  "periods_ok ps \<longleftrightarrow> list_all period_ok ps \<and> length ps \<le> 10 ^ 6"

lemma last_of_month_max: "valid_date d \<Longrightarrow> d \<le> last_of_month d"
  by (simp add: valid_date_def last_of_month_def replace_day_def date_le_iff)

lemma first_of_month_min: "valid_date d \<Longrightarrow> first_of_month d \<le> d"
  by (simp add: valid_date_def first_of_month_def replace_day_def date_le_iff)

lemma within_month:
  assumes "valid_date m" and "first_of_month m \<le> s" and "s \<le> e" and "e \<le> last_of_month m"
  shows "year s = year m" "month s = month m" "year e = year m" "month e = month m"
    "1 \<le> day s" "day s \<le> day e" "day e \<le> month_days (year m) (month m)"
  using assms by (auto simp: first_of_month_def last_of_month_def replace_day_def date_le_iff)

lemma fraction_bounds:
  assumes m: "valid_date m" and "first_of_month m \<le> s" and "s \<le> e" and "e \<le> last_of_month m"
    and f: "fraction method s e = Inr (n, base, ratio)"
  shows "1 \<le> n" "n \<le> base" "base \<le> 31"
proof -
  note w = within_month[OF assms(1-4)]
  note b = month_days_bounds[of "year m" "month m"]
  have l: "last_of_month s = Date (year m) (month m) (month_days (year m) (month m))"
    using w by (simp add: last_of_month_def replace_day_def)
  have d: "day_diff e s = day e - day s"
    using w by (simp add: day_diff_def toordinal_def)
  show "1 \<le> n" "n \<le> base" "base \<le> 31"
    using f w b unfolding fraction_def Let_def l d
    by (auto simp: proration_constants min_def split: if_splits)
qed

lemma q8_error: "\<bar>q8 x - x\<bar> \<le> 1 / 10 ^ 8"
  using rhu.quantize_half_error[of "1 / 10 ^ 8" x] by (simp add: q8_def)

lemma q2_round_cents: "q2 x = round_cents x"
  by (simp add: q2_def round_cents_def)

lemma is_cents_q2 [simp]: "is_cents (q2 x)"
  by (simp add: q2_round_cents)

lemma q2_error: "\<bar>q2 x - x\<bar> \<le> 1 / 200"
  unfolding q2_round_cents by (rule round_cents_error)

lemma prorated_bound:
  assumes "\<bar>a\<bar> < 10 ^ 12" and "1 \<le> n" and "n \<le> base"
  shows "\<bar>q8 (ddiv (dmul a (of_int n)) (of_int base))\<bar> \<le> 2 * 10 ^ 12"
proof -
  let ?x = "dmul a (of_int n)"
  have "\<bar>ddiv ?x (of_int base)\<bar> \<le> \<bar>?x / of_int base\<bar> * (1 + ulp28)"
    unfolding ddiv_def by (rule fix28_abs)
  also have "\<dots> \<le> \<bar>a\<bar> * (1 + ulp28) * (1 + ulp28)"
  proof -
    have "\<bar>?x\<bar> \<le> \<bar>a\<bar> * of_int n * (1 + ulp28)"
      unfolding dmul_def using fix28_abs[of "a * of_int n"] assms(2) by (simp add: abs_mult)
    also have "\<dots> \<le> \<bar>a\<bar> * of_int base * (1 + ulp28)"
      using assms(3) by (intro mult_right_mono mult_left_mono) (auto simp: ulp28_def)
    finally have "\<bar>?x / of_int base\<bar> \<le> \<bar>a\<bar> * (1 + ulp28)"
      using assms by (simp add: abs_divide divide_le_eq ac_simps)
    then show ?thesis by (intro mult_right_mono) (auto simp: ulp28_def)
  qed
  also have "\<dots> \<le> 10 ^ 12 * (1 + ulp28) * (1 + ulp28)"
    using assms(1) by (intro mult_right_mono) (auto simp: ulp28_def)
  also have "\<dots> \<le> 2 * 10 ^ 12 - 1" by (simp add: ulp28_def)
  finally have "\<bar>ddiv ?x (of_int base)\<bar> \<le> 2 * 10 ^ 12 - 1" .
  moreover have "(1::rat) / 10 ^ 8 \<le> 1" by simp
  ultimately show ?thesis using q8_error[of "ddiv ?x (of_int base)"] by linarith
qed

section \<open>The month\<close>

lemma make_segment_eq:
  "fraction method s e = Inr (n, base, ratio) \<Longrightarrow>
   make_segment method (s, e, a) = Inr (segment_of method s e a n base ratio)"
  by (simp add: make_segment_def)

lemma sum_adjust_last:
  assumes "segs \<noteq> []" and "dadd (seg_rounded (last segs)) diff = seg_rounded (last segs) + diff"
  shows "sum_list (map seg_rounded (adjust_last diff segs)) = sum_list (map seg_rounded segs) + diff"
proof -
  have "segs = butlast segs @ [last segs]" using assms(1) by simp
  then have "sum_list (map seg_rounded segs) =
      sum_list (map seg_rounded (butlast segs)) + seg_rounded (last segs)"
    by (metis (no_types, lifting) list.simps(8,9) map_append sum_list.Cons sum_list.Nil sum_list_append add.right_neutral)
  then show ?thesis using assms(2) by (simp add: adjust_last_def)
qed

lemma cut_period_Some:
  assumes "cut_period lower upper p = Some (s, e, a)"
  shows "lower \<le> s" "s \<le> e" "e \<le> upper" "snd (snd p) = a"
  using assms by (auto simp: cut_period_def Let_def split: prod.splits if_splits option.splits)

lemma set_cut_periods: "set (cut_periods lower upper ps) = {c. \<exists>p \<in> set ps. cut_period lower upper p = Some c}"
  by (auto simp: cut_periods_def List.map_filter_def image_iff) (metis option.sel)

lemma length_cut_periods: "length (cut_periods lower upper ps) \<le> length ps"
proof -
  have "length (List.map_filter f xs) \<le> length xs" for f :: "period \<Rightarrow> (date \<times> date \<times> dec) option" and xs
    by (induction xs) (auto simp: List.map_filter_simps split: option.splits)
  then show ?thesis by (metis cut_periods_def length_py_sorted)
qed

text \<open>What every segment of a prorated month satisfies.\<close>

lemma segments_bounded:
  assumes m: "valid_date m" and ps: "periods_ok ps"
    and lu: "first_of_month m \<le> lower" "upper \<le> last_of_month m"
    and segs: "mapr (make_segment method) (cut_periods lower upper ps) = Inr segs"
  shows "length segs \<le> 10 ^ 6"
    and "\<forall>g \<in> set segs. seg_rounded g = q2 (seg_exact g) \<and> \<bar>seg_exact g\<bar> \<le> 2 * 10 ^ 12"
proof -
  let ?cut = "cut_periods lower upper ps"
  from segs have l2: "list_all2 (\<lambda>c g. make_segment method c = Inr g) ?cut segs" by (simp add: mapr_eq_Inr)
  show "length segs \<le> 10 ^ 6"
    using list_all2_lengthD[OF l2] length_cut_periods[of lower upper ps] conjunct2[OF ps[unfolded periods_ok_def]]
    by (metis order_trans)
  show "\<forall>g \<in> set segs. seg_rounded g = q2 (seg_exact g) \<and> \<bar>seg_exact g\<bar> \<le> 2 * 10 ^ 12"
  proof
    fix g assume "g \<in> set segs"
    with l2 obtain c where c: "c \<in> set ?cut" "make_segment method c = Inr g"
      by (auto dest: list_all2_setD2)
    obtain s e a where sea: "c = (s, e, a)" by (cases c)
    from c(1) obtain p where p: "p \<in> set ps" "cut_period lower upper p = Some (s, e, a)"
      unfolding sea set_cut_periods by blast
    note cp = cut_period_Some[OF p(2)]
    have a: "\<bar>a\<bar> < 10 ^ 12"
      using ps p(1) cp(4) by (auto simp: periods_ok_def list_all_iff period_ok_def)
    from c(2) obtain r where "fraction method s e = Inr r"
      by (cases "fraction method s e") (simp_all add: sea make_segment_def)
    then obtain n base ratio where f: "fraction method s e = Inr (n, base, ratio)" by (cases r) simp
    with c(2) have gr: "g = segment_of method s e a n base ratio"
      by (simp add: sea make_segment_eq)
    have g: "seg_exact g = q8 (ddiv (dmul a (of_int n)) (of_int base))" "seg_rounded g = q2 (seg_exact g)"
      unfolding gr segment_of_def segment.select_convs by (rule refl)+
    have "1 \<le> n" "n \<le> base"
      using fraction_bounds[OF m _ cp(2) _ f] lu cp by auto
    then show "seg_rounded g = q2 (seg_exact g) \<and> \<bar>seg_exact g\<bar> \<le> 2 * 10 ^ 12"
      using prorated_bound[OF a] g by simp
  qed
qed

lemma dadd_dsub_rounded:
  assumes segs: "\<forall>g \<in> set segs. seg_rounded g = q2 (seg_exact g) \<and> \<bar>seg_exact g\<bar> \<le> 2 * 10 ^ 12"
    and n: "length segs \<le> 10 ^ 6" and ne: "segs \<noteq> []"
  defines "tot \<equiv> q2 (dsum (map seg_exact segs))"
  defines "diff \<equiv> dsub tot (dsum (map seg_rounded segs))"
  shows "sum_list (map seg_rounded (adjust_last diff segs)) = tot"
proof -
  have len: "of_nat (length segs) \<le> (10 ^ 6 :: rat)" using n by (metis of_nat_le_iff of_nat_numeral of_nat_power)
  have e: "sum_list (map abs (map seg_exact segs)) \<le> 2 * 10 ^ 18"
  proof -
    have "sum_list (map abs (map seg_exact segs)) \<le> of_nat (length segs) * (2 * 10 ^ 12)"
      using sum_list_abs_bound[of "map seg_exact segs" "2 * 10 ^ 12"] segs by simp
    also have "\<dots> \<le> 10 ^ 6 * (2 * 10 ^ 12)" using len by (intro mult_right_mono) auto
    finally show ?thesis by simp
  qed
  have rb: "\<bar>seg_rounded g\<bar> \<le> 3 * 10 ^ 12" "is_cents (seg_rounded g)" if "g \<in> set segs" for g
    using bspec[OF segs that] q2_error[of "seg_exact g"] unfolding abs_le_iff by simp_all
  have r: "sum_list (map abs (map seg_rounded segs)) \<le> 3 * 10 ^ 18"
  proof -
    have "sum_list (map abs (map seg_rounded segs)) \<le> of_nat (length segs) * (3 * 10 ^ 12)"
      using sum_list_abs_bound[of "map seg_rounded segs" "3 * 10 ^ 12"] rb by simp
    also have "\<dots> \<le> 10 ^ 6 * (3 * 10 ^ 12)" using len by (intro mult_right_mono) auto
    finally show ?thesis by simp
  qed
  define parts where "parts = sum_list (map seg_rounded segs)"
  have p: "dsum (map seg_rounded segs) = parts"
    unfolding parts_def using rb r by (intro dsum_money_abs) auto
  have pb: "\<bar>parts\<bar> \<le> 3 * 10 ^ 18" "is_cents parts"
    unfolding parts_def using abs_sum_list_le[of "map seg_rounded segs"] r rb by (auto intro!: is_cents_sum_list)
  have tb: "\<bar>tot\<bar> \<le> 5 * 10 ^ 18" "is_cents tot"
  proof -
    have "\<bar>dsum (map seg_exact segs)\<bar> \<le> 4 * 10 ^ 18"
      using dsum_abs[of "map seg_exact segs"] n e by simp
    then show "\<bar>tot\<bar> \<le> 5 * 10 ^ 18"
      unfolding tot_def using q2_error[of "dsum (map seg_exact segs)"] unfolding abs_le_iff by simp
  qed (simp add: tot_def)
  have "\<bar>tot - parts\<bar> < 10 ^ 26"
    using pb(1) tb(1) unfolding abs_le_iff abs_less_iff by simp
  then have d: "diff = tot - parts"
    unfolding diff_def p using tb(2) pb(2) by (intro dsub_money) auto
  have l: "last segs \<in> set segs" using ne by simp
  have "\<bar>seg_rounded (last segs) + diff\<bar> < 10 ^ 26"
    using rb(1)[OF l] pb(1) tb(1) unfolding d abs_le_iff abs_less_iff by simp
  then have "dadd (seg_rounded (last segs)) diff = seg_rounded (last segs) + diff"
    using rb(2)[OF l] tb(2) pb(2) unfolding d by (intro dadd_money is_cents_diff) auto
  from sum_adjust_last[OF ne this] show ?thesis
    by (simp add: d parts_def)
qed

text \<open>The rounded segments of a prorated month, the rounding difference on the last one
  included, add up to the month's total, for every method and for every list of validity periods
  and every contract term.\<close>

lemma prorate_month_sum:
  assumes m: "valid_date m" and ps: "periods_ok ps"
    and r: "prorate_month m method ps c_start c_end = Inr r"
  shows "sum_list (map seg_rounded (mr_segments r)) = mr_total r"
proof -
  define lower where "lower = (case c_start of None \<Rightarrow> first_of_month m | Some d \<Rightarrow> max (first_of_month m) d)"
  define upper where "upper = (case c_end of None \<Rightarrow> last_of_month m | Some d \<Rightarrow> min (last_of_month m) d)"
  define cut where "cut = cut_periods lower upper ps"
  have lu: "first_of_month m \<le> lower" "upper \<le> last_of_month m"
    by (auto simp: lower_def upper_def split: option.splits)
  show ?thesis
  proof (cases "upper < lower \<or> cut = [] \<or> method = FULL_MONTH")
    case True
    then show ?thesis
      using r unfolding prorate_month_def Let_def lower_def[symmetric] upper_def[symmetric] cut_def[symmetric]
      by (auto split: if_splits prod.splits)
  next
    case False
    define full where "full = (fst (hd cut) = first_of_month m \<and> fst (snd (last cut)) = last_of_month m \<and> length cut = 1)"
    from False r obtain segs where segs: "mapr (make_segment method) cut = Inr segs"
      and req: "r = \<lparr>mr_month = first_of_month m, mr_method = method,
        mr_segments = adjust_last (dsub (q2 (dsum (map seg_exact segs))) (dsum (map seg_rounded segs))) segs,
        mr_total = q2 (dsum (map seg_exact segs)), mr_exact_total = dsum (map seg_exact segs),
        mr_full_month = full\<rparr>"
      unfolding prorate_month_def Let_def lower_def[symmetric] upper_def[symmetric] cut_def[symmetric]
      by (cases "mapr (make_segment method) cut") (auto simp: full_def split: if_splits)
    have "segs \<noteq> []" using segs False by (auto simp: mapr_eq_Inr)
    from dadd_dsub_rounded[OF segments_bounded(2,1)[OF m ps lu segs[unfolded cut_def]] this]
    show ?thesis by (simp only: req month_result.select_convs)
  qed
qed

lemma q8_cents: "is_cents x \<Longrightarrow> q8 x = x"
proof -
  assume "is_cents x"
  then obtain k where "x = of_int k / 100" by (rule is_centsE)
  then have x: "x = of_int (k * 10 ^ 6) * (1 / 10 ^ 8)" by simp
  show "q8 x = x"
    unfolding q8_def x by (rule rhu.quantize_exact) simp
qed

lemma q2_cents: "is_cents x \<Longrightarrow> q2 x = x"
  by (simp add: q2_round_cents round_cents_id)

lemma whole_month_exact:
  assumes "is_cents a" and "\<bar>a\<bar> < 10 ^ 12" and "1 \<le> n" and "n \<le> 31"
  shows "q8 (ddiv (dmul a (of_int n)) (of_int n)) = a"
proof -
  obtain k where k: "a = of_int k / 100" using assms(1) by (rule is_centsE)
  have "\<bar>a * of_int n\<bar> \<le> 10 ^ 12 * 31"
    unfolding abs_mult using assms by (intro mult_mono) auto
  also have "\<dots> < 10 ^ 26" by simp
  finally have b: "\<bar>a * of_int n\<bar> < 10 ^ 26" .
  have c: "is_cents (a * of_int n)"
    unfolding is_cents_iff k by (intro exI[of _ "k * n"]) simp
  have "dmul a (of_int n) = a * of_int n" unfolding dmul_def by (rule fix28_money[OF c b])
  moreover have "ddiv (a * of_int n) (of_int n) = a"
    unfolding ddiv_def using assms by (simp add: fix28_money)
  ultimately show ?thesis using q8_cents[OF assms(1)] by simp
qed

text \<open>C19: A validity period that covers the whole month yields exactly the contract amount, as a
  full month, under each of the three methods.\<close>

theorem prorate_month_whole:
  assumes m: "valid_date m" and known: "method \<in> set PRORATION_METHODS"
    and a: "is_cents a" "\<bar>a\<bar> < 10 ^ 12"
    and p: "f \<le> first_of_month m" "\<And>d. t = Some d \<Longrightarrow> last_of_month m \<le> d"
    and cs: "\<And>d. c_start = Some d \<Longrightarrow> d \<le> first_of_month m"
    and ce: "\<And>d. c_end = Some d \<Longrightarrow> last_of_month m \<le> d"
  shows "\<exists>r. prorate_month m method [(f, t, a)] c_start c_end = Inr r \<and> mr_total r = a \<and> mr_full_month r"
proof -
  let ?first = "first_of_month m" and ?last = "last_of_month m"
  have lower: "(case c_start of None \<Rightarrow> ?first | Some d \<Rightarrow> max ?first d) = ?first"
    using cs by (auto split: option.split simp: max_def)
  have upper: "(case c_end of None \<Rightarrow> ?last | Some d \<Rightarrow> min ?last d) = ?last"
    using ce by (auto split: option.split simp: min_def)
  have fl: "?first \<le> ?last" using first_of_month_min[OF m] last_of_month_max[OF m] by (rule order_trans)
  have cut: "cut_periods ?first ?last [(f, t, a)] = [(?first, ?last, a)]"
    using p fl by (auto simp: cut_periods_def py_sorted_def cut_period_def List.map_filter_simps max_def min_def
        split: option.splits)
  show ?thesis
  proof (cases "method = FULL_MONTH")
    case True
    with known have "FULL_MONTH \<in> set PRORATION_METHODS" by simp
    then show ?thesis
      using fl q2_cents[OF a(1)]
      by (simp add: prorate_month_def lower upper cut True Let_def not_less[symmetric])
  next
    case False
    have d: "day_diff ?last ?first + 1 = month_days (year m) (month m)" "day ?last = month_days (year m) (month m)"
      "last_of_month ?first = ?last" "day ?first = 1"
      by (simp_all add: first_of_month_def last_of_month_def replace_day_def day_diff_def toordinal_def)
    note b = month_days_bounds[of "year m" "month m"]
    obtain n where f: "fraction method ?first ?last = Inr (n, n, q8 (ddiv (of_int n) (of_int n)))"
        and n: "1 \<le> n" "n \<le> 31"
    proof (cases "method = CALENDAR_DAYS")
      case True
      show ?thesis
        by (rule that[of "month_days (year m) (month m)"]) (use b in \<open>simp_all add: fraction_def True d Let_def\<close>)
    next
      case False
      with known \<open>method \<noteq> FULL_MONTH\<close> have "method = THIRTY_360" by (simp add: PRORATION_METHODS_def)
      then show ?thesis
        by (intro that[of 30]) (simp_all add: fraction_def d Let_def CALENDAR_DAYS_def THIRTY_360_def)
    qed
    have seg: "mapr (make_segment method) [(?first, ?last, a)] =
        Inr [segment_of method ?first ?last a n n (q8 (ddiv (of_int n) (of_int n)))]"
      by (simp add: make_segment_eq[OF f])
    then have seg: "mapr (make_segment method) [(?first, ?last, a)] =
        Inr [segment_of method ?first ?last a n n (q8 (ddiv (of_int n) (of_int n)))]" .
    have e: "q8 (ddiv (dmul a (of_int n)) (of_int n)) = a" by (rule whole_month_exact[OF a n])
    have "\<bar>a\<bar> < 10 ^ 26" using a(2) by (rule less_le_trans) simp
    then have s: "dsum [a] = a" by (simp add: dsum_def dadd_def fix28_money[OF a(1)])
    show ?thesis
      using fl False unfolding prorate_month_def lower upper cut Let_def
      by (simp add: known seg segment_of_def e s q2_cents[OF a(1)] not_less[symmetric] del: mapr.simps)
  qed
qed

theorem prorate_month_whole_witness:
  "\<exists>r. prorate_month (Date 2024 2 10) THIRTY_360 [(Date 2024 1 1, None, 100)] None None = Inr r \<and>
     mr_total r = 100 \<and> mr_full_month r"
  by (rule prorate_month_whole)
    (simp_all add: valid_date_def month_days_def is_leap_def PRORATION_METHODS_def is_cents_iff date_le_iff
      first_of_month_def replace_day_def exI[of _ 10000])

lemma prorate_month_sum_witness:
  "\<exists>r. prorate_month (Date 2024 2 10) CALENDAR_DAYS [(Date 2024 1 1, None, 100)] None None = Inr r \<and>
     sum_list (map seg_rounded (mr_segments r)) = mr_total r"
proof -
  have "\<exists>r. prorate_month (Date 2024 2 10) CALENDAR_DAYS [(Date 2024 1 1, None, 100)] None None = Inr r"
    by (simp add: prorate_month_def cut_periods_def py_sorted_def cut_period_def List.map_filter_simps
        make_segment_def fraction_def proration_constants Let_def first_of_month_def last_of_month_def
        replace_day_def month_days_def is_leap_def max_def min_def date_le_iff date_less_iff del: not_less)
  then obtain r where r: "prorate_month (Date 2024 2 10) CALENDAR_DAYS [(Date 2024 1 1, None, 100)] None None = Inr r" ..
  have "valid_date (Date 2024 2 10)" by (simp add: valid_date_def month_days_def is_leap_def)
  moreover have "periods_ok [(Date 2024 1 1, None, 100)]"
    by (simp add: periods_ok_def period_ok_def date_opt_ok_def valid_date_def month_days_def)
  ultimately show ?thesis using prorate_month_sum[OF _ _ r] r by blast
qed

section \<open>Instalments\<close>

text \<open>Months are counted from year 0: a month is one number.\<close>

definition month_index :: "date \<Rightarrow> int" where
  "month_index d = year d * 12 + month d - 1"

lemma months_between_index: "months_between a b = month_index b - month_index a"
  by (simp add: months_between_def month_index_def algebra_simps)

lemma month_index_add_months [simp]: "month_index (add_months d k) = month_index d + k"
  by (simp add: add_months_def month_index_def Let_def)

lemma month_index_first [simp]: "month_index (first_of_month d) = month_index d"
  by (simp add: month_index_def first_of_month_def replace_day_def)

lemma add_months_index: "add_months d k = Date ((month_index d + k) div 12) ((month_index d + k) mod 12 + 1) 1"
  by (simp add: add_months_def month_index_def Let_def)

lemma first_of_month_index:
  "valid_date d \<Longrightarrow> first_of_month d = Date (month_index d div 12) (month_index d mod 12 + 1) 1"
proof -
  assume "valid_date d"
  then have "0 \<le> month d - 1" "month d - 1 < 12" by (auto simp: valid_date_def)
  moreover have "month_index d = (month d - 1) + year d * 12" by (simp add: month_index_def)
  ultimately have "month_index d div 12 = year d" "month_index d mod 12 = month d - 1"
    by (simp_all add: div_pos_pos_trivial mod_pos_pos_trivial)
  then show ?thesis by (simp add: first_of_month_def replace_day_def)
qed

lemma add_months_eq_first:
  assumes "valid_date e"
  shows "add_months d k = first_of_month e \<longleftrightarrow> month_index d + k = month_index e"
proof -
  have "Date (a div 12) (a mod 12 + 1) 1 = Date (b div 12) (b mod 12 + 1) 1 \<longleftrightarrow> a = b" for a b :: int
    unfolding date.inject by (metis add_right_cancel div_mult_mod_eq)
  then show ?thesis by (simp only: add_months_index first_of_month_index[OF assms])
qed

lemma month_index_le: "valid_date a \<Longrightarrow> valid_date b \<Longrightarrow> month_index a < month_index b \<Longrightarrow> a < b"
  by (cases a, cases b) (auto simp: month_index_def valid_date_def date_less_iff)

lemma month_index_mono: "valid_date a \<Longrightarrow> valid_date b \<Longrightarrow> a \<le> b \<Longrightarrow> month_index a \<le> month_index b"
  using month_index_le[of b a] by (meson not_less)

lemma interval_pos: "INTERVAL_MONTHS interval = Some n \<Longrightarrow> 0 < n"
  by (auto simp: INTERVAL_MONTHS_def split: if_splits)

text \<open>Instalment periods are consecutive blocks of the interval's number of months counted
  from the anchor's month, and the period returned for a month is the block that holds it.\<close>

lemma instalment_period_block:
  assumes "INTERVAL_MONTHS interval = Some n"
  shows "\<exists>s lm. instalment_period anchor interval m = Inr (s, last_of_month lm, s, lm) \<and> day s = 1 \<and>
    n dvd months_between anchor s \<and> months_between s lm = n - 1 \<and>
    0 \<le> months_between s m \<and> months_between s m < n"
proof -
  let ?off = "month_index m - month_index anchor"
  have "0 < n" using assms by (rule interval_pos)
  then have "0 \<le> ?off - ?off div n * n" "?off - ?off div n * n < n"
    by (simp_all add: minus_div_mult_eq_mod)
  then show ?thesis
    by (simp add: instalment_period_def assms months_between_index Let_def)
      (simp add: add_months_index algebra_simps)
qed

lemma instalment_period_block_witness:
  "\<exists>s lm. instalment_period (Date 2024 2 1) ''quarterly'' (Date 2025 1 15) = Inr (s, last_of_month lm, s, lm) \<and>
    day s = 1 \<and> 3 dvd months_between (Date 2024 2 1) s \<and> months_between s lm = 3 - 1 \<and>
    0 \<le> months_between s (Date 2025 1 15) \<and> months_between s (Date 2025 1 15) < 3"
  by (rule instalment_period_block) (simp add: INTERVAL_MONTHS_def)

lemma fraction_total: "method \<in> set PRORATION_METHODS \<Longrightarrow> \<exists>r. fraction method s e = Inr r"
  by (auto simp: fraction_def PRORATION_METHODS_def Let_def)

lemma mapr_total: "\<forall>x \<in> set xs. \<exists>y. f x = Inr y \<Longrightarrow> \<exists>ys. mapr f xs = Inr ys \<and> length ys = length xs"
  by (induction xs) auto

lemma prorate_month_total:
  assumes "method \<in> set PRORATION_METHODS"
  shows "\<exists>r. prorate_month m method ps c_start c_end = Inr r"
proof -
  have "\<exists>g. make_segment method c = Inr g" for c
    using fraction_total[OF assms, of "fst c" "fst (snd c)"]
    by (cases c) (auto simp: make_segment_def split: prod.split)
  then have "\<exists>ys. mapr (make_segment method) xs = Inr ys" for xs
    using mapr_total[of xs] by blast
  then have "\<exists>ys. bindr (mapr (make_segment method) xs) (\<lambda>ys. Inr (f ys)) = Inr ys" for xs and f :: "segment list \<Rightarrow> month_result"
    by (metis bindr_Inr)
  then show ?thesis
    using assms by (auto simp: prorate_month_def Let_def split: prod.split)
qed

text \<open>An instalment falls due in exactly one month of its period, the first one for payment in
  advance and the last one in arrears; it then sums one result per month of the period. In every
  other month nothing falls due.\<close>

lemma instalment_due_once:
  assumes n: "INTERVAL_MONTHS interval = Some n" and mode: "mode \<in> set PAYMENT_MODES"
    and basis: "basis \<in> set AMOUNT_BASES" and known: "method \<in> set PRORATION_METHODS"
    and m: "valid_date m"
    and result: "result = instalment_for_month m interval anchor mode basis method ps c_start c_end"
  shows "if months_between anchor m mod n = (if mode = ADVANCE then 0 else n - 1)
    then \<exists>i. result = Inr (Some i) \<and> in_due_month i = first_of_month m \<and> length (in_months i) = nat n \<and>
      in_total i = q2 (dsum (map mr_exact_total (in_months i)))
    else result = Inr None"
proof -
  have np: "0 < n" using n by (rule interval_pos)
  define off where "off = month_index m - month_index anchor"
  define fm where "fm = add_months (first_of_month anchor) (off div n * n)"
  define lm where "lm = add_months fm (n - 1)"
  have ip: "instalment_period anchor interval m = Inr (fm, last_of_month lm, fm, lm)"
    by (simp add: instalment_period_def n months_between_index off_def fm_def lm_def Let_def)
  have dm: "off = off div n * n + off mod n" by simp
  have f: "fm = first_of_month m \<longleftrightarrow> off mod n = 0"
    unfolding fm_def add_months_eq_first[OF m] month_index_first using dm unfolding off_def by linarith
  have l: "lm = first_of_month m \<longleftrightarrow> off mod n = n - 1"
    unfolding lm_def add_months_eq_first[OF m] fm_def month_index_add_months month_index_first
    using dm unfolding off_def by linarith
  have due: "(if mode = ADVANCE then fm else lm) = first_of_month m \<longleftrightarrow>
      months_between anchor m mod n = (if mode = ADVANCE then 0 else n - 1)"
    by (simp add: f l months_between_index off_def)
  define g where "g = (\<lambda>k. prorate_month (add_months fm k) method
    (map (\<lambda>(f, t, a). (f, t, q8 (ddiv a (if basis = PER_MONTH then 1 else of_int n)))) ps) c_start c_end)"
  obtain ms where ms: "mapr g [0..n - 1] = Inr ms" "length ms = nat n"
    using mapr_total[of "[0..n - 1]" g] prorate_month_total[OF known] np by (auto simp: g_def)
  show ?thesis
    unfolding result instalment_for_month_def
    by (simp add: mode basis n ip Let_def g_def[symmetric] ms due)
qed

lemma instalment_due_once_witness:
  "\<exists>i. instalment_for_month (Date 2024 6 1) ''quarterly'' (Date 2024 1 1) ARREARS PER_INSTALMENT THIRTY_360
     [(Date 2024 1 1, None, 300)] None None = Inr (Some i) \<and> in_due_month i = Date 2024 6 1 \<and> length (in_months i) = 3"
  using instalment_due_once[of "''quarterly''" 3 ARREARS PER_INSTALMENT THIRTY_360 "Date 2024 6 1" _
      "Date 2024 1 1" "[(Date 2024 1 1, None, 300)]" None None, OF _ _ _ _ _ refl]
  by (auto simp: INTERVAL_MONTHS_def proration_constants valid_date_def month_days_def months_between_def
      first_of_month_def replace_day_def)

section \<open>VAT and due dates\<close>

lemma split_vat_parts:
  assumes net: "is_cents net" "\<bar>net\<bar> < 10 ^ 12" and rate: "0 \<le> rate" "rate \<le> 100"
  shows "vs_gross (split_vat net rate) = vs_net (split_vat net rate) + vs_vat (split_vat net rate)"
    and "vs_net (split_vat net rate) = net"
    and "is_cents (vs_vat (split_vat net rate))"
    and "\<bar>vs_vat (split_vat net rate) - net * rate / 100\<bar> \<le> 6 / 1000"
proof -
  let ?x = "net * rate / 100"
  let ?v = "ddiv (dmul net rate) 100"
  have nr: "\<bar>net * rate\<bar> \<le> 10 ^ 14"
    unfolding abs_mult using mult_mono[of "\<bar>net\<bar>" "10 ^ 12" "\<bar>rate\<bar>" 100] net rate by simp
  have e1: "\<bar>dmul net rate - net * rate\<bar> \<le> 1 / 10 ^ 13"
  proof -
    have "\<bar>dmul net rate - net * rate\<bar> \<le> \<bar>net * rate\<bar> * ulp28" unfolding dmul_def by (rule fix28_error)
    also have "\<dots> \<le> 10 ^ 14 * ulp28" using nr by (intro mult_right_mono) (auto simp: ulp28_def)
    finally show ?thesis by (simp add: ulp28_def)
  qed
  then have db: "\<bar>dmul net rate\<bar> \<le> 2 * 10 ^ 14" using nr unfolding abs_le_iff by simp
  have "\<bar>?v - dmul net rate / 100\<bar> \<le> \<bar>dmul net rate / 100\<bar> * ulp28" unfolding ddiv_def by (rule fix28_error)
  also have "\<dots> \<le> 2 * 10 ^ 12 * ulp28" using db by (intro mult_right_mono) (auto simp: ulp28_def abs_divide)
  finally have e2: "\<bar>?v - dmul net rate / 100\<bar> \<le> 1 / 10 ^ 15" by (simp add: ulp28_def)
  have ev: "\<bar>?v - ?x\<bar> \<le> 1 / 10 ^ 10" using e1 e2 unfolding abs_le_iff by simp
  have vx: "\<bar>(if rate \<noteq> 0 then q2 (q8 ?v) else 0) - ?x\<bar> \<le> 6 / 1000"
    using q2_error[of "q8 ?v"] q8_error[of ?v] ev unfolding abs_le_iff by simp
  have v: "vs_vat (split_vat net rate) = (if rate \<noteq> 0 then q2 (q8 ?v) else 0)"
    by (simp only: split_vat_def Let_def vat_split.select_convs)
  have g: "vs_gross (split_vat net rate) = dadd net (vs_vat (split_vat net rate))"
    unfolding v by (simp only: split_vat_def Let_def vat_split.select_convs q2_cents[OF net(1)])
  show n: "vs_net (split_vat net rate) = net"
    by (simp only: split_vat_def Let_def vat_split.select_convs q2_cents[OF net(1)])
  show c: "is_cents (vs_vat (split_vat net rate))" unfolding v by simp
  show e: "\<bar>vs_vat (split_vat net rate) - ?x\<bar> \<le> 6 / 1000" unfolding v by (rule vx)
  have "\<bar>net + vs_vat (split_vat net rate)\<bar> < 10 ^ 26"
    using e nr net(2) unfolding abs_le_iff abs_less_iff by simp
  then show "vs_gross (split_vat net rate) = vs_net (split_vat net rate) + vs_vat (split_vat net rate)"
    unfolding g n using net(1) c by (rule dadd_money[rotated 2])
qed

text \<open>The gross amount is the rounded net amount plus the tax, all three are amounts in cents,
  and the tax differs from the exact tax by less than a cent.\<close>

lemma split_vat_exact:
  assumes "is_cents net" and "\<bar>net\<bar> < 10 ^ 12" and "0 \<le> rate" and "rate \<le> 100" and "r = split_vat net rate"
  shows "vs_gross r = vs_net r + vs_vat r \<and> vs_net r = net \<and> is_cents (vs_vat r) \<and>
    \<bar>vs_vat r - net * rate / 100\<bar> \<le> 6 / 1000"
  unfolding assms(5) by (intro conjI split_vat_parts assms(1-4))

lemma split_vat_exact_witness:
  "vs_gross (split_vat 100 19) = vs_net (split_vat 100 19) + vs_vat (split_vat 100 19)"
  using split_vat_exact[of 100 19, OF _ _ _ _ refl] by (simp add: is_cents_iff exI[of _ 10000])

lemma due_date_parts:
  assumes "valid_date m" and "1 \<le> d" and "due_date_for rule d m = Some x"
  shows "valid_date x" and "day x \<le> d \<or> rule = ''last_day''"
    and "months_between m x = (if rule = ''day_next_month'' then 1 else 0)"
proof -
  have am: "year (add_months a 1) = (month_index a + 1) div 12"
    "month (add_months a 1) = (month_index a + 1) mod 12 + 1" "day (add_months a 1) = 1" for a
    by (simp_all add: add_months_index)
  have md: "1 \<le> month_days y k" for y k using month_days_bounds[of y k] by linarith
  show "valid_date x" "day x \<le> d \<or> rule = ''last_day''"
    using assms md
    by (auto simp: due_date_for_def Let_def valid_date_def replace_day_def last_of_month_def first_of_month_def am
        min_def split: if_splits)
  have rd: "month_index (replace_day e k) = month_index e" "month_index (last_of_month e) = month_index e" for e k
    by (simp_all add: month_index_def replace_day_def last_of_month_def)
  show "months_between m x = (if rule = ''day_next_month'' then 1 else 0)"
    using assms(3) by (auto simp: due_date_for_def Let_def months_between_index rd split: if_splits)
qed

text \<open>The due date lies in the run's month or in the next one, on the contract's day of the
  month or on the last day where the month is shorter, and it is a date of the calendar.\<close>

lemma due_date_valid:
  assumes "valid_date m" and "1 \<le> d" and "due_date_for rule d m = Some x"
  shows "valid_date x \<and> (day x \<le> d \<or> rule = ''last_day'') \<and>
    months_between m x = (if rule = ''day_next_month'' then 1 else 0)"
  by (intro conjI due_date_parts[OF assms])

lemma due_date_valid_witness:
  "valid_date (Date 2024 2 29)"
  using due_date_valid[of "Date 2024 1 1" 30 "''day_next_month''" "Date 2024 2 29"]
  by (simp add: due_date_for_def valid_date_def month_days_def is_leap_def add_months_def Let_def
      first_of_month_def last_of_month_def replace_day_def)

end
