(* ===== verification/LedgerState.thy ===== *)
theory LedgerState
  imports Money PyDate
begin

text \<open>
  The rows of the ledger (\<open>mhvp/accounting/models.py\<close>, and the payment orders of
  \<open>mhvp/banking/models.py\<close>) that posting, reversing and locking read or write, and the
  database they live in. Row ids (UUIDs) are numbers drawn from a counter, tables are
  dictionaries. Texts, document references, VAT figures of a line and time stamps are left out: no
  modelled operation decides on them. The lines of an entry are the list \<open>e_lines\<close> in the
  order of \<open>line_no\<close>.

  Amounts are columns \<open>NUMERIC(14,2)\<close> and an entry has at most 500 lines, so every sum stays
  below the 28 digits of the decimal context and is exact (\<open>Money.dsum_money\<close>); sums of amounts
  are therefore written with plain addition.
\<close>

type_synonym uid = nat

datatype account_category =
    Cat_Bank | Cat_Cash | Cat_Reserve | Cat_Loan | Cat_Technical | Cat_Revenue | Cat_Cost
  | Cat_Debtor | Cat_Creditor | Cat_Transit | Cat_Tax | Cat_Opening_Balance

datatype entry_kind =
    K_Receivable | K_Invoice | K_Custom | K_Bank_Transfer | K_Cost_Transfer | K_Opening_Balance
  | K_Debtor_Payment | K_Creditor_Payment | K_Reversal | K_Statement_Result | K_Dunning_Fee
  | K_Interest | K_Credit_Reclass

datatype entry_status = Draft | Posted

datatype item_kind = Item_Receivable | Item_Payable

datatype order_status =
    Ord_Draft | Ord_Approved | Ord_Exported | Ord_Submitted | Ord_Accepted_By_Bank | Ord_Executed
  | Ord_Partially_Executed | Ord_Rejected | Ord_Returned | Ord_Cancelled

record ledger =
  g_property :: "uid option"
  g_start_month :: int
  g_locked_until :: "date option"

record account =
  a_ledger :: uid
  a_number :: string
  a_category :: account_category
  a_active :: bool

text \<open>\<open>LineIn\<close> and the stored \<open>JournalLine\<close> carry the same fields.\<close>

record line =
  l_account :: uid
  l_debit :: dec
  l_credit :: dec
  l_unit :: "uid option"
  l_property :: "uid option"

record plan =
  p_item :: uid
  p_amount :: dec

record entry =
  e_ledger :: uid
  e_status :: entry_status
  e_year :: "int option"
  e_number :: "int option"
  e_booking_date :: date
  e_value_date :: "date option"
  e_due_date :: "date option"
  e_accrual_date :: "date option"
  e_kind :: entry_kind
  e_contract :: "uid option"
  e_reverses :: "uid option"
  e_reversed_by :: "uid option"
  e_reason :: "string option"
  e_key :: "string option"
  e_plan :: "plan list"
  e_created_by :: "uid option"
  e_posted_by :: "uid option"
  e_approved_by :: "uid option"
  e_lines :: "line list"

record open_item =
  i_ledger :: uid
  i_account :: uid
  i_entry :: uid
  i_kind :: item_kind
  i_booking_date :: date
  i_due_date :: date
  i_amount :: dec
  i_contract :: "uid option"

record settlement =
  s_item :: uid
  s_entry :: uid
  s_amount :: dec
  s_date :: date

record payment_order =
  o_ledger :: uid
  o_bank :: uid
  o_item :: "uid option"
  o_invoice :: "uid option"
  o_amount :: dec
  o_discount :: dec
  o_name :: string
  o_iban :: string
  o_fingerprint :: string
  o_purpose :: string
  o_e2e :: string
  o_execution_date :: date
  o_status :: order_status
  o_executed :: "dec option"
  o_batch :: "uid option"
  o_transaction :: "uid option"
  o_entry :: "uid option"
  o_payee :: "uid option"
  o_reason :: "string option"

record approval =
  v_order :: uid
  v_user :: uid
  v_snapshot :: string
  v_invalidated :: bool

record lock_setting =
  t_lock_mode :: string
  t_auto_lock :: bool
  t_reopen :: bool

record period_lock =
  k_ledger :: uid
  k_property :: uid
  k_from :: date
  k_to :: date
  k_source :: string
  k_statement :: "uid option"
  k_reason :: string
  k_created_by :: "uid option"
  k_released :: bool
  k_released_by :: "uid option"
  k_release_reason :: "string option"
  k_requested_by :: "uid option"
  k_request_reason :: "string option"

record db =
  ledgers :: "(uid, ledger) dict"
  accounts :: "(uid, account) dict"
  entries :: "(uid, entry) dict"
  items :: "(uid, open_item) dict"
  settlements :: "settlement list"
  counters :: "(uid \<times> int, int) dict"
  unit_property :: "(uid, uid) dict"
  properties :: "uid list"
  contract_property :: "(uid, uid option) dict"
  invoice_entry :: "(uid, uid option) dict"
  orders :: "(uid, payment_order) dict"
  approvals :: "(uid, approval) dict"
  reclass_entries :: "uid list"
  setting :: "lock_setting option"
  period_locks :: "(uid, period_lock) dict"
  next_id :: uid

end
