(* ===== verification/PeriodLock.thy ===== *)
theory PeriodLock
  imports LedgerState
begin

text \<open>
  Period locks per property and period (\<open>mhvp/accounting/period_lock.py\<close>): the tenant's
  switches, the guard every posting passes, creating a lock by hand or when a statement is
  closed, and the release with request, reason and a second person. Events and the time stamps
  are left out; \<open>released_at\<close> is the flag \<open>k_released\<close>.
\<close>

definition LOCK_MODES :: "string list" where
  "LOCK_MODES = [''ledger_only'', ''object_period'']"

text \<open>A body whose field is \<open>None\<close> leaves the switch as it is; an unknown mode is refused by the
  request model's validator.\<close>

definition update_setting :: "db \<Rightarrow> string option \<Rightarrow> bool option \<Rightarrow> bool option \<Rightarrow> db res" where
  "update_setting db mode auto reopen =
     (if \<exists>v. mode = Some v \<and> v \<notin> set LOCK_MODES then Inl Value_Error
      else let row = (case setting db of
                 None \<Rightarrow> \<lparr>t_lock_mode = ''ledger_only'', t_auto_lock = False, t_reopen = False\<rparr>
               | Some r \<Rightarrow> r);
               row1 = (case mode of None \<Rightarrow> row | Some v \<Rightarrow> row\<lparr>t_lock_mode := v\<rparr>);
               row2 = (case auto of None \<Rightarrow> row1 | Some v \<Rightarrow> row1\<lparr>t_auto_lock := v\<rparr>);
               row3 = (case reopen of None \<Rightarrow> row2 | Some v \<Rightarrow> row2\<lparr>t_reopen := v\<rparr>)
           in Inr (db\<lparr>setting := Some row3\<rparr>))"

definition line_property_of :: "db \<Rightarrow> line \<Rightarrow> uid option" where
  "line_property_of db row =
     (case l_property row of
        Some p \<Rightarrow> Some p
      | None \<Rightarrow> (case l_unit row of None \<Rightarrow> None | Some u \<Rightarrow> map_of (unit_property db) u))"

definition property_ids_of_lines :: "db \<Rightarrow> ledger \<Rightarrow> line list \<Rightarrow> uid list" where
  "property_ids_of_lines db ledger lns =
     (case g_property ledger of None \<Rightarrow> [] | Some p \<Rightarrow> [p]) @
     List.map_filter (line_property_of db) lns"

definition covers :: "uid \<Rightarrow> uid list \<Rightarrow> date \<Rightarrow> period_lock \<Rightarrow> bool" where
  "covers lid props d k \<longleftrightarrow>
     k_ledger k = lid \<and> k_property k \<in> set props \<and> \<not> k_released k \<and> k_from k \<le> d \<and> d \<le> k_to k"

definition ensure_open_for_properties :: "db \<Rightarrow> uid \<Rightarrow> uid list \<Rightarrow> date \<Rightarrow> unit res" where
  "ensure_open_for_properties db lid props d =
     (if props = [] then Inr ()
      else case setting db of
        None \<Rightarrow> Inr ()
      | Some t \<Rightarrow>
          if t_lock_mode t \<noteq> ''object_period'' then Inr ()
          else if list_ex (\<lambda>(_, k). covers lid props d k) (period_locks db)
          then Inl Acc_Period_Locked_Object else Inr ())"

definition ensure_open_for_entry :: "db \<Rightarrow> uid \<Rightarrow> ledger \<Rightarrow> line list \<Rightarrow> date \<Rightarrow> unit res" where
  "ensure_open_for_entry db lid ledger lns d =
     (case setting db of
        None \<Rightarrow> Inr ()
      | Some t \<Rightarrow>
          if t_lock_mode t \<noteq> ''object_period'' then Inr ()
          else ensure_open_for_properties db lid (property_ids_of_lines db ledger lns) d)"

definition overlaps :: "uid \<Rightarrow> uid \<Rightarrow> date \<Rightarrow> date \<Rightarrow> period_lock \<Rightarrow> bool" where
  "overlaps lid pid start stop k \<longleftrightarrow>
     k_ledger k = lid \<and> k_property k = pid \<and> \<not> k_released k \<and> k_from k \<le> stop \<and> start \<le> k_to k"

definition has_overlap :: "db \<Rightarrow> uid \<Rightarrow> uid \<Rightarrow> date \<Rightarrow> date \<Rightarrow> bool" where
  "has_overlap db lid pid start stop = list_ex (\<lambda>(_, k). overlaps lid pid start stop k) (period_locks db)"

text \<open>The order of the two dates is checked by the request model (\<open>PeriodLockIn\<close>) and by the
  table's constraint \<open>period_from <= period_to\<close>.\<close>

definition create_lock ::
  "db \<Rightarrow> uid option \<Rightarrow> uid \<Rightarrow> uid \<Rightarrow> date \<Rightarrow> date \<Rightarrow> string \<Rightarrow> string \<Rightarrow> uid option \<Rightarrow> (db \<times> uid) res" where
  "create_lock db user lid pid p_from p_to reason source statement =
     (if p_to < p_from then Inl Value_Error
      else if map_of (ledgers db) lid = None then Inl Not_Found
      else if pid \<notin> set (properties db) then Inl Not_Found
      else if has_overlap db lid pid p_from p_to then Inl Conflict
      else let row = \<lparr>k_ledger = lid, k_property = pid, k_from = p_from, k_to = p_to, k_source = source,
             k_statement = statement, k_reason = reason, k_created_by = user, k_released = False,
             k_released_by = None, k_release_reason = None, k_requested_by = None, k_request_reason = None\<rparr>
           in Inr (db\<lparr>period_locks := AList.update (next_id db) row (period_locks db),
                      next_id := next_id db + 1\<rparr>, next_id db))"

text \<open>Closing a statement: \<open>None\<close> as the second component is the answer that a lock is only proposed.\<close>

definition lock_for_closed_statement ::
  "db \<Rightarrow> uid option \<Rightarrow> string \<Rightarrow> uid \<Rightarrow> uid \<Rightarrow> uid \<Rightarrow> date \<Rightarrow> date \<Rightarrow> (db \<times> uid option) res" where
  "lock_for_closed_statement db user source statement lid pid p_from p_to =
     (case setting db of
        None \<Rightarrow> Inr (db, None)
      | Some t \<Rightarrow>
          if \<not> t_auto_lock t then Inr (db, None)
          else case find (\<lambda>(_, k). k_source k = source \<and> k_statement k = Some statement \<and> \<not> k_released k)
                 (period_locks db) of
            Some (kid, _) \<Rightarrow> Inr (db, Some kid)
          | None \<Rightarrow>
              if has_overlap db lid pid p_from p_to then Inr (db, None)
              else bindr (create_lock db user lid pid p_from p_to ''Abschluss der Abrechnung'' source (Some statement))
                (\<lambda>(db', kid). Inr (db', Some kid)))"

definition active_lock :: "db \<Rightarrow> uid \<Rightarrow> period_lock res" where
  "active_lock db kid =
     bindr (fetch (period_locks db) kid Not_Found) (\<lambda>row.
       if k_released row then Inl Conflict else Inr row)"

definition reopen_enabled :: "db \<Rightarrow> bool" where
  "reopen_enabled db = (case setting db of None \<Rightarrow> False | Some t \<Rightarrow> t_reopen t)"

definition request_release :: "db \<Rightarrow> uid \<Rightarrow> uid option \<Rightarrow> string \<Rightarrow> db res" where
  "request_release db kid user reason =
     (if \<not> reopen_enabled db then Inl Acc_Period_Lock_Release_Disabled
      else bindr (active_lock db kid) (\<lambda>row.
        Inr (db\<lparr>period_locks := AList.update kid
          (row\<lparr>k_requested_by := user, k_request_reason := Some reason\<rparr>) (period_locks db)\<rparr>)))"

definition release :: "db \<Rightarrow> uid \<Rightarrow> uid option \<Rightarrow> string \<Rightarrow> db res" where
  "release db kid user reason =
     (if \<not> reopen_enabled db then Inl Acc_Period_Lock_Release_Disabled
      else bindr (active_lock db kid) (\<lambda>row.
        if k_requested_by row = None then Inl Conflict
        else if user = None \<or> user = k_requested_by row then Inl Gate_Four_Eyes
        else Inr (db\<lparr>period_locks := AList.update kid
          (row\<lparr>k_released := True, k_released_by := user, k_release_reason := Some reason\<rparr>) (period_locks db)\<rparr>)))"

section \<open>The invariant of the locks\<close>

text \<open>Ids are unique and below the supply, a period is not empty, the active locks of a ledger and
  property do not overlap, and every released lock shows two different persons.\<close>

definition lock_row_ok :: "period_lock \<Rightarrow> bool" where
  "lock_row_ok k \<longleftrightarrow> k_from k \<le> k_to k \<and>
     (k_released k \<longrightarrow> (\<exists>a b. k_requested_by k = Some a \<and> k_released_by k = Some b \<and> a \<noteq> b))"

definition locks_ok :: "db \<Rightarrow> bool" where
  "locks_ok db \<longleftrightarrow>
     distinct (map fst (period_locks db)) \<and> (\<forall>kid \<in> fst ` set (period_locks db). kid < next_id db) \<and>
     (\<forall>(kid, k) \<in> set (period_locks db). lock_row_ok k) \<and>
     (\<forall>(i, k) \<in> set (period_locks db). \<forall>(j, k') \<in> set (period_locks db).
        i \<noteq> j \<and> \<not> k_released k \<and> k_ledger k = k_ledger k' \<and> k_property k = k_property k' \<longrightarrow>
        \<not> overlaps (k_ledger k) (k_property k) (k_from k) (k_to k) k')"

inductive lock_step :: "db \<Rightarrow> db \<Rightarrow> bool" where
  setting: "update_setting db mode auto reopen = Inr db' \<Longrightarrow> lock_step db db'"
| create: "create_lock db user lid pid f t reason source st = Inr (db', kid) \<Longrightarrow> lock_step db db'"
| close: "lock_for_closed_statement db user source st lid pid f t = Inr (db', r) \<Longrightarrow> lock_step db db'"
| request: "request_release db kid user reason = Inr db' \<Longrightarrow> lock_step db db'"
| release: "release db kid user reason = Inr db' \<Longrightarrow> lock_step db db'"

lemma locks_okD:
  assumes "locks_ok db" and "(i, k) \<in> set (period_locks db)" and "(j, k') \<in> set (period_locks db)"
    and "i \<noteq> j" and "\<not> k_released k" and "k_ledger k = k_ledger k'" and "k_property k = k_property k'"
  shows "\<not> overlaps (k_ledger k) (k_property k) (k_from k) (k_to k) k'"
  using assms unfolding locks_ok_def by blast

lemma locks_okI_new:
  assumes ok: "locks_ok db" and new: "\<not> has_overlap db (k_ledger row) (k_property row) (k_from row) (k_to row)"
    and row: "lock_row_ok row"
  shows "locks_ok (db\<lparr>period_locks := AList.update (next_id db) row (period_locks db), next_id := next_id db + 1\<rparr>)"
proof -
  let ?t = "period_locks db" and ?n = "next_id db"
  have d: "distinct (map fst ?t)" and fresh: "\<And>kid k. (kid, k) \<in> set ?t \<Longrightarrow> kid < ?n"
    using ok by (force simp: locks_ok_def)+
  then have n: "?n \<notin> fst ` set ?t" by fastforce
  have app: "AList.update ?n row ?t = ?t @ [(?n, row)]" by (rule update_new[OF n])
  have no: "\<not> overlaps (k_ledger row) (k_property row) (k_from row) (k_to row) k" if "(kid, k) \<in> set ?t" for kid k
    using new that by (auto simp: has_overlap_def list_ex_iff)
  show ?thesis
    using ok row n no unfolding locks_ok_def app
    by (auto simp: overlaps_def less_Suc_eq; fastforce)
qed

lemma locks_okI_change:
  assumes ok: "locks_ok db" and row: "map_of (period_locks db) kid = Some row"
    and same: "k_ledger row' = k_ledger row" "k_property row' = k_property row" "k_from row' = k_from row"
      "k_to row' = k_to row" "\<not> k_released row" and rok: "lock_row_ok row'"
  shows "locks_ok (db\<lparr>period_locks := AList.update kid row' (period_locks db)\<rparr>)"
proof -
  let ?t = "period_locks db"
  have d: "distinct (map fst ?t)" using ok by (simp add: locks_ok_def)
  have m: "(kid, row) \<in> set ?t" using row by (rule map_of_SomeD)
  have k: "fst ` set (AList.update kid row' ?t) = fst ` set ?t"
    unfolding fst_update using m by (force simp: insert_absorb)
  have orig: "\<exists>k0. (i, k0) \<in> set ?t \<and> k_ledger k0 = k_ledger k \<and> k_property k0 = k_property k \<and>
      k_from k0 = k_from k \<and> k_to k0 = k_to k \<and> (\<not> k_released k \<longrightarrow> \<not> k_released k0) \<and> (i \<noteq> kid \<longrightarrow> k0 = k)"
    if "(i, k) \<in> set (AList.update kid row' ?t)" for i k
    using that m same by (auto simp: set_update[OF d] split: if_splits)
  have "\<forall>(i, k) \<in> set (AList.update kid row' ?t). lock_row_ok k"
    using ok rok by (auto simp: set_update[OF d] locks_ok_def split: if_splits)
  moreover have "\<not> overlaps (k_ledger k) (k_property k) (k_from k) (k_to k) k'"
    if "(i, k) \<in> set (AList.update kid row' ?t)" "(j, k') \<in> set (AList.update kid row' ?t)"
      "i \<noteq> j" "\<not> k_released k" "k_ledger k = k_ledger k'" "k_property k = k_property k'" for i j k k'
  proof -
    note a = that
    from orig[OF that(1)] obtain k0 where k0: "(i, k0) \<in> set ?t" "k_ledger k0 = k_ledger k"
      "k_property k0 = k_property k" "k_from k0 = k_from k" "k_to k0 = k_to k" "\<not> k_released k0"
      using a(4) by auto
    from orig[OF a(2)] obtain k1 where k1: "(j, k1) \<in> set ?t" "k_ledger k1 = k_ledger k'"
      "k_property k1 = k_property k'" "k_from k1 = k_from k'" "k_to k1 = k_to k'"
      "\<not> k_released k' \<longrightarrow> \<not> k_released k1"
      by auto
    have "\<not> overlaps (k_ledger k0) (k_property k0) (k_from k0) (k_to k0) k1"
      using k0 k1 a(3,5,6) by (intro locks_okD[OF ok k0(1) k1(1)]) simp_all
    then show ?thesis using k0 k1 by (auto simp: overlaps_def)
  qed
  ultimately show ?thesis
    using ok k d unfolding locks_ok_def by auto
qed

lemma create_lock_ok:
  assumes "locks_ok db" and "create_lock db user lid pid f t reason source st = Inr (db', kid)"
  shows "locks_ok db'"
proof -
  define row where "row = \<lparr>k_ledger = lid, k_property = pid, k_from = f, k_to = t, k_source = source,
    k_statement = st, k_reason = reason, k_created_by = user, k_released = False,
    k_released_by = None, k_release_reason = None, k_requested_by = None, k_request_reason = None\<rparr>"
  from assms(2) have "f \<le> t" "\<not> has_overlap db lid pid f t"
    and db': "db' = db\<lparr>period_locks := AList.update (next_id db) row (period_locks db), next_id := next_id db + 1\<rparr>"
    by (auto simp: create_lock_def Let_def row_def split: if_splits)
  then show ?thesis
    unfolding db' by (intro locks_okI_new[OF assms(1)]) (simp_all add: row_def lock_row_ok_def)
qed

lemma active_lock_Inr: "active_lock db kid = Inr row \<longleftrightarrow> map_of (period_locks db) kid = Some row \<and> \<not> k_released row"
  by (auto simp: active_lock_def res_simps)

lemma locks_ok_row: "locks_ok db \<Longrightarrow> map_of (period_locks db) kid = Some row \<Longrightarrow> lock_row_ok row"
  unfolding locks_ok_def by (auto dest!: map_of_SomeD)

lemma lock_step_ok:
  assumes "locks_ok db" and "lock_step db db'"
  shows "locks_ok db'"
  using assms(2)
proof (cases rule: lock_step.cases)
  case (setting mode auto reopen)
  then obtain t where "db' = db\<lparr>setting := Some t\<rparr>"
    by (auto simp: update_setting_def Let_def split: if_splits)
  then show ?thesis using assms(1) by (simp add: locks_ok_def)
next
  case create
  then show ?thesis by (rule create_lock_ok[OF assms(1)])
next
  case (close user source st lid pid f t r)
  then show ?thesis
    using assms(1) create_lock_ok
    by (auto simp: lock_for_closed_statement_def res_simps split: option.splits if_splits prod.splits)
next
  case (request kid user reason)
  then obtain row where row: "map_of (period_locks db) kid = Some row" "\<not> k_released row"
    and db': "db' = db\<lparr>period_locks := AList.update kid
      (row\<lparr>k_requested_by := user, k_request_reason := Some reason\<rparr>) (period_locks db)\<rparr>"
    by (auto simp: request_release_def active_lock_Inr res_simps split: if_splits)
  then show ?thesis
    unfolding db' using locks_ok_row[OF assms(1) row(1)]
    by (intro locks_okI_change[OF assms(1) row(1)]) (simp_all add: lock_row_ok_def)
next
  case (release kid user reason)
  then obtain row where row: "map_of (period_locks db) kid = Some row" "\<not> k_released row"
    and two: "k_requested_by row \<noteq> None" "user \<noteq> None" "user \<noteq> k_requested_by row"
    and db': "db' = db\<lparr>period_locks := AList.update kid
      (row\<lparr>k_released := True, k_released_by := user, k_release_reason := Some reason\<rparr>) (period_locks db)\<rparr>"
    by (auto simp: release_def active_lock_Inr res_simps split: if_splits)
  then show ?thesis
    unfolding db' using locks_ok_row[OF assms(1) row(1)]
    by (intro locks_okI_change[OF assms(1) row(1)]) (auto simp: lock_row_ok_def)
qed

interpretation locks: machine "\<lambda>db. period_locks db = []" lock_step locks_ok
  by unfold_locales (simp add: locks_ok_def, rule lock_step_ok)

text \<open>C14: Whatever sequence of changes of the switches, manual locks, closings, release requests and
  releases happens, the active locks of a ledger and property never overlap, no period is empty,
  and a lock that is released was requested by one person and released by another one.\<close>

theorem period_locks_invariant:
  assumes "lock_step\<^sup>*\<^sup>* db db'" and "period_locks db = []"
  shows "locks_ok db'"
  by (rule locks.inv_reach[OF assms(2,1)])

text \<open>A release never succeeds for the person who asked for it, nor while the switch is off,
  whatever the state of the locks.\<close>

lemma release_four_eyes:
  assumes "request_release db kid (Some user) r1 = Inr db1"
  shows "release db1 kid (Some user) r2 = Inl Gate_Four_Eyes \<and> release db1 kid None r2 = Inl Gate_Four_Eyes"
proof -
  from assms obtain row where "reopen_enabled db" "map_of (period_locks db) kid = Some row" "\<not> k_released row"
    and db1: "db1 = db\<lparr>period_locks := AList.update kid
      (row\<lparr>k_requested_by := Some user, k_request_reason := Some r1\<rparr>) (period_locks db)\<rparr>"
    by (auto simp: request_release_def active_lock_Inr res_simps split: if_splits)
  then have "active_lock db1 kid = Inr (row\<lparr>k_requested_by := Some user, k_request_reason := Some r1\<rparr>)"
    by (simp add: active_lock_Inr dict_simps)
  moreover have "reopen_enabled db1" using \<open>reopen_enabled db\<close> by (simp add: db1 reopen_enabled_def)
  ultimately show ?thesis by (simp add: release_def)
qed

text \<open>A state with one ledger and one property, object locks and releases switched on.\<close>

definition lock_db :: db where
  "lock_db = \<lparr>ledgers = [(1, \<lparr>g_property = Some 7, g_start_month = 1, g_locked_until = None\<rparr>)],
     accounts = [], entries = [], items = [], settlements = [], counters = [], unit_property = [],
     properties = [7], contract_property = [], invoice_entry = [], orders = [], approvals = [],
     reclass_entries = [], setting = Some \<lparr>t_lock_mode = ''object_period'', t_auto_lock = True, t_reopen = True\<rparr>,
     period_locks = [], next_id = 100\<rparr>"

definition locked_db :: db where
  "locked_db = (case create_lock lock_db (Some 5) 1 7 (Date 2024 1 1) (Date 2024 12 31) ''abc'' ''manual'' None of
     Inr (db', _) \<Rightarrow> db' | Inl _ \<Rightarrow> lock_db)"

theorem period_locks_invariant_witness:
  "period_locks locked_db \<noteq> [] \<and> locks_ok locked_db"
proof -
  have c: "create_lock lock_db (Some 5) 1 7 (Date 2024 1 1) (Date 2024 12 31) ''abc'' ''manual'' None =
      Inr (locked_db, 100)"
    by (simp add: locked_db_def create_lock_def lock_db_def has_overlap_def date_less_iff Let_def)
  then have "lock_step\<^sup>*\<^sup>* lock_db locked_db" by (intro r_into_rtranclp) (rule lock_step.create)
  then have "locks_ok locked_db" by (rule period_locks_invariant) (simp add: lock_db_def)
  moreover have "period_locks locked_db \<noteq> []"
    by (simp add: locked_db_def create_lock_def lock_db_def has_overlap_def date_less_iff Let_def)
  ultimately show ?thesis by simp
qed

lemma release_four_eyes_witness:
  "\<exists>db1. request_release locked_db 100 (Some 5) ''abc'' = Inr db1 \<and>
     release db1 100 (Some 5) ''abc'' = Inl Gate_Four_Eyes"
proof -
  have "\<exists>db1. request_release locked_db 100 (Some 5) ''abc'' = Inr db1"
    by (simp add: request_release_def reopen_enabled_def active_lock_def fetch_def locked_db_def create_lock_def
        lock_db_def has_overlap_def date_less_iff Let_def)
  then show ?thesis using release_four_eyes by blast
qed

end
