(* ===== verification/Ledger.thy ===== *)
theory Ledger
  imports PeriodLock
begin

text \<open>
  Journal entries (\<open>mhvp/accounting/services.py\<close>, the object of a line in
  \<open>mhvp/accounting/line_property.py\<close> and the entry routes of \<open>mhvp/accounting/routers.py\<close>):
  drafts, posting with gapless numbers and open items, reversal, period lock. Every operation
  runs in one database transaction: a problem (\<open>Inl\<close>) leaves the database as it was.
\<close>

definition OPEN_ITEM_KINDS :: "entry_kind list" where
  "OPEN_ITEM_KINDS = [K_Receivable, K_Invoice, K_Custom, K_Opening_Balance, K_Statement_Result,
     K_Dunning_Fee, K_Interest]"

definition fiscal_year :: "ledger \<Rightarrow> date \<Rightarrow> int" where
  "fiscal_year ledger d = (if g_start_month ledger \<le> month d then year d else year d - 1)"

definition money_ok :: "dec \<Rightarrow> dec res" where
  "money_ok v = (if v < 0 \<or> v \<noteq> quantize round_half_even CENT v then Inl Validation else Inr v)"

definition check_line :: "line \<Rightarrow> unit res" where
  "check_line row =
     bindr (money_ok (l_debit row)) (\<lambda>_.
     bindr (money_ok (l_credit row)) (\<lambda>_.
       guardr ((0 < l_debit row) \<noteq> (0 < l_credit row)) Acc_Unbalanced))"

definition check_balanced :: "line list \<Rightarrow> unit res" where
  "check_balanced lns =
     (if length lns < 2 then Inl Acc_Unbalanced
      else bindr (mapr check_line lns) (\<lambda>_.
        guardr (sum_list (map l_debit lns) = sum_list (map l_credit lns)) Acc_Unbalanced))"

text \<open>The accounts of a set of ids: unknown ids first, then foreign ledgers, then inactive ones.\<close>

definition check_accounts :: "db \<Rightarrow> uid \<Rightarrow> uid list \<Rightarrow> unit res" where
  "check_accounts db lid ids =
     (if list_ex (\<lambda>i. map_of (accounts db) i = None) ids then Inl Resource_Not_Found
      else if list_ex (\<lambda>i. a_ledger (the (map_of (accounts db) i)) \<noteq> lid) ids then Inl Acc_Wrong_Entity
      else if list_ex (\<lambda>i. \<not> a_active (the (map_of (accounts db) i))) ids then Inl Validation
      else Inr ())"

section \<open>The object of a line\<close>

definition resolve_line :: "db \<Rightarrow> uid option \<Rightarrow> line \<Rightarrow> uid option res" where
  "resolve_line db contract_prop row =
     (let unit_prop = (case l_unit row of None \<Rightarrow> None | Some u \<Rightarrow> map_of (unit_property db) u)
      in case l_property row of
           Some p \<Rightarrow> if unit_prop \<noteq> None \<and> unit_prop \<noteq> Some p then Inl Validation else Inr (Some p)
         | None \<Rightarrow> Inr (if unit_prop \<noteq> None then unit_prop else contract_prop))"

definition resolve :: "db \<Rightarrow> uid option \<Rightarrow> line list \<Rightarrow> uid option list res" where
  "resolve db contract lns =
     (let unit_ids = List.map_filter l_unit lns; explicit = List.map_filter l_property lns;
          contract_prop = (case contract of None \<Rightarrow> None
            | Some c \<Rightarrow> (case map_of (contract_property db) c of None \<Rightarrow> None | Some p \<Rightarrow> p))
      in if list_ex (\<lambda>u. map_of (unit_property db) u = None) unit_ids then Inl Validation
         else if list_ex (\<lambda>p. p \<notin> set (properties db)) explicit then Inl Validation
         else mapr (resolve_line db contract_prop) lns)"

section \<open>Drafts\<close>

definition check_plan :: "plan \<Rightarrow> plan res" where
  "check_plan p = bindr (money_ok (p_amount p)) (\<lambda>v. Inr (p\<lparr>p_amount := v\<rparr>))"

definition write_draft :: "db \<Rightarrow> uid \<Rightarrow> uid \<Rightarrow> entry \<Rightarrow> line list \<Rightarrow> plan list \<Rightarrow> db res" where
  "write_draft db lid eid e lns settlement_plan =
     bindr (check_balanced lns) (\<lambda>_.
     bindr (check_accounts db lid (map l_account lns)) (\<lambda>_.
     bindr (mapr check_plan settlement_plan) (\<lambda>ps.
     bindr (resolve db (e_contract e) lns) (\<lambda>props.
       Inr (db\<lparr>entries := AList.update eid
         (e\<lparr>e_plan := ps, e_lines := map2 (\<lambda>row p. row\<lparr>l_property := p\<rparr>) lns props\<rparr>) (entries db)\<rparr>)))))"

section \<open>Posting\<close>

definition ensure_open_period :: "ledger \<Rightarrow> date \<Rightarrow> unit res" where
  "ensure_open_period ledger d =
     (case g_locked_until ledger of
        None \<Rightarrow> Inr ()
      | Some u \<Rightarrow> if d \<le> u then Inl Acc_Period_Locked else Inr ())"

definition next_number :: "db \<Rightarrow> uid \<Rightarrow> int \<Rightarrow> db \<times> int" where
  "next_number db lid y =
     (let n = dict_get (counters db) (lid, y) 0 + 1
      in (db\<lparr>counters := AList.update (lid, y) n (counters db)\<rparr>, n))"

definition settled :: "settlement list \<Rightarrow> date option \<Rightarrow> uid \<Rightarrow> dec" where
  "settled ss as_of iid =
     sum_list (map s_amount (filter (\<lambda>s. s_item s = iid \<and>
       (case as_of of None \<Rightarrow> True | Some d \<Rightarrow> s_date s \<le> d)) ss))"

definition remaining :: "db \<Rightarrow> uid \<Rightarrow> date option \<Rightarrow> dec res" where
  "remaining db iid as_of =
     bindr (fetch (items db) iid Resource_Not_Found) (\<lambda>i.
       Inr (i_amount i - settled (settlements db) as_of iid))"

text \<open>Movements of an entry per account, in the order of the accounts' first lines.\<close>

definition by_account :: "line list \<Rightarrow> (uid, dec \<times> dec) dict" where
  "by_account lns =
     foldl (\<lambda>m row. AList.update (l_account row)
       (case dict_get m (l_account row) (0, 0) of (d, c) \<Rightarrow> (d + l_debit row, c + l_credit row)) m) [] lns"

definition item_of :: "entry_kind \<Rightarrow> account_category \<Rightarrow> dec \<Rightarrow> dec \<Rightarrow> (dec \<times> item_kind) option" where
  "item_of kind cat d c =
     (let reclass = (kind = K_Credit_Reclass)
      in if kind \<in> set OPEN_ITEM_KINDS \<or> reclass then
           (if cat = Cat_Debtor \<and> c < d \<and> \<not> reclass then Some (d - c, Item_Receivable)
            else if cat = Cat_Creditor \<and> d < c then Some (c - d, Item_Payable)
            else None)
         else None)"

definition category_of :: "db \<Rightarrow> uid \<Rightarrow> account_category" where
  "category_of db a = a_category (the (map_of (accounts db) a))"

definition create_item :: "uid \<Rightarrow> uid \<Rightarrow> entry \<Rightarrow> db \<Rightarrow> uid \<times> dec \<times> dec \<Rightarrow> db" where
  "create_item lid eid e db m =
     (case m of (acc, d, c) \<Rightarrow>
       (case item_of (e_kind e) (category_of db acc) d c of
          None \<Rightarrow> db
        | Some (amount, kind) \<Rightarrow>
            db\<lparr>items := AList.update (next_id db)
                 \<lparr>i_ledger = lid, i_account = acc, i_entry = eid, i_kind = kind,
                  i_booking_date = e_booking_date e,
                  i_due_date = (case e_due_date e of Some d \<Rightarrow> d | None \<Rightarrow> e_booking_date e),
                  i_amount = amount, i_contract = e_contract e\<rparr> (items db),
               next_id := next_id db + 1\<rparr>))"

text \<open>One entry of the settlement plan: never more than the entry moves on the account of the item,
  never more than the item has left.\<close>

definition apply_plan ::
  "uid \<Rightarrow> uid \<Rightarrow> entry \<Rightarrow> (uid, dec \<times> dec) dict \<Rightarrow> db \<times> (uid, dec) dict \<Rightarrow> plan \<Rightarrow> (db \<times> (uid, dec) dict) res" where
  "apply_plan lid eid e moved st p =
     (case st of (db, used) \<Rightarrow>
       bindr (fetch (items db) (p_item p) Resource_Not_Found) (\<lambda>i.
       if i_ledger i \<noteq> lid then Inl Acc_Wrong_Entity
       else let (d, c) = dict_get moved (i_account i) (0, 0);
                movable = (if i_kind i = Item_Receivable then c - d else d - c);
                used' = AList.update (i_account i) (dict_get used (i_account i) 0 + p_amount p) used
            in if movable \<le> 0 \<or> movable < dict_get used' (i_account i) 0 then Inl Validation
               else bindr (remaining db (p_item p) None) (\<lambda>rest.
                 if p_amount p \<le> 0 \<or> rest < p_amount p then Inl Validation
                 else Inr (db\<lparr>settlements := settlements db @
                   [\<lparr>s_item = p_item p, s_entry = eid, s_amount = p_amount p, s_date = e_booking_date e\<rparr>]\<rparr>, used'))))"

definition apply_open_items :: "db \<Rightarrow> uid \<Rightarrow> uid \<Rightarrow> entry \<Rightarrow> db res" where
  "apply_open_items db lid eid e =
     (let moved = by_account (e_lines e);
          db1 = foldl (create_item lid eid e) db moved
      in bindr (foldr_res (apply_plan lid eid e moved) (db1, []) (e_plan e)) (\<lambda>st. Inr (fst st)))"

definition put_entry :: "db \<Rightarrow> uid \<Rightarrow> entry \<Rightarrow> db" where
  "put_entry db eid e = db\<lparr>entries := AList.update eid e (entries db)\<rparr>"

definition post :: "db \<Rightarrow> uid \<Rightarrow> ledger \<Rightarrow> uid \<Rightarrow> entry \<Rightarrow> uid option \<Rightarrow> db res" where
  "post db lid ledger eid e user =
     (if e_status e = Posted then Inr db
      else
        bindr (ensure_open_period ledger (e_booking_date e)) (\<lambda>_.
        bindr (ensure_open_for_entry db lid ledger (e_lines e) (e_booking_date e)) (\<lambda>_.
        if e_kind e = K_Opening_Balance \<and> e_approved_by e = None then Inl Gate_Four_Eyes
        else
          bindr (check_balanced (e_lines e)) (\<lambda>_.
          bindr (check_accounts db lid (map l_account (e_lines e))) (\<lambda>_.
            (let y = fiscal_year ledger (e_booking_date e);
                 (db1, n) = next_number db lid y;
                 e' = e\<lparr>e_year := Some y, e_number := Some n, e_status := Posted, e_posted_by := user\<rparr>
             in apply_open_items (put_entry db1 eid e') lid eid e'))))))"

section \<open>Reversal\<close>

definition open_order_states :: "order_status list" where
  "open_order_states = [Ord_Draft, Ord_Approved, Ord_Exported, Ord_Submitted, Ord_Accepted_By_Bank]"

text \<open>Payment orders that still wait on the items or the invoices of an entry.\<close>

definition orders_of_entry :: "db \<Rightarrow> uid \<Rightarrow> uid list \<Rightarrow> (uid \<times> payment_order) list res" where
  "orders_of_entry db eid item_ids =
     (let found = filter (\<lambda>(_, o').
            ((case o_invoice o' of None \<Rightarrow> False | Some v \<Rightarrow> map_of (invoice_entry db) v = Some (Some eid)) \<or>
             (case o_item o' of None \<Rightarrow> False | Some i \<Rightarrow> i \<in> set item_ids)) \<and>
            o_status o' \<in> set open_order_states) (orders db)
      in if list_ex (\<lambda>(_, o'). o_status o' \<notin> {Ord_Draft, Ord_Approved}) found then Inl Conflict
         else Inr found)"

text \<open>\<open>payments.invalidate\<close>: the approvals of the order lapse, an approved order falls back to draft.\<close>

definition invalidate :: "db \<Rightarrow> uid \<Rightarrow> db" where
  "invalidate db oid =
     db\<lparr>approvals := map (\<lambda>(i, v). (i, if v_order v = oid then v\<lparr>v_invalidated := True\<rparr> else v)) (approvals db),
        orders := map (\<lambda>(i, o'). (i, if i = oid \<and> o_status o' = Ord_Approved
          then o'\<lparr>o_status := Ord_Draft\<rparr> else o')) (orders db)\<rparr>"

definition cancel_orders :: "db \<Rightarrow> uid list \<Rightarrow> db" where
  "cancel_orders db oids =
     foldl (\<lambda>db oid. invalidate (db\<lparr>orders := map (\<lambda>(i, o'). (i, if i = oid
       then o'\<lparr>o_status := Ord_Cancelled\<rparr> else o')) (orders db)\<rparr>) oid) db oids"

definition swap_line :: "line \<Rightarrow> line" where
  "swap_line row = row\<lparr>l_debit := l_credit row, l_credit := l_debit row\<rparr>"

definition items_of_entry :: "db \<Rightarrow> uid \<Rightarrow> (uid \<times> open_item) list" where
  "items_of_entry db eid = filter (\<lambda>(_, i). i_entry i = eid) (items db)"

definition reversal_of :: "uid \<Rightarrow> entry \<Rightarrow> uid option \<Rightarrow> string \<Rightarrow> date \<Rightarrow> entry" where
  "reversal_of eid e user reason booking_date =
     \<lparr>e_ledger = e_ledger e, e_status = Draft, e_year = None, e_number = None,
      e_booking_date = booking_date, e_value_date = e_value_date e, e_due_date = None,
      e_accrual_date = Some (case e_accrual_date e of Some d \<Rightarrow> d | None \<Rightarrow> e_booking_date e),
      e_kind = K_Reversal, e_contract = e_contract e, e_reverses = Some eid, e_reversed_by = None,
      e_reason = Some reason, e_key = None, e_plan = [], e_created_by = user, e_posted_by = None,
      e_approved_by = None, e_lines = []\<rparr>"

definition reverse_settlements :: "settlement list \<Rightarrow> uid \<Rightarrow> uid \<Rightarrow> date \<Rightarrow> (uid \<times> open_item) list \<Rightarrow> settlement list" where
  "reverse_settlements ss eid rid d own =
     map (\<lambda>(iid, i). \<lparr>s_item = iid, s_entry = rid, s_amount = i_amount i, s_date = d\<rparr>) own @
     map (\<lambda>s. \<lparr>s_item = s_item s, s_entry = rid, s_amount = - s_amount s, s_date = d\<rparr>)
       (filter (\<lambda>s. s_entry s = eid) ss)"

text \<open>The part of \<open>reverse\<close> behind its guards: \<open>own\<close> are the items of the entry, \<open>ords\<close> the
  payment orders to cancel.\<close>

definition book_reversal ::
  "db \<Rightarrow> uid \<Rightarrow> ledger \<Rightarrow> uid \<Rightarrow> entry \<Rightarrow> uid option \<Rightarrow> string \<Rightarrow> date \<Rightarrow> (uid \<times> open_item) list \<Rightarrow> uid list \<Rightarrow>
   (db \<times> uid) res" where
  "book_reversal db lid ledger eid e user reason booking_date own ords =
     (let rid = next_id db in
      bindr (write_draft (db\<lparr>next_id := rid + 1\<rparr>) lid rid (reversal_of eid e user reason booking_date)
        (map swap_line (e_lines e)) []) (\<lambda>db1.
      bindr (fetch (entries db1) rid Resource_Not_Found) (\<lambda>rv.
      (let y = fiscal_year ledger booking_date;
           (db2, n) = next_number db1 lid y;
           db3 = put_entry db2 rid
             (rv\<lparr>e_year := Some y, e_number := Some n, e_status := Posted, e_posted_by := user\<rparr>);
           db4 = db3\<lparr>settlements := settlements db3 @
             reverse_settlements (settlements db3) eid rid booking_date own\<rparr>;
           db5 = put_entry db4 eid (e\<lparr>e_reversed_by := Some rid\<rparr>)
       in Inr (cancel_orders db5 ords, rid)))))"

definition reverse_entry ::
  "db \<Rightarrow> uid \<Rightarrow> ledger \<Rightarrow> uid \<Rightarrow> entry \<Rightarrow> uid option \<Rightarrow> string \<Rightarrow> date \<Rightarrow> (db \<times> uid) res" where
  "reverse_entry db lid ledger eid e user reason booking_date =
     (if e_status e \<noteq> Posted then Inl Conflict
      else if e_reversed_by e \<noteq> None \<or> e_kind e = K_Reversal then Inl Conflict
      else
        bindr (ensure_open_period ledger booking_date) (\<lambda>_.
        bindr (ensure_open_for_entry db lid ledger (e_lines e) booking_date) (\<lambda>_.
        if booking_date < e_booking_date e then Inl Validation
        else if list_ex (\<lambda>(iid, i). remaining db iid None \<noteq> Inr (i_amount i)) (items_of_entry db eid)
          then Inl Conflict
        else
          bindr (orders_of_entry db eid (map fst (items_of_entry db eid))) (\<lambda>ords.
            book_reversal db lid ledger eid e user reason booking_date (items_of_entry db eid) (map fst ords)))))"

section \<open>Period lock and dates\<close>

text \<open>Returns the number of drafts left in the locked period.\<close>

definition lock_period :: "db \<Rightarrow> uid \<Rightarrow> ledger \<Rightarrow> date \<Rightarrow> (db \<times> nat) res" where
  "lock_period db lid ledger until =
     (if (case g_locked_until ledger of None \<Rightarrow> False | Some u \<Rightarrow> until < u) then Inl Conflict
      else Inr (db\<lparr>ledgers := AList.update lid (ledger\<lparr>g_locked_until := Some until\<rparr>) (ledgers db)\<rparr>,
        length (filter (\<lambda>(_, e). e_ledger e = lid \<and> e_status e = Draft \<and> e_booking_date e \<le> until) (entries db))))"

definition default_reversal_date :: "ledger \<Rightarrow> date \<Rightarrow> date" where
  "default_reversal_date ledger today =
     (case g_locked_until ledger of
        None \<Rightarrow> today
      | Some u \<Rightarrow> if today \<le> u then next_day u else today)"

section \<open>The entry routes\<close>

record entry_in =
  b_booking_date :: date
  b_value_date :: "date option"
  b_due_date :: "date option"
  b_accrual_date :: "date option"
  b_kind :: entry_kind
  b_contract :: "uid option"
  b_key :: "string option"
  b_lines :: "line list"
  b_plan :: "plan list"

definition get_entry :: "db \<Rightarrow> uid \<Rightarrow> uid \<Rightarrow> entry res" where
  "get_entry db lid eid =
     bindr (fetch (entries db) eid Resource_Not_Found) (\<lambda>e.
       if e_ledger e = lid then Inr e else Inl Resource_Not_Found)"

definition get_ledger :: "db \<Rightarrow> uid \<Rightarrow> ledger res" where
  "get_ledger db lid = fetch (ledgers db) lid Resource_Not_Found"

definition create_entry_route :: "db \<Rightarrow> uid \<Rightarrow> entry_in \<Rightarrow> uid option \<Rightarrow> (db \<times> uid) res" where
  "create_entry_route db lid body user =
     (if b_kind body = K_Reversal then Inl Validation
      else bindr (get_ledger db lid) (\<lambda>ledger.
        case (if b_key body = None \<or> b_key body = Some [] then None
              else find (\<lambda>(_, e). e_ledger e = lid \<and> e_key e = b_key body) (entries db)) of
          Some (eid, _) \<Rightarrow> Inr (db, eid)
        | None \<Rightarrow>
            (let eid = next_id db;
                 e = \<lparr>e_ledger = lid, e_status = Draft, e_year = None, e_number = None,
                   e_booking_date = b_booking_date body, e_value_date = b_value_date body,
                   e_due_date = b_due_date body, e_accrual_date = b_accrual_date body,
                   e_kind = b_kind body, e_contract = b_contract body, e_reverses = None,
                   e_reversed_by = None, e_reason = None, e_key = b_key body, e_plan = [],
                   e_created_by = user, e_posted_by = None, e_approved_by = None, e_lines = []\<rparr>
             in bindr (write_draft (db\<lparr>next_id := eid + 1\<rparr>) lid eid e (b_lines body) (b_plan body))
                  (\<lambda>db'. Inr (db', eid)))))"

text \<open>A change of the draft voids its approval.\<close>

definition update_entry_route :: "db \<Rightarrow> uid \<Rightarrow> uid \<Rightarrow> entry_in \<Rightarrow> db res" where
  "update_entry_route db lid eid body =
     bindr (get_ledger db lid) (\<lambda>ledger.
     bindr (get_entry db lid eid) (\<lambda>e.
       if e_status e = Posted then Inl Acc_Posted_Immutable
       else if b_kind body = K_Reversal then Inl Validation
       else write_draft db lid eid
         (e\<lparr>e_booking_date := b_booking_date body, e_value_date := b_value_date body,
            e_due_date := b_due_date body, e_accrual_date := b_accrual_date body, e_kind := b_kind body,
            e_contract := b_contract body, e_approved_by := None\<rparr>) (b_lines body) (b_plan body)))"

definition delete_entry_route :: "db \<Rightarrow> uid \<Rightarrow> uid \<Rightarrow> db res" where
  "delete_entry_route db lid eid =
     bindr (get_ledger db lid) (\<lambda>ledger.
     bindr (get_entry db lid eid) (\<lambda>e.
       if e_status e = Posted then Inl Acc_Posted_Immutable
       else if eid \<in> set (reclass_entries db) then Inl Conflict
       else Inr (db\<lparr>entries := AList.delete eid (entries db)\<rparr>)))"

definition approve_entry_route :: "db \<Rightarrow> uid \<Rightarrow> uid \<Rightarrow> uid \<Rightarrow> bool \<Rightarrow> db res" where
  "approve_entry_route db lid eid user platform_admin =
     bindr (get_ledger db lid) (\<lambda>ledger.
     bindr (get_entry db lid eid) (\<lambda>e.
       if e_status e = Posted then Inl Acc_Posted_Immutable
       else if e_created_by e = Some user \<or> platform_admin then Inl Gate_Four_Eyes
       else Inr (put_entry db eid (e\<lparr>e_approved_by := Some user\<rparr>))))"

definition post_entry_route :: "db \<Rightarrow> uid \<Rightarrow> uid \<Rightarrow> uid option \<Rightarrow> db res" where
  "post_entry_route db lid eid user =
     bindr (get_ledger db lid) (\<lambda>ledger.
     bindr (get_entry db lid eid) (\<lambda>e. post db lid ledger eid e user))"

definition reverse_entry_route ::
  "db \<Rightarrow> uid \<Rightarrow> uid \<Rightarrow> uid option \<Rightarrow> string \<Rightarrow> date option \<Rightarrow> date \<Rightarrow> (db \<times> uid) res" where
  "reverse_entry_route db lid eid user reason booking_date today =
     bindr (get_ledger db lid) (\<lambda>ledger.
     bindr (get_entry db lid eid) (\<lambda>e.
       reverse_entry db lid ledger eid e user reason
         (case booking_date of Some d \<Rightarrow> d | None \<Rightarrow> default_reversal_date ledger today)))"

definition lock_route :: "db \<Rightarrow> uid \<Rightarrow> date \<Rightarrow> (db \<times> nat) res" where
  "lock_route db lid until = bindr (get_ledger db lid) (\<lambda>ledger. lock_period db lid ledger until)"

section \<open>Steps\<close>

text \<open>
  The transactions of the routes. Two other writers are no steps: the opening balance of a migration
  (\<open>imports/migration.py\<close>), which posts with its releaser as approver, and the payable added to a debtor account
  (\<open>accounting/credit_payables.py\<close>), which is modelled on its own in \<open>LedgerSubledger\<close>.
\<close>

inductive ledger_step :: "db \<Rightarrow> db \<Rightarrow> bool" where
  create: "create_entry_route db lid body user = Inr (db', eid) \<Longrightarrow> ledger_step db db'"
| update: "update_entry_route db lid eid body = Inr db' \<Longrightarrow> ledger_step db db'"
| delete: "delete_entry_route db lid eid = Inr db' \<Longrightarrow> ledger_step db db'"
| approve: "approve_entry_route db lid eid user admin = Inr db' \<Longrightarrow> ledger_step db db'"
| post: "post_entry_route db lid eid user = Inr db' \<Longrightarrow> ledger_step db db'"
| reverse: "reverse_entry_route db lid eid user reason booking_date today = Inr (db', rid) \<Longrightarrow> ledger_step db db'"
| lock: "lock_route db lid until = Inr (db', n) \<Longrightarrow> ledger_step db db'"
| object_lock: "lock_step db db' \<Longrightarrow> ledger_step db db'"

text \<open>A database with master data and no bookings yet.\<close>

definition fresh_db :: "db \<Rightarrow> bool" where
  "fresh_db db \<longleftrightarrow> entries db = [] \<and> items db = [] \<and> settlements db = [] \<and> counters db = []"

end
