(* ===== verification/LedgerEffects.thy ===== *)
theory LedgerEffects
  imports Ledger
begin

text \<open>
  What a successful operation of the ledger has checked and changed, stated once per operation:
  \<open>write_draft_effect\<close>, \<open>post_effect\<close> (with the relation \<open>posts\<close>) and \<open>reverse_effect\<close> (with the
  relation \<open>reverses\<close>). The invariant of the ledger is proved over these relations only.
\<close>

section \<open>What the checks of a draft and of the accounts establish\<close>

definition line_ok :: "line \<Rightarrow> bool" where
  "line_ok row \<longleftrightarrow> 0 \<le> l_debit row \<and> 0 \<le> l_credit row \<and> is_cents (l_debit row) \<and> is_cents (l_credit row) \<and>
     (0 < l_debit row) \<noteq> (0 < l_credit row)"

definition balanced :: "line list \<Rightarrow> bool" where
  "balanced lns \<longleftrightarrow> 2 \<le> length lns \<and> list_all line_ok lns \<and>
     sum_list (map l_debit lns) = sum_list (map l_credit lns)"

lemma money_ok_iff: "money_ok v = Inr w \<longleftrightarrow> w = v \<and> 0 \<le> v \<and> is_cents v"
  by (auto simp: money_ok_def quantize_cent_iff)

lemma check_line_iff: "check_line row = Inr u \<longleftrightarrow> line_ok row"
  by (auto simp: check_line_def res_simps money_ok_iff line_ok_def)

lemma mapr_unit_iff: "(\<exists>us. mapr f xs = Inr (us :: unit list)) \<longleftrightarrow> (\<forall>x \<in> set xs. f x = Inr ())"
  by (induction xs) (auto simp: res_simps)

lemma check_balanced_iff: "check_balanced lns = Inr u \<longleftrightarrow> balanced lns"
  by (auto simp: check_balanced_def balanced_def res_simps mapr_unit_iff check_line_iff list_all_iff)

text \<open>Posting, balances and items only look at the account and the two sides of a line.\<close>

definition core :: "line \<Rightarrow> uid \<times> dec \<times> dec" where
  "core row = (l_account row, l_debit row, l_credit row)"

lemma core_maps:
  assumes "map core lns = map core lns'"
  shows "map l_account lns = map l_account lns'" "map l_debit lns = map l_debit lns'"
    "map l_credit lns = map l_credit lns'"
proof -
  have "map (f \<circ> core) lns = map (f \<circ> core) lns'" for f :: "uid \<times> dec \<times> dec \<Rightarrow> 'x"
    using assms by (metis map_map)
  from this[of fst] this[of "fst \<circ> snd"] this[of "snd \<circ> snd"]
  show "map l_account lns = map l_account lns'" "map l_debit lns = map l_debit lns'"
    "map l_credit lns = map l_credit lns'" by (simp_all add: comp_def core_def)
qed

lemma balanced_core:
  assumes "map core lns = map core lns'"
  shows "balanced lns = balanced lns'"
proof -
  have "list_all line_ok xs = list_all (\<lambda>(a, d, c). 0 \<le> d \<and> 0 \<le> c \<and> is_cents d \<and> is_cents c \<and> (0 < d) \<noteq> (0 < c))
      (map core xs)" for xs
    by (induction xs) (auto simp: line_ok_def core_def)
  then show ?thesis
    unfolding balanced_def core_maps[OF assms] map_eq_imp_length_eq[OF assms] by (simp only: assms)
qed

lemma balanced_swap: "balanced (map swap_line lns) = balanced lns"
  by (auto simp: balanced_def list_all_iff line_ok_def swap_line_def comp_def)

definition accounts_of :: "db \<Rightarrow> uid \<Rightarrow> line list \<Rightarrow> bool" where
  "accounts_of db lid lns \<longleftrightarrow>
     list_all (\<lambda>row. case map_of (accounts db) (l_account row) of None \<Rightarrow> False | Some a \<Rightarrow> a_ledger a = lid) lns"

lemma accounts_of_core: "map core lns = map core lns' \<Longrightarrow> accounts_of db lid lns = accounts_of db lid lns'"
proof -
  assume a: "map core lns = map core lns'"
  have "accounts_of db lid xs = list_all (\<lambda>i. case map_of (accounts db) i of None \<Rightarrow> False | Some a \<Rightarrow> a_ledger a = lid)
      (map l_account xs)" for xs
    by (auto simp: accounts_of_def list_all_iff)
  then show ?thesis using core_maps(1)[OF a] by simp
qed

lemma accounts_of_swap: "accounts_of db lid (map swap_line lns) = accounts_of db lid lns"
  by (simp add: accounts_of_def list_all_iff swap_line_def)

lemma check_accounts_imp: "check_accounts db lid (map l_account lns) = Inr u \<Longrightarrow> accounts_of db lid lns"
  by (auto simp: check_accounts_def accounts_of_def list_all_iff list_ex_iff split: if_splits option.splits)

text \<open>A line with a unit carries the object of the unit.\<close>

definition property_ok :: "db \<Rightarrow> line \<Rightarrow> bool" where
  "property_ok db row \<longleftrightarrow>
     (\<forall>u. l_unit row = Some u \<longrightarrow> (\<exists>p. map_of (unit_property db) u = Some p \<and> l_property row = Some p))"

lemma resolve_property_ok:
  assumes "resolve db c lns = Inr props"
  shows "list_all (property_ok db) (map2 (\<lambda>row p. row\<lparr>l_property := p\<rparr>) lns props)"
proof -
  from assms obtain cp where l2: "list_all2 (\<lambda>row p. resolve_line db cp row = Inr p) lns props"
    and u: "\<forall>row \<in> set lns. \<forall>u. l_unit row = Some u \<longrightarrow> map_of (unit_property db) u \<noteq> None"
    by (auto simp: resolve_def Let_def mapr_eq_Inr list_ex_iff List.map_filter_def split: if_splits) force
  have "property_ok db (row\<lparr>l_property := p\<rparr>)"
    if "resolve_line db cp row = Inr p" "\<forall>u. l_unit row = Some u \<longrightarrow> map_of (unit_property db) u \<noteq> None" for row p
  proof -
    have "\<forall>u. l_unit row = Some u \<longrightarrow> (\<exists>p. map_of (unit_property db) u = Some p)" using that(2) by auto
    then show ?thesis
      using that(1) unfolding property_ok_def resolve_line_def Let_def
      by (cases "l_property row"; cases "l_unit row"; auto split: if_splits; metis)
  qed
  with l2 u show ?thesis by (induction rule: list_all2_induct) auto
qed

lemma write_draft_effect:
  assumes "write_draft db lid eid e lns ps = Inr db'"
  obtains ps' lns' where "db' = db\<lparr>entries := AList.update eid (e\<lparr>e_plan := ps', e_lines := lns'\<rparr>) (entries db)\<rparr>"
    and "balanced lns'" and "accounts_of db lid lns'" and "map core lns' = map core lns"
    and "list_all (property_ok db) lns'"
proof -
  from assms obtain ps' props where b: "balanced lns" and a: "accounts_of db lid lns"
    and r: "resolve db (e_contract e) lns = Inr props"
    and db': "db' = db\<lparr>entries := AList.update eid
      (e\<lparr>e_plan := ps', e_lines := map2 (\<lambda>row p. row\<lparr>l_property := p\<rparr>) lns props\<rparr>) (entries db)\<rparr>"
    by (auto simp: write_draft_def res_simps check_balanced_iff dest: check_accounts_imp)
  from r have "length lns = length props"
    by (auto simp: resolve_def Let_def mapr_eq_Inr dest: list_all2_lengthD split: if_splits)
  then have c: "map core (map2 (\<lambda>row p. row\<lparr>l_property := p\<rparr>) lns props) = map core lns"
    by (induction lns props rule: list_induct2) (auto simp: core_def)
  show thesis
    using that[OF db' _ _ c resolve_property_ok[OF r]] a b balanced_core[OF c] accounts_of_core[OF c] by simp
qed

section \<open>What posting does to the open items\<close>

text \<open>An item as posting creates it from the movements of the entry.\<close>

definition item_from :: "db \<Rightarrow> uid \<Rightarrow> uid \<Rightarrow> entry \<Rightarrow> (uid \<times> dec \<times> dec) set \<Rightarrow> open_item \<Rightarrow> bool" where
  "item_from db lid eid e moved i \<longleftrightarrow>
     i_ledger i = lid \<and> i_entry i = eid \<and> i_booking_date i = e_booking_date e \<and>
     (\<exists>d c. (i_account i, d, c) \<in> moved \<and>
        item_of (e_kind e) (category_of db (i_account i)) d c = Some (i_amount i, i_kind i))"

lemma item_from_mono: "item_from db lid eid e A i \<Longrightarrow> A \<subseteq> B \<Longrightarrow> item_from db lid eid e B i"
  by (auto simp: item_from_def)

lemma create_items_effect:
  assumes "\<forall>k \<in> fst ` set (items db). k < next_id db" and "distinct (map fst moved)"
  shows "\<exists>its. foldl (create_item lid eid e) db moved = db\<lparr>items := items db @ its, next_id := next_id db + length its\<rparr> \<and>
    map fst its = [next_id db ..< next_id db + length its] \<and> distinct (map (i_account \<circ> snd) its) \<and>
    (\<forall>ki \<in> set its. item_from db lid eid e (set moved) (snd ki))"
  using assms
proof (induction moved arbitrary: db)
  case Nil
  show ?case by (rule exI[of _ "[]"]) simp
next
  case (Cons m moved)
  obtain acc d c where m: "m = (acc, d, c)" by (cases m)
  show ?case
  proof (cases "item_of (e_kind e) (category_of db acc) d c")
    case None
    then have step: "create_item lid eid e db m = db" by (simp add: m create_item_def)
    have "distinct (map fst moved)" using Cons.prems(2) by simp
    from Cons.IH[OF Cons.prems(1) this] obtain its where
      "foldl (create_item lid eid e) db moved = db\<lparr>items := items db @ its, next_id := next_id db + length its\<rparr>"
      "map fst its = [next_id db ..< next_id db + length its]" "distinct (map (i_account \<circ> snd) its)"
      "\<forall>ki \<in> set its. item_from db lid eid e (set moved) (snd ki)" by blast
    moreover from this(4) have "\<forall>ki \<in> set its. item_from db lid eid e (set (m # moved)) (snd ki)"
      by (auto intro: item_from_mono)
    ultimately show ?thesis unfolding foldl.simps step by blast
  next
    case (Some ak)
    obtain amount kind where ak: "ak = (amount, kind)" by (cases ak)
    let ?new = "\<lparr>i_ledger = lid, i_account = acc, i_entry = eid, i_kind = kind,
                  i_booking_date = e_booking_date e,
                  i_due_date = (case e_due_date e of Some d \<Rightarrow> d | None \<Rightarrow> e_booking_date e),
                  i_amount = amount, i_contract = e_contract e\<rparr>"
    let ?db = "db\<lparr>items := items db @ [(next_id db, ?new)], next_id := next_id db + 1\<rparr>"
    have "next_id db \<notin> fst ` set (items db)" using Cons.prems(1) by fastforce
    then have step: "create_item lid eid e db m = ?db"
      using Some by (simp add: m ak create_item_def update_new)
    have "\<forall>k \<in> fst ` set (items ?db). k < next_id ?db" using Cons.prems(1) by (auto simp: less_Suc_eq)
    moreover have "distinct (map fst moved)" using Cons.prems(2) by simp
    ultimately obtain its where its: "foldl (create_item lid eid e) ?db moved =
        ?db\<lparr>items := items ?db @ its, next_id := next_id ?db + length its\<rparr>"
      "map fst its = [next_id ?db ..< next_id ?db + length its]" "distinct (map (i_account \<circ> snd) its)"
      "\<forall>ki \<in> set its. item_from ?db lid eid e (set moved) (snd ki)"
      using Cons.IH by blast
    have "acc \<notin> fst ` set moved" using Cons.prems(2) by (simp add: m)
    then have na: "acc \<notin> (i_account \<circ> snd) ` set its" using its(4) by (force simp: item_from_def)
    have cat: "category_of ?db = category_of db" by (simp add: category_of_def fun_eq_iff)
    have "item_from db lid eid e (set (m # moved)) ?new" using Some by (auto simp: item_from_def m ak)
    moreover have "\<forall>ki \<in> set its. item_from db lid eid e (set (m # moved)) (snd ki)"
    proof
      fix ki assume "ki \<in> set its"
      then have "item_from ?db lid eid e (set moved) (snd ki)" using its(4) by blast
      then have "item_from db lid eid e (set moved) (snd ki)" by (simp only: item_from_def cat)
      then show "item_from db lid eid e (set (m # moved)) (snd ki)" by (rule item_from_mono) auto
    qed
    ultimately have "\<forall>ki \<in> set ((next_id db, ?new) # its). item_from db lid eid e (set (m # moved)) (snd ki)"
      by simp
    moreover have "foldl (create_item lid eid e) db (m # moved) =
        db\<lparr>items := items db @ (next_id db, ?new) # its, next_id := next_id db + length ((next_id db, ?new) # its)\<rparr>"
      using its(1) by (simp add: step)
    moreover have "map fst ((next_id db, ?new) # its) = [next_id db ..< next_id db + length ((next_id db, ?new) # its)]"
      using its(2) upt_conv_Cons[of "next_id db" "next_id db + Suc (length its)"] by simp
    moreover have "distinct (map (i_account \<circ> snd) ((next_id db, ?new) # its))"
      using its(3) na by simp
    ultimately show ?thesis by blast
  qed
qed

text \<open>The settlement plan appends positive settlements of the entry, keeps every item settled at most
  to its amount, and uses no account beyond what the entry moves on it.\<close>

definition movable :: "(uid, dec \<times> dec) dict \<Rightarrow> open_item \<Rightarrow> dec" where
  "movable moved i =
     (case dict_get moved (i_account i) (0, 0) of (d, c) \<Rightarrow> if i_kind i = Item_Receivable then c - d else d - c)"

lemma apply_plan_effect:
  assumes "apply_plan lid eid e moved (db, used) p = Inr (db', used')"
  shows "\<exists>i. map_of (items db) (p_item p) = Some i \<and> i_ledger i = lid \<and> 0 < p_amount p \<and>
    p_amount p \<le> i_amount i - settled (settlements db) None (p_item p) \<and> 0 < movable moved i \<and>
    dict_get used (i_account i) 0 + p_amount p \<le> movable moved i \<and>
    used' = AList.update (i_account i) (dict_get used (i_account i) 0 + p_amount p) used \<and>
    db' = db\<lparr>settlements := settlements db @
      [\<lparr>s_item = p_item p, s_entry = eid, s_amount = p_amount p, s_date = e_booking_date e\<rparr>]\<rparr>"
proof -
  from assms obtain i where i: "map_of (items db) (p_item p) = Some i"
    by (auto simp: apply_plan_def res_simps)
  obtain d c where dc: "dict_get moved (i_account i) (0, 0) = (d, c)" by (cases "dict_get moved (i_account i) (0, 0)")
  show ?thesis
    using assms i unfolding apply_plan_def
    by (auto simp: res_simps Let_def dc movable_def remaining_def dict_simps not_le not_less split: if_splits)
qed

definition acc_sum :: "(uid, open_item) dict \<Rightarrow> settlement list \<Rightarrow> uid \<Rightarrow> dec" where
  "acc_sum its ss a =
     sum_list (map s_amount (filter (\<lambda>s. \<exists>i. map_of its (s_item s) = Some i \<and> i_account i = a) ss))"

lemma acc_sum_append [simp]: "acc_sum its (ss @ ts) a = acc_sum its ss a + acc_sum its ts a"
  by (simp add: acc_sum_def)

lemma settled_append [simp]: "settled (ss @ ts) d iid = settled ss d iid + settled ts d iid"
  by (simp add: settled_def)

lemma apply_plans_effect:
  assumes "foldr_res (apply_plan lid eid e moved) (db, used) ps = Inr (db', used')"
  shows "\<exists>ss. db' = db\<lparr>settlements := settlements db @ ss\<rparr> \<and>
    (\<forall>s \<in> set ss. s_entry s = eid \<and> s_date s = e_booking_date e \<and> 0 < s_amount s \<and>
       (\<exists>i. map_of (items db) (s_item s) = Some i \<and> i_ledger i = lid)) \<and>
    (\<forall>iid i. map_of (items db) iid = Some i \<and> settled (settlements db) None iid \<le> i_amount i \<longrightarrow>
       settled (settlements db @ ss) None iid \<le> i_amount i) \<and>
    (\<forall>a. dict_get used' a 0 = dict_get used a 0 + acc_sum (items db) ss a \<and>
       (acc_sum (items db) ss a \<noteq> 0 \<longrightarrow>
          (\<exists>iid i. map_of (items db) iid = Some i \<and> i_account i = a \<and> dict_get used' a 0 \<le> movable moved i)))"
  using assms
proof (induction ps arbitrary: db used)
  case Nil
  then show ?case by (intro exI[of _ "[]"]) (simp add: acc_sum_def)
next
  case (Cons p ps)
  from Cons.prems obtain st where "apply_plan lid eid e moved (db, used) p = Inr st"
    and rest: "foldr_res (apply_plan lid eid e moved) st ps = Inr (db', used')"
    by (auto simp: res_simps)
  moreover obtain db1 used1 where st: "st = (db1, used1)" by (cases st)
  ultimately have one: "apply_plan lid eid e moved (db, used) p = Inr (db1, used1)" by simp
  define s0 where "s0 = \<lparr>s_item = p_item p, s_entry = eid, s_amount = p_amount p, s_date = e_booking_date e\<rparr>"
  from apply_plan_effect[OF one] obtain i where
    i: "map_of (items db) (p_item p) = Some i" "i_ledger i = lid" "0 < p_amount p"
      "p_amount p \<le> i_amount i - settled (settlements db) None (p_item p)" "0 < movable moved i"
      "dict_get used (i_account i) 0 + p_amount p \<le> movable moved i"
    and used1: "used1 = AList.update (i_account i) (dict_get used (i_account i) 0 + p_amount p) used"
    and db1: "db1 = db\<lparr>settlements := settlements db @ [s0]\<rparr>"
    unfolding s0_def by blast
  from Cons.IH[OF rest[unfolded st]] obtain ss where
    ss: "db' = db1\<lparr>settlements := settlements db1 @ ss\<rparr>"
      "\<forall>s \<in> set ss. s_entry s = eid \<and> s_date s = e_booking_date e \<and> 0 < s_amount s \<and>
        (\<exists>i. map_of (items db) (s_item s) = Some i \<and> i_ledger i = lid)"
    and bound: "\<forall>iid i. map_of (items db) iid = Some i \<and> settled (settlements db @ [s0]) None iid \<le> i_amount i \<longrightarrow>
       settled ((settlements db @ [s0]) @ ss) None iid \<le> i_amount i"
    and us: "\<forall>a. dict_get used' a 0 = dict_get used1 a 0 + acc_sum (items db) ss a \<and>
       (acc_sum (items db) ss a \<noteq> 0 \<longrightarrow>
          (\<exists>iid i. map_of (items db) iid = Some i \<and> i_account i = a \<and> dict_get used' a 0 \<le> movable moved i))"
    unfolding db1 by auto
  have one_settled: "settled [s0] None iid = (if iid = p_item p then p_amount p else 0)" for iid
    by (simp add: settled_def s0_def)
  have one_acc: "acc_sum (items db) [s0] a = (if a = i_account i then p_amount p else 0)" for a
    using i(1) by (auto simp: acc_sum_def s0_def)
  have b: "settled (settlements db @ [s0] @ ss) None iid \<le> i_amount i'"
    if "map_of (items db) iid = Some i'" "settled (settlements db) None iid \<le> i_amount i'" for iid i'
  proof -
    have "settled (settlements db @ [s0]) None iid \<le> i_amount i'"
      using that i(1,4) by (auto simp: one_settled)
    then show ?thesis using bound that(1) by (simp add: add.assoc)
  qed
  have u: "dict_get used' a 0 = dict_get used a 0 + acc_sum (items db) ([s0] @ ss) a" for a
    using us by (simp only: acc_sum_append one_acc) (simp add: used1 dict_simps)
  have m: "\<exists>iid i'. map_of (items db) iid = Some i' \<and> i_account i' = a \<and> dict_get used' a 0 \<le> movable moved i'"
    if "acc_sum (items db) ([s0] @ ss) a \<noteq> 0" for a
  proof (cases "acc_sum (items db) ss a = 0")
    case True
    with that[unfolded acc_sum_append one_acc] have a: "a = i_account i" by (simp split: if_splits)
    have "dict_get used' a 0 \<le> movable moved i"
      using u[of a, unfolded acc_sum_append one_acc] True i(6) by (simp add: a)
    then show ?thesis using i(1) a by blast
  qed (use us in blast)
  show ?case
    using ss i b u m unfolding db1 by (intro exI[of _ "[s0] @ ss"]) (auto simp: s0_def)
qed


section \<open>The movements per account\<close>

lemma by_account_append: "by_account (lns @ [row]) = AList.update (l_account row)
    (case dict_get (by_account lns) (l_account row) (0, 0) of (d, c) \<Rightarrow> (d + l_debit row, c + l_credit row)) (by_account lns)"
  by (simp add: by_account_def)

definition debit_on :: "line list \<Rightarrow> uid \<Rightarrow> dec" where
  "debit_on lns a = sum_list (map l_debit (filter (\<lambda>row. l_account row = a) lns))"

definition credit_on :: "line list \<Rightarrow> uid \<Rightarrow> dec" where
  "credit_on lns a = sum_list (map l_credit (filter (\<lambda>row. l_account row = a) lns))"

lemma by_account_props:
  "distinct (map fst (by_account lns)) \<and> fst ` set (by_account lns) = l_account ` set lns \<and>
   (\<forall>a. dict_get (by_account lns) a (0, 0) = (debit_on lns a, credit_on lns a))"
proof (induction lns rule: rev_induct)
  case Nil
  then show ?case by (simp add: by_account_def dict_get_def debit_on_def credit_on_def)
next
  case (snoc row lns)
  then show ?case
    unfolding by_account_append
    by (auto simp: dict_simps fst_update debit_on_def credit_on_def split: prod.split)
qed

lemmas by_account_distinct = by_account_props[THEN conjunct1]
lemmas by_account_get = by_account_props[THEN conjunct2, THEN conjunct2, rule_format]

lemma by_account_mem: "(a, d, c) \<in> set (by_account lns) \<Longrightarrow> d = debit_on lns a \<and> c = credit_on lns a"
proof -
  assume "(a, d, c) \<in> set (by_account lns)"
  then have "map_of (by_account lns) a = Some (d, c)" using by_account_distinct by simp
  then show ?thesis using by_account_get[of lns a] by (simp add: dict_get_def)
qed

lemma credit_on_core: "map core lns = map core lns' \<Longrightarrow> debit_on lns a = debit_on lns' a \<and> credit_on lns a = credit_on lns' a"
proof -
  assume c: "map core lns = map core lns'"
  have "debit_on xs a = sum_list (map (\<lambda>(b, d, c). if b = a then d else 0) (map core xs))"
    "credit_on xs a = sum_list (map (\<lambda>(b, d, c). if b = a then c else 0) (map core xs))" for xs
    by (induction xs) (auto simp: debit_on_def credit_on_def core_def)
  then show ?thesis by (simp only: c)
qed

lemma credit_on_swap [simp]:
  "debit_on (map swap_line lns) a = credit_on lns a" "credit_on (map swap_line lns) a = debit_on lns a"
  by (induction lns) (auto simp: debit_on_def credit_on_def swap_line_def)

lemma movable_by_account:
  "movable (by_account lns) i =
     (if i_kind i = Item_Receivable then credit_on lns (i_account i) - debit_on lns (i_account i)
      else debit_on lns (i_account i) - credit_on lns (i_account i))"
  by (simp add: movable_def by_account_get)

section \<open>The effect of the operations\<close>

text \<open>Posting: number, open items and settlements of the entry.\<close>

definition posts :: "db \<Rightarrow> uid \<Rightarrow> ledger \<Rightarrow> uid \<Rightarrow> entry \<Rightarrow> entry \<Rightarrow> (uid, open_item) dict \<Rightarrow> settlement list \<Rightarrow> db \<Rightarrow> bool" where
  "posts db lid ledger eid e e' its ss db' \<longleftrightarrow>
     (let y = fiscal_year ledger (e_booking_date e); n = dict_get (counters db) (lid, y) 0 + 1 in
      (\<exists>user. e' = e\<lparr>e_year := Some y, e_number := Some n, e_status := Posted, e_posted_by := user\<rparr>) \<and>
      db' = db\<lparr>counters := AList.update (lid, y) n (counters db), entries := AList.update eid e' (entries db),
        items := items db @ its, settlements := settlements db @ ss, next_id := next_id db + length its\<rparr> \<and>
      map fst its = [next_id db ..< next_id db + length its] \<and> distinct (map (i_account \<circ> snd) its) \<and>
      (\<forall>ki \<in> set its. item_from db lid eid e (set (by_account (e_lines e))) (snd ki)) \<and>
      (\<forall>s \<in> set ss. s_entry s = eid \<and> s_date s = e_booking_date e \<and> 0 < s_amount s \<and>
         (\<exists>i. map_of (items db @ its) (s_item s) = Some i \<and> i_ledger i = lid)) \<and>
      (\<forall>iid i. map_of (items db @ its) iid = Some i \<and> settled (settlements db) None iid \<le> i_amount i \<longrightarrow>
         settled (settlements db @ ss) None iid \<le> i_amount i) \<and>
      (\<forall>a. acc_sum (items db @ its) ss a \<noteq> 0 \<longrightarrow>
         (\<exists>iid i. map_of (items db @ its) iid = Some i \<and> i_account i = a \<and>
            acc_sum (items db @ its) ss a \<le> movable (by_account (e_lines e)) i)))"

lemma post_effect:
  assumes "post db lid ledger eid e user = Inr db'" and draft: "e_status e = Draft"
    and fresh: "\<forall>k \<in> fst ` set (items db). k < next_id db"
  shows "balanced (e_lines e)" and "accounts_of db lid (e_lines e)"
    and "ensure_open_period ledger (e_booking_date e) = Inr ()"
    and "ensure_open_for_entry db lid ledger (e_lines e) (e_booking_date e) = Inr ()"
    and "e_kind e = K_Opening_Balance \<longrightarrow> e_approved_by e \<noteq> None"
    and "\<exists>e' its ss. posts db lid ledger eid e e' its ss db'"
proof -
  define y where "y = fiscal_year ledger (e_booking_date e)"
  define n where "n = dict_get (counters db) (lid, y) 0 + 1"
  define e' where "e' = e\<lparr>e_year := Some y, e_number := Some n, e_status := Posted, e_posted_by := user\<rparr>"
  define db1 where "db1 = put_entry (db\<lparr>counters := AList.update (lid, y) n (counters db)\<rparr>) eid e'"
  define moved where "moved = by_account (e_lines e)"
  from assms(1) draft have all: "ensure_open_period ledger (e_booking_date e) = Inr () \<and>
      ensure_open_for_entry db lid ledger (e_lines e) (e_booking_date e) = Inr () \<and>
      \<not> (e_kind e = K_Opening_Balance \<and> e_approved_by e = None) \<and> check_balanced (e_lines e) = Inr () \<and>
      check_accounts db lid (map l_account (e_lines e)) = Inr () \<and> apply_open_items db1 lid eid e' = Inr db'"
    unfolding post_def
    by (auto simp: res_simps next_number_def Let_def y_def[symmetric] n_def[symmetric] e'_def[symmetric]
        db1_def[symmetric] split: if_splits)
  then show "balanced (e_lines e)" "accounts_of db lid (e_lines e)"
    "ensure_open_period ledger (e_booking_date e) = Inr ()"
    "ensure_open_for_entry db lid ledger (e_lines e) (e_booking_date e) = Inr ()"
    "e_kind e = K_Opening_Balance \<longrightarrow> e_approved_by e \<noteq> None"
    by (auto simp: check_balanced_iff dest: check_accounts_imp)
  have it1: "items db1 = items db" "next_id db1 = next_id db" "settlements db1 = settlements db"
    by (simp_all add: db1_def put_entry_def)
  have lns: "e_lines e' = e_lines e" by (simp add: e'_def)
  from create_items_effect[of db1 moved lid eid e'] fresh obtain its where
    its: "foldl (create_item lid eid e') db1 moved = db1\<lparr>items := items db1 @ its, next_id := next_id db1 + length its\<rparr>"
      "map fst its = [next_id db ..< next_id db + length its]" "distinct (map (i_account \<circ> snd) its)"
      "\<forall>ki \<in> set its. item_from db1 lid eid e' (set moved) (snd ki)"
    unfolding it1 moved_def using by_account_distinct by blast
  define db2 where "db2 = db1\<lparr>items := items db1 @ its, next_id := next_id db1 + length its\<rparr>"
  from all obtain st where st: "foldr_res (apply_plan lid eid e' moved) (db2, []) (e_plan e') = Inr st" "db' = fst st"
    by (auto simp: apply_open_items_def lns moved_def[symmetric] Let_def its(1) db2_def[symmetric] res_simps)
  then obtain used' where "foldr_res (apply_plan lid eid e' moved) (db2, []) (e_plan e') = Inr (db', used')"
    by (cases st) simp
  from apply_plans_effect[OF this] obtain ss where ss: "db' = db2\<lparr>settlements := settlements db2 @ ss\<rparr>"
    "\<forall>s \<in> set ss. s_entry s = eid \<and> s_date s = e_booking_date e' \<and> 0 < s_amount s \<and>
       (\<exists>i. map_of (items db2) (s_item s) = Some i \<and> i_ledger i = lid)"
    "\<forall>iid i. map_of (items db2) iid = Some i \<and> settled (settlements db2) None iid \<le> i_amount i \<longrightarrow>
       settled (settlements db2 @ ss) None iid \<le> i_amount i"
    "\<forall>a. dict_get used' a 0 = dict_get [] a 0 + acc_sum (items db2) ss a \<and>
       (acc_sum (items db2) ss a \<noteq> 0 \<longrightarrow>
          (\<exists>iid i. map_of (items db2) iid = Some i \<and> i_account i = a \<and> dict_get used' a 0 \<le> movable moved i))"
    by blast
  have it2: "items db2 = items db @ its" "settlements db2 = settlements db" by (simp_all add: db2_def it1)
  have it3: "item_from db1 lid eid e' (set moved) i \<longleftrightarrow> item_from db lid eid e (set moved) i" for i
    by (simp add: item_from_def category_of_def db1_def put_entry_def e'_def)
  have used: "dict_get used' a 0 = acc_sum (items db2) ss a" for a using ss(4) by (simp add: dict_get_def)
  show "\<exists>e' its ss. posts db lid ledger eid e e' its ss db'"
  proof (intro exI)
    have bd: "e_booking_date e' = e_booking_date e" by (simp add: e'_def)
    have "db' = db\<lparr>counters := AList.update (lid, y) n (counters db), entries := AList.update eid e' (entries db),
        items := items db @ its, settlements := settlements db @ ss, next_id := next_id db + length its\<rparr>"
      by (simp add: ss(1) db2_def db1_def put_entry_def)
    moreover have "\<exists>user. e' = e\<lparr>e_year := Some y, e_number := Some n, e_status := Posted, e_posted_by := user\<rparr>"
      unfolding e'_def by blast
    ultimately show "posts db lid ledger eid e e' its ss db'"
      unfolding posts_def Let_def y_def[symmetric] n_def[symmetric]
      using its(2-4) ss(2-4)[unfolded it2 bd used[unfolded it2]]
      by (simp only: it3 moved_def[symmetric]) blast
  qed
qed


text \<open>Reversing.\<close>

lemma cancel_orders_fields [simp]:
  "entries (cancel_orders db oids) = entries db" "items (cancel_orders db oids) = items db"
  "settlements (cancel_orders db oids) = settlements db" "counters (cancel_orders db oids) = counters db"
  "accounts (cancel_orders db oids) = accounts db" "ledgers (cancel_orders db oids) = ledgers db"
  "unit_property (cancel_orders db oids) = unit_property db"
  "next_id (cancel_orders db oids) = next_id db" "period_locks (cancel_orders db oids) = period_locks db"
  by (induction oids arbitrary: db) (auto simp: cancel_orders_def invalidate_def)

definition reverses ::
  "db \<Rightarrow> uid \<Rightarrow> ledger \<Rightarrow> uid \<Rightarrow> entry \<Rightarrow> date \<Rightarrow> entry \<Rightarrow> db \<Rightarrow> bool" where
  "reverses db lid ledger eid e d rv db' \<longleftrightarrow>
     (let y = fiscal_year ledger d; n = dict_get (counters db) (lid, y) 0 + 1; rid = next_id db in
      e_ledger rv = e_ledger e \<and> e_status rv = Posted \<and> e_year rv = Some y \<and> e_number rv = Some n \<and>
      e_booking_date rv = d \<and> e_kind rv = K_Reversal \<and> e_reverses rv = Some eid \<and> e_reversed_by rv = None \<and>
      e_approved_by rv = None \<and> list_all (property_ok db) (e_lines rv) \<and>
      balanced (e_lines rv) \<and> accounts_of db lid (e_lines rv) \<and>
      map core (e_lines rv) = map core (map swap_line (e_lines e)) \<and>
      entries db' = AList.update eid (e\<lparr>e_reversed_by := Some rid\<rparr>) (AList.update rid rv (entries db)) \<and>
      counters db' = AList.update (lid, y) n (counters db) \<and> items db' = items db \<and>
      settlements db' = settlements db @ reverse_settlements (settlements db) eid rid d (items_of_entry db eid) \<and>
      accounts db' = accounts db \<and> ledgers db' = ledgers db \<and> next_id db' = rid + 1 \<and>
      period_locks db' = period_locks db \<and> unit_property db' = unit_property db)"

lemma reverse_effect:
  assumes "reverse_entry db lid ledger eid e user reason d = Inr (db', rid)"
  shows "e_status e = Posted" and "e_reversed_by e = None" and "e_kind e \<noteq> K_Reversal"
    and "ensure_open_period ledger d = Inr ()"
    and "ensure_open_for_entry db lid ledger (e_lines e) d = Inr ()" and "e_booking_date e \<le> d"
    and "\<forall>(iid, i) \<in> set (items_of_entry db eid). remaining db iid None = Inr (i_amount i)"
    and "rid = next_id db" and "\<exists>rv. reverses db lid ledger eid e d rv db'"
proof -
  define rv where "rv = reversal_of eid e user reason d"
  define own where "own = items_of_entry db eid"
  define y where "y = fiscal_year ledger d"
  define db0 where "db0 = db\<lparr>next_id := next_id db + 1\<rparr>"
  from assms obtain ords :: "uid list" where facts: "e_status e = Posted" "e_reversed_by e = None" "e_kind e \<noteq> K_Reversal"
      "ensure_open_period ledger d = Inr ()" "ensure_open_for_entry db lid ledger (e_lines e) d = Inr ()"
      "e_booking_date e \<le> d" "\<not> list_ex (\<lambda>(iid, i). remaining db iid None \<noteq> Inr (i_amount i)) own"
    and book: "book_reversal db lid ledger eid e user reason d own ords = Inr (db', rid)"
    unfolding reverse_entry_def own_def[symmetric]
    by (auto simp: res_simps not_less split: if_splits)
  then show "e_status e = Posted" "e_reversed_by e = None" "e_kind e \<noteq> K_Reversal"
    "ensure_open_period ledger d = Inr ()" "ensure_open_for_entry db lid ledger (e_lines e) d = Inr ()"
    "e_booking_date e \<le> d" by blast+
  from book obtain db1 rv1 where
    wd: "write_draft db0 lid (next_id db) rv (map swap_line (e_lines e)) [] = Inr db1"
    and rv1: "map_of (entries db1) (next_id db) = Some rv1"
    and rest: "(let (db2, n) = next_number db1 lid y;
           db3 = put_entry db2 (next_id db) (rv1\<lparr>e_year := Some y, e_number := Some n, e_status := Posted, e_posted_by := user\<rparr>);
           db4 = db3\<lparr>settlements := settlements db3 @ reverse_settlements (settlements db3) eid (next_id db) d own\<rparr>;
           db5 = put_entry db4 eid (e\<lparr>e_reversed_by := Some (next_id db)\<rparr>)
         in (cancel_orders db5 ords, next_id db)) = (db', rid)"
    unfolding book_reversal_def Let_def[of "next_id db"] rv_def[symmetric] y_def[symmetric] db0_def[symmetric]
    by (auto simp: bindr_eq_Inr next_number_def Let_def)
  then show "rid = next_id db" by (simp add: next_number_def Let_def)
  show "\<forall>(iid, i) \<in> set (items_of_entry db eid). remaining db iid None = Inr (i_amount i)"
    using facts(7) by (auto simp: list_ex_iff own_def)
  from wd obtain lns' ps' where db1: "db1 = db0\<lparr>entries := AList.update (next_id db) (rv\<lparr>e_plan := ps', e_lines := lns'\<rparr>) (entries db0)\<rparr>"
    and l: "balanced lns'" "accounts_of db0 lid lns'" "map core lns' = map core (map swap_line (e_lines e))"
      "list_all (property_ok db0) lns'"
    by (rule write_draft_effect) blast
  have r1: "rv1 = rv\<lparr>e_plan := ps', e_lines := lns'\<rparr>" using rv1 by (simp add: db1 dict_simps)
  define n where "n = dict_get (counters db) (lid, y) 0 + 1"
  define rv2 where "rv2 = rv1\<lparr>e_year := Some y, e_number := Some n, e_status := Posted, e_posted_by := user\<rparr>"
  have c: "counters db1 = counters db" "settlements db1 = settlements db" "items db1 = items db"
    "accounts db1 = accounts db" "ledgers db1 = ledgers db" "next_id db1 = next_id db + 1"
    "period_locks db1 = period_locks db" "unit_property db1 = unit_property db"
    by (simp_all add: db1 db0_def)
  have ent: "AList.update (next_id db) rv2 (entries db1) = AList.update (next_id db) rv2 (entries db)"
    by (simp add: db1 db0_def update_last)
  have acc: "accounts_of db0 = accounts_of db" by (simp add: fun_eq_iff accounts_of_def db0_def)
  have "reverses db lid ledger eid e d rv2 db'"
    unfolding reverses_def Let_def y_def[symmetric] n_def[symmetric] own_def[symmetric]
  proof (intro conjI)
    show "accounts_of db lid (e_lines rv2)" using l(2) by (simp add: rv2_def r1 acc)
    have "property_ok db0 = property_ok db" by (simp add: fun_eq_iff property_ok_def db0_def)
    then show "list_all (property_ok db) (e_lines rv2)" using l(4) by (simp add: rv2_def r1)
    show "balanced (e_lines rv2)" "map core (e_lines rv2) = map core (map swap_line (e_lines e))"
      using l by (simp_all add: rv2_def r1)
    have db': "db' = cancel_orders (put_entry ((put_entry (db1\<lparr>counters := AList.update (lid, y) n (counters db)\<rparr>) (next_id db) rv2)
        \<lparr>settlements := settlements db @ reverse_settlements (settlements db) eid (next_id db) d own\<rparr>)
        eid (e\<lparr>e_reversed_by := Some (next_id db)\<rparr>)) ords"
      using rest by (auto simp: next_number_def Let_def c n_def[symmetric] rv2_def put_entry_def)
    show "entries db' = AList.update eid (e\<lparr>e_reversed_by := Some (next_id db)\<rparr>) (AList.update (next_id db) rv2 (entries db))"
      "counters db' = AList.update (lid, y) n (counters db)" "items db' = items db"
      "settlements db' = settlements db @ reverse_settlements (settlements db) eid (next_id db) d own"
      "accounts db' = accounts db" "ledgers db' = ledgers db" "next_id db' = next_id db + 1"
      "period_locks db' = period_locks db" "unit_property db' = unit_property db"
      unfolding db' by (simp_all add: put_entry_def c ent)
  qed (simp_all add: rv2_def r1 rv_def reversal_of_def)
  then show "\<exists>rv. reverses db lid ledger eid e d rv db'" ..
qed

end
