(* ===== verification/LedgerInvariant.thy ===== *)
theory LedgerInvariant
  imports LedgerEffects
begin

text \<open>
  The invariant of the ledger and its preservation by every step: every posted entry is balanced and
  books on accounts of its own ledger, posted numbers run 1 to n per ledger and fiscal year, an
  open item is settled between zero and its amount, a reversed entry has a reversal with swapped
  lines, and no entry settles more on an account than it moves there.
\<close>

section \<open>The invariant\<close>

definition entry_ok :: "db \<Rightarrow> uid \<Rightarrow> entry \<Rightarrow> bool" where
  "entry_ok db eid e \<longleftrightarrow>
     (if e_status e = Posted then
        balanced (e_lines e) \<and> accounts_of db (e_ledger e) (e_lines e) \<and> e_year e \<noteq> None \<and> e_number e \<noteq> None \<and>
        (\<forall>r. e_reversed_by e = Some r \<longrightarrow> e_kind e \<noteq> K_Reversal \<and>
           (\<exists>rv. map_of (entries db) r = Some rv \<and> e_status rv = Posted \<and> e_kind rv = K_Reversal \<and>
              e_reverses rv = Some eid \<and> e_ledger rv = e_ledger e \<and>
              map core (e_lines rv) = map core (map swap_line (e_lines e))))
      else e_reversed_by e = None \<and> e_kind e \<noteq> K_Reversal \<and> e_number e = None)"

definition entries_ok :: "db \<Rightarrow> bool" where
  "entries_ok db \<longleftrightarrow>
     distinct (map fst (entries db)) \<and> (\<forall>eid e. map_of (entries db) eid = Some e \<longrightarrow> eid < next_id db \<and> entry_ok db eid e)"

definition number_of :: "uid \<Rightarrow> int \<Rightarrow> uid \<Rightarrow> entry \<Rightarrow> int multiset" where
  "number_of lid y eid e =
     (if e_status e = Posted \<and> e_ledger e = lid \<and> e_year e = Some y then {#the (e_number e)#} else {#})"

definition numbers_ok :: "db \<Rightarrow> bool" where
  "numbers_ok db \<longleftrightarrow>
     (\<forall>lid y. 0 \<le> dict_get (counters db) (lid, y) 0 \<and>
        table_sum (number_of lid y) (entries db) = mset [1..dict_get (counters db) (lid, y) 0])"

definition dead :: "db \<Rightarrow> settlement \<Rightarrow> bool" where
  "dead db s \<longleftrightarrow> (\<exists>e. map_of (entries db) (s_entry s) = Some e \<and> (e_reversed_by e \<noteq> None \<or> e_kind e = K_Reversal))"

text \<open>The entry is posted and its movement on the account of the item is the item's amount.\<close>

definition creates :: "db \<Rightarrow> entry \<Rightarrow> open_item \<Rightarrow> bool" where
  "creates db e i \<longleftrightarrow>
     e_status e = Posted \<and> e_kind e \<noteq> K_Reversal \<and> e_ledger e = i_ledger i \<and> e_booking_date e = i_booking_date i \<and>
     item_of (e_kind e) (category_of db (i_account i)) (debit_on (e_lines e) (i_account i))
       (credit_on (e_lines e) (i_account i)) = Some (i_amount i, i_kind i)"

text \<open>Settlements of reversed entries and of reversals cancel out, or settle the items of a reversed
  entry in full.\<close>

definition item_ok :: "db \<Rightarrow> uid \<Rightarrow> open_item \<Rightarrow> bool" where
  "item_ok db iid i \<longleftrightarrow>
     0 < i_amount i \<and> settled (settlements db) None iid \<le> i_amount i \<and>
     (\<exists>e. map_of (entries db) (i_entry i) = Some e \<and> creates db e i \<and>
        settled (filter (dead db) (settlements db)) None iid = (if e_reversed_by e = None then 0 else i_amount i))"

definition items_ok :: "db \<Rightarrow> bool" where
  "items_ok db \<longleftrightarrow>
     distinct (map fst (items db)) \<and> (\<forall>iid i. map_of (items db) iid = Some i \<longrightarrow> iid < next_id db \<and> item_ok db iid i) \<and>
     (\<forall>j i k i'. map_of (items db) j = Some i \<and> map_of (items db) k = Some i' \<and> i_entry i = i_entry i' \<and>
        i_account i = i_account i' \<longrightarrow> j = k)"

definition settlements_ok :: "db \<Rightarrow> bool" where
  "settlements_ok db \<longleftrightarrow>
     (\<forall>s \<in> set (settlements db).
        (\<exists>i e. map_of (items db) (s_item s) = Some i \<and> map_of (entries db) (s_entry s) = Some e \<and>
           e_status e = Posted \<and> e_ledger e = i_ledger i) \<and>
        (\<not> dead db s \<longrightarrow> 0 < s_amount s))"

text \<open>What an entry settles on an account never exceeds what it moves there.\<close>

definition moves_ok :: "db \<Rightarrow> bool" where
  "moves_ok db \<longleftrightarrow>
     (\<forall>eid e a. map_of (entries db) eid = Some e \<and> e_status e = Posted \<and> e_kind e \<noteq> K_Reversal \<longrightarrow>
        acc_sum (items db) (filter (\<lambda>s. s_entry s = eid) (settlements db)) a \<le>
          max 0 (if category_of db a = Cat_Debtor then credit_on (e_lines e) a - debit_on (e_lines e) a
             else debit_on (e_lines e) a - credit_on (e_lines e) a))"

definition ledger_inv :: "db \<Rightarrow> bool" where
  "ledger_inv db \<longleftrightarrow> entries_ok db \<and> numbers_ok db \<and> items_ok db \<and> settlements_ok db \<and> moves_ok db"

lemma ledger_inv_fresh: "fresh_db db \<Longrightarrow> ledger_inv db"
  by (simp add: fresh_db_def ledger_inv_def entries_ok_def numbers_ok_def items_ok_def settlements_ok_def
      moves_ok_def table_sum_def dict_get_def)

section \<open>Steps on drafts\<close>

definition draft_ok :: "entry \<Rightarrow> bool" where
  "draft_ok e \<longleftrightarrow> e_status e = Draft \<and> e_reversed_by e = None \<and> e_kind e \<noteq> K_Reversal \<and> e_number e = None"

text \<open>The entries change only in drafts.\<close>

definition same_posted :: "db \<Rightarrow> db \<Rightarrow> bool" where
  "same_posted db db' \<longleftrightarrow>
     distinct (map fst (entries db')) \<and>
     (\<forall>eid e. e_status e = Posted \<longrightarrow> map_of (entries db') eid = Some e \<longleftrightarrow> map_of (entries db) eid = Some e) \<and>
     (\<forall>eid e. map_of (entries db') eid = Some e \<longrightarrow> eid < next_id db' \<and> (e_status e = Draft \<longrightarrow> draft_ok e)) \<and>
     (\<forall>lid y. table_sum (number_of lid y) (entries db') = table_sum (number_of lid y) (entries db)) \<and>
     items db' = items db \<and> settlements db' = settlements db \<and> counters db' = counters db \<and>
     accounts db' = accounts db \<and> next_id db \<le> next_id db'"

lemma same_posted_inv:
  assumes inv: "ledger_inv db" and same: "same_posted db db'"
  shows "ledger_inv db'"
proof -
  note s = same[unfolded same_posted_def]
  have p: "map_of (entries db') eid = Some e \<longleftrightarrow> map_of (entries db) eid = Some e" if "e_status e = Posted" for eid e
    using s that by blast
  have ss: "settlements db' = settlements db" and si: "items db' = items db" using s by blast+
  have st: "\<And>e. e_status e \<noteq> Posted \<Longrightarrow> e_status e = Draft" by (metis entry_status.exhaust)
  have ea: "accounts_of db' = accounts_of db" "category_of db' = category_of db"
    using s by (simp_all add: accounts_of_def category_of_def fun_eq_iff)
  have "entries_ok db'"
    unfolding entries_ok_def
  proof (intro conjI allI impI)
    fix eid e assume e: "map_of (entries db') eid = Some e"
    show "eid < next_id db'" using s e by blast
    show "entry_ok db' eid e"
    proof (cases "e_status e = Posted")
      case True
      then have "entry_ok db eid e" using e p inv by (auto simp: ledger_inv_def entries_ok_def)
      then show ?thesis using True p unfolding entry_ok_def ea by (auto; metis)
    next
      case False
      then have "draft_ok e" using s e st by blast
      then show ?thesis by (simp add: entry_ok_def draft_ok_def)
    qed
  qed (use s in blast)
  moreover have "numbers_ok db'" using inv s by (simp add: ledger_inv_def numbers_ok_def)
  moreover have dd: "dead db' s = dead db s" if "s \<in> set (settlements db)" for s
    using inv that p unfolding ledger_inv_def settlements_ok_def dead_def by (metis option.inject)
  moreover from dd have "filter (dead db') (settlements db) = filter (dead db) (settlements db)"
    by (rule filter_cong[OF refl])
  moreover have "items_ok db'"
  proof -
    have "item_ok db' iid i" if "item_ok db iid i" for iid i
    proof -
      from that obtain e where e: "0 < i_amount i" "settled (settlements db) None iid \<le> i_amount i"
        "map_of (entries db) (i_entry i) = Some e" "creates db e i"
        "settled (filter (dead db) (settlements db)) None iid = (if e_reversed_by e = None then 0 else i_amount i)"
        unfolding item_ok_def by blast
      then have "map_of (entries db') (i_entry i) = Some e" using p by (simp add: creates_def)
      moreover have "creates db' e i" using e(4) by (simp add: creates_def ea)
      ultimately show ?thesis
        using e(1,2,5) \<open>filter (dead db') (settlements db) = _\<close> ss unfolding item_ok_def by simp
    qed
    note io = this
    have n: "next_id db \<le> next_id db'" using s by blast
    have "items_ok db" using inv by (simp add: ledger_inv_def)
    then show ?thesis
      unfolding items_ok_def si using io n by (meson less_le_trans)
  qed
  moreover have "settlements_ok db'"
    unfolding settlements_ok_def ss
  proof
    fix s assume "s \<in> set (settlements db)"
    with inv dd[OF this] obtain i e where "map_of (items db) (s_item s) = Some i" "map_of (entries db) (s_entry s) = Some e"
      "e_status e = Posted" "e_ledger e = i_ledger i" "\<not> dead db' s \<longrightarrow> 0 < s_amount s"
      unfolding ledger_inv_def settlements_ok_def by blast
    then show "(\<exists>i e. map_of (items db') (s_item s) = Some i \<and> map_of (entries db') (s_entry s) = Some e \<and>
           e_status e = Posted \<and> e_ledger e = i_ledger i) \<and> (\<not> dead db' s \<longrightarrow> 0 < s_amount s)"
      using p si by auto
  qed
  moreover have "moves_ok db'"
    using inv p unfolding ledger_inv_def moves_ok_def ea ss si by blast
  ultimately show ?thesis by (simp add: ledger_inv_def)
qed

section \<open>Posting keeps the invariant\<close>

lemma item_of_Some:
  assumes "item_of k cat d c = Some (amount, kind)"
  shows "0 < amount" and "kind = Item_Receivable \<longleftrightarrow> cat = Cat_Debtor"
    and "amount = \<bar>d - c\<bar>" and "cat = Cat_Debtor \<Longrightarrow> c < d" and "cat \<noteq> Cat_Debtor \<Longrightarrow> d < c \<and> cat = Cat_Creditor"
  using assms by (auto simp: item_of_def Let_def split: if_splits)

lemma item_from_movement:
  "item_from db lid eid e (set (by_account lns)) i \<longleftrightarrow>
     i_ledger i = lid \<and> i_entry i = eid \<and> i_booking_date i = e_booking_date e \<and> i_account i \<in> l_account ` set lns \<and>
     item_of (e_kind e) (category_of db (i_account i)) (debit_on lns (i_account i)) (credit_on lns (i_account i))
       = Some (i_amount i, i_kind i)"
proof -
  have "(a, d, c) \<in> set (by_account lns) \<longleftrightarrow> a \<in> l_account ` set lns \<and> d = debit_on lns a \<and> c = credit_on lns a" for a d c
  proof
    assume "a \<in> l_account ` set lns \<and> d = debit_on lns a \<and> c = credit_on lns a"
    moreover obtain d' c' where "(a, d', c') \<in> set (by_account lns)" if "a \<in> l_account ` set lns"
      using by_account_props[of lns] by (metis (no_types, lifting) imageE prod.exhaust_sel)
    ultimately show "(a, d, c) \<in> set (by_account lns)" using by_account_mem by metis
  next
    assume a: "(a, d, c) \<in> set (by_account lns)"
    then have "a \<in> fst ` set (by_account lns)" by force
    then show "a \<in> l_account ` set lns \<and> d = debit_on lns a \<and> c = credit_on lns a"
      using by_account_props[of lns] by_account_mem[OF a] by simp
  qed
  then show ?thesis unfolding item_from_def by auto
qed

lemma settled_other: "\<forall>s \<in> set ss. s_item s \<noteq> iid \<Longrightarrow> settled ss None iid = 0"
proof -
  assume "\<forall>s \<in> set ss. s_item s \<noteq> iid"
  then have "filter (\<lambda>s. s_item s = iid \<and> True) ss = []" by (auto simp: filter_empty_conv)
  then show ?thesis by (simp add: settled_def)
qed

lemma settlements_okD:
  assumes "settlements_ok db" and "s \<in> set (settlements db)"
  obtains i e where "map_of (items db) (s_item s) = Some i" "map_of (entries db) (s_entry s) = Some e"
    "e_status e = Posted" "e_ledger e = i_ledger i" "\<not> dead db s \<Longrightarrow> 0 < s_amount s"
  using assms unfolding settlements_ok_def by blast

lemma acc_sum_cong:
  "(\<And>s. s \<in> set ss \<Longrightarrow> map_of its (s_item s) = map_of its' (s_item s)) \<Longrightarrow> acc_sum its ss a = acc_sum its' ss a"
  unfolding acc_sum_def by (rule arg_cong[where f = "\<lambda>xs. sum_list (map s_amount xs)"]) (auto intro: filter_cong)

lemma numbers_ok_next:
  assumes nok: "numbers_ok db" and n: "n = dict_get (counters db) (lid, y) 0 + 1"
    and c: "counters db' = AList.update (lid, y) n (counters db)"
    and sum: "\<And>l z. table_sum (number_of l z) (entries db') = table_sum (number_of l z) (entries db) +
        (if (l, z) = (lid, y) then {#n#} else {#})"
  shows "numbers_ok db'"
  unfolding numbers_ok_def
proof (intro allI conjI)
  fix l z
  show "0 \<le> dict_get (counters db') (l, z) 0"
    using nok by (simp add: c dict_simps n numbers_ok_def)
  have up: "mset [1..n] = mset [1..n - 1] + {#n#}"
    using nok by (subst upto_rec2) (auto simp: n numbers_ok_def)
  show "table_sum (number_of l z) (entries db') = mset [1..dict_get (counters db') (l, z) 0]"
  proof (cases "(l, z) = (lid, y)")
    case True
    moreover have "table_sum (number_of lid y) (entries db) = mset [1..n - 1]" using nok by (simp add: numbers_ok_def n)
    ultimately show ?thesis unfolding sum using up by (simp add: c dict_simps)
  next
    case False
    then have "dict_get (counters db') (l, z) 0 = dict_get (counters db) (l, z) 0"
      by (auto simp: c dict_simps)
    moreover have "table_sum (number_of l z) (entries db') = table_sum (number_of l z) (entries db)"
      unfolding sum using False by simp
    ultimately show ?thesis using nok by (simp add: numbers_ok_def)
  qed
qed

lemma posts_inv:
  assumes inv: "ledger_inv db" and e: "map_of (entries db) eid = Some e" "e_status e = Draft" "e_ledger e = lid"
    and bal: "balanced (e_lines e)" "accounts_of db lid (e_lines e)"
    and posts: "posts db lid ledger eid e e' its ss db'"
  shows "ledger_inv db'"
proof -
  define y where "y = fiscal_year ledger (e_booking_date e)"
  define n where "n = dict_get (counters db) (lid, y) 0 + 1"
  note pp = posts[unfolded posts_def Let_def y_def[symmetric] n_def[symmetric]]
  from pp obtain user where e': "e' = e\<lparr>e_year := Some y, e_number := Some n, e_status := Posted, e_posted_by := user\<rparr>"
    by blast
  from pp have db': "db' = db\<lparr>counters := AList.update (lid, y) n (counters db), entries := AList.update eid e' (entries db),
        items := items db @ its, settlements := settlements db @ ss, next_id := next_id db + length its\<rparr>"
    and keys: "map fst its = [next_id db ..< next_id db + length its]"
    and accs: "distinct (map (i_account \<circ> snd) its)"
    and new: "\<forall>ki \<in> set its. item_from db lid eid e (set (by_account (e_lines e))) (snd ki)"
    and ss: "\<forall>s \<in> set ss. s_entry s = eid \<and> s_date s = e_booking_date e \<and> 0 < s_amount s \<and>
         (\<exists>i. map_of (items db @ its) (s_item s) = Some i \<and> i_ledger i = lid)"
    and within: "\<forall>iid i. map_of (items db @ its) iid = Some i \<and> settled (settlements db) None iid \<le> i_amount i \<longrightarrow>
         settled (settlements db @ ss) None iid \<le> i_amount i"
    and mov: "\<forall>a. acc_sum (items db @ its) ss a \<noteq> 0 \<longrightarrow>
         (\<exists>iid i. map_of (items db @ its) iid = Some i \<and> i_account i = a \<and>
            acc_sum (items db @ its) ss a \<le> movable (by_account (e_lines e)) i)"
    by blast+
  have eok: "entries_ok db" and nok: "numbers_ok db" and iok: "items_ok db" and sok: "settlements_ok db"
    and mok: "moves_ok db" using inv by (simp_all add: ledger_inv_def)
  have dist: "distinct (map fst (entries db))" using eok by (simp add: entries_ok_def)
  have "entry_ok db eid e" using eok e(1) by (simp add: entries_ok_def)
  then have draft: "e_reversed_by e = None" "e_kind e \<noteq> K_Reversal" using e(2) by (simp_all add: entry_ok_def)
  have e's: "e_status e' = Posted" "e_reversed_by e' = None" "e_kind e' = e_kind e" "e_lines e' = e_lines e"
    "e_ledger e' = lid" "e_year e' = Some y" "e_number e' = Some n" "e_booking_date e' = e_booking_date e"
    using draft e(3) by (simp_all add: e')
  have E: "map_of (entries db') k = (if k = eid then Some e' else map_of (entries db) k)" for k
    by (simp add: db' dict_simps)
  have ea: "accounts_of db' = accounts_of db" "category_of db' = category_of db"
    by (simp_all add: db' accounts_of_def category_of_def fun_eq_iff)
  have post: "map_of (entries db') k = Some f" if "map_of (entries db) k = Some f" "e_status f = Posted" for k f
    using that e by (auto simp: E)
  have entries': "entries_ok db'"
    unfolding entries_ok_def
  proof (intro conjI allI impI)
    show "distinct (map fst (entries db'))" using dist by (simp add: db')
    fix k f assume f: "map_of (entries db') k = Some f"
    have "k < next_id db" using eok e(1) f by (auto simp: E entries_ok_def split: if_splits)
    then show "k < next_id db'" by (simp add: db')
    show "entry_ok db' k f"
    proof (cases "k = eid")
      case True
      then show ?thesis using f bal e's unfolding E entry_ok_def ea by simp
    next
      case False
      then have "entry_ok db k f" using f eok by (simp add: E entries_ok_def)
      then show ?thesis using post unfolding entry_ok_def ea by (auto split: if_splits; blast)
    qed
  qed
  have f: "number_of l z eid e = {#}" "number_of l z eid e' = (if (l, z) = (lid, y) then {#n#} else {#})" for l z
    using e(2) e's by (auto simp: number_of_def)
  have sum: "table_sum (number_of l z) (entries db') = table_sum (number_of l z) (entries db) +
      (if (l, z) = (lid, y) then {#n#} else {#})" for l z
    using table_sum_update[OF dist, of "number_of l z" eid e'] e(1) f by (simp add: db')
  have numbers': "numbers_ok db'"
    by (rule numbers_ok_next[OF nok n_def _ sum]) (simp add: db')
  have olds: "s_entry s \<noteq> eid \<and> (\<exists>i. map_of (items db) (s_item s) = Some i)" if "s \<in> set (settlements db)" for s
  proof -
    note m = that
    obtain i f where "map_of (items db) (s_item s) = Some i" "map_of (entries db) (s_entry s) = Some f" "e_status f = Posted"
      by (rule settlements_okD[OF sok m])
    then show ?thesis using e(1,2) by auto
  qed
  have kold: "iid < next_id db" if "map_of (items db) iid = Some i" for iid i
    using iok that unfolding items_ok_def by blast
  have knew: "next_id db \<le> iid \<and> iid < next_id db'" if "map_of its iid = Some i" for iid i
  proof -
    have "iid \<in> set (map fst its)" using map_of_SomeD[OF that] by force
    then show ?thesis unfolding keys by (simp add: db')
  qed
  have old: "map_of (items db @ its) iid = Some i" if "map_of (items db) iid = Some i" for iid i
    using that kold knew by (fastforce simp: map_add_def split: option.split)
  have cases': "map_of (items db) iid = Some i \<or> map_of its iid = Some i" if "map_of (items db @ its) iid = Some i" for iid i
    using that by (auto simp: map_add_def split: option.splits)
  have deads: "dead db' s = dead db s" if "s \<in> set (settlements db)" for s
    using olds[OF that] by (simp add: dead_def E)
  have news: "\<not> dead db' s" if "s \<in> set ss" for s
    using ss that draft by (auto simp: dead_def E e's)
  have fd: "filter (dead db') (settlements db') = filter (dead db) (settlements db)"
    using deads news by (simp add: db' filter_empty_conv cong: filter_cong)
  have si: "items db' = items db @ its" "settlements db' = settlements db @ ss" by (simp_all add: db')
  have zero: "settled (settlements db) None iid = 0" if "next_id db \<le> iid" for iid
    using olds kold that by (intro settled_other) (metis leD)
  have items': "items_ok db'"
    unfolding items_ok_def
  proof (intro conjI allI impI)
    have "distinct (map fst (items db @ its))"
    proof -
      have "distinct (map fst (items db))" using iok by (simp add: items_ok_def)
      moreover have "k < next_id db" if "k \<in> set (map fst (items db))" for k
        using that kold by (metis list.set_map map_of_eq_None_iff option.exhaust)
      ultimately show ?thesis by (force simp: keys)
    qed
    then show "distinct (map fst (items db'))" by (simp only: si)
  next
    fix iid i assume i: "map_of (items db') iid = Some i"
    show "iid < next_id db'"
      using cases'[OF i[unfolded si]] kold knew by (fastforce simp: db')
    show "item_ok db' iid i"
    proof (cases "map_of (items db) iid = Some i")
      case True
      then have "item_ok db iid i" using iok by (simp add: items_ok_def)
      then obtain f where f: "0 < i_amount i" "settled (settlements db) None iid \<le> i_amount i"
        "map_of (entries db) (i_entry i) = Some f" "creates db f i"
        "settled (filter (dead db) (settlements db)) None iid = (if e_reversed_by f = None then 0 else i_amount i)"
        unfolding item_ok_def by blast
      have "map_of (entries db') (i_entry i) = Some f" using f(3,4) post by (simp add: creates_def)
      moreover have "creates db' f i" using f(4) by (simp add: creates_def ea)
      moreover have "settled (settlements db') None iid \<le> i_amount i"
        using within i f(2) unfolding si by blast
      ultimately show ?thesis using f(1,5) unfolding item_ok_def fd by blast
    next
      case False
      then have it: "map_of its iid = Some i" using cases' i by (auto simp: si)
      then have "(iid, i) \<in> set its" by (rule map_of_SomeD)
      with new have fr: "i_ledger i = lid" "i_entry i = eid" "i_booking_date i = e_booking_date e"
        "item_of (e_kind e) (category_of db (i_account i)) (debit_on (e_lines e) (i_account i))
          (credit_on (e_lines e) (i_account i)) = Some (i_amount i, i_kind i)"
        by (auto simp: item_from_movement)
      have z: "settled (settlements db) None iid = 0" "settled (filter (dead db) (settlements db)) None iid = 0"
        using olds kold knew[OF it] by (intro settled_other; fastforce)+
      have "0 < i_amount i" using fr(4) by (rule item_of_Some)
      moreover from this z(1) have "settled (settlements db) None iid \<le> i_amount i" by simp
      moreover have "settled (settlements db') None iid \<le> i_amount i"
        using within i \<open>settled (settlements db) None iid \<le> i_amount i\<close> unfolding si by blast
      moreover have "creates db' e' i" using fr draft by (simp add: creates_def e's ea)
      ultimately show ?thesis using z(2) fr(2) unfolding item_ok_def fd E by (simp add: e's)
    qed
  next
    fix j i k i'
    assume a: "map_of (items db') j = Some i \<and> map_of (items db') k = Some i' \<and> i_entry i = i_entry i' \<and>
      i_account i = i_account i'"
    have oe: "i_entry i \<noteq> eid" if "map_of (items db) j = Some i" for j i
    proof -
      have "item_ok db j i" using iok that unfolding items_ok_def by blast
      then show ?thesis using e(1,2) by (auto simp: item_ok_def creates_def)
    qed
    have ne: "i_entry i = eid" if "map_of its j = Some i" for j i
      using new map_of_SomeD[OF that] by (auto simp: item_from_def)
    have j: "map_of (items db) j = Some i \<or> map_of its j = Some i" using a cases' unfolding si by blast
    have k: "map_of (items db) k = Some i' \<or> map_of its k = Some i'" using a cases' unfolding si by blast
    from j k a oe[of j i] oe[of k i'] ne[of j i] ne[of k i']
    consider "map_of (items db) j = Some i" "map_of (items db) k = Some i'" |
      "map_of its j = Some i" "map_of its k = Some i'" by auto
    then show "j = k"
    proof cases
      case 1
      then show ?thesis using iok a unfolding items_ok_def by blast
    next
      case 2
      then have m: "(j, i) \<in> set its" "(k, i') \<in> set its" by (auto dest: map_of_SomeD)
      have "inj_on (i_account \<circ> snd) (set its)" using accs by (simp add: distinct_map)
      from inj_onD[OF this, of "(j, i)" "(k, i')"] m a show ?thesis by simp
    qed
  qed
  have settlements': "settlements_ok db'"
    unfolding settlements_ok_def
  proof
    fix s assume "s \<in> set (settlements db')"
    then consider "s \<in> set (settlements db)" | "s \<in> set ss" by (auto simp: si)
    then show "(\<exists>i e. map_of (items db') (s_item s) = Some i \<and> map_of (entries db') (s_entry s) = Some e \<and>
           e_status e = Posted \<and> e_ledger e = i_ledger i) \<and> (\<not> dead db' s \<longrightarrow> 0 < s_amount s)"
    proof cases
      case 1
      from sok 1 obtain i f where "map_of (items db) (s_item s) = Some i" "map_of (entries db) (s_entry s) = Some f"
        "e_status f = Posted" "e_ledger f = i_ledger i" "\<not> dead db s \<longrightarrow> 0 < s_amount s"
        unfolding settlements_ok_def by blast
      then show ?thesis using old post deads[OF 1] unfolding si by blast
    next
      case 2
      with ss obtain i where "map_of (items db @ its) (s_item s) = Some i" "i_ledger i = lid" "s_entry s = eid"
        "0 < s_amount s" by blast
      then show ?thesis unfolding si E using e's by auto
    qed
  qed
  have kinds: "i_kind i = Item_Receivable \<longleftrightarrow> category_of db (i_account i) = Cat_Debtor"
    if "map_of (items db @ its) iid = Some i" for iid i
  proof -
    have "\<exists>k d c. item_of k (category_of db (i_account i)) d c = Some (i_amount i, i_kind i)"
    proof (cases "map_of (items db) iid = Some i")
      case True
      then show ?thesis using iok unfolding items_ok_def item_ok_def creates_def by blast
    next
      case False
      then have "(iid, i) \<in> set its" using cases'[OF that] by (auto dest: map_of_SomeD)
      then show ?thesis using new unfolding item_from_def by force
    qed
    then show ?thesis using item_of_Some(2) by blast
  qed
  have moves': "moves_ok db'"
    unfolding moves_ok_def ea
  proof (intro allI impI)
    fix k f a
    assume f: "map_of (entries db') k = Some f \<and> e_status f = Posted \<and> e_kind f \<noteq> K_Reversal"
    let ?room = "\<lambda>f. max 0 (if category_of db a = Cat_Debtor then credit_on (e_lines f) a - debit_on (e_lines f) a
      else debit_on (e_lines f) a - credit_on (e_lines f) a)"
    show "acc_sum (items db') (filter (\<lambda>s. s_entry s = k) (settlements db')) a \<le> ?room f"
    proof (cases "k = eid")
      case True
      then have [simp]: "e_lines f = e_lines e" using f e's(4) by (auto simp: E)
      have "filter (\<lambda>s. s_entry s = k) (settlements db') = ss"
        using olds ss True by (auto simp: si filter_empty_conv filter_id_conv)
      moreover have "acc_sum (items db @ its) ss a \<le> ?room f"
      proof (cases "acc_sum (items db @ its) ss a = 0")
        case False
        then obtain iid i where i: "map_of (items db @ its) iid = Some i" "i_account i = a"
          "acc_sum (items db @ its) ss a \<le> movable (by_account (e_lines e)) i" using mov by blast
        then show ?thesis using kinds[OF i(1)] by (auto simp: movable_by_account le_max_iff_disj)
      qed simp
      ultimately show ?thesis by (simp add: si)
    next
      case False
      then have m: "map_of (entries db) k = Some f" using f by (simp add: E)
      have "filter (\<lambda>s. s_entry s = k) (settlements db') = filter (\<lambda>s. s_entry s = k) (settlements db)"
        using ss False by (auto simp: si filter_empty_conv)
      moreover have "acc_sum (items db') (filter (\<lambda>s. s_entry s = k) (settlements db)) a =
          acc_sum (items db) (filter (\<lambda>s. s_entry s = k) (settlements db)) a"
        using olds old by (intro acc_sum_cong) (fastforce simp: si)
      ultimately show ?thesis using mok m f unfolding moves_ok_def by simp
    qed
  qed
  show ?thesis using entries' numbers' items' settlements' moves' by (simp add: ledger_inv_def)
qed

section \<open>Reversing keeps the invariant\<close>

lemma settled_filter_split:
  "settled ss None iid = settled (filter P ss) None iid + settled (filter (\<lambda>s. \<not> P s) ss) None iid"
  by (induction ss) (auto simp: settled_def)

lemma settled_nonneg: "\<forall>s \<in> set ss. 0 \<le> s_amount s \<Longrightarrow> 0 \<le> settled ss None iid"
  unfolding settled_def by (intro sum_list_nonneg) auto

lemma settled_of_entry:
  assumes "distinct (map fst own)"
  shows "settled (map (\<lambda>(iid, i). \<lparr>s_item = iid, s_entry = rid, s_amount = i_amount i, s_date = d\<rparr>) own) None iid =
    (case map_of own iid of None \<Rightarrow> 0 | Some i \<Rightarrow> i_amount i)"
  using assms by (induction own) (auto simp: settled_def map_of_eq_None_iff[symmetric] split: option.splits)

lemma settled_undo:
  "settled (map (\<lambda>s. \<lparr>s_item = s_item s, s_entry = rid, s_amount = - s_amount s, s_date = d\<rparr>) ss) None iid =
    - settled ss None iid"
  by (induction ss) (auto simp: settled_def)

lemma map_of_filter_values:
  assumes "distinct (map fst t)"
  shows "map_of (filter (\<lambda>(k, v). P v) t) k = (case map_of t k of None \<Rightarrow> None | Some v \<Rightarrow> if P v then Some v else None)"
  using assms by (induction t) (auto split: option.splits simp: map_of_eq_None_iff)

lemma reverse_settlements_settled:
  assumes "distinct (map fst (items db))" and "map_of (items db) iid = Some i"
  shows "settled (reverse_settlements ss eid rid d (items_of_entry db eid)) None iid =
    (if i_entry i = eid then i_amount i else 0) - settled (filter (\<lambda>s. s_entry s = eid) ss) None iid"
proof -
  have "distinct (map fst (items_of_entry db eid))"
    unfolding items_of_entry_def using assms(1) by (rule distinct_map_filter)
  then show ?thesis
    using map_of_filter_values[OF assms(1), of "\<lambda>i. i_entry i = eid" iid] assms(2)
    by (simp add: reverse_settlements_def settled_of_entry settled_undo items_of_entry_def)
qed

lemma reverses_inv:
  assumes inv: "ledger_inv db" and e: "map_of (entries db) eid = Some e" "e_status e = Posted" "e_ledger e = lid"
    and live: "e_reversed_by e = None" "e_kind e \<noteq> K_Reversal"
    and rest: "\<forall>(iid, i) \<in> set (items_of_entry db eid). remaining db iid None = Inr (i_amount i)"
    and reverses: "reverses db lid ledger eid e d rv db'"
  shows "ledger_inv db'"
proof -
  define y where "y = fiscal_year ledger d"
  define n where "n = dict_get (counters db) (lid, y) 0 + 1"
  define rid where "rid = next_id db"
  define e2 where "e2 = e\<lparr>e_reversed_by := Some rid\<rparr>"
  define old where "old = settlements db"
  define ss where "ss = reverse_settlements old eid rid d (items_of_entry db eid)"
  note rr = reverses[unfolded reverses_def Let_def y_def[symmetric] n_def[symmetric] rid_def[symmetric]
      e2_def[symmetric] old_def[symmetric] ss_def[symmetric]]
  from rr have rv: "e_ledger rv = lid" "e_status rv = Posted" "e_year rv = Some y" "e_number rv = Some n"
    "e_kind rv = K_Reversal" "e_reverses rv = Some eid" "e_reversed_by rv = None" "balanced (e_lines rv)"
    "accounts_of db lid (e_lines rv)" "map core (e_lines rv) = map core (map swap_line (e_lines e))"
    and ent: "entries db' = AList.update eid e2 (AList.update rid rv (entries db))"
    and fields: "counters db' = AList.update (lid, y) n (counters db)" "items db' = items db"
      "settlements db' = old @ ss" "accounts db' = accounts db" "next_id db' = rid + 1"
    using e(3) by blast+
  have eok: "entries_ok db" and nok: "numbers_ok db" and iok: "items_ok db" and sok: "settlements_ok db"
    and mok: "moves_ok db" using inv by (simp_all add: ledger_inv_def)
  have dist: "distinct (map fst (entries db))" using eok by (simp add: entries_ok_def)
  have "eid < rid" using eok e(1) unfolding entries_ok_def rid_def by blast
  have fresh: "map_of (entries db) rid = None"
  proof (rule ccontr)
    assume "map_of (entries db) rid \<noteq> None"
    then obtain f where "map_of (entries db) rid = Some f" by blast
    then show False using eok unfolding entries_ok_def rid_def by blast
  qed
  have E: "map_of (entries db') k = (if k = eid then Some e2 else if k = rid then Some rv else map_of (entries db) k)" for k
    by (simp add: ent dict_simps)
  have e2s: "e_status e2 = Posted" "e_kind e2 = e_kind e" "e_lines e2 = e_lines e" "e_ledger e2 = lid"
    "e_year e2 = e_year e" "e_number e2 = e_number e" "e_reversed_by e2 = Some rid" "e_booking_date e2 = e_booking_date e"
    using e by (simp_all add: e2_def)
  have ea: "accounts_of db' = accounts_of db" "category_of db' = category_of db"
    by (simp_all add: fields accounts_of_def category_of_def fun_eq_iff)
  have post: "map_of (entries db') k = Some f" if "map_of (entries db) k = Some f" "k \<noteq> eid" for k f
    using that fresh by (auto simp: E)
  have entries': "entries_ok db'"
    unfolding entries_ok_def
  proof (intro conjI allI impI)
    show "distinct (map fst (entries db'))" using dist by (simp add: ent)
    fix k f assume f: "map_of (entries db') k = Some f"
    have "k < rid \<or> k = rid"
    proof (cases "k = eid \<or> k = rid")
      case False
      then have "map_of (entries db) k = Some f" using f by (simp add: E)
      then show ?thesis using eok unfolding entries_ok_def rid_def by blast
    qed (use \<open>eid < rid\<close> in auto)
    then show "k < next_id db'" by (auto simp: fields)
    have eoke: "entry_ok db eid e" using eok e(1) by (simp add: entries_ok_def)
    show "entry_ok db' k f"
    proof (cases "k = eid")
      case True
      then have "f = e2" using f by (simp add: E)
      moreover have "map_of (entries db') rid = Some rv" using \<open>eid < rid\<close> by (simp add: E)
      ultimately show ?thesis
        using eoke e rv live True unfolding entry_ok_def ea by (simp add: e2s)
    next
      case False
      show ?thesis
      proof (cases "k = rid")
        case True
        then have "f = rv" using f False by (simp add: E)
        then show ?thesis using rv by (simp add: entry_ok_def ea)
      next
        case ne: False
        then have ok: "entry_ok db k f" using f False eok by (simp add: E entries_ok_def)
        have "map_of (entries db') r = Some g"
          if "map_of (entries db) r = Some g" "e_kind g = K_Reversal" for r g
          using that live e(1) post by (cases "r = eid") auto
        then show ?thesis using ok unfolding entry_ok_def ea by (auto split: if_splits; blast)
      qed
    qed
  qed
  have f: "number_of l z eid e2 = number_of l z eid e" "number_of l z rid rv = (if (l, z) = (lid, y) then {#n#} else {#})"
    for l z using e e2s rv by (auto simp: number_of_def)
  have sum: "table_sum (number_of l z) (entries db') = table_sum (number_of l z) (entries db) +
        (if (l, z) = (lid, y) then {#n#} else {#})" for l z
  proof -
    have "table_sum (number_of l z) (entries db') + number_of l z eid e =
        table_sum (number_of l z) (AList.update rid rv (entries db)) + number_of l z eid e2"
      using table_sum_update[of "AList.update rid rv (entries db)" "number_of l z" eid e2] dist e(1) \<open>eid < rid\<close>
      by (simp add: ent dict_simps)
    then show ?thesis unfolding f using table_sum_new[OF fresh, of "number_of l z" rv] f(2) by simp
  qed
  have numbers': "numbers_ok db'"
    by (rule numbers_ok_next[OF nok n_def _ sum]) (simp add: fields)
  have olde: "s_entry s \<noteq> rid" if "s \<in> set old" for s
  proof -
    from sok that obtain f where "map_of (entries db) (s_entry s) = Some f"
      unfolding settlements_ok_def old_def by blast
    then show ?thesis using fresh by auto
  qed
  have deads: "dead db' s \<longleftrightarrow> dead db s \<or> s_entry s = eid" if "s \<in> set old" for s
    using olde[OF that] live e by (auto simp: dead_def E e2s)
  have newe: "s_entry s = rid" if "s \<in> set ss" for s
    using that by (auto simp: ss_def reverse_settlements_def)
  have news: "dead db' s" if "s \<in> set ss" for s
    using newe[OF that] rv \<open>eid < rid\<close> by (auto simp: dead_def E)
  have si: "settlements db' = old @ ss" "items db' = items db" by (rule fields)+
  have idist: "distinct (map fst (items db))" using iok by (simp add: items_ok_def)
  have undone: "0 \<le> settled (filter (\<lambda>s. s_entry s = eid) old) None iid" for iid
  proof (rule settled_nonneg, rule ballI)
    fix s assume s: "s \<in> set (filter (\<lambda>s. s_entry s = eid) old)"
    then have "\<not> dead db s" using live e(1) by (auto simp: dead_def)
    then show "0 \<le> s_amount s" using sok s unfolding settlements_ok_def old_def by auto
  qed
  have dead_sum: "settled (filter (dead db') old) None iid =
      settled (filter (dead db) old) None iid + settled (filter (\<lambda>s. s_entry s = eid) old) None iid" for iid
  proof -
    have ex: "\<not> (dead db s \<and> s_entry s = eid)" for s using live e(1) by (auto simp: dead_def)
    have "settled (filter (dead db') ts) None iid =
        settled (filter (dead db) ts) None iid + settled (filter (\<lambda>s. s_entry s = eid) ts) None iid"
      if "set ts \<subseteq> set old" for ts
      using that ex deads by (induction ts) (auto simp: settled_def)
    then show ?thesis by blast
  qed
  have items': "items_ok db'"
  proof -
    have "item_ok db' iid i" if i: "map_of (items db) iid = Some i" for iid i
    proof -
      have "item_ok db iid i" using iok i unfolding items_ok_def by blast
      then obtain f where f: "0 < i_amount i" "settled old None iid \<le> i_amount i"
        "map_of (entries db) (i_entry i) = Some f" "creates db f i"
        "settled (filter (dead db) old) None iid = (if e_reversed_by f = None then 0 else i_amount i)"
        unfolding item_ok_def old_def by blast
      note new = reverse_settlements_settled[OF idist i, of old eid rid d, folded ss_def]
      have fd: "settled (filter (dead db') (settlements db')) None iid =
          settled (filter (dead db) old) None iid + (if i_entry i = eid then i_amount i else 0)"
        using news dead_sum[of iid] new by (simp add: si filter_id_conv[THEN iffD2])
      have all: "settled (settlements db') None iid \<le> i_amount i"
      proof (cases "i_entry i = eid")
        case True
        then have "(iid, i) \<in> set (items_of_entry db eid)" using i by (auto simp: items_of_entry_def dest: map_of_SomeD)
        then have "settled old None iid = 0" using rest i by (auto simp: remaining_def fetch_def old_def)
        then show ?thesis using new undone[of iid] True by (simp add: si)
      next
        case False
        then show ?thesis using new undone[of iid] f(2) by (simp add: si)
      qed
      have cr: "creates db' e2 i" if "creates db e i" using that by (simp add: creates_def e2s ea e)
      show ?thesis
      proof (cases "i_entry i = eid")
        case True
        then have "f = e" using f(3) e(1) by simp
        then show ?thesis
          using f(1,4,5) all fd True live(1) cr unfolding item_ok_def fields(2)
          by (simp add: E e2s)
      next
        case False
        then have "map_of (entries db') (i_entry i) = Some f" using f(3) post by blast
        moreover have "creates db' f i" using f(4) by (simp add: creates_def ea)
        ultimately show ?thesis using f(1,5) all fd False unfolding item_ok_def by simp
      qed
    qed
    note it = this
    have n: "next_id db \<le> next_id db'" by (simp add: fields rid_def)
    show ?thesis using iok unfolding items_ok_def si using it n by (meson less_le_trans)
  qed
  have settlements': "settlements_ok db'"
    unfolding settlements_ok_def
  proof
    fix s assume "s \<in> set (settlements db')"
    then consider "s \<in> set old" | "s \<in> set ss" by (auto simp: si)
    then show "(\<exists>i e. map_of (items db') (s_item s) = Some i \<and> map_of (entries db') (s_entry s) = Some e \<and>
           e_status e = Posted \<and> e_ledger e = i_ledger i) \<and> (\<not> dead db' s \<longrightarrow> 0 < s_amount s)"
    proof cases
      case 1
      from sok 1 obtain i f where f: "map_of (items db) (s_item s) = Some i" "map_of (entries db) (s_entry s) = Some f"
        "e_status f = Posted" "e_ledger f = i_ledger i" "\<not> dead db s \<longrightarrow> 0 < s_amount s"
        unfolding settlements_ok_def old_def by blast
      show ?thesis
      proof (cases "s_entry s = eid")
        case True
        then show ?thesis using f e deads[OF 1] by (auto simp: si E e2s)
      next
        case False
        then show ?thesis using f post deads[OF 1] unfolding si by blast
      qed
    next
      case 2
      have "\<exists>i. map_of (items db) (s_item s) = Some i \<and> i_ledger i = lid"
      proof -
        from 2 consider (own) iid i where "(iid, i) \<in> set (items_of_entry db eid)" "s_item s = iid"
          | (undo) t where "t \<in> set old" "s_entry t = eid" "s_item s = s_item t"
          by (auto simp: ss_def reverse_settlements_def)
        then show ?thesis
        proof cases
          case own
          then have i: "map_of (items db) iid = Some i" "i_entry i = eid"
            using idist by (auto simp: items_of_entry_def)
          then have "item_ok db iid i" using iok unfolding items_ok_def by blast
          then have "i_ledger i = lid" using i e by (auto simp: item_ok_def creates_def)
          then show ?thesis using i own by blast
        next
          case undo
          with sok e(1,3) show ?thesis unfolding settlements_ok_def old_def by fastforce
        qed
      qed
      then show ?thesis using newe[OF 2] news[OF 2] rv \<open>eid < rid\<close> by (auto simp: si E)
    qed
  qed
  have moves': "moves_ok db'"
    unfolding moves_ok_def ea
  proof (intro allI impI)
    fix k f a
    assume f: "map_of (entries db') k = Some f \<and> e_status f = Posted \<and> e_kind f \<noteq> K_Reversal"
    then have "k \<noteq> rid" using rv(5) \<open>eid < rid\<close> by (auto simp: E)
    then have fl: "filter (\<lambda>s. s_entry s = k) (settlements db') = filter (\<lambda>s. s_entry s = k) (settlements db)"
      using newe by (auto simp: si old_def filter_empty_conv)
    obtain g where g: "map_of (entries db) k = Some g" "e_lines g = e_lines f" "e_status g = Posted" "e_kind g \<noteq> K_Reversal"
      using f e(1,2) live e2s \<open>k \<noteq> rid\<close> by (auto simp: E split: if_splits)
    show "acc_sum (items db') (filter (\<lambda>s. s_entry s = k) (settlements db')) a \<le>
      max 0 (if category_of db a = Cat_Debtor then credit_on (e_lines f) a - debit_on (e_lines f) a
             else debit_on (e_lines f) a - credit_on (e_lines f) a)"
      unfolding fl si(2) g(2)[symmetric] using mok g(1,3,4) unfolding moves_ok_def by blast
  qed
  show ?thesis using entries' numbers' items' settlements' moves' by (simp add: ledger_inv_def)
qed

section \<open>Every step keeps the invariant\<close>

lemma inv_draft:
  assumes "ledger_inv db" and "map_of (entries db) eid = Some e" and "e_status e \<noteq> Posted"
  shows "draft_ok e"
proof -
  have "entry_ok db eid e" using assms unfolding ledger_inv_def entries_ok_def by blast
  with assms(3) show ?thesis by (cases "e_status e") (simp_all add: entry_ok_def draft_ok_def)
qed

lemma same_posted_refl:
  assumes "ledger_inv db" and "entries db' = entries db" and "items db' = items db"
    and "settlements db' = settlements db" and "counters db' = counters db" and "accounts db' = accounts db"
    and "next_id db \<le> next_id db'"
  shows "same_posted db db'"
proof -
  have e: "entries_ok db" using assms(1) by (simp add: ledger_inv_def)
  have "draft_ok f" if "map_of (entries db) k = Some f" "e_status f = Draft" for k f
    using inv_draft[OF assms(1) that(1)] that(2) by simp
  moreover have "k < next_id db'" if "map_of (entries db) k = Some f" for k f
    using e that assms(7) unfolding entries_ok_def by (meson less_le_trans)
  ultimately show ?thesis
    using e assms(2-7) unfolding same_posted_def entries_ok_def by simp
qed

lemma same_posted_update:
  assumes inv: "ledger_inv db" and e': "draft_ok e'"
    and eid: "map_of (entries db) eid = None \<or> (\<exists>e. map_of (entries db) eid = Some e \<and> e_status e \<noteq> Posted)"
    and ent: "entries db' = AList.update eid e' (entries db)" and n: "eid < next_id db'" "next_id db \<le> next_id db'"
    and f: "items db' = items db" "settlements db' = settlements db" "counters db' = counters db" "accounts db' = accounts db"
  shows "same_posted db db'"
proof -
  have eok: "entries_ok db" using inv by (simp add: ledger_inv_def)
  then have d: "distinct (map fst (entries db))" by (simp add: entries_ok_def)
  have st: "e_status e' \<noteq> Posted" using e' by (simp add: draft_ok_def)
  have "table_sum (number_of l z) (entries db') = table_sum (number_of l z) (entries db)" for l z
    using table_sum_update[OF d, of "number_of l z" eid e'] eid st
    by (auto simp: ent number_of_def split: option.splits)
  moreover have "map_of (entries db') k = Some g \<longleftrightarrow> map_of (entries db) k = Some g" if "e_status g = Posted" for k g
    using that eid st by (auto simp: ent dict_simps)
  moreover have "k < next_id db' \<and> (e_status g = Draft \<longrightarrow> draft_ok g)" if "map_of (entries db') k = Some g" for k g
  proof (cases "k = eid")
    case True
    then show ?thesis using that e' n by (auto simp: ent dict_simps)
  next
    case False
    then have g: "map_of (entries db) k = Some g" using that by (simp add: ent dict_simps)
    then have "k < next_id db" using eok unfolding entries_ok_def by blast
    then show ?thesis using n(2) inv_draft[OF inv g] by auto
  qed
  ultimately show ?thesis using d f n(2) by (simp add: same_posted_def ent)
qed

lemma same_posted_delete:
  assumes inv: "ledger_inv db" and eid: "map_of (entries db) eid = Some e" "e_status e \<noteq> Posted"
  shows "same_posted db (db\<lparr>entries := AList.delete eid (entries db)\<rparr>)"
proof -
  have eok: "entries_ok db" using inv by (simp add: ledger_inv_def)
  then have d: "distinct (map fst (entries db))" by (simp add: entries_ok_def)
  have m: "map_of (AList.delete eid (entries db)) k = (if k = eid then None else map_of (entries db) k)" for k
    by (simp add: delete_conv')
  have "table_sum (number_of l z) (AList.delete eid (entries db)) = table_sum (number_of l z) (entries db)" for l z
    using table_sum_delete[OF d, of "number_of l z" eid] eid by (simp add: number_of_def)
  moreover have "k < next_id db \<and> (e_status g = Draft \<longrightarrow> draft_ok g)"
    if "map_of (AList.delete eid (entries db)) k = Some g" for k g
  proof -
    have g: "map_of (entries db) k = Some g" using that by (simp add: m split: if_splits)
    then show ?thesis
      using inv_draft[OF inv g] eok unfolding entries_ok_def by (metis entry_status.distinct(1))
  qed
  moreover have "map_of (AList.delete eid (entries db)) k = Some g \<longleftrightarrow> map_of (entries db) k = Some g"
    if "e_status g = Posted" for k g using that eid unfolding m by auto
  moreover have "distinct (map fst (AList.delete eid (entries db)))" using d by (rule distinct_delete)
  ultimately show ?thesis by (simp add: same_posted_def del: map_of_eq_Some_iff)
qed

lemma get_ledger_iff [simp]: "get_ledger db lid = Inr g \<longleftrightarrow> map_of (ledgers db) lid = Some g"
  by (simp add: get_ledger_def)

lemma get_entry_iff [simp]: "get_entry db lid eid = Inr e \<longleftrightarrow> map_of (entries db) eid = Some e \<and> e_ledger e = lid"
  by (auto simp: get_entry_def res_simps split: if_splits)

text \<open>Each step is of one of three kinds.\<close>

lemma ledger_step_kinds:
  assumes inv: "ledger_inv db" and step: "ledger_step db db'"
  obtains (drafts) "same_posted db db'"
  | (posting) lid ledger eid e e' its ss where "map_of (ledgers db) lid = Some ledger"
      "map_of (entries db) eid = Some e" "e_ledger e = lid" "e_status e = Draft" "balanced (e_lines e)"
      "accounts_of db lid (e_lines e)" "ensure_open_period ledger (e_booking_date e) = Inr ()"
      "e_kind e = K_Opening_Balance \<longrightarrow> e_approved_by e \<noteq> None" "posts db lid ledger eid e e' its ss db'"
  | (reversing) lid ledger eid e d rv where "map_of (ledgers db) lid = Some ledger"
      "map_of (entries db) eid = Some e" "e_ledger e = lid" "e_status e = Posted" "e_reversed_by e = None"
      "e_kind e \<noteq> K_Reversal" "ensure_open_period ledger d = Inr ()" "e_booking_date e \<le> d"
      "\<forall>(iid, i) \<in> set (items_of_entry db eid). remaining db iid None = Inr (i_amount i)"
      "reverses db lid ledger eid e d rv db'"
  using step
proof (cases rule: ledger_step.cases)
  case (create lid body user eid)
  then show ?thesis
  proof (cases "db' = db")
    case True
    then show ?thesis using drafts same_posted_refl[OF inv] by simp
  next
    case False
    obtain ledger where "b_kind body \<noteq> K_Reversal" and g: "get_ledger db lid = Inr ledger"
      using create by (auto simp: create_entry_route_def res_simps split: if_splits)
    obtain e where e: "draft_ok e" "write_draft (db\<lparr>next_id := next_id db + 1\<rparr>) lid (next_id db) e (b_lines body) (b_plan body) = Inr db'"
    proof -
      note th = that
      define e where "e = \<lparr>e_ledger = lid, e_status = Draft, e_year = None, e_number = None,
                   e_booking_date = b_booking_date body, e_value_date = b_value_date body,
                   e_due_date = b_due_date body, e_accrual_date = b_accrual_date body,
                   e_kind = b_kind body, e_contract = b_contract body, e_reverses = None,
                   e_reversed_by = None, e_reason = None, e_key = b_key body, e_plan = [],
                   e_created_by = user, e_posted_by = None, e_approved_by = None, e_lines = []\<rparr>"
      have "write_draft (db\<lparr>next_id := next_id db + 1\<rparr>) lid (next_id db) e (b_lines body) (b_plan body) = Inr db'"
        using create False g
        by (auto simp: create_entry_route_def res_simps e_def Let_def split: if_splits option.splits)
      moreover have "draft_ok e" using \<open>b_kind body \<noteq> K_Reversal\<close> by (simp add: draft_ok_def e_def)
      ultimately show thesis using th by blast
    qed
    from e(2) obtain ps' lns' where db': "db' = db\<lparr>next_id := next_id db + 1,
        entries := AList.update (next_id db) (e\<lparr>e_plan := ps', e_lines := lns'\<rparr>) (entries db)\<rparr>"
      by (rule write_draft_effect) simp
    have "map_of (entries db) (next_id db) = None"
      using inv unfolding ledger_inv_def entries_ok_def by (metis less_irrefl option.exhaust)
    then show ?thesis
      using e(1) by (intro drafts same_posted_update[OF inv]) (auto simp: db' draft_ok_def)
  qed
next
  case (update lid eid body)
  then obtain e e1 where e: "map_of (entries db) eid = Some e" "e_status e \<noteq> Posted"
    and w: "write_draft db lid eid e1 (b_lines body) (b_plan body) = Inr db'" and d: "draft_ok e \<longrightarrow> draft_ok e1"
    by (auto simp: update_entry_route_def res_simps draft_ok_def split: if_splits)
  from w obtain ps' lns' where db': "db' = db\<lparr>entries := AList.update eid (e1\<lparr>e_plan := ps', e_lines := lns'\<rparr>) (entries db)\<rparr>"
    by (rule write_draft_effect) simp
  have "eid < next_id db" using inv e(1) unfolding ledger_inv_def entries_ok_def by blast
  then show ?thesis
    using e d inv_draft[OF inv e] by (intro drafts same_posted_update[OF inv]) (auto simp: db' draft_ok_def)
next
  case (delete lid eid)
  then show ?thesis
    by (auto simp: delete_entry_route_def res_simps split: if_splits intro!: drafts same_posted_delete[OF inv])
next
  case (approve lid eid user admin)
  then obtain e where e: "map_of (entries db) eid = Some e" "e_status e \<noteq> Posted"
    and db': "db' = put_entry db eid (e\<lparr>e_approved_by := Some user\<rparr>)"
    by (auto simp: approve_entry_route_def res_simps split: if_splits)
  have "eid < next_id db" using inv e(1) unfolding ledger_inv_def entries_ok_def by blast
  then show ?thesis
    using e inv_draft[OF inv e] by (intro drafts same_posted_update[OF inv]) (auto simp: db' put_entry_def draft_ok_def)
next
  case (post lid eid user)
  then obtain ledger e where g: "map_of (ledgers db) lid = Some ledger" and e: "map_of (entries db) eid = Some e" "e_ledger e = lid"
    and p: "Ledger.post db lid ledger eid e user = Inr db'"
    by (auto simp: post_entry_route_def res_simps)
  show ?thesis
  proof (cases "e_status e = Posted")
    case True
    then show ?thesis using p by (intro drafts same_posted_refl[OF inv]) (auto simp: post_def)
  next
    case False
    then have dr: "e_status e = Draft" by (cases "e_status e") auto
    have "\<forall>k \<in> fst ` set (items db). k < next_id db"
      using inv unfolding ledger_inv_def items_ok_def by (metis map_of_eq_None_iff option.exhaust)
    from post_effect[OF p dr this] g e dr show ?thesis using posting by blast
  qed
next
  case (reverse lid eid user reason bd today rid)
  then obtain ledger e d where g: "map_of (ledgers db) lid = Some ledger" and e: "map_of (entries db) eid = Some e" "e_ledger e = lid"
    and r: "reverse_entry db lid ledger eid e user reason d = Inr (db', rid)"
    by (auto simp: reverse_entry_route_def res_simps)
  from reverse_effect[OF r] g e show ?thesis using reversing by blast
next
  case (lock lid until n)
  then show ?thesis
    by (intro drafts same_posted_refl[OF inv]) (auto simp: lock_route_def lock_period_def res_simps split: if_splits)
next
  case object_lock
  then show ?thesis
  proof (cases rule: lock_step.cases)
    case (setting mode auto reopen)
    then show ?thesis
      by (intro drafts same_posted_refl[OF inv]) (auto simp: update_setting_def Let_def split: if_splits)
  next
    case (create user lid pid f t reason source st kid)
    then show ?thesis
      by (intro drafts same_posted_refl[OF inv]) (auto simp: create_lock_def Let_def split: if_splits)
  next
    case (close user source st lid pid f t r)
    then show ?thesis
      by (intro drafts same_posted_refl[OF inv])
        (auto simp: lock_for_closed_statement_def create_lock_def Let_def res_simps split: option.splits if_splits prod.splits)
  next
    case (request kid user reason)
    then show ?thesis
      by (intro drafts same_posted_refl[OF inv]) (auto simp: request_release_def res_simps split: if_splits)
  next
    case (release kid user reason)
    then show ?thesis
      by (intro drafts same_posted_refl[OF inv]) (auto simp: release_def res_simps split: if_splits)
  qed
qed

lemma ledger_step_inv:
  assumes "ledger_inv db" and "ledger_step db db'"
  shows "ledger_inv db'"
proof (cases rule: ledger_step_kinds[OF assms])
  case 1
  then show ?thesis by (rule same_posted_inv[OF assms(1)])
next
  case (2 lid ledger eid e e' its ss)
  then show ?thesis using posts_inv[OF assms(1)] by blast
next
  case (3 lid ledger eid e d rv)
  then show ?thesis using reverses_inv[OF assms(1)] by blast
qed

interpretation books: machine fresh_db ledger_step ledger_inv
  by unfold_locales (blast intro: ledger_inv_fresh ledger_step_inv)+

end
