(* ===== verification/LedgerProps.thy ===== *)
theory LedgerProps
  imports LedgerInvariant
begin

text \<open>
  Properties of the ledger in every state reached from a database without bookings.
\<close>

section \<open>Reachable states\<close>

definition reachable :: "db \<Rightarrow> bool" where
  "reachable db \<longleftrightarrow> (\<exists>db0. fresh_db db0 \<and> ledger_step\<^sup>*\<^sup>* db0 db)"

lemma reachable_inv: "reachable db \<Longrightarrow> ledger_inv db"
  unfolding reachable_def using books.inv_reach by blast

text \<open>C1: In every reachable state a posted entry has at least two lines, each with exactly one
  positive side in whole cents, debits equal credits, and every line books on an account of the
  entry's own ledger.\<close>

theorem posted_entries_balanced:
  assumes "reachable db" and "map_of (entries db) eid = Some e" and "e_status e = Posted"
  shows "balanced (e_lines e) \<and> accounts_of db (e_ledger e) (e_lines e)"
proof -
  have "entry_ok db eid e"
    using reachable_inv[OF assms(1)] assms(2) unfolding ledger_inv_def entries_ok_def by blast
  then show ?thesis using assms(3) by (simp add: entry_ok_def)
qed

text \<open>C2: In every reachable state the numbers of the posted entries of a ledger and fiscal year are
  exactly 1 to n, each given once, where n is the stored counter: no gap and no duplicate.\<close>

theorem numbering_gapless:
  assumes "reachable db"
  shows "table_sum (number_of lid y) (entries db) = mset [1..dict_get (counters db) (lid, y) 0]"
  using reachable_inv[OF assms] by (simp add: ledger_inv_def numbers_ok_def)

lemma settled_nonneg_item:
  assumes inv: "ledger_inv db" and i: "map_of (items db) iid = Some i"
  shows "0 \<le> settled (settlements db) None iid"
proof -
  have "item_ok db iid i" using assms unfolding ledger_inv_def items_ok_def by blast
  then have "0 \<le> settled (filter (dead db) (settlements db)) None iid" by (auto simp: item_ok_def)
  moreover have "0 \<le> settled (filter (\<lambda>s. \<not> dead db s) (settlements db)) None iid"
    using inv by (intro settled_nonneg) (auto simp: ledger_inv_def settlements_ok_def less_imp_le)
  ultimately show ?thesis using settled_filter_split[of "settlements db" iid "dead db"] by simp
qed

text \<open>C3: In every reachable state an open item is settled by an amount between zero and its own
  amount, so what remains of it is never negative and never more than the item.\<close>

theorem open_items_within_bounds:
  assumes "reachable db" and "map_of (items db) iid = Some i"
  shows "\<exists>rest. remaining db iid None = Inr rest \<and> 0 \<le> rest \<and> rest \<le> i_amount i \<and> 0 < i_amount i"
proof -
  note inv = reachable_inv[OF assms(1)]
  have "item_ok db iid i" using inv assms(2) unfolding ledger_inv_def items_ok_def by blast
  then show ?thesis
    using settled_nonneg_item[OF inv assms(2)] assms(2) by (simp add: remaining_def fetch_def item_ok_def)
qed

section \<open>Reversal\<close>

text \<open>The balance of an account over all posted entries.\<close>

definition posted_balance :: "db \<Rightarrow> uid \<Rightarrow> dec" where
  "posted_balance db a =
     table_sum (\<lambda>_ e. if e_status e = Posted then debit_on (e_lines e) a - credit_on (e_lines e) a else 0) (entries db)"

lemma reverses_balance:
  assumes inv: "ledger_inv db" and e: "map_of (entries db) eid = Some e" "e_status e = Posted"
    and r: "reverses db lid ledger eid e d rv db'"
  shows "posted_balance db' a = posted_balance db a - (debit_on (e_lines e) a - credit_on (e_lines e) a)"
proof -
  let ?f = "\<lambda>_ e. if e_status e = Posted then debit_on (e_lines e) a - credit_on (e_lines e) a else (0::rat)"
  have eok: "entries_ok db" using inv by (simp add: ledger_inv_def)
  then have dist: "distinct (map fst (entries db))" by (simp add: entries_ok_def)
  have fresh: "map_of (entries db) (next_id db) = None"
  proof (rule ccontr)
    assume "map_of (entries db) (next_id db) \<noteq> None"
    then obtain f where "map_of (entries db) (next_id db) = Some f" by blast
    then show False using eok unfolding entries_ok_def by blast
  qed
  from r have ent: "entries db' = AList.update eid (e\<lparr>e_reversed_by := Some (next_id db)\<rparr>)
      (AList.update (next_id db) rv (entries db))"
    and rv: "e_status rv = Posted" "map core (e_lines rv) = map core (map swap_line (e_lines e))"
    by (auto simp: reverses_def Let_def)
  have ne: "eid \<noteq> next_id db" using fresh e by auto
  have s: "debit_on (e_lines rv) a = credit_on (e_lines e) a" "credit_on (e_lines rv) a = debit_on (e_lines e) a"
    using credit_on_core[OF rv(2), of a] by simp_all
  have "table_sum ?f (entries db') + ?f eid e = table_sum ?f (AList.update (next_id db) rv (entries db)) + ?f eid e"
    using table_sum_update[of "AList.update (next_id db) rv (entries db)" ?f eid "e\<lparr>e_reversed_by := Some (next_id db)\<rparr>"]
      dist e ne by (simp add: ent dict_simps)
  then have "table_sum ?f (entries db') = table_sum ?f (entries db) + ?f (next_id db) rv"
    using table_sum_new[OF fresh, of ?f rv] by simp
  then show ?thesis using rv(1) s by (simp add: posted_balance_def)
qed

lemma reverse_entry_undoes:
  assumes inv: "ledger_inv db" and r: "reverse_entry db lid ledger eid e user reason d = Inr (db', rid)"
    and e: "map_of (entries db) eid = Some e" and i: "map_of (items db) iid = Some i"
  shows "posted_balance db' a = posted_balance db a - (debit_on (e_lines e) a - credit_on (e_lines e) a) \<and>
    remaining db' iid None =
      (if i_entry i = eid then Inr 0
       else Inr (i_amount i - settled (settlements db) None iid +
         settled (filter (\<lambda>s. s_entry s = eid) (settlements db)) None iid))"
proof -
  note eff = reverse_effect[OF r]
  from eff(9) obtain rv where rv: "reverses db lid ledger eid e d rv db'" ..
  have items: "items db' = items db" and ss: "settlements db' = settlements db @
      reverse_settlements (settlements db) eid (next_id db) d (items_of_entry db eid)"
    using rv by (auto simp: reverses_def Let_def)
  have "distinct (map fst (items db))" using inv by (simp add: ledger_inv_def items_ok_def)
  note new = reverse_settlements_settled[OF this i]
  have rem: "remaining db' iid None = Inr (i_amount i - settled (settlements db) None iid -
      ((if i_entry i = eid then i_amount i else 0) - settled (filter (\<lambda>s. s_entry s = eid) (settlements db)) None iid))"
    using i by (simp add: remaining_def fetch_def items ss new)
  have own: "settled (settlements db) None iid = settled (filter (\<lambda>s. s_entry s = eid) (settlements db)) None iid"
    if "i_entry i = eid"
  proof -
    have "(iid, i) \<in> set (items_of_entry db eid)" using i that by (auto simp: items_of_entry_def dest: map_of_SomeD)
    then have z: "settled (settlements db) None iid = 0" using eff(7) i by (auto simp: remaining_def fetch_def)
    have live: "\<not> dead db s" if "s_entry s = eid" for s using that e eff(2,3) by (auto simp: dead_def)
    have nn: "0 \<le> settled (filter (\<lambda>s. s_entry s = eid) (settlements db)) None iid"
      using inv live by (intro settled_nonneg) (auto simp: ledger_inv_def settlements_ok_def less_imp_le)
    have it: "item_ok db iid i" using inv i unfolding ledger_inv_def items_ok_def by blast
    then have dz: "settled (filter (dead db) (settlements db)) None iid = 0"
      using that e eff(2) by (auto simp: item_ok_def)
    let ?live = "filter (\<lambda>s. \<not> dead db s) (settlements db)"
    have "settled ?live None iid = 0" using settled_filter_split[of "settlements db" iid "dead db"] z dz by simp
    moreover have "settled ?live None iid = settled (filter (\<lambda>s. s_entry s = eid) ?live) None iid +
        settled (filter (\<lambda>s. s_entry s \<noteq> eid) ?live) None iid"
      by (rule settled_filter_split)
    moreover have "filter (\<lambda>s. s_entry s = eid) ?live = filter (\<lambda>s. s_entry s = eid) (settlements db)"
      using live by (auto simp: filter_filter intro: filter_cong)
    moreover have "0 \<le> settled (filter (\<lambda>s. s_entry s \<noteq> eid) ?live) None iid"
      using inv by (intro settled_nonneg) (auto simp: ledger_inv_def settlements_ok_def less_imp_le)
    ultimately show ?thesis using nn z by simp
  qed
  show ?thesis
    using reverses_balance[OF inv e eff(1) rv] rem own by auto
qed

text \<open>C6: A reversal takes the reversed entry out of every account's balance, leaves its own open items
  with nothing remaining, and gives every other item back what the entry had settled of it.\<close>

theorem reversal_undoes_entry:
  assumes reach: "reachable db"
    and route: "reverse_entry_route db lid eid user reason bd today = Inr (db', rid)"
    and e: "map_of (entries db) eid = Some e" and i: "map_of (items db) iid = Some i"
  shows "posted_balance db' a = posted_balance db a - (debit_on (e_lines e) a - credit_on (e_lines e) a) \<and>
    remaining db' iid None =
      (if i_entry i = eid then Inr 0
       else Inr (i_amount i - settled (settlements db) None iid +
         settled (filter (\<lambda>s. s_entry s = eid) (settlements db)) None iid))"
proof -
  from route e obtain ledger d where "reverse_entry db lid ledger eid e user reason d = Inr (db', rid)"
    by (auto simp: reverse_entry_route_def res_simps)
  from reverse_entry_undoes[OF reachable_inv[OF reach] this e i] show ?thesis .
qed

section \<open>Posted entries stay as they are\<close>

definition only_reversed :: "entry \<Rightarrow> entry \<Rightarrow> bool" where
  "only_reversed e e' \<longleftrightarrow> e' = e\<lparr>e_reversed_by := e_reversed_by e'\<rparr> \<and>
     (e_reversed_by e \<noteq> None \<longrightarrow> e_reversed_by e' = e_reversed_by e)"

lemma only_reversed_refl [simp]: "only_reversed e e"
  by (simp add: only_reversed_def)

lemma only_reversed_trans: "only_reversed e e' \<Longrightarrow> only_reversed e' e'' \<Longrightarrow> only_reversed e e''"
proof -
  assume a: "only_reversed e e'" "only_reversed e' e''"
  obtain r s where "e' = e\<lparr>e_reversed_by := r\<rparr>" "e'' = e'\<lparr>e_reversed_by := s\<rparr>"
    using a unfolding only_reversed_def by blast
  then have "e'' = e\<lparr>e_reversed_by := e_reversed_by e''\<rparr>" by simp
  then show ?thesis using a unfolding only_reversed_def by auto
qed

lemma only_reversed_fields:
  assumes "only_reversed e e'"
  shows "e_status e' = e_status e" "e_ledger e' = e_ledger e" "e_booking_date e' = e_booking_date e"
    "e_lines e' = e_lines e" "e_number e' = e_number e" "e_year e' = e_year e" "e_kind e' = e_kind e"
proof -
  obtain r where e': "e' = e\<lparr>e_reversed_by := r\<rparr>" using assms unfolding only_reversed_def by blast
  show "e_status e' = e_status e" "e_ledger e' = e_ledger e" "e_booking_date e' = e_booking_date e"
    "e_lines e' = e_lines e" "e_number e' = e_number e" "e_year e' = e_year e" "e_kind e' = e_kind e"
    unfolding e' by simp_all
qed

lemma step_keeps_posted:
  assumes inv: "ledger_inv db" and step: "ledger_step db db'"
    and e: "map_of (entries db) eid = Some e" "e_status e = Posted"
  shows "\<exists>e'. map_of (entries db') eid = Some e' \<and> only_reversed e e'"
proof (cases rule: ledger_step_kinds[OF inv step])
  case 1
  then have "map_of (entries db') eid = Some e" using e unfolding same_posted_def by blast
  then show ?thesis by simp
next
  case (2 lid ledger k f f' its ss)
  then have "entries db' = AList.update k f' (entries db)" by (auto simp: posts_def Let_def)
  moreover have "k \<noteq> eid" using 2 e by auto
  ultimately show ?thesis using e by (simp add: dict_simps)
next
  case (3 lid ledger k f d rv)
  then have ent: "entries db' = AList.update k (f\<lparr>e_reversed_by := Some (next_id db)\<rparr>) (AList.update (next_id db) rv (entries db))"
    by (auto simp: reverses_def Let_def)
  have "eid \<noteq> next_id db" using inv e unfolding ledger_inv_def entries_ok_def by (metis less_irrefl)
  then show ?thesis
    using e 3 by (cases "k = eid") (auto simp: ent dict_simps only_reversed_def)
qed

text \<open>C5: A posted entry is never changed or deleted again: in every later state it is there with all
  its fields, except for the reference to its reversal, which is set at most once.\<close>

theorem posted_entries_immutable:
  assumes "reachable db" and "ledger_step\<^sup>*\<^sup>* db db'"
    and "map_of (entries db) eid = Some e" and "e_status e = Posted"
  shows "\<exists>e'. map_of (entries db') eid = Some e' \<and> only_reversed e e'"
proof (rule books.related_runs[OF assms(2) reachable_inv[OF assms(1)]])
  show "\<exists>e'. map_of (entries db) eid = Some e' \<and> only_reversed e e'" using assms(3) by simp
  fix a b
  assume ab: "ledger_step a b" "ledger_inv a" and "\<exists>e'. map_of (entries a) eid = Some e' \<and> only_reversed e e'"
  then obtain e1 where e1: "map_of (entries a) eid = Some e1" "only_reversed e e1" by blast
  from step_keeps_posted[OF ab(2,1) e1(1)] assms(4) only_reversed_fields[OF e1(2)]
  show "\<exists>e'. map_of (entries b) eid = Some e' \<and> only_reversed e e'" using only_reversed_trans[OF e1(2)] by auto
qed

section \<open>Locked periods\<close>

definition lock_le :: "date option \<Rightarrow> date option \<Rightarrow> bool" where
  "lock_le a b \<longleftrightarrow> (\<forall>u. a = Some u \<longrightarrow> (\<exists>v. b = Some v \<and> u \<le> v))"

lemma lock_le_refl [simp]: "lock_le a a"
  by (auto simp: lock_le_def)

lemma write_draft_ledgers: "write_draft db lid eid e lns ps = Inr db' \<Longrightarrow> ledgers db' = ledgers db"
  by (rule write_draft_effect) auto

lemma step_ledgers:
  assumes inv: "ledger_inv db" and step: "ledger_step db db'" and g: "map_of (ledgers db) lid = Some g"
  shows "\<exists>g'. map_of (ledgers db') lid = Some g' \<and> lock_le (g_locked_until g) (g_locked_until g')"
proof -
  have same: ?thesis if "ledgers db' = ledgers db" using g that by simp
  from step show ?thesis
  proof (cases rule: ledger_step.cases)
    case (create l body user eid)
    then show ?thesis
      by (intro same) (auto simp: create_entry_route_def res_simps Let_def dest!: write_draft_ledgers split: if_splits option.splits)
  next
    case (update l eid body)
    then show ?thesis by (intro same) (auto simp: update_entry_route_def res_simps dest!: write_draft_ledgers split: if_splits)
  next
    case (delete l eid)
    then show ?thesis by (intro same) (auto simp: delete_entry_route_def res_simps split: if_splits)
  next
    case (approve l eid user admin)
    then show ?thesis by (intro same) (auto simp: approve_entry_route_def put_entry_def res_simps split: if_splits)
  next
    case (post l eid user)
    then obtain ledger e where e: "Ledger.post db l ledger eid e user = Inr db'" by (auto simp: post_entry_route_def res_simps)
    have k: "\<forall>k \<in> fst ` set (items db). k < next_id db"
      using inv unfolding ledger_inv_def items_ok_def by (metis map_of_eq_None_iff option.exhaust)
    show ?thesis
    proof (rule same, cases "e_status e")
      case Draft
      from post_effect(6)[OF e Draft k] show "ledgers db' = ledgers db" by (auto simp: posts_def Let_def)
    next
      case Posted
      then show "ledgers db' = ledgers db" using e by (simp add: post_def)
    qed
  next
    case (reverse l eid user reason bd today rid)
    then obtain ledger e d where "reverse_entry db l ledger eid e user reason d = Inr (db', rid)"
      by (auto simp: reverse_entry_route_def res_simps)
    from reverse_effect(9)[OF this] show ?thesis by (intro same) (auto simp: reverses_def Let_def)
  next
    case (lock l until n)
    then show ?thesis
      using g by (auto simp: lock_route_def lock_period_def res_simps lock_le_def dict_simps not_less split: if_splits option.splits)
  next
    case object_lock
    then show ?thesis
    proof (intro same, cases rule: lock_step.cases)
      case (setting mode auto reopen)
      then show "ledgers db' = ledgers db" by (auto simp: update_setting_def Let_def split: if_splits)
    next
      case (create user l pid f t reason source st kid)
      then show "ledgers db' = ledgers db" by (auto simp: create_lock_def Let_def split: if_splits)
    next
      case (close user source st l pid f t r)
      then show "ledgers db' = ledgers db"
        by (auto simp: lock_for_closed_statement_def create_lock_def Let_def res_simps split: option.splits if_splits prod.splits)
    next
      case (request kid user reason)
      then show "ledgers db' = ledgers db" by (auto simp: request_release_def res_simps split: if_splits)
    next
      case (release kid user reason)
      then show "ledgers db' = ledgers db" by (auto simp: release_def res_simps split: if_splits)
    qed
  qed
qed

text \<open>A posted entry of a locked period was there before the step.\<close>

lemma step_locked_entries:
  assumes inv: "ledger_inv db" and step: "ledger_step db db'"
    and g: "map_of (ledgers db) lid = Some g" "g_locked_until g = Some u"
    and e': "map_of (entries db') eid = Some e'" "e_status e' = Posted" "e_ledger e' = lid" "e_booking_date e' \<le> u"
  shows "\<exists>e. map_of (entries db) eid = Some e \<and> only_reversed e e'"
proof (cases rule: ledger_step_kinds[OF inv step])
  case 1
  then have "map_of (entries db) eid = Some e'" using e' unfolding same_posted_def by blast
  then show ?thesis by simp
next
  case (2 l ledger k f f' its ss)
  then have ent: "entries db' = AList.update k f' (entries db)"
    and f': "e_booking_date f' = e_booking_date f" "e_ledger f' = e_ledger f" by (auto simp: posts_def Let_def)
  have "k \<noteq> eid"
  proof
    assume "k = eid"
    then have "e' = f'" using e' by (simp add: ent dict_simps)
    then have "l = lid" "e_booking_date f \<le> u" using e' f' 2 by simp_all
    then show False using 2 g by (simp add: ensure_open_period_def)
  qed
  then show ?thesis using e' by (simp add: ent dict_simps)
next
  case (3 l ledger k f d rv)
  then have ent: "entries db' = AList.update k (f\<lparr>e_reversed_by := Some (next_id db)\<rparr>) (AList.update (next_id db) rv (entries db))"
    and rv: "e_booking_date rv = d" "e_ledger rv = e_ledger f"
    by (auto simp: reverses_def Let_def)
  have "k \<noteq> next_id db" using inv 3(2) unfolding ledger_inv_def entries_ok_def by (metis less_irrefl)
  consider "eid = k" | "eid = next_id db" "eid \<noteq> k" | "eid \<noteq> k" "eid \<noteq> next_id db" by blast
  then show ?thesis
  proof cases
    case 1
    then show ?thesis using e' 3 by (auto simp: ent dict_simps only_reversed_def)
  next
    case eq: 2
    then have "e' = rv" using e' by (simp add: ent dict_simps)
    then have "l = lid" "d \<le> u" using e' rv 3 by simp_all
    then show ?thesis using 3 g by (simp add: ensure_open_period_def)
  next
    case 3
    then show ?thesis using e' by (simp add: ent dict_simps)
  qed
qed

text \<open>The balance of an account of a ledger over the posted entries up to a day.\<close>

definition balance_until :: "db \<Rightarrow> uid \<Rightarrow> date \<Rightarrow> uid \<Rightarrow> dec" where
  "balance_until db lid u a =
     table_sum (\<lambda>_ e. if e_status e = Posted \<and> e_ledger e = lid \<and> e_booking_date e \<le> u
       then debit_on (e_lines e) a - credit_on (e_lines e) a else 0) (entries db)"

lemma step_balance_until:
  assumes inv: "ledger_inv db" and step: "ledger_step db db'"
    and g: "map_of (ledgers db) lid = Some g" "g_locked_until g = Some v" "u \<le> v"
  shows "balance_until db' lid u a = balance_until db lid u a"
proof -
  let ?P = "\<lambda>e. e_status e = Posted \<and> e_ledger e = lid \<and> e_booking_date e \<le> u"
  have "ledger_inv db'" by (rule ledger_step_inv[OF inv step])
  then have "distinct (map fst (entries db))" "distinct (map fst (entries db'))"
    using inv by (simp_all add: ledger_inv_def entries_ok_def)
  then show ?thesis
    unfolding balance_until_def
  proof (intro table_sum_eqI[where P = ?P, symmetric])
    fix k e assume a: "?P e" "map_of (entries db) k = Some e"
    then obtain e' where "map_of (entries db') k = Some e'" "only_reversed e e'"
      using step_keeps_posted[OF inv step a(2)] by blast
    then show "\<exists>e'. map_of (entries db') k = Some e' \<and>
      (if ?P e' then debit_on (e_lines e') a - credit_on (e_lines e') a else 0) =
      (if ?P e then debit_on (e_lines e) a - credit_on (e_lines e) a else 0)"
      using only_reversed_fields[of e e'] by auto
  next
    fix k e assume a: "?P e" "map_of (entries db') k = Some e"
    then have "e_booking_date e \<le> v" using g(3) by auto
    then obtain e' where "map_of (entries db) k = Some e'" "only_reversed e' e"
      using step_locked_entries[OF inv step g(1,2) a(2)] a(1) by blast
    then show "\<exists>e'. map_of (entries db) k = Some e' \<and>
      (if ?P e' then debit_on (e_lines e') a - credit_on (e_lines e') a else 0) =
      (if ?P e then debit_on (e_lines e) a - credit_on (e_lines e) a else 0)"
      using only_reversed_fields[of e' e] by auto
  qed auto
qed

text \<open>C4: Once a ledger is locked up to a day, no later operation changes any account's balance up to
  that day, and the lock is never taken back: whatever is posted, reversed or locked afterwards.\<close>

theorem locked_period_frozen:
  assumes reach: "reachable db" and steps: "ledger_step\<^sup>*\<^sup>* db db'"
    and g: "map_of (ledgers db) lid = Some g" "g_locked_until g = Some u"
  shows "balance_until db' lid u a = balance_until db lid u a \<and>
    (\<exists>g' u'. map_of (ledgers db') lid = Some g' \<and> g_locked_until g' = Some u' \<and> u \<le> u')"
  (is "?frozen db'")
proof (rule books.related_runs[OF steps reachable_inv[OF reach]])
  show "?frozen db" using g by auto
  fix db1 db2
  assume step: "ledger_step db1 db2" and inv: "ledger_inv db1" and IH: "?frozen db1"
  then obtain g1 v where g1: "map_of (ledgers db1) lid = Some g1" "g_locked_until g1 = Some v" "u \<le> v" by blast
  from step_ledgers[OF inv step g1(1)] g1(2,3)
  have "\<exists>g' u'. map_of (ledgers db2) lid = Some g' \<and> g_locked_until g' = Some u' \<and> u \<le> u'"
    by (auto simp: lock_le_def intro: order_trans)
  then show "?frozen db2" using step_balance_until[OF inv step g1] IH by simp
qed

section \<open>An example run\<close>

text \<open>
  One ledger with a debtor, a revenue and a bank account: a receivable of 100 is drafted and posted,
  the ledger is locked until the end of January, a payment of 40 that settles the receivable is
  drafted and posted.
\<close>

definition start_db :: db where
  "start_db = \<lparr>ledgers = [(1, \<lparr>g_property = None, g_start_month = 1, g_locked_until = None\<rparr>)],
     accounts = [(10, \<lparr>a_ledger = 1, a_number = ''200001'', a_category = Cat_Debtor, a_active = True\<rparr>),
       (11, \<lparr>a_ledger = 1, a_number = ''400000'', a_category = Cat_Revenue, a_active = True\<rparr>),
       (12, \<lparr>a_ledger = 1, a_number = ''100000'', a_category = Cat_Bank, a_active = True\<rparr>)],
     entries = [], items = [], settlements = [], counters = [], unit_property = [],
     properties = [], contract_property = [], invoice_entry = [], orders = [], approvals = [],
     reclass_entries = [], setting = None, period_locks = [], next_id = 100\<rparr>"

definition example_line :: "uid \<Rightarrow> dec \<Rightarrow> dec \<Rightarrow> line" where
  "example_line a d c = \<lparr>l_account = a, l_debit = d, l_credit = c, l_unit = None, l_property = None\<rparr>"

definition example_body :: "date \<Rightarrow> entry_kind \<Rightarrow> line list \<Rightarrow> plan list \<Rightarrow> entry_in" where
  "example_body d k lns ps = \<lparr>b_booking_date = d, b_value_date = None, b_due_date = None, b_accrual_date = None,
     b_kind = k, b_contract = None, b_key = None, b_lines = lns, b_plan = ps\<rparr>"

definition receivable_body :: entry_in where
  "receivable_body = example_body (Date 2024 1 5) K_Receivable [example_line 10 100 0, example_line 11 0 100] []"

definition payment_body :: entry_in where
  "payment_body = example_body (Date 2024 2 7) K_Debtor_Payment [example_line 12 40 0, example_line 10 0 40]
     [\<lparr>p_item = 101, p_amount = 40\<rparr>]"

definition ex1 :: db where "ex1 = fst (projr (create_entry_route start_db 1 receivable_body (Some 5)))"
definition ex2 :: db where "ex2 = projr (post_entry_route ex1 1 100 (Some 5))"
definition ex3 :: db where "ex3 = fst (projr (lock_route ex2 1 (Date 2024 1 31)))"
definition ex4 :: db where "ex4 = fst (projr (create_entry_route ex3 1 payment_body (Some 5)))"
definition ex5 :: db where "ex5 = projr (post_entry_route ex4 1 102 (Some 5))"

lemma example_runs:
  "\<not> isl (create_entry_route start_db 1 receivable_body (Some 5))"
  "\<not> isl (post_entry_route ex1 1 100 (Some 5))"
  "\<not> isl (lock_route ex2 1 (Date 2024 1 31))"
  "\<not> isl (create_entry_route ex3 1 payment_body (Some 5))"
  "\<not> isl (post_entry_route ex4 1 102 (Some 5))"
  by code_simp+

lemma projr_step: "\<not> isl r \<Longrightarrow> r = Inr (projr r)"
  by (cases r) auto

lemma projr_pair_step: "\<not> isl r \<Longrightarrow> r = Inr (fst (projr r), snd (projr r))"
  by (cases r) auto

lemma example_steps:
  "ledger_step start_db ex1" "ledger_step ex1 ex2" "ledger_step ex2 ex3" "ledger_step ex3 ex4" "ledger_step ex4 ex5"
  unfolding ex1_def ex2_def ex3_def ex4_def ex5_def
  by (rule ledger_step.create[OF projr_pair_step[OF example_runs(1)]])
    (rule ledger_step.post[OF projr_step[OF example_runs(2), unfolded ex1_def]]
      ledger_step.lock[OF projr_pair_step[OF example_runs(3), unfolded ex1_def ex2_def]]
      ledger_step.create[OF projr_pair_step[OF example_runs(4), unfolded ex1_def ex2_def ex3_def]]
      ledger_step.post[OF projr_step[OF example_runs(5), unfolded ex1_def ex2_def ex3_def ex4_def]])+

lemma example_reachable: "reachable ex2" "reachable ex3" "reachable ex5" "ledger_step\<^sup>*\<^sup>* ex2 ex5" "ledger_step\<^sup>*\<^sup>* ex3 ex5"
proof -
  have f: "fresh_db start_db" by (simp add: fresh_db_def start_db_def)
  note e = example_steps
  have 2: "ledger_step\<^sup>*\<^sup>* start_db ex2" using e(1,2) by (meson rtranclp.simps)
  have 3: "ledger_step\<^sup>*\<^sup>* ex2 ex3" using e(3) by blast
  show 5: "ledger_step\<^sup>*\<^sup>* ex3 ex5" using e(4,5) by (meson rtranclp.simps)
  show 25: "ledger_step\<^sup>*\<^sup>* ex2 ex5" using 3 5 by (rule rtranclp_trans)
  show "reachable ex2" "reachable ex3" "reachable ex5"
    unfolding reachable_def using f 2 3 25 by (meson rtranclp_trans)+
qed

theorem posted_entries_balanced_witness:
  "balanced (e_lines (the (map_of (entries ex5) 102)))"
proof -
  have "map_of (entries ex5) 102 = Some (the (map_of (entries ex5) 102))"
    by (rule option.collapse[symmetric]) code_simp
  moreover have "e_status (the (map_of (entries ex5) 102)) = Posted" by code_simp
  ultimately show ?thesis using posted_entries_balanced[OF example_reachable(3)] by blast
qed

theorem numbering_gapless_witness:
  "table_sum (number_of 1 2024) (entries ex5) = mset [1..2]"
proof -
  have "dict_get (counters ex5) (1, 2024) 0 = 2" by code_simp
  then show ?thesis using numbering_gapless[OF example_reachable(3), of 1 2024] by simp
qed

theorem open_items_within_bounds_witness:
  "\<exists>rest. remaining ex5 101 None = Inr rest \<and> 0 \<le> rest \<and> rest \<le> 100"
proof -
  have "map_of (items ex5) 101 = Some (the (map_of (items ex5) 101))"
    by (rule option.collapse[symmetric]) code_simp
  moreover have "i_amount (the (map_of (items ex5) 101)) = 100" by code_simp
  ultimately show ?thesis using open_items_within_bounds[OF example_reachable(3)] by force
qed

theorem reversal_undoes_entry_witness:
  "\<exists>db'. reverse_entry_route ex5 1 102 (Some 5) ''abc'' None (Date 2024 3 1) = Inr (db', 103) \<and>
     remaining db' 101 None = Inr 100"
proof -
  let ?r = "reverse_entry_route ex5 1 102 (Some 5) ''abc'' None (Date 2024 3 1)"
  let ?e = "the (map_of (entries ex5) 102)" and ?i = "the (map_of (items ex5) 101)"
  have "\<not> isl ?r" "snd (projr ?r) = 103" by code_simp+
  then have r: "?r = Inr (fst (projr ?r), 103)" by (metis projr_step prod.collapse)
  have e: "map_of (entries ex5) 102 = Some ?e" by (rule option.collapse[symmetric]) code_simp
  have i: "map_of (items ex5) 101 = Some ?i" by (rule option.collapse[symmetric]) code_simp
  have v: "i_entry ?i = 100" "i_amount ?i = 100" "settled (settlements ex5) None 101 = 40"
    "settled (filter (\<lambda>s. s_entry s = 102) (settlements ex5)) None 101 = 40" by code_simp+
  show ?thesis using reversal_undoes_entry[OF example_reachable(3) r e i] r v by force
qed

theorem posted_entries_immutable_witness:
  "\<exists>e'. map_of (entries ex5) 100 = Some e' \<and> only_reversed (the (map_of (entries ex2) 100)) e'"
proof -
  have "map_of (entries ex2) 100 = Some (the (map_of (entries ex2) 100))"
    by (rule option.collapse[symmetric]) code_simp
  moreover have "e_status (the (map_of (entries ex2) 100)) = Posted" by code_simp
  ultimately show ?thesis using posted_entries_immutable[OF example_reachable(1,4)] by blast
qed

theorem locked_period_frozen_witness:
  "balance_until ex5 1 (Date 2024 1 31) 10 = 100"
proof -
  have "map_of (ledgers ex3) 1 = Some (the (map_of (ledgers ex3) 1))"
    by (rule option.collapse[symmetric]) code_simp
  moreover have "g_locked_until (the (map_of (ledgers ex3) 1)) = Some (Date 2024 1 31)" by code_simp
  moreover have "balance_until ex3 1 (Date 2024 1 31) 10 = 100" by code_simp
  ultimately show ?thesis using locked_period_frozen[OF example_reachable(2,5)] by metis
qed

section \<open>Opening balances\<close>

definition approved_ok :: "entry \<Rightarrow> bool" where
  "approved_ok e \<longleftrightarrow> (\<forall>u. e_approved_by e = Some u \<longrightarrow> e_created_by e \<noteq> Some u) \<and>
     (e_status e = Posted \<and> e_kind e = K_Opening_Balance \<longrightarrow> e_approved_by e \<noteq> None)"

definition four_eyes :: "db \<Rightarrow> bool" where
  "four_eyes db \<longleftrightarrow> (\<forall>eid e. map_of (entries db) eid = Some e \<longrightarrow> approved_ok e)"

lemma four_eyesI:
  "four_eyes db \<Longrightarrow> (\<And>k e. map_of (entries db') k = Some e \<Longrightarrow> map_of (entries db) k = Some e \<or> approved_ok e) \<Longrightarrow>
   four_eyes db'"
  unfolding four_eyes_def by blast

lemma write_draft_four_eyes:
  assumes "four_eyes db" and "write_draft (db\<lparr>next_id := n\<rparr>) lid eid e lns ps = Inr db'"
    and "e_status e = Draft" "e_approved_by e = None"
  shows "four_eyes db'"
  using assms by (elim write_draft_effect) (auto simp: dict_simps approved_ok_def intro!: four_eyesI[of db] split: if_splits)

lemma step_four_eyes:
  assumes inv: "ledger_inv db" and four: "four_eyes db" and step: "ledger_step db db'"
  shows "four_eyes db'"
  using step
proof (cases rule: ledger_step.cases)
  case (create lid body user eid)
  then show ?thesis
    using four
    by (auto simp: create_entry_route_def res_simps Let_def split: if_splits option.splits
        intro: write_draft_four_eyes)
next
  case (update lid eid body)
  then obtain e where e: "map_of (entries db) eid = Some e" "e_status e \<noteq> Posted"
    and w: "write_draft db lid eid (e\<lparr>e_booking_date := b_booking_date body, e_value_date := b_value_date body,
            e_due_date := b_due_date body, e_accrual_date := b_accrual_date body, e_kind := b_kind body,
            e_contract := b_contract body, e_approved_by := None\<rparr>) (b_lines body) (b_plan body) = Inr db'"
    by (auto simp: update_entry_route_def res_simps split: if_splits)
  have "e_status e = Draft" using e(2) by (cases "e_status e") auto
  moreover have "db\<lparr>next_id := next_id db\<rparr> = db" by simp
  ultimately show ?thesis using write_draft_four_eyes[OF four, of "next_id db"] w by fastforce
next
  case (delete lid eid)
  then show ?thesis
    using four by (auto simp: delete_entry_route_def res_simps four_eyes_def delete_conv' split: if_splits)
next
  case (approve lid eid user admin)
  then obtain e where e: "map_of (entries db) eid = Some e" "e_status e \<noteq> Posted" "e_created_by e \<noteq> Some user"
    and db': "db' = put_entry db eid (e\<lparr>e_approved_by := Some user\<rparr>)"
    by (auto simp: approve_entry_route_def res_simps split: if_splits)
  then show ?thesis
    by (intro four_eyesI[OF four]) (auto simp: put_entry_def dict_simps approved_ok_def split: if_splits)
next
  case (post lid eid user)
  then obtain ledger e where e: "map_of (entries db) eid = Some e"
    and p: "Ledger.post db lid ledger eid e user = Inr db'"
    by (auto simp: post_entry_route_def res_simps)
  have k: "\<forall>k \<in> fst ` set (items db). k < next_id db"
    using inv unfolding ledger_inv_def items_ok_def by (metis map_of_eq_None_iff option.exhaust)
  have "approved_ok e" using four e by (simp add: four_eyes_def)
  show ?thesis
  proof (cases "e_status e")
    case Draft
    from post_effect(5,6)[OF p Draft k] \<open>approved_ok e\<close> show ?thesis
      by (intro four_eyesI[OF four]) (auto simp: posts_def Let_def dict_simps approved_ok_def split: if_splits)
  next
    case Posted
    then show ?thesis using p four by (simp add: post_def)
  qed
next
  case (reverse lid eid user reason bd today rid)
  then obtain ledger e d where e: "map_of (entries db) eid = Some e"
    and r: "reverse_entry db lid ledger eid e user reason d = Inr (db', rid)"
    by (auto simp: reverse_entry_route_def res_simps)
  have "approved_ok e" using four e by (simp add: four_eyes_def)
  from reverse_effect(9)[OF r] this show ?thesis
    by (intro four_eyesI[OF four]) (auto simp: reverses_def Let_def dict_simps approved_ok_def split: if_splits)
next
  case (lock lid until n)
  then show ?thesis
    using four by (auto simp: lock_route_def lock_period_def four_eyes_def res_simps split: if_splits)
next
  case object_lock
  then have "entries db' = entries db"
    by (cases rule: lock_step.cases)
      (auto simp: update_setting_def create_lock_def lock_for_closed_statement_def request_release_def release_def
        Let_def res_simps split: option.splits if_splits prod.splits)
  then show ?thesis using four by (simp add: four_eyes_def)
qed

text \<open>C7: In every reachable state a posted opening balance was approved, and by another person than
  the one who created the entry.\<close>

theorem opening_balance_four_eyes:
  assumes "reachable db" and "map_of (entries db) eid = Some e"
    and "e_status e = Posted" and "e_kind e = K_Opening_Balance"
  shows "\<exists>u. e_approved_by e = Some u \<and> e_created_by e \<noteq> Some u"
proof -
  from assms(1) obtain db0 where "fresh_db db0" "ledger_step\<^sup>*\<^sup>* db0 db" unfolding reachable_def by blast
  then have "four_eyes db"
    by (rule books.also_reach) (simp add: fresh_db_def four_eyes_def, blast intro: step_four_eyes)
  then have "approved_ok e" using assms(2) by (simp add: four_eyes_def)
  then show ?thesis using assms(3,4) unfolding approved_ok_def by blast
qed

definition opening_body :: entry_in where
  "opening_body = example_body (Date 2024 1 1) K_Opening_Balance [example_line 12 500 0, example_line 11 0 500] []"

definition ob1 :: db where "ob1 = fst (projr (create_entry_route start_db 1 opening_body (Some 5)))"
definition ob2 :: db where "ob2 = projr (approve_entry_route ob1 1 100 6 False)"
definition ob3 :: db where "ob3 = projr (post_entry_route ob2 1 100 (Some 5))"

lemma opening_runs:
  "\<not> isl (create_entry_route start_db 1 opening_body (Some 5))"
  "\<not> isl (approve_entry_route ob1 1 100 6 False)"
  "\<not> isl (post_entry_route ob2 1 100 (Some 5))"
  by code_simp+

lemma opening_reachable: "reachable ob3"
proof -
  have f: "fresh_db start_db" by (simp add: fresh_db_def start_db_def)
  have 1: "ledger_step start_db ob1"
    unfolding ob1_def by (rule ledger_step.create[OF projr_pair_step[OF opening_runs(1)]])
  have 2: "ledger_step ob1 ob2"
    by (rule ledger_step.approve[OF projr_step[OF opening_runs(2), folded ob2_def]])
  have 3: "ledger_step ob2 ob3"
    by (rule ledger_step.post[OF projr_step[OF opening_runs(3), folded ob3_def]])
  from 3 have "ledger_step\<^sup>*\<^sup>* ob2 ob3" ..
  with 2 have "ledger_step\<^sup>*\<^sup>* ob1 ob3" by (rule converse_rtranclp_into_rtranclp)
  with 1 have "ledger_step\<^sup>*\<^sup>* start_db ob3" by (rule converse_rtranclp_into_rtranclp)
  with f show ?thesis unfolding reachable_def by blast
qed

theorem opening_balance_four_eyes_witness:
  "\<exists>u. e_approved_by (the (map_of (entries ob3) 100)) = Some u \<and>
     e_created_by (the (map_of (entries ob3) 100)) \<noteq> Some u"
proof -
  have "map_of (entries ob3) 100 = Some (the (map_of (entries ob3) 100))"
    by (rule option.collapse[symmetric]) code_simp
  moreover have "e_status (the (map_of (entries ob3) 100)) = Posted"
    "e_kind (the (map_of (entries ob3) 100)) = K_Opening_Balance" by code_simp+
  ultimately show ?thesis using opening_balance_four_eyes[OF opening_reachable] by blast
qed

end
