(* ===== verification/LedgerReports.thy ===== *)
theory LedgerReports
  imports LedgerProps
begin

text \<open>
  The reports of the ledger and its consistency checks (\<open>mhvp/accounting/services.py\<close>, from
  \<open>account_sheet\<close> on, and \<open>line_property.findings\<close>). A query is a filter over the tables, its
  \<open>ORDER BY\<close> a stable sort, its aggregates are sums. The labels of the rows (texts, names) are
  left out; a finding is a value instead of a German sentence.
\<close>

section \<open>Account sheet\<close>

type_synonym row = "uid \<times> entry \<times> nat \<times> line"

definition posted_lines :: "db \<Rightarrow> row list" where
  "posted_lines db =
     concat (map (\<lambda>(eid, e). if e_status e = Posted
       then map2 (\<lambda>no row. (eid, e, no, row)) [1..<Suc (length (e_lines e))] (e_lines e) else []) (entries db))"

definition row_line :: "row \<Rightarrow> line" where "row_line r = snd (snd (snd r))"
definition row_entry :: "row \<Rightarrow> entry" where "row_entry r = fst (snd r)"

definition row_key :: "row \<Rightarrow> date \<times> int \<times> int \<times> nat" where
  "row_key r = (e_booking_date (row_entry r), the (e_year (row_entry r)), the (e_number (row_entry r)), fst (snd (snd r)))"

record movement =
  mv_entry :: uid
  mv_number :: "int \<times> int"
  mv_date :: date
  mv_debit :: dec
  mv_credit :: dec
  mv_balance :: dec

record sheet =
  sh_opening :: dec
  sh_debit :: dec
  sh_credit :: dec
  sh_closing :: dec
  sh_movements :: "movement list"

definition add_movement :: "dec \<times> dec \<times> dec \<times> movement list \<Rightarrow> row \<Rightarrow> dec \<times> dec \<times> dec \<times> movement list" where
  "add_movement acc r =
     (case acc of (balance, td, tc, ms) \<Rightarrow>
       (let row = row_line r; e = row_entry r; b = balance + (l_debit row - l_credit row)
        in (b, td + l_debit row, tc + l_credit row,
            ms @ [\<lparr>mv_entry = fst r, mv_number = (the (e_year e), the (e_number e)),
              mv_date = e_booking_date e, mv_debit = l_debit row, mv_credit = l_credit row, mv_balance = b\<rparr>])))"

definition account_sheet :: "db \<Rightarrow> uid \<Rightarrow> account \<Rightarrow> date \<Rightarrow> date \<Rightarrow> sheet" where
  "account_sheet db acc a start stop =
     (let base = filter (\<lambda>r. l_account (row_line r) = acc \<and> e_booking_date (row_entry r) < start) (posted_lines db);
          op0 = sum_list (map (l_debit \<circ> row_line) base) - sum_list (map (l_credit \<circ> row_line) base);
          rows = py_sorted row_key (filter (\<lambda>r. e_ledger (row_entry r) = a_ledger a \<and> l_account (row_line r) = acc \<and>
            start \<le> e_booking_date (row_entry r) \<and> e_booking_date (row_entry r) \<le> stop) (posted_lines db));
          (balance, td, tc, ms) = foldl add_movement (op0, 0, 0, []) rows
      in \<lparr>sh_opening = op0, sh_debit = td, sh_credit = tc, sh_closing = balance, sh_movements = ms\<rparr>)"

lemma foldl_add_movement:
  "foldl add_movement (b, d, c, ms) rows = (b', d', c', ms') \<Longrightarrow>
   b' = b + sum_list (map (l_debit \<circ> row_line) rows) - sum_list (map (l_credit \<circ> row_line) rows) \<and>
   d' = d + sum_list (map (l_debit \<circ> row_line) rows) \<and> c' = c + sum_list (map (l_credit \<circ> row_line) rows) \<and>
   length ms' = length ms + length rows"
  by (induction rows arbitrary: b d c ms) (force simp: add_movement_def Let_def)+

text \<open>A sum over the posted lines is a sum over the entries.\<close>

lemma sum_posted_lines:
  fixes f :: "line \<Rightarrow> dec"
  shows "sum_list (map (f \<circ> row_line) (filter (\<lambda>r. P (row_entry r) \<and> Q (row_line r)) (posted_lines db))) =
    table_sum (\<lambda>_ e. if e_status e = Posted \<and> P e then sum_list (map f (filter Q (e_lines e))) else 0) (entries db)"
proof -
  have one: "map (f \<circ> row_line) (filter (\<lambda>r. P (row_entry r) \<and> Q (row_line r))
      (map2 (\<lambda>no row. (eid, e, no, row)) ns lns)) = (if P e then map f (filter Q lns) else [])"
    if "length ns = length lns" for eid e ns lns
    using that by (induction ns lns rule: list_induct2) (auto simp: row_line_def row_entry_def)
  have "sum_list (map (f \<circ> row_line) (filter (\<lambda>r. P (row_entry r) \<and> Q (row_line r))
        (concat (map (\<lambda>(eid, e). if e_status e = Posted
         then map2 (\<lambda>no row. (eid, e, no, row)) [1..<Suc (length (e_lines e))] (e_lines e) else []) t)))) =
      table_sum (\<lambda>_ e. if e_status e = Posted \<and> P e then sum_list (map f (filter Q (e_lines e))) else 0) t" for t
    using one by (induction t) (auto simp: table_sum_def simp del: upt_Suc)
  then show ?thesis unfolding posted_lines_def .
qed

text \<open>Posted lines book on accounts of the ledger of their entry.\<close>

lemma posted_line_ledger:
  assumes inv: "ledger_inv db" and e: "(eid, e) \<in> set (entries db)" "e_status e = Posted" and row: "row \<in> set (e_lines e)"
    and a: "map_of (accounts db) (l_account row) = Some a"
  shows "a_ledger a = e_ledger e"
proof -
  have "distinct (map fst (entries db))" using inv by (simp add: ledger_inv_def entries_ok_def)
  then have "map_of (entries db) eid = Some e" using e(1) by simp
  then have "entry_ok db eid e" using inv unfolding ledger_inv_def entries_ok_def by blast
  then have "accounts_of db (e_ledger e) (e_lines e)" using e(2) by (simp add: entry_ok_def)
  then show ?thesis using row a by (force simp: accounts_of_def list_all_iff split: option.splits)
qed

text \<open>The balance of an account over all posted entries up to a day.\<close>

definition account_balance :: "db \<Rightarrow> uid \<Rightarrow> date \<Rightarrow> dec" where
  "account_balance db acc d =
     table_sum (\<lambda>_ e. if e_status e = Posted \<and> e_booking_date e \<le> d
       then debit_on (e_lines e) acc - credit_on (e_lines e) acc else 0) (entries db)"

text \<open>The account sheet closes: the closing balance is the opening balance plus the debits minus the
  credits of the sheet, and it is the balance of all posted lines of the account up to the last day.\<close>

lemma account_sheet_closes:
  assumes reach: "reachable db" and a: "map_of (accounts db) acc = Some a" and "start \<le> stop"
    and sh: "sh = account_sheet db acc a start stop"
  shows "sh_closing sh = sh_opening sh + sh_debit sh - sh_credit sh \<and> sh_closing sh = account_balance db acc stop"
proof -
  note inv = reachable_inv[OF reach]
  define base where "base = filter (\<lambda>r. e_booking_date (row_entry r) < start \<and> l_account (row_line r) = acc) (posted_lines db)"
  define rows0 where "rows0 = filter (\<lambda>r. (e_ledger (row_entry r) = a_ledger a \<and>
            start \<le> e_booking_date (row_entry r) \<and> e_booking_date (row_entry r) \<le> stop) \<and> l_account (row_line r) = acc) (posted_lines db)"
  define rows where "rows = py_sorted row_key rows0"
  define op0 where "op0 = sum_list (map (l_debit \<circ> row_line) base) - sum_list (map (l_credit \<circ> row_line) base)"
  obtain b td tc ms where fold: "foldl add_movement (op0, 0, 0, []) rows = (b, td, tc, ms)" by (metis prod_cases4)
  have b0: "base = filter (\<lambda>r. l_account (row_line r) = acc \<and> e_booking_date (row_entry r) < start) (posted_lines db)"
    unfolding base_def by (rule filter_cong) auto
  have r0: "rows0 = filter (\<lambda>r. e_ledger (row_entry r) = a_ledger a \<and> l_account (row_line r) = acc \<and>
            start \<le> e_booking_date (row_entry r) \<and> e_booking_date (row_entry r) \<le> stop) (posted_lines db)"
    unfolding rows0_def by (rule filter_cong) auto
  have sheet: "sh = \<lparr>sh_opening = op0, sh_debit = td, sh_credit = tc, sh_closing = b, sh_movements = ms\<rparr>"
    using fold unfolding sh account_sheet_def b0[symmetric] r0[symmetric] rows_def[symmetric] Let_def op0_def[symmetric]
    by simp
  have f: "b = op0 + sum_list (map (l_debit \<circ> row_line) rows0) - sum_list (map (l_credit \<circ> row_line) rows0)"
    "td = sum_list (map (l_debit \<circ> row_line) rows0)" "tc = sum_list (map (l_credit \<circ> row_line) rows0)"
    using foldl_add_movement[OF fold] by (simp_all add: rows_def)
  define D where "D = (\<lambda>P. table_sum (\<lambda>_ e. if e_status e = Posted \<and> P e then debit_on (e_lines e) acc else 0) (entries db))"
  define C where "C = (\<lambda>P. table_sum (\<lambda>_ e. if e_status e = Posted \<and> P e then credit_on (e_lines e) acc else 0) (entries db))"
  have sums: "sum_list (map (l_debit \<circ> row_line) (filter (\<lambda>r. P (row_entry r) \<and> l_account (row_line r) = acc) (posted_lines db))) = D P"
    "sum_list (map (l_credit \<circ> row_line) (filter (\<lambda>r. P (row_entry r) \<and> l_account (row_line r) = acc) (posted_lines db))) = C P" for P
    unfolding D_def C_def debit_on_def credit_on_def by (rule sum_posted_lines)+
  let ?P = "\<lambda>e. e_ledger e = a_ledger a \<and> start \<le> e_booking_date e \<and> e_booking_date e \<le> stop"
  have zero: "debit_on (e_lines e) acc = 0 \<and> credit_on (e_lines e) acc = 0"
    if "(k, e) \<in> set (entries db)" "e_status e = Posted" "e_ledger e \<noteq> a_ledger a" for k e
  proof -
    have "filter (\<lambda>row. l_account row = acc) (e_lines e) = []"
      using posted_line_ledger[OF inv that(1,2)] a that(3) by (force simp: filter_empty_conv)
    then show ?thesis by (simp add: debit_on_def credit_on_def)
  qed
  have bal: "D (\<lambda>e. e_booking_date e < start) - C (\<lambda>e. e_booking_date e < start) + D ?P - C ?P = account_balance db acc stop"
  proof -
    have "table_sum (\<lambda>_ e. if e_status e = Posted \<and> e_booking_date e \<le> stop
        then debit_on (e_lines e) acc - credit_on (e_lines e) acc else 0) t =
      table_sum (\<lambda>_ e. if e_status e = Posted \<and> e_booking_date e < start then debit_on (e_lines e) acc else 0) t -
      table_sum (\<lambda>_ e. if e_status e = Posted \<and> e_booking_date e < start then credit_on (e_lines e) acc else 0) t +
      table_sum (\<lambda>_ e. if e_status e = Posted \<and> ?P e then debit_on (e_lines e) acc else 0) t -
      table_sum (\<lambda>_ e. if e_status e = Posted \<and> ?P e then credit_on (e_lines e) acc else 0) t"
      if "set t \<subseteq> set (entries db)" for t
      using that
    proof (induction t)
      case (Cons ke t)
      obtain k e where ke: "ke = (k, e)" by force
      have "e_booking_date e < start \<Longrightarrow> e_booking_date e \<le> stop" using \<open>start \<le> stop\<close> by auto
      then show ?case using Cons zero[of k e] unfolding ke by (auto simp: not_less)
    qed simp
    from this[OF subset_refl] show ?thesis unfolding D_def C_def account_balance_def by linarith
  qed
  have op: "op0 = D (\<lambda>e. e_booking_date e < start) - C (\<lambda>e. e_booking_date e < start)"
    unfolding op0_def base_def using sums[of "\<lambda>e. e_booking_date e < start"] by simp
  have "b = op0 + td - tc" using f by simp
  moreover have "b = account_balance db acc stop"
    using f(1) bal unfolding op rows0_def sums[of ?P] by simp
  ultimately show ?thesis by (simp add: sheet)
qed

lemma account_sheet_closes_witness:
  "sh_closing (account_sheet ex5 10 (the (map_of (accounts ex5) 10)) (Date 2024 2 1) (Date 2024 12 31)) = 60"
proof -
  let ?a = "the (map_of (accounts ex5) 10)"
  have a: "map_of (accounts ex5) 10 = Some ?a" by (rule option.collapse[symmetric]) code_simp
  have "Date 2024 2 1 \<le> Date 2024 12 31" by code_simp
  then have "sh_closing (account_sheet ex5 10 ?a (Date 2024 2 1) (Date 2024 12 31)) = account_balance ex5 10 (Date 2024 12 31)"
    using account_sheet_closes[OF example_reachable(3) a _ refl] by blast
  moreover have "account_balance ex5 10 (Date 2024 12 31) = 60" by code_simp
  ultimately show ?thesis by simp
qed

end
