(* ===== verification/LedgerTrial.thy ===== *)
theory LedgerTrial
  imports LedgerReports
begin

text \<open>
  The trial balance of a ledger (\<open>trial_balance\<close> in \<open>mhvp/accounting/services.py\<close>): one row per
  account with postings in the period, and the proof that it always balances.
\<close>

section \<open>Trial balance\<close>

record trial_row =
  tr_account :: uid
  tr_number :: string
  tr_category :: account_category
  tr_debit :: dec
  tr_credit :: dec
  tr_balance :: dec

record trial =
  tb_rows :: "trial_row list"
  tb_debit :: dec
  tb_credit :: dec
  tb_balanced :: bool

definition in_range :: "date option \<Rightarrow> date \<Rightarrow> entry \<Rightarrow> bool" where
  "in_range start as_of e \<longleftrightarrow> e_booking_date e \<le> as_of \<and>
     (case start of None \<Rightarrow> True | Some d \<Rightarrow> d \<le> e_booking_date e)"

definition lines_on :: "db \<Rightarrow> date option \<Rightarrow> date \<Rightarrow> uid \<Rightarrow> row list" where
  "lines_on db start as_of k =
     filter (\<lambda>r. in_range start as_of (row_entry r) \<and> l_account (row_line r) = k) (posted_lines db)"

definition trial_balance :: "db \<Rightarrow> uid \<Rightarrow> date \<Rightarrow> date option \<Rightarrow> trial" where
  "trial_balance db lid as_of start =
     (let rows_of = lines_on db start as_of;
          hits = filter (\<lambda>(k, a). a_ledger a = lid \<and> rows_of k \<noteq> []) (accounts db);
          rows = map (\<lambda>(k, a).
            (let d = sum_list (map (l_debit \<circ> row_line) (rows_of k));
                 c = sum_list (map (l_credit \<circ> row_line) (rows_of k))
             in \<lparr>tr_account = k, tr_number = a_number a, tr_category = a_category a,
                 tr_debit = d, tr_credit = c, tr_balance = d - c\<rparr>)) (py_sorted (a_number \<circ> snd) hits);
          debit = sum_list (map tr_debit rows); credit = sum_list (map tr_credit rows)
      in \<lparr>tb_rows = rows, tb_debit = debit, tb_credit = credit, tb_balanced = (debit = credit)\<rparr>)"

lemma sum_over_accounts:
  fixes f :: "line \<Rightarrow> dec"
  assumes "distinct ks"
  shows "(\<Sum>k \<leftarrow> ks. sum_list (map f (filter (\<lambda>row. l_account row = k) lns))) =
    sum_list (map f (filter (\<lambda>row. l_account row \<in> set ks) lns))"
proof (induction lns)
  case (Cons row lns)
  have "(\<Sum>k \<leftarrow> ks. if l_account row = k then f row + g k else g k) =
      (if l_account row \<in> set ks then f row else 0) + sum_list (map g ks)" for g :: "uid \<Rightarrow> dec"
    using assms by (induction ks) auto
  from this[of "\<lambda>k. sum_list (map f (filter (\<lambda>row. l_account row = k) lns))"] Cons
  show ?case by (simp add: if_distrib[of sum_list] if_distrib[of "map f"] cong: if_cong)
qed simp

lemma table_sum_swap:
  "(\<Sum>k \<leftarrow> ks. table_sum (\<lambda>i e. f k i e) t) = table_sum (\<lambda>i e. \<Sum>k \<leftarrow> ks. f k i e) t"
  by (induction t) (auto simp: table_sum_def sum_list_addf)

lemma ledger_lines:
  fixes lid :: uid
  assumes inv: "ledger_inv db" and keys: "distinct (map fst (accounts db))"
    and e: "(eid, e) \<in> set (entries db)" "e_status e = Posted"
  defines "ks \<equiv> map fst (filter (\<lambda>(k, a). a_ledger a = lid) (accounts db))"
  shows "filter (\<lambda>row. l_account row \<in> set ks) (e_lines e) = (if e_ledger e = lid then e_lines e else [])"
proof -
  have "distinct (map fst (entries db))" using inv by (simp add: ledger_inv_def entries_ok_def)
  then have "map_of (entries db) eid = Some e" using e(1) by simp
  then have "entry_ok db eid e" using inv unfolding ledger_inv_def entries_ok_def by blast
  then have "accounts_of db (e_ledger e) (e_lines e)" using e(2) by (simp add: entry_ok_def)
  then have "l_account row \<in> set ks \<longleftrightarrow> e_ledger e = lid" if "row \<in> set (e_lines e)" for row
    using that keys unfolding ks_def accounts_of_def list_all_iff
    by (force split: option.splits dest: map_of_SomeD)
  then show ?thesis by (auto simp: filter_id_conv filter_empty_conv)
qed

lemma lines_on_sum:
  fixes f :: "line \<Rightarrow> dec"
  shows "sum_list (map (f \<circ> row_line) (lines_on db start as_of k)) =
    table_sum (\<lambda>_ e. if e_status e = Posted \<and> in_range start as_of e
      then sum_list (map f (filter (\<lambda>row. l_account row = k) (e_lines e))) else 0) (entries db)"
  unfolding lines_on_def by (rule sum_posted_lines)

lemma trial_sums:
  fixes f :: "line \<Rightarrow> dec"
  assumes inv: "ledger_inv db" and keys: "distinct (map fst (accounts db))"
  shows "(\<Sum>ka \<leftarrow> filter (\<lambda>(k, a). a_ledger a = lid \<and> lines_on db start as_of k \<noteq> []) (accounts db).
      sum_list (map (f \<circ> row_line) (lines_on db start as_of (fst ka)))) =
    table_sum (\<lambda>_ e. if e_status e = Posted \<and> in_range start as_of e \<and> e_ledger e = lid
      then sum_list (map f (e_lines e)) else 0) (entries db)"
proof -
  let ?ks = "map fst (filter (\<lambda>(k, a). a_ledger a = lid) (accounts db))"
  let ?s = "\<lambda>k. sum_list (map (f \<circ> row_line) (lines_on db start as_of k))"
  have "(\<Sum>ka \<leftarrow> filter (\<lambda>(k, a). a_ledger a = lid \<and> lines_on db start as_of k \<noteq> []) xs. ?s (fst ka)) =
      (\<Sum>k \<leftarrow> map fst (filter (\<lambda>(k, a). a_ledger a = lid) xs). ?s k)" for xs
    by (induction xs) auto
  then have "(\<Sum>ka \<leftarrow> filter (\<lambda>(k, a). a_ledger a = lid \<and> lines_on db start as_of k \<noteq> []) (accounts db). ?s (fst ka)) =
      (\<Sum>k \<leftarrow> ?ks. ?s k)" by simp
  also have "\<dots> = (\<Sum>k \<leftarrow> ?ks. table_sum (\<lambda>_ e. if e_status e = Posted \<and> in_range start as_of e
      then sum_list (map f (filter (\<lambda>row. l_account row = k) (e_lines e))) else 0) (entries db))"
    by (simp only: lines_on_sum)
  also have "\<dots> = table_sum (\<lambda>_ e. \<Sum>k \<leftarrow> ?ks. if e_status e = Posted \<and> in_range start as_of e
      then sum_list (map f (filter (\<lambda>row. l_account row = k) (e_lines e))) else 0) (entries db)"
    by (rule table_sum_swap)
  also have "\<dots> = table_sum (\<lambda>_ e. if e_status e = Posted \<and> in_range start as_of e \<and> e_ledger e = lid
      then sum_list (map f (e_lines e)) else 0) (entries db)"
  proof (rule table_sum_cong)
    fix k e assume e: "(k, e) \<in> set (entries db)"
    have d: "distinct ?ks" using keys by (rule distinct_map_filter)
    show "(\<Sum>k \<leftarrow> ?ks. if e_status e = Posted \<and> in_range start as_of e
        then sum_list (map f (filter (\<lambda>row. l_account row = k) (e_lines e))) else 0) =
      (if e_status e = Posted \<and> in_range start as_of e \<and> e_ledger e = lid then sum_list (map f (e_lines e)) else 0)"
    proof (cases "e_status e = Posted \<and> in_range start as_of e")
      case True
      then have c: "(if e_status e = Posted \<and> in_range start as_of e then x else (0::rat)) = x" for x by simp
      show ?thesis
        unfolding c sum_over_accounts[OF d, of f "e_lines e"]
        using True ledger_lines[OF inv keys e, of lid] by simp
    next
      case False
      then have z: "(if e_status e = Posted \<and> in_range start as_of e then x else (0::rat)) = 0" for x by auto
      have "(\<Sum>k \<leftarrow> xs. (0::rat)) = 0" for xs :: "uid list" by (induction xs) auto
      note zs = this
      show ?thesis unfolding z zs using False by auto
    qed
  qed
  finally show ?thesis .
qed

text \<open>C20: In every reachable state the trial balance of a ledger is balanced for every cut-off day and
  every start: its debits equal its credits.\<close>

theorem trial_balance_balanced:
  assumes reach: "reachable db" and keys: "distinct (map fst (accounts db))"
  shows "tb_balanced (trial_balance db lid as_of start)"
proof -
  note inv = reachable_inv[OF reach]
  have "tb_debit (trial_balance db lid as_of start) =
      table_sum (\<lambda>_ e. if e_status e = Posted \<and> in_range start as_of e \<and> e_ledger e = lid
        then sum_list (map l_debit (e_lines e)) else 0) (entries db)"
    unfolding trial_sums[OF inv keys, of l_debit start as_of lid, symmetric]
    by (simp add: trial_balance_def Let_def case_prod_beta comp_def)
  moreover have "tb_credit (trial_balance db lid as_of start) =
      table_sum (\<lambda>_ e. if e_status e = Posted \<and> in_range start as_of e \<and> e_ledger e = lid
        then sum_list (map l_credit (e_lines e)) else 0) (entries db)"
    unfolding trial_sums[OF inv keys, of l_credit start as_of lid, symmetric]
    by (simp add: trial_balance_def Let_def case_prod_beta comp_def)
  moreover have "table_sum (\<lambda>_ e. if e_status e = Posted \<and> in_range start as_of e \<and> e_ledger e = lid
        then sum_list (map l_debit (e_lines e)) else 0) (entries db) =
      table_sum (\<lambda>_ e. if e_status e = Posted \<and> in_range start as_of e \<and> e_ledger e = lid
        then sum_list (map l_credit (e_lines e)) else 0) (entries db)"
  proof (rule table_sum_cong)
    fix k e assume e: "(k, e) \<in> set (entries db)"
    have "balanced (e_lines e)" if "e_status e = Posted"
    proof -
      have "distinct (map fst (entries db))" using inv by (simp add: ledger_inv_def entries_ok_def)
      then have "map_of (entries db) k = Some e" using e by simp
      then have "entry_ok db k e" using inv unfolding ledger_inv_def entries_ok_def by blast
      then show ?thesis using that by (simp add: entry_ok_def)
    qed
    then show "(if e_status e = Posted \<and> in_range start as_of e \<and> e_ledger e = lid
        then sum_list (map l_debit (e_lines e)) else 0) =
      (if e_status e = Posted \<and> in_range start as_of e \<and> e_ledger e = lid
        then sum_list (map l_credit (e_lines e)) else 0)" by (auto simp: balanced_def)
  qed
  ultimately show ?thesis by (simp add: trial_balance_def Let_def)
qed

theorem trial_balance_balanced_witness:
  "tb_balanced (trial_balance ex5 1 (Date 2024 12 31) None) \<and> tb_debit (trial_balance ex5 1 (Date 2024 12 31) None) = 140"
proof -
  have "distinct (map fst (accounts ex5))" by code_simp
  then have "tb_balanced (trial_balance ex5 1 (Date 2024 12 31) None)"
    by (rule trial_balance_balanced[OF example_reachable(3)])
  moreover have "tb_debit (trial_balance ex5 1 (Date 2024 12 31) None) = 140" by code_simp
  ultimately show ?thesis ..
qed

end
