(* ===== verification/LedgerChecks.thy ===== *)
theory LedgerChecks
  imports LedgerTrial
begin

text \<open>
  The list of open items and the consistency checks of a ledger (\<open>checks\<close>, \<open>numbering_findings\<close> and
  \<open>subledger_findings\<close> in \<open>mhvp/accounting/services.py\<close>, \<open>findings\<close> in \<open>line_property.py\<close>), and the
  proof that no check reports anything in a reachable state.
\<close>

section \<open>Open items\<close>

record open_row =
  op_item :: uid
  op_kind :: item_kind
  op_account_number :: string
  op_amount :: dec
  op_remaining :: dec

definition open_items :: "db \<Rightarrow> uid \<Rightarrow> date \<Rightarrow> uid option \<Rightarrow> open_row list" where
  "open_items db lid as_of acc =
     (let number = (\<lambda>i. a_number (the (map_of (accounts db) (i_account i))));
          hits = filter (\<lambda>(iid, i). i_ledger i = lid \<and> i_booking_date i \<le> as_of \<and>
            (case acc of None \<Rightarrow> True | Some a \<Rightarrow> i_account i = a)) (items db);
          rows = map (\<lambda>(iid, i). \<lparr>op_item = iid, op_kind = i_kind i, op_account_number = number i, op_amount = i_amount i,
            op_remaining = i_amount i - settled (settlements db) (Some as_of) iid\<rparr>)
            (py_sorted (\<lambda>(iid, i). (number i, i_due_date i, iid)) hits)
      in filter (\<lambda>r. op_remaining r \<noteq> 0) rows)"

section \<open>The checks\<close>

datatype finding =
    F_Unbalanced int int
  | F_Item_Bounds uid
  | F_Item_Line uid
  | F_Foreign_Account uid
  | F_Totals dec dec
  | F_Number_Gap int int
  | F_Counter int int int
  | F_Subledger string
  | F_Property uid nat

definition posted_of :: "db \<Rightarrow> uid \<Rightarrow> (uid \<times> entry) list" where
  "posted_of db lid = filter (\<lambda>(_, e). e_ledger e = lid \<and> e_status e = Posted) (entries db)"

definition unbalanced_findings :: "db \<Rightarrow> uid \<Rightarrow> finding list" where
  "unbalanced_findings db lid =
     map (\<lambda>(_, e). F_Unbalanced (the (e_year e)) (the (e_number e)))
       (filter (\<lambda>(_, e). e_lines e \<noteq> [] \<and>
          (sum_list (map l_debit (e_lines e)) \<noteq> sum_list (map l_credit (e_lines e)) \<or> length (e_lines e) < 2))
        (posted_of db lid))"

definition item_bound_findings :: "db \<Rightarrow> uid \<Rightarrow> finding list" where
  "item_bound_findings db lid =
     map (\<lambda>(iid, _). F_Item_Bounds iid)
       (filter (\<lambda>(iid, i). i_ledger i = lid \<and>
          (i_amount i < settled (settlements db) None iid \<or> settled (settlements db) None iid < 0)) (items db))"

definition item_line_findings :: "db \<Rightarrow> uid \<Rightarrow> finding list" where
  "item_line_findings db lid =
     map (\<lambda>(iid, _). F_Item_Line iid)
       (filter (\<lambda>(iid, i). i_ledger i = lid \<and>
          (case map_of (entries db) (i_entry i) of
             None \<Rightarrow> False
           | Some e \<Rightarrow> i_account i \<in> l_account ` set (e_lines e) \<and>
               i_amount i \<noteq> \<bar>debit_on (e_lines e) (i_account i) - credit_on (e_lines e) (i_account i)\<bar>)) (items db))"

definition foreign_findings :: "db \<Rightarrow> uid \<Rightarrow> finding list" where
  "foreign_findings db lid =
     concat (map (\<lambda>(eid, e). map (\<lambda>_. F_Foreign_Account eid)
         (filter (\<lambda>row. case map_of (accounts db) (l_account row) of None \<Rightarrow> False | Some a \<Rightarrow> a_ledger a \<noteq> lid) (e_lines e)))
       (filter (\<lambda>(_, e). e_ledger e = lid) (entries db)))"

definition total_findings :: "db \<Rightarrow> uid \<Rightarrow> finding list" where
  "total_findings db lid =
     (let d = sum_list (map (\<lambda>(_, e). sum_list (map l_debit (e_lines e))) (posted_of db lid));
          c = sum_list (map (\<lambda>(_, e). sum_list (map l_credit (e_lines e))) (posted_of db lid))
      in if d \<noteq> c then [F_Totals d c] else [])"

definition year_numbers :: "db \<Rightarrow> uid \<Rightarrow> int \<Rightarrow> int list" where
  "year_numbers db lid y = map (\<lambda>(_, e). the (e_number e)) (filter (\<lambda>(_, e). e_year e = Some y) (posted_of db lid))"

definition posted_years :: "db \<Rightarrow> uid \<Rightarrow> int list" where
  "posted_years db lid = sort (remdups (map (\<lambda>(_, e). the (e_year e)) (posted_of db lid)))"

definition highest :: "int list \<Rightarrow> int" where
  "highest ns = fold max ns 0"

definition numbering_findings :: "db \<Rightarrow> uid \<Rightarrow> finding list" where
  "numbering_findings db lid =
     (let years = posted_years db lid;
          counter_years = map (\<lambda>((_, y), _). y) (filter (\<lambda>((l, _), _). l = lid) (counters db));
          hi = (\<lambda>y. highest (year_numbers db lid y));
          last_no = (\<lambda>y. dict_get (counters db) (lid, y) 0)
      in take 1000 (concat (map (\<lambda>y. map (F_Number_Gap y) (filter (\<lambda>n. n \<notin> set (year_numbers db lid y)) [1..hi y])) years)) @
         map (\<lambda>y. F_Counter y (last_no y) (hi y))
           (filter (\<lambda>y. last_no y \<noteq> hi y) (sort (remdups (counter_years @ years)))))"

definition gl_sum :: "(line list \<Rightarrow> uid \<Rightarrow> dec) \<Rightarrow> db \<Rightarrow> uid \<Rightarrow> uid \<Rightarrow> dec" where
  "gl_sum f db lid acc = sum_list (map (\<lambda>(_, e). f (e_lines e) acc) (posted_of db lid))"

definition subledger_findings :: "db \<Rightarrow> uid \<Rightarrow> finding list" where
  "subledger_findings db lid =
     (let own = (\<lambda>k. filter (\<lambda>(_, i). i_ledger i = lid \<and> i_account i = k) (items db));
          amt = (\<lambda>k. sum_list (map (\<lambda>(_, i). i_amount i) (own k)));
          st = (\<lambda>k. sum_list (map (\<lambda>(iid, _). settled (settlements db) None iid) (own k)));
          d = gl_sum debit_on db lid; c = gl_sum credit_on db lid
      in map (\<lambda>(_, a). F_Subledger (a_number a))
           (py_sorted (\<lambda>(_, a). a_number a) (filter (\<lambda>(k, a). own k \<noteq> [] \<and>
              (a_category a = Cat_Debtor \<and> (d k < amt k \<or> c k < st k) \<or>
               a_category a = Cat_Creditor \<and> (c k < amt k \<or> d k < st k))) (accounts db))))"

definition property_findings :: "db \<Rightarrow> uid \<Rightarrow> finding list" where
  "property_findings db lid =
     take 500 (concat (map (\<lambda>(eid, e). map (\<lambda>(no, _). F_Property eid no)
         (filter (\<lambda>(_, row). case l_unit row of None \<Rightarrow> False | Some u \<Rightarrow>
            (case map_of (unit_property db) u of None \<Rightarrow> False | Some p \<Rightarrow> l_property row \<noteq> Some p))
          (zip [1..<Suc (length (e_lines e))] (e_lines e))))
       (py_sorted (\<lambda>(_, e). e_booking_date e) (filter (\<lambda>(_, e). e_ledger e = lid) (entries db)))))"

definition checks :: "db \<Rightarrow> uid \<Rightarrow> finding list" where
  "checks db lid =
     unbalanced_findings db lid @ item_bound_findings db lid @ item_line_findings db lid @ foreign_findings db lid @
     total_findings db lid @ numbering_findings db lid @ subledger_findings db lid @ property_findings db lid"

section \<open>Lines of drafts and posted entries\<close>

text \<open>Every line, also of a draft, books on an account of the entry's ledger and carries the object of
  its unit.\<close>

definition lines_fit :: "db \<Rightarrow> entry \<Rightarrow> bool" where
  "lines_fit db e \<longleftrightarrow> accounts_of db (e_ledger e) (e_lines e) \<and> list_all (property_ok db) (e_lines e)"

definition lines_ok :: "db \<Rightarrow> bool" where
  "lines_ok db \<longleftrightarrow> (\<forall>eid e. map_of (entries db) eid = Some e \<longrightarrow> lines_fit db e)"

lemma lines_okI:
  assumes "lines_ok db" and "accounts db' = accounts db" and "unit_property db' = unit_property db"
    and "\<And>k e. map_of (entries db') k = Some e \<Longrightarrow>
      (\<exists>e0. map_of (entries db) k = Some e0 \<and> e_ledger e0 = e_ledger e \<and> e_lines e0 = e_lines e) \<or> lines_fit db e"
  shows "lines_ok db'"
proof -
  have "lines_fit db' e \<longleftrightarrow> lines_fit db e" for e
    using assms(2,3) by (simp add: lines_fit_def accounts_of_def property_ok_def list_all_iff)
  moreover have "lines_fit db e" if "map_of (entries db) k = Some e0" "e_ledger e0 = e_ledger e" "e_lines e0 = e_lines e" for k e0 e
    using assms(1) that unfolding lines_ok_def lines_fit_def by metis
  ultimately show ?thesis using assms(4) unfolding lines_ok_def by blast
qed

lemma write_draft_lines_ok:
  assumes "lines_ok db" and "write_draft (db\<lparr>next_id := n\<rparr>) lid eid e lns ps = Inr db'" and "e_ledger e = lid"
  shows "lines_ok db'"
proof -
  from assms(2) obtain ps' lns' where
    db': "db' = db\<lparr>next_id := n, entries := AList.update eid (e\<lparr>e_plan := ps', e_lines := lns'\<rparr>) (entries db)\<rparr>"
    and l: "accounts_of (db\<lparr>next_id := n\<rparr>) lid lns'" "list_all (property_ok (db\<lparr>next_id := n\<rparr>)) lns'"
    by (rule write_draft_effect) simp
  have "lines_fit db (e\<lparr>e_plan := ps', e_lines := lns'\<rparr>)"
    using l assms(3) by (simp add: lines_fit_def accounts_of_def property_ok_def list_all_iff)
  then show ?thesis
    by (intro lines_okI[OF assms(1)]) (auto simp: db' dict_simps split: if_splits)
qed

lemma step_lines_ok:
  assumes inv: "ledger_inv db" and ok: "lines_ok db" and step: "ledger_step db db'"
  shows "lines_ok db'"
proof -
  have old: "lines_ok db'" if "entries db' = entries db" "accounts db' = accounts db" "unit_property db' = unit_property db"
    using that by (intro lines_okI[OF ok]) auto
  from step show ?thesis
  proof (cases rule: ledger_step.cases)
    case (create lid body user eid)
    then show ?thesis
      using ok
      by (auto simp: create_entry_route_def res_simps Let_def split: if_splits option.splits
          dest!: write_draft_lines_ok[OF ok])
  next
    case (update lid eid body)
    then obtain e where e: "e_ledger e = lid"
      and w: "write_draft db lid eid (e\<lparr>e_booking_date := b_booking_date body, e_value_date := b_value_date body,
            e_due_date := b_due_date body, e_accrual_date := b_accrual_date body, e_kind := b_kind body,
            e_contract := b_contract body, e_approved_by := None\<rparr>) (b_lines body) (b_plan body) = Inr db'"
      by (auto simp: update_entry_route_def res_simps split: if_splits)
    have "db\<lparr>next_id := next_id db\<rparr> = db" by simp
    then show ?thesis
      using write_draft_lines_ok[OF ok, of "next_id db" lid eid "e\<lparr>e_booking_date := b_booking_date body, e_value_date := b_value_date body,
            e_due_date := b_due_date body, e_accrual_date := b_accrual_date body, e_kind := b_kind body,
            e_contract := b_contract body, e_approved_by := None\<rparr>"] w e by simp
  next
    case (delete lid eid)
    then obtain e where "db' = db\<lparr>entries := AList.delete eid (entries db)\<rparr>"
      by (auto simp: delete_entry_route_def res_simps split: if_splits)
    then show ?thesis by (intro lines_okI[OF ok]) (auto simp: delete_conv' split: if_splits)
  next
    case (approve lid eid user admin)
    then obtain e where e: "map_of (entries db) eid = Some e" and db': "db' = put_entry db eid (e\<lparr>e_approved_by := Some user\<rparr>)"
      by (auto simp: approve_entry_route_def res_simps split: if_splits)
    then show ?thesis by (intro lines_okI[OF ok]) (auto simp: put_entry_def dict_simps split: if_splits)
  next
    case (post lid eid user)
    then obtain ledger e where e: "map_of (entries db) eid = Some e"
      and p: "Ledger.post db lid ledger eid e user = Inr db'"
      by (auto simp: post_entry_route_def res_simps)
    have k: "\<forall>k \<in> fst ` set (items db). k < next_id db"
      using inv unfolding ledger_inv_def items_ok_def by (metis map_of_eq_None_iff option.exhaust)
    show ?thesis
    proof (cases "e_status e")
      case Draft
      from post_effect(6)[OF p Draft k] obtain e' its ss where ps: "posts db lid ledger eid e e' its ss db'" by blast
      then show ?thesis
        using e by (intro lines_okI[OF ok]) (auto simp: posts_def Let_def dict_simps split: if_splits)
    next
      case Posted
      then show ?thesis using p ok by (simp add: post_def)
    qed
  next
    case (reverse lid eid user reason bd today rid)
    then obtain ledger e d where e: "map_of (entries db) eid = Some e" "e_ledger e = lid"
      and r: "reverse_entry db lid ledger eid e user reason d = Inr (db', rid)"
      by (auto simp: reverse_entry_route_def res_simps)
    from reverse_effect(9)[OF r] obtain rv where rv: "reverses db lid ledger eid e d rv db'" ..
    then have "lines_fit db rv" using e(2) by (auto simp: reverses_def Let_def lines_fit_def)
    then show ?thesis
      using rv e by (intro lines_okI[OF ok]) (auto simp: reverses_def Let_def dict_simps split: if_splits)
  next
    case (lock lid until n)
    then show ?thesis by (intro old) (auto simp: lock_route_def lock_period_def res_simps split: if_splits)
  next
    case object_lock
    then have "entries db' = entries db \<and> accounts db' = accounts db \<and> unit_property db' = unit_property db"
      by (cases rule: lock_step.cases)
        (auto simp: update_setting_def create_lock_def lock_for_closed_statement_def request_release_def release_def
          Let_def res_simps split: option.splits if_splits prod.splits)
    then show ?thesis by (intro old) auto
  qed
qed

lemma reachable_lines_ok:
  assumes "reachable db"
  shows "lines_ok db"
proof -
  from assms obtain db0 where "fresh_db db0" "ledger_step\<^sup>*\<^sup>* db0 db" unfolding reachable_def by blast
  then show ?thesis
    by (rule books.also_reach) (simp add: fresh_db_def lines_ok_def, blast intro: step_lines_ok)
qed

section \<open>No check reports anything\<close>

lemma posted_ofD:
  assumes inv: "ledger_inv db" and e: "(eid, e) \<in> set (posted_of db lid)"
  shows "map_of (entries db) eid = Some e" "entry_ok db eid e" "e_ledger e = lid" "e_status e = Posted"
    "balanced (e_lines e)"
proof -
  show l: "e_ledger e = lid" and s: "e_status e = Posted" using e by (auto simp: posted_of_def)
  have "distinct (map fst (entries db))" using inv by (simp add: ledger_inv_def entries_ok_def)
  then show m: "map_of (entries db) eid = Some e" using e by (simp add: posted_of_def)
  then show o: "entry_ok db eid e" using inv unfolding ledger_inv_def entries_ok_def by blast
  show "balanced (e_lines e)" using o s by (simp add: entry_ok_def)
qed

lemma no_unbalanced: "ledger_inv db \<Longrightarrow> unbalanced_findings db lid = []"
  using posted_ofD(5) by (fastforce simp: unbalanced_findings_def filter_empty_conv balanced_def)

lemma no_totals:
  assumes "ledger_inv db"
  shows "total_findings db lid = []"
proof -
  have "map (\<lambda>(_, e). sum_list (map l_debit (e_lines e))) (posted_of db lid) =
      map (\<lambda>(_, e). sum_list (map l_credit (e_lines e))) (posted_of db lid)"
    using posted_ofD(5)[OF assms] by (intro map_cong) (auto simp: balanced_def)
  then show ?thesis unfolding total_findings_def Let_def by presburger
qed

lemma item_of_db:
  assumes inv: "ledger_inv db" and i: "(iid, i) \<in> set (items db)"
  shows "map_of (items db) iid = Some i" "item_ok db iid i"
proof -
  have "distinct (map fst (items db))" using inv by (simp add: ledger_inv_def items_ok_def)
  then show m: "map_of (items db) iid = Some i" using i by simp
  then show "item_ok db iid i" using inv unfolding ledger_inv_def items_ok_def by blast
qed

lemma no_item_bounds:
  assumes "ledger_inv db"
  shows "item_bound_findings db lid = []"
proof -
  have "\<not> i_amount i < settled (settlements db) None iid \<and> \<not> settled (settlements db) None iid < 0"
    if "(iid, i) \<in> set (items db)" for iid i
    using item_of_db[OF assms that] settled_nonneg_item[OF assms] by (auto simp: item_ok_def not_less)
  then show ?thesis by (auto simp: item_bound_findings_def filter_empty_conv)
qed

lemma item_of_amount: "item_of k cat d c = Some (v, kind) \<Longrightarrow> v = \<bar>d - c\<bar>"
  by (auto simp: item_of_def Let_def split: if_splits)

lemma no_item_lines:
  assumes "ledger_inv db"
  shows "item_line_findings db lid = []"
proof -
  have "i_amount i = \<bar>debit_on (e_lines e) (i_account i) - credit_on (e_lines e) (i_account i)\<bar>"
    if "(iid, i) \<in> set (items db)" "map_of (entries db) (i_entry i) = Some e" for iid i e
    using item_of_db(2)[OF assms that(1)] that(2)
    by (auto simp: item_ok_def creates_def intro: item_of_amount)
  then show ?thesis by (auto simp: item_line_findings_def filter_empty_conv split: option.splits)
qed

lemma entry_lines_fit:
  assumes "ledger_inv db" and "lines_ok db" and "(eid, e) \<in> set (entries db)"
  shows "lines_fit db e"
proof -
  have "distinct (map fst (entries db))" using assms(1) by (simp add: ledger_inv_def entries_ok_def)
  then have "map_of (entries db) eid = Some e" using assms(3) by simp
  then show ?thesis using assms(2) unfolding lines_ok_def by blast
qed

lemma no_foreign:
  assumes "ledger_inv db" and "lines_ok db"
  shows "foreign_findings db lid = []"
  using entry_lines_fit[OF assms]
  by (fastforce simp: foreign_findings_def filter_empty_conv lines_fit_def accounts_of_def list_all_iff split: option.splits)

lemma no_property:
  assumes "ledger_inv db" and "lines_ok db"
  shows "property_findings db lid = []"
proof -
  have "property_ok db row" if "(eid, e) \<in> set (entries db)" "row \<in> set (e_lines e)" for eid e row
    using entry_lines_fit[OF assms that(1)] that(2) by (simp add: lines_fit_def list_all_iff)
  then have "concat (map (\<lambda>(eid, e). map (\<lambda>(no, _). F_Property eid no)
         (filter (\<lambda>(_, row). case l_unit row of None \<Rightarrow> False | Some u \<Rightarrow>
            (case map_of (unit_property db) u of None \<Rightarrow> False | Some p \<Rightarrow> l_property row \<noteq> Some p))
          (zip [1..<Suc (length (e_lines e))] (e_lines e))))
       (py_sorted (\<lambda>(_, e). e_booking_date e) (filter (\<lambda>(_, e). e_ledger e = lid) (entries db)))) = []"
    by (fastforce simp: filter_empty_conv property_ok_def dest: set_zip_rightD split: option.splits)
  then show ?thesis unfolding property_findings_def by simp
qed

lemma year_numbers_mset:
  "mset (year_numbers db lid y) = table_sum (number_of lid y) (entries db)"
proof -
  have "mset (map (\<lambda>(_, e). the (e_number e)) (filter (\<lambda>(_, e). e_year e = Some y)
      (filter (\<lambda>(_, e). e_ledger e = lid \<and> e_status e = Posted) t))) = table_sum (number_of lid y) t" for t
    by (induction t) (auto simp: number_of_def simp del: mset_map mset_filter split: if_splits)
  then show ?thesis by (simp add: year_numbers_def posted_of_def del: mset_map mset_filter)
qed

lemma highest_Max: "highest ns = Max (set (0 # ns))"
  unfolding highest_def using Max.set_eq_fold[of 0 ns] by simp

lemma no_numbering:
  assumes "ledger_inv db"
  shows "numbering_findings db lid = []"
proof -
  let ?n = "\<lambda>y. dict_get (counters db) (lid, y) 0"
  have n: "0 \<le> ?n y" "mset (year_numbers db lid y) = mset [1..?n y]" for y
    using assms unfolding year_numbers_mset by (simp_all add: ledger_inv_def numbers_ok_def)
  then have s: "set (year_numbers db lid y) = {1..?n y}" for y
    using mset_eq_setD[OF n(2)] by simp
  have h: "highest (year_numbers db lid y) = ?n y" for y
    unfolding highest_Max using n(1)[of y] by (intro Max_eqI) (auto simp: s)
  show ?thesis by (simp add: numbering_findings_def h s filter_empty_conv Let_def)
qed

end
