(* ===== verification/LedgerHistory.thy ===== *)
theory LedgerHistory
  imports LedgerChecks
begin

text \<open>
  The list of open items (\<open>open_items\<close> in \<open>mhvp/accounting/services.py\<close>) for a day: exact once no later
  settlement exists, but not for every day in the past, because a reversed settlement is undone on the
  day of the reversal while the item can be settled again with an earlier date.
\<close>

definition open_row_of :: "db \<Rightarrow> date \<Rightarrow> uid \<times> open_item \<Rightarrow> open_row" where
  "open_row_of db as_of ii = (case ii of (iid, i) \<Rightarrow>
     \<lparr>op_item = iid, op_kind = i_kind i, op_account_number = a_number (the (map_of (accounts db) (i_account i))),
      op_amount = i_amount i, op_remaining = i_amount i - settled (settlements db) (Some as_of) iid\<rparr>)"

lemma open_items_set:
  "set (open_items db lid as_of acc) =
     {r. op_remaining r \<noteq> 0 \<and> (\<exists>iid i. (iid, i) \<in> set (items db) \<and> i_ledger i = lid \<and> i_booking_date i \<le> as_of \<and>
       (case acc of None \<Rightarrow> True | Some a \<Rightarrow> i_account i = a) \<and> r = open_row_of db as_of (iid, i))}"
  by (auto simp: open_items_def Let_def open_row_of_def image_iff)

lemma settled_all:
  "\<forall>s \<in> set ss. s_date s \<le> as_of \<Longrightarrow> settled ss (Some as_of) iid = settled ss None iid"
  by (auto simp: settled_def intro!: arg_cong[where f = "\<lambda>xs. sum_list (map s_amount xs)"] filter_cong)

text \<open>For a day that no settlement lies after, the list of open items shows exactly the items booked up
  to that day that are not settled in full, each with a rest between zero and its amount.\<close>

lemma open_items_current:
  assumes reach: "reachable db" and late: "\<forall>s \<in> set (settlements db). s_date s \<le> as_of"
  shows "op_item ` set (open_items db lid as_of acc) =
      {iid. \<exists>i. map_of (items db) iid = Some i \<and> i_ledger i = lid \<and> i_booking_date i \<le> as_of \<and>
        (case acc of None \<Rightarrow> True | Some a \<Rightarrow> i_account i = a) \<and> settled (settlements db) None iid \<noteq> i_amount i} \<and>
    (\<forall>r \<in> set (open_items db lid as_of acc). 0 < op_remaining r \<and> op_remaining r \<le> op_amount r)"
proof -
  note inv = reachable_inv[OF reach]
  have "distinct (map fst (items db))" using inv by (simp add: ledger_inv_def items_ok_def)
  then have m: "(iid, i) \<in> set (items db) \<longleftrightarrow> map_of (items db) iid = Some i" for iid i by simp
  have b: "0 \<le> settled (settlements db) None iid \<and> settled (settlements db) None iid \<le> i_amount i"
    if "map_of (items db) iid = Some i" for iid i
  proof -
    have "item_ok db iid i" using inv that unfolding ledger_inv_def items_ok_def by blast
    then show ?thesis using settled_nonneg_item[OF inv that] by (simp add: item_ok_def)
  qed
  have "op_item ` set (open_items db lid as_of acc) =
      {iid. \<exists>i. map_of (items db) iid = Some i \<and> i_ledger i = lid \<and> i_booking_date i \<le> as_of \<and>
        (case acc of None \<Rightarrow> True | Some a \<Rightarrow> i_account i = a) \<and> settled (settlements db) None iid \<noteq> i_amount i}"
    unfolding open_items_set m by (force simp: open_row_of_def settled_all[OF late] image_iff)
  moreover have "0 < op_remaining r \<and> op_remaining r \<le> op_amount r" if "r \<in> set (open_items db lid as_of acc)" for r
    using that b unfolding open_items_set m by (auto simp: open_row_of_def settled_all[OF late] less_le)
  ultimately show ?thesis by blast
qed

lemma open_items_current_witness:
  "op_item ` set (open_items ex5 1 (Date 2024 12 31) None) = {101}"
proof -
  have l: "\<forall>s \<in> set (settlements ex5). s_date s \<le> Date 2024 12 31" by code_simp
  have d: "{iid. \<exists>i. map_of (items ex5) iid = Some i \<and> i_ledger i = 1 \<and> i_booking_date i \<le> Date 2024 12 31 \<and>
      settled (settlements ex5) None iid \<noteq> i_amount i} = {101}"
  proof -
    have k: "fst ` set (items ex5) = {101}" by code_simp
    have i: "map_of (items ex5) 101 = Some (the (map_of (items ex5) 101))" by (rule option.collapse[symmetric]) code_simp
    have v: "i_ledger (the (map_of (items ex5) 101)) = 1" "i_booking_date (the (map_of (items ex5) 101)) \<le> Date 2024 12 31"
      "settled (settlements ex5) None 101 = 40" "i_amount (the (map_of (items ex5) 101)) = 100" by code_simp+
    define i0 where "i0 = the (map_of (items ex5) 101)"
    note i = i[folded i0_def] and v = v[folded i0_def]
    have one: "iid = 101" if "map_of (items ex5) iid = Some i" for iid i
      using that k by (metis domI dom_map_of_conv_image_fst singletonD)
    show ?thesis
    proof (intro equalityI subsetI)
      fix x assume "x \<in> {101 :: uid}"
      moreover have "settled (settlements ex5) None 101 \<noteq> i_amount i0" using v(3,4) by simp
      ultimately show "x \<in> {iid. \<exists>i. map_of (items ex5) iid = Some i \<and> i_ledger i = 1 \<and> i_booking_date i \<le> Date 2024 12 31 \<and>
          settled (settlements ex5) None iid \<noteq> i_amount i}" using i v(1,2) by blast
    qed (use one in blast)
  qed
  show ?thesis using open_items_current[OF example_reachable(3) l, of 1 None] d by simp
qed

section \<open>A day in the past\<close>

text \<open>The payment of 40 is reversed in March, then the receivable is paid in full by a payment of
  February.\<close>

definition full_payment_body :: entry_in where
  "full_payment_body = example_body (Date 2024 2 15) K_Debtor_Payment [example_line 12 100 0, example_line 10 0 100]
     [\<lparr>p_item = 101, p_amount = 100\<rparr>]"

definition hs1 :: db where "hs1 = fst (projr (reverse_entry_route ex5 1 102 (Some 5) ''abc'' None (Date 2024 3 1)))"
definition hs2 :: db where "hs2 = fst (projr (create_entry_route hs1 1 full_payment_body (Some 5)))"
definition hs3 :: db where "hs3 = projr (post_entry_route hs2 1 104 (Some 5))"

lemma history_runs:
  "\<not> isl (reverse_entry_route ex5 1 102 (Some 5) ''abc'' None (Date 2024 3 1))"
  "\<not> isl (create_entry_route hs1 1 full_payment_body (Some 5))"
  "\<not> isl (post_entry_route hs2 1 104 (Some 5))"
  by code_simp+

lemma history_reachable: "reachable hs3"
proof -
  have 1: "ledger_step ex5 hs1"
    unfolding hs1_def by (rule ledger_step.reverse[OF projr_pair_step[OF history_runs(1)]])
  have 2: "ledger_step hs1 hs2"
    unfolding hs2_def by (rule ledger_step.create[OF projr_pair_step[OF history_runs(2)]])
  have 3: "ledger_step hs2 hs3"
    unfolding hs3_def by (rule ledger_step.post[OF projr_step[OF history_runs(3)]])
  obtain db0 where "fresh_db db0" "ledger_step\<^sup>*\<^sup>* db0 ex5" using example_reachable(3) unfolding reachable_def by blast
  then show ?thesis unfolding reachable_def using 1 2 3 by (meson rtranclp.rtrancl_into_rtrancl)
qed

text \<open>The list of open items for a day in the past can show a negative rest: after a payment of
  February is reversed in March and the receivable is paid in full with another February date, both
  payments count on the last day of February.\<close>

lemma open_items_past_overshoot:
  "reachable hs3 \<and> map op_remaining (open_items hs3 1 (Date 2024 2 29) None) = [- 40] \<and>
   open_items hs3 1 (Date 2024 12 31) None = []"
proof (intro conjI)
  show "reachable hs3" by (rule history_reachable)
  show "map op_remaining (open_items hs3 1 (Date 2024 2 29) None) = [- 40]"
    "open_items hs3 1 (Date 2024 12 31) None = []" by code_simp+
qed

end
