(* ===== verification/LedgerSubledger.thy ===== *)
theory LedgerSubledger
  imports LedgerChecks
begin

text \<open>
  The sub ledger check (\<open>subledger_findings\<close> in \<open>mhvp/accounting/services.py\<close>): on a person's account the
  open items never exceed the postings that create them, nor the settlements those that pay them.
  Debtors and creditors differ in the side only, so the argument is made once for a pair of sides.
\<close>

section \<open>Sums over the rows of tables\<close>

lemma sum_inj_le:
  fixes f :: "'a \<Rightarrow> dec" and g :: "'b \<Rightarrow> dec"
  assumes "finite A" "finite B" "inj_on h A" "h ` A \<subseteq> B"
    and "\<And>x. x \<in> A \<Longrightarrow> f x \<le> g (h x)" and "\<And>y. y \<in> B \<Longrightarrow> 0 \<le> g y"
  shows "sum f A \<le> sum g B"
proof -
  have "sum f A \<le> (\<Sum>x\<in>A. g (h x))" by (rule sum_mono) (rule assms(5))
  also have "\<dots> = sum g (h ` A)" using assms(3) by (simp add: sum.reindex)
  also have "\<dots> \<le> sum g B" using assms by (intro sum_mono2) auto
  finally show ?thesis .
qed

lemma sum_settled:
  assumes "finite A"
  shows "(\<Sum>iid\<in>A. settled ss None iid) = sum_list (map s_amount (filter (\<lambda>s. s_item s \<in> A) ss))"
proof (induction ss)
  case (Cons s ss)
  have "(\<Sum>iid\<in>A. settled (s # ss) None iid) =
      (\<Sum>iid\<in>A. if s_item s = iid then s_amount s else 0) + (\<Sum>iid\<in>A. settled ss None iid)"
    unfolding sum.distrib[symmetric] by (rule sum.cong) (auto simp: settled_def)
  also have "(\<Sum>iid\<in>A. if s_item s = iid then s_amount s else 0) = (if s_item s \<in> A then s_amount s else 0)"
    using assms by (simp add: sum.delta')
  finally show ?case using Cons by simp
qed (simp add: settled_def)

lemma sum_by_entry:
  assumes "finite P" and "\<And>s. s \<in> set ss \<Longrightarrow> s_entry s \<in> P"
  shows "sum_list (map s_amount ss) = (\<Sum>eid\<in>P. sum_list (map s_amount (filter (\<lambda>s. s_entry s = eid) ss)))"
  using assms(2)
proof (induction ss)
  case (Cons s ss)
  have "(\<Sum>eid\<in>P. sum_list (map s_amount (filter (\<lambda>s. s_entry s = eid) (s # ss)))) =
      (\<Sum>eid\<in>P. if s_entry s = eid then s_amount s else 0) +
      (\<Sum>eid\<in>P. sum_list (map s_amount (filter (\<lambda>s. s_entry s = eid) ss)))"
    unfolding sum.distrib[symmetric] by (rule sum.cong) auto
  also have "(\<Sum>eid\<in>P. if s_entry s = eid then s_amount s else 0) = s_amount s"
    using assms(1) Cons.prems by (simp add: sum.delta')
  finally show ?case using Cons by simp
qed simp

section \<open>A side of an account\<close>

text \<open>\<open>own\<close> is the side that creates open items on accounts of category \<open>cat\<close>, \<open>opp\<close> the side that
  settles them.\<close>

locale side =
  fixes own opp :: "line list \<Rightarrow> uid \<Rightarrow> dec" and cat :: account_category
  assumes own_nonneg: "balanced lns \<Longrightarrow> 0 \<le> own lns a"
    and opp_nonneg: "balanced lns \<Longrightarrow> 0 \<le> opp lns a"
    and opp_swapped: "map core lns' = map core (map swap_line lns) \<Longrightarrow> opp lns' a = own lns a"
    and item_amount: "item_of kind cat (debit_on lns a) (credit_on lns a) = Some (v, ik) \<Longrightarrow> balanced lns \<Longrightarrow> v \<le> own lns a"
    and room: "balanced lns \<Longrightarrow> max 0 (if cat = Cat_Debtor then credit_on lns a - debit_on lns a
      else debit_on lns a - credit_on lns a) \<le> opp lns a"

lemma sides_nonneg:
  assumes "balanced lns"
  shows "0 \<le> debit_on lns a" "0 \<le> credit_on lns a"
  using assms unfolding debit_on_def credit_on_def
  by (auto intro!: sum_list_nonneg simp: balanced_def list_all_iff line_ok_def)

interpretation debtor: side debit_on credit_on Cat_Debtor
proof
  fix lns lns' :: "line list" and a v kind ik
  show "balanced lns \<Longrightarrow> 0 \<le> debit_on lns a" "balanced lns \<Longrightarrow> 0 \<le> credit_on lns a"
    by (simp_all add: sides_nonneg)
  show "map core lns' = map core (map swap_line lns) \<Longrightarrow> credit_on lns' a = debit_on lns a"
    using credit_on_core[of lns' "map swap_line lns" a] by simp
  show "item_of kind Cat_Debtor (debit_on lns a) (credit_on lns a) = Some (v, ik) \<Longrightarrow> balanced lns \<Longrightarrow> v \<le> debit_on lns a"
    using sides_nonneg(2)[of lns a] by (auto simp: item_of_def Let_def split: if_splits)
  show "balanced lns \<Longrightarrow> max 0 (if Cat_Debtor = Cat_Debtor then credit_on lns a - debit_on lns a
      else debit_on lns a - credit_on lns a) \<le> credit_on lns a"
    using sides_nonneg[of lns a] by simp
qed

interpretation creditor: side credit_on debit_on Cat_Creditor
proof
  fix lns lns' :: "line list" and a v kind ik
  show "balanced lns \<Longrightarrow> 0 \<le> credit_on lns a" "balanced lns \<Longrightarrow> 0 \<le> debit_on lns a"
    by (simp_all add: sides_nonneg)
  show "map core lns' = map core (map swap_line lns) \<Longrightarrow> debit_on lns' a = credit_on lns a"
    using credit_on_core[of lns' "map swap_line lns" a] by simp
  show "item_of kind Cat_Creditor (debit_on lns a) (credit_on lns a) = Some (v, ik) \<Longrightarrow> balanced lns \<Longrightarrow> v \<le> credit_on lns a"
    using sides_nonneg(1)[of lns a] by (auto simp: item_of_def Let_def split: if_splits)
  show "balanced lns \<Longrightarrow> max 0 (if Cat_Creditor = Cat_Debtor then credit_on lns a - debit_on lns a
      else debit_on lns a - credit_on lns a) \<le> debit_on lns a"
    using sides_nonneg[of lns a] by simp
qed

section \<open>The items of an account\<close>

definition own_items :: "db \<Rightarrow> uid \<Rightarrow> uid \<Rightarrow> (uid \<times> open_item) list" where
  "own_items db lid k = filter (\<lambda>(_, i). i_ledger i = lid \<and> i_account i = k) (items db)"

lemma own_items_iff:
  assumes "ledger_inv db"
  shows "iid \<in> fst ` set (own_items db lid k) \<longleftrightarrow>
    (\<exists>i. map_of (items db) iid = Some i \<and> i_ledger i = lid \<and> i_account i = k)"
proof -
  have "distinct (map fst (items db))" using assms by (simp add: ledger_inv_def items_ok_def)
  then show ?thesis by (force simp: own_items_def)
qed

lemma posted_iff:
  assumes "ledger_inv db"
  shows "eid \<in> fst ` set (posted_of db lid) \<longleftrightarrow>
    (\<exists>e. map_of (entries db) eid = Some e \<and> e_ledger e = lid \<and> e_status e = Posted)"
proof -
  have "distinct (map fst (entries db))" using assms by (simp add: ledger_inv_def entries_ok_def)
  then show ?thesis by (force simp: posted_of_def)
qed

lemma own_sum:
  assumes "ledger_inv db"
  shows "sum_list (map (\<lambda>(iid, i). f iid i) (own_items db lid k)) =
    (\<Sum>iid \<in> fst ` set (own_items db lid k). f iid (the (map_of (items db) iid)) :: dec)"
proof -
  have d: "distinct (map fst (items db))" using assms by (simp add: ledger_inv_def items_ok_def)
  then have "distinct (map fst (own_items db lid k))" unfolding own_items_def by (rule distinct_map_filter)
  note table_sum_set[OF this, of f]
  moreover have "the (map_of (own_items db lid k) iid) = the (map_of (items db) iid)"
    if "iid \<in> fst ` set (own_items db lid k)" for iid
    using that d \<open>distinct (map fst (own_items db lid k))\<close> by (auto simp: own_items_def)
  ultimately show ?thesis by (simp add: table_sum_def)
qed

lemma gl_sum_set:
  assumes "ledger_inv db"
  shows "gl_sum f db lid k = (\<Sum>eid \<in> fst ` set (posted_of db lid). f (e_lines (the (map_of (entries db) eid))) k)"
proof -
  have d: "distinct (map fst (entries db))" using assms by (simp add: ledger_inv_def entries_ok_def)
  then have "distinct (map fst (posted_of db lid))" unfolding posted_of_def by (rule distinct_map_filter)
  note table_sum_set[OF this, of "\<lambda>_ e. f (e_lines e) k"]
  moreover have "the (map_of (posted_of db lid) eid) = the (map_of (entries db) eid)"
    if "eid \<in> fst ` set (posted_of db lid)" for eid
    using that d \<open>distinct (map fst (posted_of db lid))\<close> by (auto simp: posted_of_def)
  ultimately show ?thesis by (simp add: table_sum_def gl_sum_def)
qed

text \<open>Live entries of the ledger, and its posted reversals.\<close>

definition live_entries :: "db \<Rightarrow> uid \<Rightarrow> uid set" where
  "live_entries db lid = {eid \<in> fst ` set (posted_of db lid).
     e_kind (the (map_of (entries db) eid)) \<noteq> K_Reversal \<and> e_reversed_by (the (map_of (entries db) eid)) = None}"

definition reversal_entries :: "db \<Rightarrow> uid \<Rightarrow> uid set" where
  "reversal_entries db lid = {eid \<in> fst ` set (posted_of db lid). e_kind (the (map_of (entries db) eid)) = K_Reversal}"

lemma creator:
  assumes inv: "ledger_inv db" and i: "map_of (items db) iid = Some i"
  obtains e where "map_of (entries db) (i_entry i) = Some e" "creates db e i" "entry_ok db (i_entry i) e"
    "i_entry i \<in> fst ` set (posted_of db (i_ledger i))" "balanced (e_lines e)"
    "settled (filter (dead db) (settlements db)) None iid = (if e_reversed_by e = None then 0 else i_amount i)"
proof -
  note th = that
  have "item_ok db iid i" using assms unfolding ledger_inv_def items_ok_def by blast
  then obtain e where e: "map_of (entries db) (i_entry i) = Some e" "creates db e i"
    "settled (filter (dead db) (settlements db)) None iid = (if e_reversed_by e = None then 0 else i_amount i)"
    unfolding item_ok_def by blast
  have ok: "entry_ok db (i_entry i) e" using inv e(1) unfolding ledger_inv_def entries_ok_def by blast
  have "i_entry i \<in> fst ` set (posted_of db (i_ledger i))"
    using e(1,2) unfolding posted_iff[OF inv] creates_def by blast
  moreover have "balanced (e_lines e)" using ok e(2) by (simp add: entry_ok_def creates_def)
  ultimately show thesis using th e ok by blast
qed

lemma one_item:
  assumes "ledger_inv db" "map_of (items db) j = Some i" "map_of (items db) k = Some i'"
    and "i_entry i = i_entry i'" "i_account i = i_account i'"
  shows "j = k"
  using assms unfolding ledger_inv_def items_ok_def by blast

lemma live_settlement:
  assumes inv: "ledger_inv db" and s: "s \<in> set (settlements db)" "\<not> dead db s"
    and i: "map_of (items db) (s_item s) = Some i"
  shows "s_entry s \<in> live_entries db (i_ledger i)"
proof -
  have "settlements_ok db" using inv by (simp add: ledger_inv_def)
  then obtain e where e: "map_of (entries db) (s_entry s) = Some e" "e_status e = Posted" "e_ledger e = i_ledger i"
    using s(1) i unfolding settlements_ok_def by fastforce
  then have "s_entry s \<in> fst ` set (posted_of db (i_ledger i))" unfolding posted_iff[OF inv] by blast
  then show ?thesis using s(2) e by (auto simp: live_entries_def dead_def)
qed

lemma live_not_dead:
  assumes "s_entry s \<in> live_entries db lid"
  shows "\<not> dead db s"
  using assms by (auto simp: live_entries_def dead_def)

text \<open>The live settlements of the items of an account, summed over the entries that made them.\<close>

lemma live_settled:
  assumes inv: "ledger_inv db"
  shows "(\<Sum>iid \<in> fst ` set (own_items db lid k). settled (filter (\<lambda>s. \<not> dead db s) (settlements db)) None iid) =
    (\<Sum>eid \<in> live_entries db lid. acc_sum (items db) (filter (\<lambda>s. s_entry s = eid) (settlements db)) k)"
proof -
  let ?O = "fst ` set (own_items db lid k)" and ?ss = "settlements db"
  let ?live = "filter (\<lambda>s. s_item s \<in> ?O) (filter (\<lambda>s. \<not> dead db s) ?ss)"
  have fin: "finite (live_entries db lid)" by (simp add: live_entries_def)
  have ent: "s_entry s \<in> live_entries db lid" if "s \<in> set ?live" for s
    using that live_settlement[OF inv] unfolding own_items_iff[OF inv] by auto
  have "filter (\<lambda>s. s_entry s = eid) ?live =
      filter (\<lambda>s. \<exists>i. map_of (items db) (s_item s) = Some i \<and> i_account i = k) (filter (\<lambda>s. s_entry s = eid) ?ss)"
    if "eid \<in> live_entries db lid" for eid
  proof -
    have "s_entry s = eid \<and> s_item s \<in> ?O \<and> \<not> dead db s \<longleftrightarrow>
        (\<exists>i. map_of (items db) (s_item s) = Some i \<and> i_account i = k) \<and> s_entry s = eid" if s: "s \<in> set ?ss" for s
    proof
      assume "(\<exists>i. map_of (items db) (s_item s) = Some i \<and> i_account i = k) \<and> s_entry s = eid"
      then obtain i where i: "map_of (items db) (s_item s) = Some i" "i_account i = k" "s_entry s = eid" by blast
      have nd: "\<not> dead db s" using live_not_dead[of s db lid] i(3) \<open>eid \<in> live_entries db lid\<close> by simp
      have "eid \<in> live_entries db (i_ledger i)" using live_settlement[OF inv s nd i(1)] i(3) by simp
      then have "i_ledger i = lid"
        using \<open>eid \<in> live_entries db lid\<close> unfolding live_entries_def mem_Collect_eq posted_iff[OF inv] by auto
      then show "s_entry s = eid \<and> s_item s \<in> ?O \<and> \<not> dead db s"
        using nd i unfolding own_items_iff[OF inv] by blast
    qed (auto simp: own_items_iff[OF inv])
    then show ?thesis unfolding filter_filter by (intro filter_cong refl) blast
  qed
  then have "sum_list (map s_amount (filter (\<lambda>s. s_entry s = eid) ?live)) =
      acc_sum (items db) (filter (\<lambda>s. s_entry s = eid) ?ss) k" if "eid \<in> live_entries db lid" for eid
    unfolding acc_sum_def using that by simp
  then have "(\<Sum>eid \<in> live_entries db lid. sum_list (map s_amount (filter (\<lambda>s. s_entry s = eid) ?live))) =
      (\<Sum>eid \<in> live_entries db lid. acc_sum (items db) (filter (\<lambda>s. s_entry s = eid) ?ss) k)"
    by (intro sum.cong refl)
  moreover have "sum_list (map s_amount ?live) =
      (\<Sum>eid \<in> live_entries db lid. sum_list (map s_amount (filter (\<lambda>s. s_entry s = eid) ?live)))"
    by (rule sum_by_entry[OF fin]) (rule ent)
  ultimately show ?thesis unfolding sum_settled[OF finite_imageI[OF finite_set]] by simp
qed

context side
begin

lemma own_amounts:
  assumes inv: "ledger_inv db" and cat: "category_of db k = cat"
  shows "sum_list (map (\<lambda>(_, i). i_amount i) (own_items db lid k)) \<le> gl_sum own db lid k"
  unfolding own_sum[OF inv] gl_sum_set[OF inv]
proof (rule sum_inj_le[where h = "\<lambda>iid. i_entry (the (map_of (items db) iid))"])
  show "inj_on (\<lambda>iid. i_entry (the (map_of (items db) iid))) (fst ` set (own_items db lid k))"
  proof (rule inj_onI)
    fix x y assume xy: "x \<in> fst ` set (own_items db lid k)" "y \<in> fst ` set (own_items db lid k)"
      "i_entry (the (map_of (items db) x)) = i_entry (the (map_of (items db) y))"
    then obtain i j where ij: "map_of (items db) x = Some i" "i_account i = k" "map_of (items db) y = Some j" "i_account j = k"
      unfolding own_items_iff[OF inv] by blast
    show "x = y"
    proof (rule one_item[OF inv ij(1,3)])
      show "i_entry i = i_entry j" using xy(3) unfolding ij(1,3) by simp
      show "i_account i = i_account j" unfolding ij(2,4) ..
    qed
  qed
  show "(\<lambda>iid. i_entry (the (map_of (items db) iid))) ` fst ` set (own_items db lid k) \<subseteq> fst ` set (posted_of db lid)"
  proof (rule image_subsetI)
    fix x assume "x \<in> fst ` set (own_items db lid k)"
    then obtain i where i: "map_of (items db) x = Some i" "i_ledger i = lid" unfolding own_items_iff[OF inv] by blast
    have "i_entry i \<in> fst ` set (posted_of db (i_ledger i))" by (rule creator[OF inv i(1)])
    then show "i_entry (the (map_of (items db) x)) \<in> fst ` set (posted_of db lid)" using i by simp
  qed
next
  fix iid assume "iid \<in> fst ` set (own_items db lid k)"
  then obtain i where i: "map_of (items db) iid = Some i" "i_account i = k" unfolding own_items_iff[OF inv] by blast
  obtain e where "map_of (entries db) (i_entry i) = Some e" "creates db e i" "balanced (e_lines e)"
    using creator[OF inv i(1)] by metis
  then show "i_amount (the (map_of (items db) iid)) \<le>
      own (e_lines (the (map_of (entries db) (i_entry (the (map_of (items db) iid)))))) k"
    using i cat item_amount by (auto simp: creates_def)
next
  fix eid assume "eid \<in> fst ` set (posted_of db lid)"
  then show "0 \<le> own (e_lines (the (map_of (entries db) eid))) k"
    using posted_ofD(1,5)[OF inv] own_nonneg by force
qed auto

lemma dead_settled:
  assumes inv: "ledger_inv db" and cat: "category_of db k = cat"
  shows "(\<Sum>iid \<in> fst ` set (own_items db lid k). settled (filter (dead db) (settlements db)) None iid) \<le>
    (\<Sum>eid \<in> reversal_entries db lid. opp (e_lines (the (map_of (entries db) eid))) k)"
proof -
  let ?O = "fst ` set (own_items db lid k)"
  let ?e = "\<lambda>iid. the (map_of (entries db) (i_entry (the (map_of (items db) iid))))"
  let ?R = "{iid \<in> ?O. e_reversed_by (?e iid) \<noteq> None}"
  let ?h = "\<lambda>iid. the (e_reversed_by (?e iid))"
  have step: "\<exists>i e r rv. map_of (items db) iid = Some i \<and> i_account i = k \<and> ?e iid = e \<and> creates db e i \<and> balanced (e_lines e) \<and>
      e_reversed_by e = Some r \<and> map_of (entries db) r = Some rv \<and> e_reverses rv = Some (i_entry i) \<and>
      map core (e_lines rv) = map core (map swap_line (e_lines e)) \<and> r \<in> reversal_entries db lid \<and>
      settled (filter (dead db) (settlements db)) None iid = i_amount i" if R: "iid \<in> ?R" for iid
  proof -
    from R obtain i where i: "map_of (items db) iid = Some i" "i_ledger i = lid" "i_account i = k"
      unfolding mem_Collect_eq own_items_iff[OF inv] by blast
    obtain e where e: "map_of (entries db) (i_entry i) = Some e" "creates db e i" "entry_ok db (i_entry i) e"
      "balanced (e_lines e)" "settled (filter (dead db) (settlements db)) None iid = (if e_reversed_by e = None then 0 else i_amount i)"
      using creator[OF inv i(1)] by metis
    have ee: "?e iid = e" using i e by simp
    with R obtain r where r: "e_reversed_by e = Some r" by auto
    then obtain rv where rv: "map_of (entries db) r = Some rv" "e_status rv = Posted" "e_kind rv = K_Reversal"
      "e_reverses rv = Some (i_entry i)" "e_ledger rv = e_ledger e" "map core (e_lines rv) = map core (map swap_line (e_lines e))"
      using e(2,3) by (auto simp: entry_ok_def creates_def)
    have "r \<in> reversal_entries db lid"
      using rv(1,2,3,5) e(2) i(2) unfolding reversal_entries_def mem_Collect_eq posted_iff[OF inv] creates_def by simp
    then show ?thesis using i e ee r rv by auto
  qed
  have "(\<Sum>iid\<in>?O. settled (filter (dead db) (settlements db)) None iid) =
      (\<Sum>iid\<in>?R. settled (filter (dead db) (settlements db)) None iid)"
  proof (rule sum.mono_neutral_right)
    show "\<forall>iid \<in> ?O - ?R. settled (filter (dead db) (settlements db)) None iid = 0"
    proof
      fix iid assume a: "iid \<in> ?O - ?R"
      then obtain i where i: "map_of (items db) iid = Some i" unfolding Diff_iff own_items_iff[OF inv] by blast
      then obtain e where "map_of (entries db) (i_entry i) = Some e"
        "settled (filter (dead db) (settlements db)) None iid = (if e_reversed_by e = None then 0 else i_amount i)"
        using creator[OF inv i] by metis
      then show "settled (filter (dead db) (settlements db)) None iid = 0" using a i by simp
    qed
  qed auto
  also have "\<dots> \<le> (\<Sum>eid \<in> reversal_entries db lid. opp (e_lines (the (map_of (entries db) eid))) k)"
  proof (rule sum_inj_le[where h = ?h])
    show "inj_on ?h ?R"
    proof (rule inj_onI)
      fix x y assume xy: "x \<in> ?R" "y \<in> ?R" "?h x = ?h y"
      from step[OF xy(1)] obtain i e r rv where x: "map_of (items db) x = Some i" "i_account i = k" "?e x = e"
        "e_reversed_by e = Some r" "map_of (entries db) r = Some rv" "e_reverses rv = Some (i_entry i)" by blast
      from step[OF xy(2)] obtain j f r' rv' where y: "map_of (items db) y = Some j" "i_account j = k" "?e y = f"
        "e_reversed_by f = Some r'" "map_of (entries db) r' = Some rv'" "e_reverses rv' = Some (i_entry j)" by blast
      have "r = r'" using xy(3) x(3,4) y(3,4) by simp
      then have "i_entry i = i_entry j" using x(5,6) y(5,6) by simp
      then show "x = y" using x(2) y(2) by (intro one_item[OF inv x(1) y(1)]) simp_all
    qed
    show "?h ` ?R \<subseteq> reversal_entries db lid"
    proof
      fix r assume "r \<in> ?h ` ?R"
      then obtain x where x: "x \<in> ?R" "r = ?h x" by blast
      from step[OF x(1)] obtain e r' where "?e x = e" "e_reversed_by e = Some r'" "r' \<in> reversal_entries db lid" by blast
      then show "r \<in> reversal_entries db lid" using x(2) by simp
    qed
  next
    fix x assume x: "x \<in> ?R"
    from step[OF x] obtain i e r rv where s: "map_of (items db) x = Some i" "i_account i = k" "?e x = e" "creates db e i"
      "balanced (e_lines e)" "e_reversed_by e = Some r" "map_of (entries db) r = Some rv"
      "map core (e_lines rv) = map core (map swap_line (e_lines e))"
      "settled (filter (dead db) (settlements db)) None x = i_amount i" by blast
    have "i_amount i \<le> own (e_lines e) k" using s(2,4,5) cat item_amount by (auto simp: creates_def)
    then show "settled (filter (dead db) (settlements db)) None x \<le> opp (e_lines (the (map_of (entries db) (?h x)))) k"
      using s opp_swapped[OF s(8)] by simp
  next
    fix eid assume "eid \<in> reversal_entries db lid"
    then show "0 \<le> opp (e_lines (the (map_of (entries db) eid))) k"
      using posted_ofD(1,5)[OF inv] opp_nonneg unfolding reversal_entries_def by force
  qed (auto simp: reversal_entries_def)
  finally show ?thesis .
qed

lemma own_settled:
  assumes inv: "ledger_inv db" and cat: "category_of db k = cat"
  shows "sum_list (map (\<lambda>(iid, _). settled (settlements db) None iid) (own_items db lid k)) \<le> gl_sum opp db lid k"
proof -
  let ?O = "fst ` set (own_items db lid k)" and ?f = "\<lambda>eid. opp (e_lines (the (map_of (entries db) eid))) k"
  have post: "map_of (entries db) eid = Some e \<longrightarrow> balanced (e_lines e)" if "eid \<in> fst ` set (posted_of db lid)" for eid e
    using that posted_ofD(1,5)[OF inv] by force
  have nn: "0 \<le> ?f eid" if "eid \<in> fst ` set (posted_of db lid)" for eid
    using that posted_ofD(1,5)[OF inv] opp_nonneg by force
  have "acc_sum (items db) (filter (\<lambda>s. s_entry s = eid) (settlements db)) k \<le> ?f eid"
    if eid: "eid \<in> live_entries db lid" for eid
  proof -
    from eid obtain e where e: "map_of (entries db) eid = Some e" "e_status e = Posted" "e_kind e \<noteq> K_Reversal"
      "eid \<in> fst ` set (posted_of db lid)"
      unfolding live_entries_def mem_Collect_eq posted_iff[OF inv] by auto
    have "moves_ok db" using inv by (simp add: ledger_inv_def)
    then have "acc_sum (items db) (filter (\<lambda>s. s_entry s = eid) (settlements db)) k \<le>
        max 0 (if cat = Cat_Debtor then credit_on (e_lines e) k - debit_on (e_lines e) k
             else debit_on (e_lines e) k - credit_on (e_lines e) k)"
      using e(1-3) cat unfolding moves_ok_def by blast
    also have "\<dots> \<le> opp (e_lines e) k" using room post[OF e(4)] e(1) by blast
    finally show ?thesis using e(1) by simp
  qed
  then have live: "(\<Sum>iid\<in>?O. settled (filter (\<lambda>s. \<not> dead db s) (settlements db)) None iid) \<le> sum ?f (live_entries db lid)"
    unfolding live_settled[OF inv] by (rule sum_mono)
  have fin: "finite (live_entries db lid)" "finite (reversal_entries db lid)"
    by (simp_all add: live_entries_def reversal_entries_def)
  have "sum_list (map (\<lambda>(iid, _). settled (settlements db) None iid) (own_items db lid k)) =
      (\<Sum>iid\<in>?O. settled (settlements db) None iid)" by (rule own_sum[OF inv, of "\<lambda>iid _. settled (settlements db) None iid"])
  also have "\<dots> = (\<Sum>iid\<in>?O. settled (filter (dead db) (settlements db)) None iid) +
      (\<Sum>iid\<in>?O. settled (filter (\<lambda>s. \<not> dead db s) (settlements db)) None iid)"
    unfolding sum.distrib[symmetric] by (rule sum.cong[OF refl]) (rule settled_filter_split)
  also have "\<dots> \<le> sum ?f (reversal_entries db lid) + sum ?f (live_entries db lid)"
    using dead_settled[OF inv cat] live by (rule add_mono)
  also have "\<dots> = sum ?f (reversal_entries db lid \<union> live_entries db lid)"
    using fin by (intro sum.union_disjoint[symmetric]) (auto simp: live_entries_def reversal_entries_def)
  also have "\<dots> \<le> sum ?f (fst ` set (posted_of db lid))"
    using nn by (intro sum_mono2) (auto simp: live_entries_def reversal_entries_def)
  finally show ?thesis unfolding gl_sum_set[OF inv] .
qed

end

section \<open>All checks\<close>

lemma no_subledger:
  assumes inv: "ledger_inv db" and keys: "distinct (map fst (accounts db))"
  shows "subledger_findings db lid = []"
proof -
  have "category_of db k = a_category a" if "(k, a) \<in> set (accounts db)" for k a
    using that keys by (simp add: category_of_def)
  then have "\<not> (a_category a = Cat_Debtor \<and> (gl_sum debit_on db lid k < sum_list (map (\<lambda>(_, i). i_amount i) (own_items db lid k)) \<or>
        gl_sum credit_on db lid k < sum_list (map (\<lambda>(iid, _). settled (settlements db) None iid) (own_items db lid k))) \<or>
      a_category a = Cat_Creditor \<and> (gl_sum credit_on db lid k < sum_list (map (\<lambda>(_, i). i_amount i) (own_items db lid k)) \<or>
        gl_sum debit_on db lid k < sum_list (map (\<lambda>(iid, _). settled (settlements db) None iid) (own_items db lid k))))"
    if "(k, a) \<in> set (accounts db)" for k a
    using that debtor.own_amounts[OF inv, of k lid] debtor.own_settled[OF inv, of k lid]
      creditor.own_amounts[OF inv, of k lid] creditor.own_settled[OF inv, of k lid] by (auto simp: not_less)
  then show ?thesis
    unfolding subledger_findings_def Let_def own_items_def[symmetric]
    by (auto simp: filter_empty_conv simp flip: set_empty)
qed

text \<open>C21: In every state that drafting, posting, reversing and locking reach, the consistency checks of a ledger
  report nothing. They say: posted entries balance and have two lines; an open item is settled between zero
  and its amount, and its amount is the balance of its entry on its account; no entry books on an account of
  another ledger; total debits equal total credits; numbers have no gaps and match the counter; on a debtor
  or creditor account the items do not exceed the postings that create them, nor the settlements those that
  pay them; a line is on the object of its unit. This bounds the sub ledger, it does not say that its rests equal
  the balances of the accounts. The release of a payable on a debtor account is not among these operations:
  after it the sub ledger check does report (released_payable_reported).\<close>

theorem checks_clean:
  assumes reach: "reachable db" and keys: "distinct (map fst (accounts db))"
  shows "checks db lid = []"
  using no_unbalanced no_item_bounds no_item_lines no_foreign no_totals no_numbering no_property
    no_subledger[OF _ keys] reachable_inv[OF reach] reachable_lines_ok[OF reach] by (simp add: checks_def)

theorem checks_clean_witness: "checks ex5 1 = [] \<and> posted_of ex5 1 \<noteq> []"
proof -
  have "distinct (map fst (accounts ex5))" by code_simp
  moreover have "posted_of ex5 1 \<noteq> []" by code_simp
  ultimately show ?thesis using checks_clean[OF example_reachable(3)] by simp
qed

section \<open>A payable added to a debtor account\<close>

text \<open>
  One writer of open items is none of the steps of the ledger: the release of a credit of a rental statement
  as a payable of the sub ledger (variant \<open>subledger\<close> of \<open>release\<close> in \<open>accounting/credit_payables.py\<close>, off by
  default). The credit is the excess of credits on the debtor account of a posted statement result that is not
  reversed; \<open>listed\<close> are the result entries of the statements that are due, posted or locked. The checks of the
  status of the proposal and of the tenant's mode come before and are left out.
\<close>

definition rent_credit :: "db \<Rightarrow> uid list \<Rightarrow> uid \<Rightarrow> uid \<Rightarrow> dec option" where
  "rent_credit db listed eid a =
     (case map_of (entries db) eid of None \<Rightarrow> None
      | Some e \<Rightarrow>
          (let credit = credit_on (e_lines e) a - debit_on (e_lines e) a
           in if e_kind e = K_Statement_Result \<and> e_status e = Posted \<and> e_reversed_by e = None \<and>
                (case e_key e of None \<Rightarrow> False | Some key \<Rightarrow> take 15 key = ''rent-statement:'') \<and>
                category_of db a = Cat_Debtor \<and> 0 < credit \<and> eid \<in> set listed
              then Some credit else None))"

definition release_payable ::
  "db \<Rightarrow> uid list \<Rightarrow> uid \<Rightarrow> uid \<Rightarrow> dec \<Rightarrow> bool \<Rightarrow> uid option \<Rightarrow> uid option \<Rightarrow> db res" where
  "release_payable db listed eid a amount two_persons proposer user =
     bindr (guardr (\<not> (two_persons \<and> proposer = user)) Gate_Four_Eyes) (\<lambda>_.
       case rent_credit db listed eid a of None \<Rightarrow> Inl Resource_Not_Found
       | Some credit \<Rightarrow>
           if credit < amount then Inl Conflict
           else if list_ex (\<lambda>(_, i). i_entry i = eid \<and> i_account i = a) (items db) then Inl Conflict
           else bindr (fetch (entries db) eid Conflict) (\<lambda>e.
             Inr (db\<lparr>items := AList.update (next_id db)
                 \<lparr>i_ledger = e_ledger e, i_account = a, i_entry = eid, i_kind = Item_Payable,
                  i_booking_date = e_booking_date e,
                  i_due_date = (case e_due_date e of Some d \<Rightarrow> d | None \<Rightarrow> e_booking_date e),
                  i_amount = amount, i_contract = e_contract e\<rparr> (items db),
               next_id := next_id db + 1\<rparr>)))"

definition credit_body :: entry_in where
  "credit_body = (example_body (Date 2024 2 7) K_Statement_Result [example_line 11 30 0, example_line 10 0 30] [])
     \<lparr>b_key := Some ''rent-statement:7:1''\<rparr>"

definition cp1 :: db where "cp1 = fst (projr (create_entry_route ex2 1 credit_body (Some 5)))"
definition cp2 :: db where "cp2 = projr (post_entry_route cp1 1 102 (Some 5))"
definition cp3 :: db where "cp3 = projr (release_payable cp2 [102] 102 10 30 True (Some 5) (Some 6))"

text \<open>The check compares all items of a debtor account with its debits, also payables: after the release it
  reports the account, although nothing is wrong with it.\<close>

lemma released_payable_reported:
  "reachable cp2 \<and> checks cp2 1 = [] \<and> release_payable cp2 [102] 102 10 30 True (Some 5) (Some 6) = Inr cp3 \<and>
   checks cp3 1 = [F_Subledger ''200001'']"
proof -
  have r: "\<not> isl (create_entry_route ex2 1 credit_body (Some 5))" "\<not> isl (post_entry_route cp1 1 102 (Some 5))"
    "\<not> isl (release_payable cp2 [102] 102 10 30 True (Some 5) (Some 6))" by code_simp+
  have "ledger_step ex2 cp1" unfolding cp1_def by (rule ledger_step.create[OF projr_pair_step[OF r(1)]])
  moreover have "ledger_step cp1 cp2" unfolding cp2_def by (rule ledger_step.post[OF projr_step[OF r(2)]])
  ultimately have "reachable cp2" using example_reachable(1) unfolding reachable_def by (meson rtranclp.simps)
  moreover have "checks cp2 1 = []" "checks cp3 1 = [F_Subledger ''200001'']" by code_simp+
  moreover have "release_payable cp2 [102] 102 10 30 True (Some 5) (Some 6) = Inr cp3"
    unfolding cp3_def by (rule projr_step[OF r(3)])
  ultimately show ?thesis by blast
qed

end
