(* ===== verification/HoaPlan.thy ===== *)
theory HoaPlan
  imports BillingCalc LedgerState "HOL-Library.Sublist"
begin

text \<open>
  The economic plan of a community (\<open>unit_weights\<close>, \<open>plan_results\<close>, \<open>plan_comparison\<close>,
  \<open>totals_comparison\<close> in \<open>mhvp/hoa/calc.py\<close>): key values per unit weighted over time, the annual
  amounts per unit and component, their monthly rates and the earmarked reserves. Sums of money
  columns are exact (\<open>Money.dsum_money\<close>) and written with plain addition; weights, twelfths and
  percentages go through the decimal context. Ids are compared as their strings; here an id is a
  number, which is as good a linear order.
\<close>

section \<open>Key values per unit\<close>

record hunit =
  u_property :: uid
  u_number :: string

record allocation_value =
  av_unit :: uid
  av_key :: uid
  av_value :: dec
  av_from :: date
  av_to :: "date option"

record hoa_db =
  h_units :: "(uid, hunit) dict"
  h_values :: "allocation_value list"

type_synonym unit_key = "string \<times> uid"

definition weight_spans :: "hoa_db \<Rightarrow> uid \<Rightarrow> uid \<Rightarrow> date \<Rightarrow> date \<Rightarrow> (dec \<times> int) list" where
  "weight_spans h unit_id key_id start stop =
     List.map_filter (\<lambda>v. case overlap start stop (av_from v) (av_to v) of
         None \<Rightarrow> None | Some (s, e) \<Rightarrow> Some (av_value v, days s e))
       (filter (\<lambda>v. av_unit v = unit_id \<and> av_key v = key_id) (h_values h))"

text \<open>\<open>None\<close> for a unit without a value in the period: it is not part of the key.\<close>

definition unit_weight :: "hoa_db \<Rightarrow> uid \<Rightarrow> date \<Rightarrow> date \<Rightarrow> uid \<times> hunit \<Rightarrow> unit_key share option res" where
  "unit_weight h key_id start stop u =
     (case u of (unit_id, unit') \<Rightarrow>
       (let spans = weight_spans h unit_id key_id start stop;
            w = foldl (\<lambda>acc (v, n). dadd acc (dmul v (of_int n))) 0 spans;
            covered = sum_list (map snd spans)
        in if covered = 0 then Inr None
           else if covered \<noteq> days start stop then Inl Validation
           else Inr (Some \<lparr>skey = (u_number unit', unit_id), weight = ddiv w (of_int (days start stop))\<rparr>)))"

definition unit_weights :: "hoa_db \<Rightarrow> uid \<Rightarrow> uid \<Rightarrow> date \<Rightarrow> date \<Rightarrow> unit_key share list res" where
  "unit_weights h property_id key_id start stop =
     bindr (mapr (unit_weight h key_id start stop)
       (py_sorted (u_number \<circ> snd) (filter (\<lambda>(_, u). u_property u = property_id) (h_units h)))) (\<lambda>found.
       (let shares = List.map_filter (\<lambda>x. x) found
        in if shares = [] \<or> dsum (map weight shares) \<le> 0 then Inl Validation else Inr shares))"

section \<open>The plan\<close>

record plan_item =
  pi_label :: string
  pi_component :: string
  pi_amount :: dec
  pi_key :: uid
  pi_basis :: "dec option"
  pi_reserve :: "uid option"

type_synonym comp_bucket = "(string, dec) dict"

record plan_sums =
  per_unit :: "(uid, comp_bucket) dict"
  reserve_split :: "(uid, (uid option, dec) dict) dict"
  unit_numbers :: "(uid, string) dict"

record plan_row =
  pr_unit :: uid
  pr_number :: string
  pr_annual :: comp_bucket
  pr_monthly :: comp_bucket
  pr_difference :: comp_bucket
  pr_rates :: "(string, dec list) dict option"
  pr_split :: "(uid option \<times> dec) list"

record plan_result =
  pl_units :: "plan_row list"
  pl_totals :: comp_bucket

definition COMPONENTS :: "string list" where "COMPONENTS = [''hoa_fee'', ''reserve'']"

definition new_bucket :: comp_bucket where "new_bucket = map (\<lambda>c. (c, 0)) COMPONENTS"

definition add_part :: "plan_item \<Rightarrow> plan_sums \<Rightarrow> unit_key \<times> dec \<Rightarrow> plan_sums res" where
  "add_part item st part =
     (case part of ((number, unit_id), value) \<Rightarrow>
       (let bucket = dict_get (per_unit st) unit_id new_bucket;
            c = pi_component item
        in case map_of bucket c of
             None \<Rightarrow> Inl Key_Error
           | Some old \<Rightarrow>
               (let split = dict_get (reserve_split st) unit_id [];
                    rid = pi_reserve item
                in Inr \<lparr>per_unit = AList.update unit_id (AList.update c (old + value) bucket) (per_unit st),
                     reserve_split = (if c = ''reserve''
                       then AList.update unit_id (AList.update rid (dict_get split rid 0 + value) split) (reserve_split st)
                       else reserve_split st),
                     unit_numbers = AList.update unit_id number (unit_numbers st)\<rparr>)))"

definition add_item :: "hoa_db \<Rightarrow> uid \<Rightarrow> date \<Rightarrow> date \<Rightarrow> plan_sums \<Rightarrow> plan_item \<Rightarrow> plan_sums res" where
  "add_item h property_id start stop st item =
     bindr (unit_weights h property_id (pi_key item) start stop) (\<lambda>shares.
     bindr (distribute (pi_amount item) shares) (\<lambda>parts.
       foldr_res (add_part item) st parts))"

definition split_order :: "uid option \<times> dec \<Rightarrow> bool \<times> uid" where
  "split_order kv = (case fst kv of None \<Rightarrow> (True, 0) | Some r \<Rightarrow> (False, r))"

definition plan_row_of :: "string \<Rightarrow> plan_sums \<Rightarrow> uid \<times> comp_bucket \<Rightarrow> plan_row res" where
  "plan_row_of mode st row =
     (case row of (unit_id, bucket) \<Rightarrow>
       (let monthly = map (\<lambda>(k, v). (k, quantize round_half_up CENT (ddiv v 12))) bucket
        in bindr (if mode = ''report_only'' then Inr None
             else bindr (mapr (\<lambda>(k, v). bindr (monthly_rates v mode) (\<lambda>r. Inr (k, r))) bucket) (\<lambda>r. Inr (Some r)))
           (\<lambda>rates. Inr \<lparr>pr_unit = unit_id, pr_number = dict_get (unit_numbers st) unit_id [],
              pr_annual = bucket, pr_monthly = monthly,
              pr_difference = map (\<lambda>(k, v). (k, dsub v (dmul (dict_get monthly k 0) 12))) bucket,
              pr_rates = rates,
              pr_split = py_sorted split_order (dict_get (reserve_split st) unit_id [])\<rparr>)))"

definition plan_results :: "hoa_db \<Rightarrow> uid \<Rightarrow> plan_item list \<Rightarrow> date \<Rightarrow> date \<Rightarrow> string \<Rightarrow> plan_result res" where
  "plan_results h property_id items' start stop mode =
     bindr (foldr_res (add_item h property_id start stop) \<lparr>per_unit = [], reserve_split = [], unit_numbers = []\<rparr> items')
       (\<lambda>st. bindr (mapr (plan_row_of mode st)
            (py_sorted (\<lambda>(unit_id, _). dict_get (unit_numbers st) unit_id []) (per_unit st)))
          (\<lambda>rows. Inr \<lparr>pl_units = rows,
             pl_totals = map (\<lambda>c. (c, sum_list (map pi_amount (filter (\<lambda>i. pi_component i = c) items')))) COMPONENTS\<rparr>))"

section \<open>Comparison with a basis\<close>

record deviation_row =
  dv_label :: string
  dv_component :: string
  dv_amount :: dec
  dv_basis :: "dec option"
  dv_deviation :: "dec option"

definition plan_comparison :: "plan_item list \<Rightarrow> plan_item list option \<Rightarrow> deviation_row list" where
  "plan_comparison items' basis_items =
     (let by_label = dict_of (map (\<lambda>i. (pi_label i, pi_amount i)) (case basis_items of None \<Rightarrow> [] | Some b \<Rightarrow> b))
      in map (\<lambda>i.
          (let basis = (case pi_basis i of Some b \<Rightarrow> Some b | None \<Rightarrow> map_of by_label (pi_label i))
           in \<lparr>dv_label = pi_label i, dv_component = pi_component i, dv_amount = pi_amount i, dv_basis = basis,
               dv_deviation = map_option (\<lambda>b. pi_amount i - b) basis\<rparr>)) items')"

record total_row =
  tt_component :: string
  tt_amount :: dec
  tt_basis :: "dec option"
  tt_deviation :: "dec option"
  tt_percent :: "dec option"

text \<open>\<open>basis\<close> is the basis snapshot: the totals of a plan, or the total costs of a statement.\<close>

definition totals_comparison :: "comp_bucket \<Rightarrow> comp_bucket \<Rightarrow> dec option \<Rightarrow> string \<Rightarrow> total_row list" where
  "totals_comparison totals basis_totals basis_costs basis_kind =
     map (\<lambda>c.
       (let now = dict_get totals c 0;
            before = (if basis_kind = ''plan'' then map_of basis_totals c
              else if c = ''hoa_fee'' then basis_costs else None)
        in \<lparr>tt_component = c, tt_amount = now, tt_basis = before,
            tt_deviation = map_option (\<lambda>b. now - b) before,
            tt_percent = (case before of None \<Rightarrow> None
              | Some b \<Rightarrow> if b = 0 then None
                  else Some (quantize round_half_up CENT (dmul (ddiv (now - b) b) 100)))\<rparr>)) COMPONENTS"

section \<open>Weights are shares\<close>

definition values_ok :: "hoa_db \<Rightarrow> bool" where
  "values_ok h \<longleftrightarrow> list_all (\<lambda>v. 0 \<le> av_value v \<and> valid_date (av_from v) \<and> (case av_to v of None \<Rightarrow> True | Some d \<Rightarrow> valid_date d)) (h_values h) \<and>
     distinct (map fst (h_units h)) \<and> length (h_units h) \<le> 10 ^ 6"

lemma foldl_weight_nonneg:
  "0 \<le> acc \<Longrightarrow> list_all (\<lambda>(v, n). 0 \<le> v \<and> 0 \<le> n) spans \<Longrightarrow>
   0 \<le> foldl (\<lambda>acc (v, n). dadd acc (dmul v (of_int n))) acc spans"
proof (induction spans arbitrary: acc)
  case (Cons s spans)
  obtain v n where s: "s = (v, n)" by force
  have "0 \<le> dmul v (of_int n)" using Cons.prems(2) unfolding s dmul_def by (intro fix28_nonneg) simp
  then have "0 \<le> dadd acc (dmul v (of_int n))" using Cons.prems(1) unfolding dadd_def by (intro fix28_nonneg) simp
  then show ?case using Cons by (simp add: s)
qed simp

lemma weight_spans_nonneg:
  assumes "values_ok h" and "valid_date start" and "valid_date stop"
  shows "list_all (\<lambda>(v, n). 0 \<le> v \<and> 0 \<le> n) (weight_spans h unit_id key_id start stop)"
proof -
  have "0 \<le> v \<and> 0 \<le> n" if mem: "(v, n) \<in> set (weight_spans h unit_id key_id start stop)" for v n
  proof -
    from mem obtain x s e where x: "x \<in> set (h_values h)" "overlap start stop (av_from x) (av_to x) = Some (s, e)"
      "v = av_value x" "n = days s e"
      by (auto simp: weight_spans_def map_filter_def split: option.splits prod.splits)
    have ok: "0 \<le> av_value x" "valid_date (av_from x)" "\<And>d. av_to x = Some d \<Longrightarrow> valid_date d"
      using assms(1) x(1) by (auto simp: values_ok_def list_all_iff split: option.splits)
    have "valid_date s" "valid_date e" "s \<le> e"
      using x(2) ok assms(2,3) by (auto simp: overlap_def Let_def max_def min_def split: if_splits option.splits)
    then have "1 \<le> days s e" using days_pos by blast
    then show ?thesis using ok(1) x(3,4) by simp
  qed
  then show ?thesis by (force simp: list_all_iff)
qed

lemma unit_weight_share:
  assumes "values_ok h" and "valid_date start" and "valid_date stop" and "unit_weight h key_id start stop u = Inr (Some s)"
  shows "0 \<le> weight s \<and> skey s = (u_number (snd u), fst u)"
proof -
  obtain unit_id unit' where u: "u = (unit_id, unit')" by force
  let ?sp = "weight_spans h unit_id key_id start stop"
  have n: "0 \<le> sum_list (map snd ?sp)" using weight_spans_nonneg[OF assms(1-3), of unit_id key_id]
    by (intro sum_list_nonneg) (auto simp: list_all_iff)
  have s: "s = \<lparr>skey = (u_number unit', unit_id),
      weight = ddiv (foldl (\<lambda>acc (v, n). dadd acc (dmul v (of_int n))) 0 ?sp) (of_int (days start stop))\<rparr>"
    "sum_list (map snd ?sp) = days start stop"
    using assms(4) by (auto simp: unit_weight_def u Let_def split: if_splits)
  have "0 \<le> ddiv (foldl (\<lambda>acc (v, n). dadd acc (dmul v (of_int n))) 0 ?sp) (of_int (days start stop))"
    unfolding ddiv_def
    using foldl_weight_nonneg[of 0 ?sp] weight_spans_nonneg[OF assms(1-3), of unit_id key_id] n s(2)
    by (intro fix28_nonneg divide_nonneg_nonneg) auto
  then show ?thesis using s u by simp
qed

lemma map_filter_id_set: "x \<in> set (List.map_filter (\<lambda>x. x) xs) \<longleftrightarrow> Some x \<in> set xs"
  by (induction xs) (auto simp: map_filter_simps split: option.splits)

lemma weights_of_units:
  assumes "list_all2 (\<lambda>u r. unit_weight h key_id start stop u = Inr r) us found"
    and "values_ok h" and "valid_date start" and "valid_date stop"
  shows "subseq (map skey (List.map_filter (\<lambda>x. x) found)) (map (\<lambda>u. (u_number (snd u), fst u)) us)"
  using assms(1)
proof (induction rule: list_all2_induct)
  case (Cons u us r found)
  then show ?case using unit_weight_share[OF assms(2-4)] by (cases r) (auto simp: map_filter_simps)
qed (simp add: map_filter_simps)

lemma subseq_distinct: "subseq xs ys \<Longrightarrow> distinct ys \<Longrightarrow> distinct xs"
  by (metis subseq_conv_nths distinct_nthsI)

lemma unit_weights_ok:
  assumes h: "values_ok h" and d: "valid_date start" "valid_date stop"
    and w: "unit_weights h property_id key_id start stop = Inr shares"
    and amount: "is_cents amount" "\<bar>amount\<bar> < 10 ^ 16"
  shows "shares_ok amount shares"
proof -
  let ?us = "py_sorted (u_number \<circ> snd) (filter (\<lambda>(_, u). u_property u = property_id) (h_units h))"
  from w obtain found where f: "list_all2 (\<lambda>u r. unit_weight h key_id start stop u = Inr r) ?us found"
    and s: "shares = List.map_filter (\<lambda>x. x) found" "shares \<noteq> []" "0 < dsum (map weight shares)"
    by (auto simp: unit_weights_def res_simps mapr_eq_Inr Let_def split: if_splits)
  note sub = weights_of_units[OF f h d, folded s(1)]
  have "distinct (map fst ?us)"
  proof -
    have "distinct (map fst (filter (\<lambda>(_, u). u_property u = property_id) (h_units h)))"
      using h by (simp add: values_ok_def distinct_map_filter)
    then show ?thesis by (simp add: distinct_map)
  qed
  then have "distinct (map (\<lambda>u. (u_number (snd u), fst u)) ?us)" by (auto simp: distinct_map inj_on_def)
  with sub have "distinct (map skey shares)" by (rule subseq_distinct)
  moreover have "length shares \<le> 10 ^ 6"
  proof -
    have "length (map skey shares) \<le> length (map (\<lambda>u. (u_number (snd u), fst u)) ?us)"
      using sub by (rule list_emb_length)
    also have "\<dots> \<le> length (h_units h)" by (simp add: length_filter_le)
    finally show ?thesis using h by (simp add: values_ok_def)
  qed
  moreover have nn: "0 \<le> weight x" if "x \<in> set shares" for x
    using that list_all2_setD2[OF f] unit_weight_share[OF h d] unfolding s(1) map_filter_id_set by blast
  moreover have "\<exists>x \<in> set shares. weight x \<noteq> 0"
    using s(3) dsum_pos_iff[of "map weight shares"] nn by force
  ultimately show ?thesis using amount by (simp add: shares_ok_def list_all_iff list_ex_iff)
qed

section \<open>The plan distributes every item\<close>

definition items_ok :: "plan_item list \<Rightarrow> bool" where
  "items_ok its \<longleftrightarrow> list_all (\<lambda>i. is_cents (pi_amount i) \<and> \<bar>pi_amount i\<bar> < 10 ^ 16) its"

definition component_sum :: "string \<Rightarrow> plan_sums \<Rightarrow> dec" where
  "component_sum c st = table_sum (\<lambda>_ b. dict_get b c 0) (per_unit st)"

definition split_sum :: "plan_sums \<Rightarrow> uid \<Rightarrow> dec" where
  "split_sum st u = table_sum (\<lambda>_ v. v) (dict_get (reserve_split st) u [])"

definition plan_sums_ok :: "plan_sums \<Rightarrow> bool" where
  "plan_sums_ok st \<longleftrightarrow> distinct (map fst (per_unit st)) \<and>
     (\<forall>u b. map_of (per_unit st) u = Some b \<longrightarrow> map fst b = COMPONENTS) \<and>
     (\<forall>u. distinct (map fst (dict_get (reserve_split st) u []))) \<and>
     (\<forall>u. split_sum st u = dict_get (dict_get (per_unit st) u new_bucket) ''reserve'' 0)"

lemma map_fst_update: "k \<in> fst ` set d \<Longrightarrow> map fst (AList.update k v d) = map fst d"
  by (simp add: update_keys)

lemma add_part_step:
  assumes st: "plan_sums_ok st" and step: "add_part item st ((number, u), value) = Inr st'"
  shows "plan_sums_ok st' \<and>
    component_sum c st' = component_sum c st + (if c = pi_component item then value else 0)"
proof -
  let ?b = "dict_get (per_unit st) u new_bucket" and ?s = "dict_get (reserve_split st) u []"
  let ?c = "pi_component item" and ?r = "pi_reserve item"
  note ok = st[unfolded plan_sums_ok_def]
  from step obtain old where old: "map_of ?b ?c = Some old"
    and st': "st' = \<lparr>per_unit = AList.update u (AList.update ?c (old + value) ?b) (per_unit st),
      reserve_split = (if ?c = ''reserve'' then AList.update u (AList.update ?r (dict_get ?s ?r 0 + value) ?s) (reserve_split st)
        else reserve_split st), unit_numbers = AList.update u number (unit_numbers st)\<rparr>"
    by (auto simp: add_part_def Let_def split: option.splits)
  have kb: "map fst ?b = COMPONENTS"
    using ok by (auto simp: dict_get_def new_bucket_def comp_def split: option.splits)
  have "?c \<in> fst ` set ?b" using old by (metis domI dom_map_of_conv_image_fst)
  then have kb': "map fst (AList.update ?c (old + value) ?b) = COMPONENTS" using kb by (simp add: map_fst_update)
  have oldv: "dict_get ?b ?c 0 = old" using old by (simp add: dict_get_def)
  have sums: "split_sum st' w = dict_get (dict_get (per_unit st') w new_bucket) ''reserve'' 0" for w
  proof (cases "w = u \<and> ?c = ''reserve''")
    case True
    have "distinct (map fst ?s)" using ok by blast
    then have "split_sum st' u = split_sum st u + value"
      using True by (simp add: split_sum_def st' dict_simps table_sum_put[where z = 0])
    then show ?thesis using True ok oldv by (simp add: st' dict_simps)
  next
    case False
    then show ?thesis using ok by (auto simp: st' split_sum_def dict_simps)
  qed
  have dist: "distinct (map fst (dict_get (reserve_split st') w []))" for w
    using ok by (auto simp: st' dict_simps)
  have "plan_sums_ok st'"
    unfolding plan_sums_ok_def using ok sums dist kb' by (auto simp: st' dict_simps split: if_splits)
  moreover have "component_sum c st' = component_sum c st + (if c = ?c then value else 0)"
  proof -
    have "distinct (map fst (per_unit st))" using ok by blast
    then have "component_sum c st' = component_sum c st - dict_get ?b c 0 + dict_get (AList.update ?c (old + value) ?b) c 0"
      unfolding component_sum_def st' by (simp add: table_sum_put[where z = new_bucket] dict_get_def new_bucket_def COMPONENTS_def)
    then show ?thesis using oldv by (simp add: dict_simps)
  qed
  ultimately show ?thesis ..
qed

lemma add_parts:
  assumes "plan_sums_ok st" and "foldr_res (add_part item) st parts = Inr st'"
  shows "plan_sums_ok st' \<and>
    component_sum c st' = component_sum c st + (if c = pi_component item then sum_list (map snd parts) else 0)"
  using assms
proof (induction parts arbitrary: st)
  case (Cons p parts)
  obtain num u v where p: "p = ((num, u), v)" by (metis prod.collapse)
  from Cons.prems obtain t where t: "add_part item st p = Inr t" "foldr_res (add_part item) t parts = Inr st'"
    by (auto simp: res_simps)
  show ?case using add_part_step[OF Cons.prems(1) t(1)[unfolded p], of c] Cons.IH[OF _ t(2)] by (auto simp: p)
qed auto

lemma add_items:
  assumes h: "values_ok h" and d: "valid_date start" "valid_date stop" and its: "items_ok its"
    and st: "plan_sums_ok st" and f: "foldr_res (add_item h property_id start stop) st its = Inr st'"
  shows "plan_sums_ok st' \<and>
    component_sum c st' = component_sum c st + sum_list (map pi_amount (filter (\<lambda>i. pi_component i = c) its))"
  using its st f
proof (induction its arbitrary: st)
  case (Cons i its)
  from Cons.prems(3) obtain t where t: "add_item h property_id start stop st i = Inr t"
    "foldr_res (add_item h property_id start stop) t its = Inr st'" by (auto simp: res_simps)
  from t(1) obtain shares parts where w: "unit_weights h property_id (pi_key i) start stop = Inr shares"
    and p: "distribute (pi_amount i) shares = Inr parts" "foldr_res (add_part i) st parts = Inr t"
    by (auto simp: add_item_def res_simps)
  have "shares_ok (pi_amount i) shares"
    using unit_weights_ok[OF h d w] Cons.prems(1) by (simp add: items_ok_def)
  then have "sum_list (map snd parts) = pi_amount i" using dist.split_sum p(1) by blast
  then show ?case
    using add_parts[OF Cons.prems(2) p(2), of c] Cons.IH[OF _ _ t(2)] Cons.prems(1) by (auto simp: items_ok_def)
qed auto

lemma plan_rows_of:
  assumes "mapr (plan_row_of mode st) rows = Inr out"
  shows "map (\<lambda>r. (pr_unit r, pr_annual r)) out = rows \<and>
    list_all (\<lambda>r. mset (pr_split r) = mset (dict_get (reserve_split st) (pr_unit r) [])) out"
  using assms[unfolded mapr_eq_Inr]
  by (induction rule: list_all2_induct) (auto simp: plan_row_of_def Let_def res_simps split: if_splits)

text \<open>C24: An economic plan distributes every item completely: for both components the annual amounts of
  the units add up to the planned total, and in each unit the shares of the earmarked reserves add
  up to its annual reserve contribution.\<close>

theorem plan_distributes_all:
  assumes "values_ok h" and "valid_date start" and "valid_date stop" and "items_ok its"
    and "plan_results h property_id its start stop mode = Inr r" and "c \<in> set COMPONENTS"
  shows "sum_list (map (\<lambda>row. dict_get (pr_annual row) c 0) (pl_units r)) = dict_get (pl_totals r) c 0 \<and>
    dict_get (pl_totals r) c 0 = sum_list (map pi_amount (filter (\<lambda>i. pi_component i = c) its)) \<and>
    list_all (\<lambda>row. sum_list (map snd (pr_split row)) = dict_get (pr_annual row) ''reserve'' 0) (pl_units r)"
proof -
  let ?s0 = "\<lparr>per_unit = [], reserve_split = [], unit_numbers = []\<rparr>"
  from assms(5) obtain st rows where st: "foldr_res (add_item h property_id start stop) ?s0 its = Inr st"
    and rows: "mapr (plan_row_of mode st) (py_sorted (\<lambda>(unit_id, _). dict_get (unit_numbers st) unit_id []) (per_unit st)) = Inr rows"
    and r: "r = \<lparr>pl_units = rows, pl_totals = map (\<lambda>c. (c, sum_list (map pi_amount (filter (\<lambda>i. pi_component i = c) its)))) COMPONENTS\<rparr>"
    by (auto simp: plan_results_def res_simps)
  have s0: "plan_sums_ok ?s0" "component_sum c ?s0 = 0"
    by (simp_all add: plan_sums_ok_def split_sum_def component_sum_def dict_get_def new_bucket_def COMPONENTS_def)
  note ok = add_items[OF assms(1-4) s0(1) st, of c]
  note rw = plan_rows_of[OF rows]
  have "sum_list (map (\<lambda>row. dict_get (pr_annual row) c 0) rows) =
      sum_list (map (\<lambda>(_, b). dict_get b c 0) (map (\<lambda>row. (pr_unit row, pr_annual row)) rows))" by (simp add: comp_def)
  also have "\<dots> = component_sum c st" using rw by (simp add: component_sum_def table_sum_def)
  finally have "sum_list (map (\<lambda>row. dict_get (pr_annual row) c 0) rows) =
      sum_list (map pi_amount (filter (\<lambda>i. pi_component i = c) its))" using ok s0(2) by simp
  moreover have "dict_get (pl_totals r) c 0 = sum_list (map pi_amount (filter (\<lambda>i. pi_component i = c) its))"
    using assms(6) by (auto simp: r COMPONENTS_def dict_get_def)
  moreover have "sum_list (map snd (pr_split row)) = dict_get (pr_annual row) ''reserve'' 0" if row: "row \<in> set rows" for row
  proof -
    have "(pr_unit row, pr_annual row) \<in> set (per_unit st)"
    proof -
      have "(pr_unit row, pr_annual row) \<in> set (map (\<lambda>r. (pr_unit r, pr_annual r)) rows)" using row by simp
      then show ?thesis using rw by simp
    qed
    then have "dict_get (per_unit st) (pr_unit row) new_bucket = pr_annual row"
      using ok by (simp add: plan_sums_ok_def dict_get_def)
    then have "split_sum st (pr_unit row) = dict_get (pr_annual row) ''reserve'' 0" using ok by (simp add: plan_sums_ok_def)
    moreover have "sum_list (map snd (pr_split row)) = split_sum st (pr_unit row)"
    proof -
      have "mset (pr_split row) = mset (dict_get (reserve_split st) (pr_unit row) [])" using rw row by (simp add: list_all_iff)
      then have "sum_list (map snd (pr_split row)) = sum_list (map snd (dict_get (reserve_split st) (pr_unit row) []))"
        by (metis mset_map sum_mset_sum_list)
      moreover have "(\<lambda>(k, v). v) = (snd :: uid option \<times> dec \<Rightarrow> dec)" by auto
      ultimately show ?thesis by (simp add: split_sum_def table_sum_def)
    qed
    ultimately show ?thesis by simp
  qed
  ultimately show ?thesis by (simp add: r list_all_iff)
qed

definition example_hoa :: hoa_db where
  "example_hoa = \<lparr>h_units = [(1, \<lparr>u_property = 7, u_number = ''01''\<rparr>), (2, \<lparr>u_property = 7, u_number = ''02''\<rparr>)],
     h_values = [\<lparr>av_unit = 1, av_key = 3, av_value = 100, av_from = Date 2020 1 1, av_to = None\<rparr>,
       \<lparr>av_unit = 2, av_key = 3, av_value = 200, av_from = Date 2020 1 1, av_to = None\<rparr>]\<rparr>"

definition example_plan_items :: "plan_item list" where
  "example_plan_items = [\<lparr>pi_label = ''a'', pi_component = ''hoa_fee'', pi_amount = 1000, pi_key = 3, pi_basis = None, pi_reserve = None\<rparr>,
     \<lparr>pi_label = ''b'', pi_component = ''reserve'', pi_amount = 500, pi_key = 3, pi_basis = None, pi_reserve = Some 9\<rparr>]"


text \<open>Without a remainder month a plan fails only for an unusable key or an unknown component.\<close>

lemma add_parts_succeed:
  assumes "plan_sums_ok st" and "pi_component item \<in> set COMPONENTS"
  shows "\<exists>st'. foldr_res (add_part item) st parts = Inr st'"
  using assms(1)
proof (induction parts arbitrary: st)
  case (Cons p parts)
  obtain num u v where p: "p = ((num, u), v)" by (metis prod.collapse)
  let ?b = "dict_get (per_unit st) u new_bucket"
  have "map fst ?b = COMPONENTS"
    using Cons.prems by (auto simp: plan_sums_ok_def dict_get_def new_bucket_def comp_def split: option.splits)
  then have "pi_component item \<in> fst ` set ?b" using assms(2) by (metis list.set_map)
  then have "map_of ?b (pi_component item) \<noteq> None" by (simp add: map_of_eq_None_iff)
  then obtain old where "map_of ?b (pi_component item) = Some old" by blast
  then obtain t where t: "add_part item st p = Inr t" by (simp add: add_part_def p Let_def)
  have "plan_sums_ok t" using add_part_step[OF Cons.prems t[unfolded p]] by blast
  then show ?case using Cons.IH t by simp
qed simp

lemma add_items_succeed:
  assumes h: "values_ok h" and d: "valid_date start" "valid_date stop" and its: "items_ok its"
    and w: "list_all (\<lambda>i. \<not> isl (unit_weights h property_id (pi_key i) start stop) \<and> pi_component i \<in> set COMPONENTS) its"
    and st: "plan_sums_ok st"
  shows "\<exists>st'. foldr_res (add_item h property_id start stop) st its = Inr st'"
  using its w st
proof (induction its arbitrary: st)
  case (Cons i its)
  obtain shares where s: "unit_weights h property_id (pi_key i) start stop = Inr shares"
    using Cons.prems(2) by (cases "unit_weights h property_id (pi_key i) start stop") auto
  then have "shares_ok (pi_amount i) shares" using unit_weights_ok[OF h d s] Cons.prems(1) by (simp add: items_ok_def)
  then obtain parts where parts: "distribute (pi_amount i) shares = Inr parts" using distribute_ok by blast
  obtain t where t: "foldr_res (add_part i) st parts = Inr t"
    using add_parts_succeed[OF Cons.prems(3)] Cons.prems(2) by auto
  have "plan_sums_ok t" using add_parts[OF Cons.prems(3) t] by blast
  then show ?case using Cons parts s t by (simp add: add_item_def items_ok_def)
qed simp

lemma plan_succeeds:
  assumes "values_ok h" and "valid_date start" and "valid_date stop" and "items_ok its"
    and "list_all (\<lambda>i. \<not> isl (unit_weights h property_id (pi_key i) start stop) \<and> pi_component i \<in> set COMPONENTS) its"
  shows "\<exists>r. plan_results h property_id its start stop ''report_only'' = Inr r"
proof -
  have "plan_sums_ok \<lparr>per_unit = [], reserve_split = [], unit_numbers = []\<rparr>"
    by (simp add: plan_sums_ok_def split_sum_def dict_get_def new_bucket_def COMPONENTS_def)
  then obtain st where st: "foldr_res (add_item h property_id start stop) \<lparr>per_unit = [], reserve_split = [], unit_numbers = []\<rparr> its = Inr st"
    using add_items_succeed[OF assms] by blast
  have "\<exists>out. mapr (plan_row_of ''report_only'' st) rows = Inr out" for rows
    by (induction rows) (auto simp: plan_row_of_def Let_def)
  then show ?thesis unfolding plan_results_def st bindr_Inr by (metis bindr_Inr)
qed

theorem plan_distributes_all_witness:
  "\<exists>r. plan_results example_hoa 7 example_plan_items (Date 2024 1 1) (Date 2024 12 31) ''report_only'' = Inr r \<and>
     sum_list (map (\<lambda>row. dict_get (pr_annual row) ''reserve'' 0) (pl_units r)) = 500"
proof -
  let ?r = "plan_results example_hoa 7 example_plan_items (Date 2024 1 1) (Date 2024 12 31) ''report_only''"
  have h: "values_ok example_hoa" by (simp add: values_ok_def example_hoa_def valid_date_def month_days_def)
  have d: "valid_date (Date 2024 1 1)" "valid_date (Date 2024 12 31)" by code_simp+
  have i: "items_ok example_plan_items" by (simp add: items_ok_def example_plan_items_def is_cents_def)
  have "\<not> isl (unit_weights example_hoa 7 3 (Date 2024 1 1) (Date 2024 12 31))" by code_simp
  then have "list_all (\<lambda>i. \<not> isl (unit_weights example_hoa 7 (pi_key i) (Date 2024 1 1) (Date 2024 12 31)) \<and>
      pi_component i \<in> set COMPONENTS) example_plan_items" by (simp add: example_plan_items_def COMPONENTS_def)
  then obtain r where r: "?r = Inr r" using plan_succeeds[OF h d i] by blast
  have "''reserve'' \<in> set COMPONENTS" by (simp add: COMPONENTS_def)
  from plan_distributes_all[OF h d i r this] r show ?thesis by (simp add: example_plan_items_def)
qed

end
