(* ===== verification/HoaLoan.thy ===== *)
theory HoaLoan
  imports BillingCalc
begin

text \<open>
  Loans of a community (\<open>mhvp/hoa/calc.py\<close>): the instalment schedule, its comparison with the booked
  items, the figures of a year and their distribution over the units. Amounts that the program
  renders as strings stay decimals here; texts are left out.
\<close>

section \<open>The instalment schedule\<close>

definition MAX_SCHEDULE_MONTHS :: int where "MAX_SCHEDULE_MONTHS = 600"

definition loan_add_months :: "date \<Rightarrow> int \<Rightarrow> date" where
  "loan_add_months d months =
     (let month_index = month d - 1 + months;
          y = year d + month_index div 12;
          m = month_index mod 12 + 1;
          l = day (prev_day (Date (y + (if m = 12 then 1 else 0)) (m mod 12 + 1) 1))
      in Date y m (min (day d) l))"

record schedule_row =
  sr_number :: int
  sr_due :: date
  sr_instalment :: dec
  sr_interest :: dec
  sr_repayment :: dec
  sr_balance :: dec

record schedule =
  sc_kind :: string
  sc_rows :: "schedule_row list"
  sc_interest_total :: dec
  sc_repayment_total :: dec
  sc_residual :: dec
  sc_last_due :: "date option"

text \<open>The variables of the loop.\<close>

record plan_state =
  ps_balance :: dec
  ps_interest :: dec
  ps_repayment :: dec
  ps_number :: int
  ps_rows :: "schedule_row list"

definition month_interest :: "dec \<Rightarrow> dec \<Rightarrow> dec" where
  "month_interest rate balance = quantize round_half_up CENT (dmul balance rate)"

definition schedule_step :: "dec \<Rightarrow> dec option \<Rightarrow> dec \<Rightarrow> int \<Rightarrow> date \<Rightarrow> plan_state \<Rightarrow> plan_state res" where
  "schedule_step rate inst linear_share limit start s =
     (let n = ps_number s + 1;
          interest = month_interest rate (ps_balance s)
      in bindr
        (case inst of
           Some i \<Rightarrow> if n = 1 \<and> i \<le> interest then Inl Validation
             else Inr (min (dsub i interest) (ps_balance s))
         | None \<Rightarrow> Inr (if n = limit then ps_balance s else min linear_share (ps_balance s)))
        (\<lambda>repayment.
          (let b = dsub (ps_balance s) repayment
           in Inr \<lparr>ps_balance = b, ps_interest = dadd (ps_interest s) interest,
                ps_repayment = dadd (ps_repayment s) repayment, ps_number = n,
                ps_rows = ps_rows s @ [\<lparr>sr_number = n, sr_due = loan_add_months start n,
                  sr_instalment = dadd interest repayment, sr_interest = interest,
                  sr_repayment = repayment, sr_balance = b\<rparr>]\<rparr>)))"

lemma schedule_step_number: "schedule_step rate inst share limit start s = Inr s' \<Longrightarrow> ps_number s' = ps_number s + 1"
  by (auto simp: schedule_step_def Let_def res_simps split: option.splits if_splits)

function schedule_loop :: "dec \<Rightarrow> dec option \<Rightarrow> dec \<Rightarrow> int \<Rightarrow> date \<Rightarrow> plan_state \<Rightarrow> plan_state res" where
  "schedule_loop rate inst linear_share limit start s =
     (if 0 < ps_balance s \<and> ps_number s < limit
      then bindr (schedule_step rate inst linear_share limit start s)
        (schedule_loop rate inst linear_share limit start)
      else Inr s)"
  by pat_completeness auto
termination
  by (relation "measure (\<lambda>(_, _, _, limit, _, s). nat (limit - ps_number s))")
    (auto dest: schedule_step_number)

declare schedule_loop.simps [simp del]

definition loan_schedule :: "dec \<Rightarrow> dec \<Rightarrow> int option \<Rightarrow> dec option \<Rightarrow> date \<Rightarrow> schedule res" where
  "loan_schedule princ interest_rate_percent term_months inst start =
     (if inst = None \<and> term_months = None then Inl Validation
      else
        (let monthly_rate = ddiv (ddiv interest_rate_percent 100) 12;
             balance = quantize round_half_up CENT princ;
             limit = (case term_months of Some t \<Rightarrow> t | None \<Rightarrow> MAX_SCHEDULE_MONTHS)
         in if limit = 0 then Inl Zero_Division
            else
              (let linear_share = quantize round_half_up CENT (ddiv princ (of_int limit))
               in bindr (schedule_loop monthly_rate inst linear_share limit start
                    \<lparr>ps_balance = balance, ps_interest = 0, ps_repayment = 0, ps_number = 0, ps_rows = []\<rparr>)
                  (\<lambda>s. Inr \<lparr>sc_kind = (if inst \<noteq> None then ''annuity'' else ''linear''), sc_rows = ps_rows s,
                     sc_interest_total = ps_interest s, sc_repayment_total = ps_repayment s,
                     sc_residual = ps_balance s,
                     sc_last_due = (if ps_rows s = [] then None else Some (sr_due (last (ps_rows s))))\<rparr>))))"

section \<open>Dates of the instalments\<close>

lemma month_length: "1 \<le> m \<Longrightarrow> m \<le> 12 \<Longrightarrow> day (prev_day (Date (y + (if m = 12 then 1 else 0)) (m mod 12 + 1) 1)) = month_days y m"
proof -
  assume m: "1 \<le> m" "m \<le> 12"
  show ?thesis
  proof (cases "m = 12")
    case True
    then show ?thesis by (simp add: prev_day_def month_days_def)
  next
    case False
    then have "m mod 12 = m" using m by simp
    then show ?thesis using m False by (simp add: prev_day_def)
  qed
qed

lemma loan_add_months_eq:
  "loan_add_months d k =
     (let i = month d - 1 + k; y = year d + i div 12; m = i mod 12 + 1 in Date y m (min (day d) (month_days y m)))"
proof -
  have "1 \<le> (month d - 1 + k) mod 12 + 1" "(month d - 1 + k) mod 12 + 1 \<le> 12" by simp_all
  from month_length[OF this] show ?thesis unfolding loan_add_months_def Let_def by simp
qed

lemma loan_add_months_valid: "valid_date d \<Longrightarrow> valid_date (loan_add_months d k)"
  using month_days_bounds(1)[of "year d + (month d - 1 + k) div 12" "(month d - 1 + k) mod 12 + 1"]
  by (auto simp: loan_add_months_eq Let_def valid_date_def)

section \<open>The loop\<close>

text \<open>The terms the form accepts: a rate of 0 to 100 percent, a term of 1 to 600 months, money amounts.\<close>

definition loan_ok :: "dec \<Rightarrow> dec \<Rightarrow> int option \<Rightarrow> dec option \<Rightarrow> bool" where
  "loan_ok princ percent term_months inst \<longleftrightarrow>
     0 \<le> princ \<and> princ < 10 ^ 12 \<and> 0 \<le> percent \<and> percent \<le> 100 \<and>
     (case term_months of None \<Rightarrow> True | Some t \<Rightarrow> 1 \<le> t \<and> t \<le> 600) \<and>
     (case inst of None \<Rightarrow> True | Some i \<Rightarrow> is_cents i \<and> 0 \<le> i \<and> i < 10 ^ 12)"

text \<open>The plan in exact arithmetic: rows from number \<open>n\<close> and balance \<open>b\<close> to the balance \<open>b'\<close>.\<close>

definition repayment_share :: "dec \<Rightarrow> dec option \<Rightarrow> dec \<Rightarrow> int \<Rightarrow> int \<Rightarrow> dec \<Rightarrow> dec" where
  "repayment_share rate inst linear_share limit n b =
     (case inst of Some i \<Rightarrow> min (i - month_interest rate b) b
      | None \<Rightarrow> if n = limit then b else min linear_share b)"

fun plan_rows :: "dec \<Rightarrow> dec option \<Rightarrow> dec \<Rightarrow> int \<Rightarrow> date \<Rightarrow> int \<Rightarrow> dec \<Rightarrow> schedule_row list \<Rightarrow> dec \<Rightarrow> bool" where
  "plan_rows rate inst share limit start n b [] b' = (b = b')"
| "plan_rows rate inst share limit start n b (r # rs) b' =
     (0 < b \<and> n < limit \<and> r = \<lparr>sr_number = n + 1, sr_due = loan_add_months start (n + 1),
        sr_instalment = month_interest rate b + repayment_share rate inst share limit (n + 1) b,
        sr_interest = month_interest rate b, sr_repayment = repayment_share rate inst share limit (n + 1) b,
        sr_balance = b - repayment_share rate inst share limit (n + 1) b\<rparr> \<and>
      plan_rows rate inst share limit start (n + 1) (sr_balance r) rs b')"

lemma plan_rows_append:
  "plan_rows rate inst share limit start n b (rs @ ss) b' \<longleftrightarrow>
     (\<exists>c. plan_rows rate inst share limit start n b rs c \<and>
       plan_rows rate inst share limit start (n + int (length rs)) c ss b')"
  by (induction rs arbitrary: n b) (auto simp: algebra_simps)

lemma month_interest_cents [simp]: "is_cents (month_interest rate b)"
  by (simp add: month_interest_def)

lemma month_interest_mono: "0 \<le> b \<Longrightarrow> b \<le> c \<Longrightarrow> 0 \<le> rate \<Longrightarrow> month_interest rate b \<le> month_interest rate c"
  unfolding month_interest_def by (intro rhu.quantize_mono dmul_mono) (simp_all add: CENT_def)

lemma month_interest_bounds:
  assumes "0 \<le> b" and "0 \<le> rate" and "rate \<le> 1" and "b < 10 ^ 13"
  shows "0 \<le> month_interest rate b" and "month_interest rate b < 10 ^ 14"
proof -
  have nn: "0 \<le> dmul b rate" unfolding dmul_def using assms by (intro fix28_nonneg) simp
  then show "0 \<le> month_interest rate b" by (simp add: month_interest_def rhu.quantize_nonneg CENT_def)
  have "b * rate \<le> 10 ^ 13 * 1" using assms by (intro mult_mono) auto
  then have "dmul b rate \<le> 2 * 10 ^ 13"
    unfolding dmul_def using fix28_bounds(2)[of "b * rate"] assms by (simp add: ulp28_def)
  moreover have "\<bar>month_interest rate b - dmul b rate\<bar> \<le> 1 / 200"
    using round_cents_error[of "dmul b rate"] by (simp add: month_interest_def round_cents_def)
  ultimately have "month_interest rate b \<le> 2 * 10 ^ 13 + 1 / 200" by linarith
  then show "month_interest rate b < 10 ^ 14" by simp
qed

text \<open>The invariant of the loop.\<close>

definition plan_inv :: "dec \<Rightarrow> dec option \<Rightarrow> dec \<Rightarrow> int \<Rightarrow> date \<Rightarrow> dec \<Rightarrow> plan_state \<Rightarrow> bool" where
  "plan_inv rate inst share limit start b0 s \<longleftrightarrow>
     plan_rows rate inst share limit start 0 b0 (ps_rows s) (ps_balance s) \<and>
     ps_number s = int (length (ps_rows s)) \<and> ps_number s \<le> limit \<and>
     is_cents (ps_balance s) \<and> 0 \<le> ps_balance s \<and> ps_balance s \<le> b0 \<and>
     is_cents (ps_repayment s) \<and> ps_repayment s + ps_balance s = b0 \<and>
     ps_repayment s = sum_list (map sr_repayment (ps_rows s)) \<and>
     is_cents (ps_interest s) \<and> ps_interest s = sum_list (map sr_interest (ps_rows s)) \<and>
     0 \<le> ps_interest s \<and> ps_interest s \<le> of_int (ps_number s) * 10 ^ 14 \<and>
     (case inst of Some i \<Rightarrow> 0 < ps_number s \<longrightarrow> month_interest rate b0 < i
      | None \<Rightarrow> ps_number s = limit \<longrightarrow> ps_balance s = 0)"

text \<open>The terms of a running loop.\<close>

definition terms_ok :: "dec \<Rightarrow> dec option \<Rightarrow> dec \<Rightarrow> int \<Rightarrow> dec \<Rightarrow> bool" where
  "terms_ok rate inst share limit b0 \<longleftrightarrow>
     0 \<le> rate \<and> rate \<le> 1 \<and> is_cents share \<and> 0 \<le> share \<and> 1 \<le> limit \<and> limit \<le> 600 \<and>
     is_cents b0 \<and> 0 \<le> b0 \<and> b0 < 10 ^ 13 \<and>
     (case inst of None \<Rightarrow> True | Some i \<Rightarrow> is_cents i \<and> 0 \<le> i \<and> i < 10 ^ 12)"

lemma min_cents: "is_cents x \<Longrightarrow> is_cents y \<Longrightarrow> is_cents (min x y)"
  by (simp add: min_def)

lemma repayment_share_bounds:
  assumes "terms_ok rate inst share limit b0" and "is_cents b" and "0 \<le> b" and "b \<le> b0"
    and "\<And>i. inst = Some i \<Longrightarrow> month_interest rate b0 < i"
  shows "0 \<le> repayment_share rate inst share limit n b" "repayment_share rate inst share limit n b \<le> b"
    "is_cents (repayment_share rate inst share limit n b)"
proof -
  have i: "month_interest rate b < i" if "inst = Some i" for i
    using assms(5)[OF that] month_interest_mono[OF assms(3,4), of rate] assms(1) by (simp add: terms_ok_def)
  show "0 \<le> repayment_share rate inst share limit n b" "repayment_share rate inst share limit n b \<le> b"
    using assms i by (auto simp: repayment_share_def terms_ok_def split: option.splits)
  show "is_cents (repayment_share rate inst share limit n b)"
    using assms(1,2) by (auto simp: repayment_share_def terms_ok_def intro!: min_cents is_cents_diff split: option.splits)
qed

lemma schedule_step_inv:
  assumes terms: "terms_ok rate inst share limit b0" and inv: "plan_inv rate inst share limit start b0 s"
    and go: "0 < ps_balance s" "ps_number s < limit" and step: "schedule_step rate inst share limit start s = Inr s'"
  shows "plan_inv rate inst share limit start b0 s'"
proof -
  let ?b = "ps_balance s" and ?n = "ps_number s + 1" and ?I = "month_interest rate (ps_balance s)"
  let ?R = "repayment_share rate inst share limit ?n ?b"
  have b: "is_cents ?b" "0 \<le> ?b" "?b \<le> b0" and n: "ps_number s = int (length (ps_rows s))"
    using inv by (simp_all add: plan_inv_def)
  have first: "ps_number s = 0 \<Longrightarrow> ?b = b0" using n inv by (simp add: plan_inv_def)
  have i: "month_interest rate b0 < i" if "inst = Some i" for i
    using step inv first that n
    by (cases "ps_number s = 0") (auto simp: schedule_step_def plan_inv_def Let_def res_simps split: if_splits)
  note R = repayment_share_bounds[OF terms b i, where n = "ps_number s + 1"]
  have b0: "b0 < 10 ^ 13" using terms by (simp add: terms_ok_def)
  have I: "0 \<le> ?I" "?I < 10 ^ 14" using month_interest_bounds[of ?b rate] b b0 terms by (auto simp: terms_ok_def)
  have "dsub j ?I = j - ?I" if "inst = Some j" for j
    using terms that I by (intro dsub_money) (auto simp: terms_ok_def)
  then have bal: "s' = \<lparr>ps_balance = dsub ?b ?R, ps_interest = dadd (ps_interest s) ?I,
      ps_repayment = dadd (ps_repayment s) ?R, ps_number = ?n,
      ps_rows = ps_rows s @ [\<lparr>sr_number = ?n, sr_due = loan_add_months start ?n, sr_instalment = dadd ?I ?R,
        sr_interest = ?I, sr_repayment = ?R, sr_balance = dsub ?b ?R\<rparr>]\<rparr>"
    using step by (auto simp: schedule_step_def Let_def res_simps repayment_share_def split: option.splits if_splits)
  have "0 \<le> ps_repayment s" "ps_repayment s \<le> b0" "is_cents (ps_repayment s)" "is_cents (ps_interest s)"
    using inv b by (auto simp: plan_inv_def)
  have nn: "of_int (ps_number s) \<le> (600::rat)"
    using go(2) terms unfolding terms_ok_def by (metis of_int_le_iff of_int_numeral order_less_imp_le order_trans)
  have it: "0 \<le> ps_interest s" "ps_interest s \<le> of_int (ps_number s) * 10 ^ 14" using inv by (simp_all add: plan_inv_def)
  moreover have "of_int (ps_number s) * 10 ^ 14 \<le> (600 * 10 ^ 14 :: rat)" using nn by (intro mult_right_mono) auto
  ultimately have it600: "ps_interest s \<le> 600 * 10 ^ 14" by linarith
  have e: "dsub ?b ?R = ?b - ?R" "dadd (ps_repayment s) ?R = ps_repayment s + ?R"
    "dadd ?I ?R = ?I + ?R" "dadd (ps_interest s) ?I = ps_interest s + ?I"
    using R b b0 I it it600 \<open>0 \<le> ps_repayment s\<close> \<open>ps_repayment s \<le> b0\<close> \<open>is_cents (ps_repayment s)\<close> \<open>is_cents (ps_interest s)\<close>
    by (auto intro!: dsub_money dadd_money)
  show ?thesis
    using inv go R b I it n i unfolding bal e
    by (auto simp: plan_inv_def plan_rows_append is_cents_diff is_cents_add algebra_simps repayment_share_def
        split: option.splits)
qed

lemma schedule_loop_inv:
  assumes "terms_ok rate inst share limit b0" and "plan_inv rate inst share limit start b0 s"
    and "schedule_loop rate inst share limit start s = Inr s'"
  shows "plan_inv rate inst share limit start b0 s' \<and> \<not> (0 < ps_balance s' \<and> ps_number s' < limit)"
  using assms(2,3)
proof (induction "nat (limit - ps_number s)" arbitrary: s rule: less_induct)
  case less
  show ?case
  proof (cases "0 < ps_balance s \<and> ps_number s < limit")
    case True
    then obtain t where t: "schedule_step rate inst share limit start s = Inr t"
      "schedule_loop rate inst share limit start t = Inr s'"
      using less.prems(2) by (subst (asm) schedule_loop.simps) (auto simp: res_simps)
    have "nat (limit - ps_number t) < nat (limit - ps_number s)" using schedule_step_number[OF t(1)] True by auto
    then show ?thesis
      using less.hyps schedule_step_inv[OF assms(1) less.prems(1) _ _ t(1)] True t(2) by blast
  next
    case False
    then show ?thesis using less.prems by (subst (asm) schedule_loop.simps) auto
  qed
qed

text \<open>Only the first row can fail.\<close>

lemma schedule_step_fails:
  "schedule_step rate inst share limit start s = Inl e \<longleftrightarrow>
     e = Validation \<and> ps_number s = 0 \<and> (\<exists>i. inst = Some i \<and> i \<le> month_interest rate (ps_balance s))"
  by (auto simp: schedule_step_def Let_def res_simps split: option.splits)

lemma schedule_loop_succeeds:
  assumes "0 < ps_number s"
  shows "\<exists>s'. schedule_loop rate inst share limit start s = Inr s'"
  using assms
proof (induction "nat (limit - ps_number s)" arbitrary: s rule: less_induct)
  case less
  show ?case
  proof (cases "0 < ps_balance s \<and> ps_number s < limit")
    case True
    obtain t where t: "schedule_step rate inst share limit start s = Inr t"
      using schedule_step_fails[of rate inst share limit start s] less.prems
      by (cases "schedule_step rate inst share limit start s") auto
    have n: "ps_number t = ps_number s + 1" by (rule schedule_step_number[OF t])
    then show ?thesis
      using less.hyps[of t] True t less.prems by (subst schedule_loop.simps) auto
  next
    case False
    then show ?thesis by (subst schedule_loop.simps) auto
  qed
qed

lemma schedule_loop_fails:
  assumes "ps_number s = 0" and "1 \<le> limit"
  shows "schedule_loop rate inst share limit start s = Inl e \<longleftrightarrow>
    e = Validation \<and> 0 < ps_balance s \<and> (\<exists>i. inst = Some i \<and> i \<le> month_interest rate (ps_balance s))"
proof (cases "0 < ps_balance s")
  case True
  have ok: "schedule_loop rate inst share limit start t \<noteq> Inl e" if "schedule_step rate inst share limit start s = Inr t" for t
    using schedule_loop_succeeds[of t rate inst share limit start] schedule_step_number[OF that] assms(1) by auto
  have "schedule_loop rate inst share limit start s = Inl e \<longleftrightarrow> schedule_step rate inst share limit start s = Inl e"
    using ok assms True by (subst schedule_loop.simps) (auto simp: bindr_eq_Inl)
  then show ?thesis using True assms(1) by (simp add: schedule_step_fails)
next
  case False
  then show ?thesis by (subst schedule_loop.simps) auto
qed

section \<open>The schedule\<close>

definition schedule_limit :: "int option \<Rightarrow> int" where
  "schedule_limit term_months = (case term_months of Some t \<Rightarrow> t | None \<Rightarrow> MAX_SCHEDULE_MONTHS)"

definition monthly_rate_of :: "dec \<Rightarrow> dec" where
  "monthly_rate_of percent = ddiv (ddiv percent 100) 12"

definition share_of :: "dec \<Rightarrow> int option \<Rightarrow> dec" where
  "share_of princ term_months = quantize round_half_up CENT (ddiv princ (of_int (schedule_limit term_months)))"

lemma loan_schedule_eq:
  "loan_schedule princ percent term_months inst start =
     (if inst = None \<and> term_months = None then Inl Validation
      else if schedule_limit term_months = 0 then Inl Zero_Division
      else bindr (schedule_loop (monthly_rate_of percent) inst (share_of princ term_months) (schedule_limit term_months) start
          \<lparr>ps_balance = round_cents princ, ps_interest = 0, ps_repayment = 0, ps_number = 0, ps_rows = []\<rparr>)
        (\<lambda>s. Inr \<lparr>sc_kind = (if inst \<noteq> None then ''annuity'' else ''linear''), sc_rows = ps_rows s,
           sc_interest_total = ps_interest s, sc_repayment_total = ps_repayment s,
           sc_residual = ps_balance s,
           sc_last_due = (if ps_rows s = [] then None else Some (sr_due (last (ps_rows s))))\<rparr>))"
  by (simp add: loan_schedule_def Let_def schedule_limit_def monthly_rate_of_def share_of_def round_cents_def)

lemma loan_terms:
  assumes "loan_ok princ percent term_months inst"
  shows "terms_ok (monthly_rate_of percent) inst (share_of princ term_months) (schedule_limit term_months) (round_cents princ)"
proof -
  have p: "0 \<le> princ" "princ < 10 ^ 12" "0 \<le> percent" "percent \<le> 100" using assms by (simp_all add: loan_ok_def)
  have l: "1 \<le> schedule_limit term_months" "schedule_limit term_months \<le> 600"
    using assms by (auto simp: loan_ok_def schedule_limit_def MAX_SCHEDULE_MONTHS_def split: option.splits)
  have r100: "0 \<le> ddiv percent 100" "ddiv percent 100 \<le> 2"
    using p fix28_nonneg[of "percent / 100"] fix28_bounds(2)[of "percent / 100"] by (auto simp: ddiv_def ulp28_def)
  then have "0 \<le> monthly_rate_of percent" "monthly_rate_of percent \<le> 1"
    using fix28_nonneg[of "ddiv percent 100 / 12"] fix28_bounds(2)[of "ddiv percent 100 / 12"]
    by (auto simp: monthly_rate_of_def ddiv_def[of _ 12] ulp28_def)
  moreover have "0 \<le> ddiv princ (of_int (schedule_limit term_months))"
    unfolding ddiv_def using p l by (intro fix28_nonneg) simp
  then have "0 \<le> share_of princ term_months" by (simp add: share_of_def rhu.quantize_nonneg CENT_def)
  moreover have "is_cents (share_of princ term_months)" by (simp add: share_of_def)
  moreover have "\<bar>round_cents princ - princ\<bar> \<le> 1 / 200" by (rule round_cents_error)
  then have "round_cents princ \<le> 10 ^ 12 + 1 / 200" using p by linarith
  then have "round_cents princ < 10 ^ 13" by simp
  ultimately show ?thesis
    using l p assms by (simp add: terms_ok_def loan_ok_def round_cents_nonneg)
qed

lemma loan_schedule_inv:
  assumes ok: "loan_ok princ percent term_months inst" and s: "loan_schedule princ percent term_months inst start = Inr sc"
  obtains s where "plan_inv (monthly_rate_of percent) inst (share_of princ term_months) (schedule_limit term_months) start (round_cents princ) s"
    "ps_balance s \<le> 0 \<or> schedule_limit term_months \<le> ps_number s"
    "sc = \<lparr>sc_kind = (if inst \<noteq> None then ''annuity'' else ''linear''), sc_rows = ps_rows s,
       sc_interest_total = ps_interest s, sc_repayment_total = ps_repayment s, sc_residual = ps_balance s,
       sc_last_due = (if ps_rows s = [] then None else Some (sr_due (last (ps_rows s))))\<rparr>"
proof -
  note th = that
  note terms = loan_terms[OF ok]
  let ?s0 = "\<lparr>ps_balance = round_cents princ, ps_interest = 0, ps_repayment = 0, ps_number = 0, ps_rows = []\<rparr>"
  have i0: "plan_inv (monthly_rate_of percent) inst (share_of princ term_months) (schedule_limit term_months) start (round_cents princ) ?s0"
    using terms by (auto simp: plan_inv_def terms_ok_def split: option.splits)
  from s obtain s where l: "schedule_loop (monthly_rate_of percent) inst (share_of princ term_months) (schedule_limit term_months) start ?s0 = Inr s"
    and sc: "sc = \<lparr>sc_kind = (if inst \<noteq> None then ''annuity'' else ''linear''), sc_rows = ps_rows s,
       sc_interest_total = ps_interest s, sc_repayment_total = ps_repayment s, sc_residual = ps_balance s,
       sc_last_due = (if ps_rows s = [] then None else Some (sr_due (last (ps_rows s))))\<rparr>"
    by (auto simp: loan_schedule_eq res_simps split: if_splits)
  from schedule_loop_inv[OF terms i0 l] show thesis by (intro th[OF _ _ sc]) (auto simp: not_less)
qed

lemma loan_schedule_fails:
  assumes "loan_ok princ percent term_months inst"
  shows "loan_schedule princ percent term_months inst start = Inl e \<longleftrightarrow>
    e = Validation \<and> (inst = None \<and> term_months = None \<or>
      0 < round_cents princ \<and> (\<exists>i. inst = Some i \<and> i \<le> month_interest (monthly_rate_of percent) (round_cents princ)))"
proof -
  have l: "1 \<le> schedule_limit term_months" using loan_terms[OF assms] by (simp add: terms_ok_def)
  show ?thesis
    by (auto simp: loan_schedule_eq bindr_eq_Inl schedule_loop_fails[OF _ l] split: if_splits) (use l in auto)
qed

lemma example_loan:
  "\<exists>sc. loan_schedule 1000 3 term_months (Some 100) start = Inr sc" if "term_months = None \<or> term_months = Some 24"
proof -
  have ok: "loan_ok 1000 3 term_months (Some 100)" using that by (auto simp: loan_ok_def is_cents_def)
  have r: "round_cents 1000 = (1000 :: dec)" by (rule round_cents_id) (simp add: is_cents_def)
  have "month_interest (monthly_rate_of 3) 1000 < 100" by code_simp
  then have "loan_schedule 1000 3 term_months (Some 100) start \<noteq> Inl e" for e
    using loan_schedule_fails[OF ok, of start e] by (auto simp: r)
  then show ?thesis by (cases "loan_schedule 1000 3 term_months (Some 100) start") auto
qed

text \<open>The rows of a schedule in exact arithmetic.\<close>

definition follows_plan :: "dec \<Rightarrow> dec \<Rightarrow> int option \<Rightarrow> dec option \<Rightarrow> date \<Rightarrow> schedule \<Rightarrow> bool" where
  "follows_plan princ percent term_months inst start sc \<longleftrightarrow>
     plan_rows (monthly_rate_of percent) inst (share_of princ term_months) (schedule_limit term_months) start 0
       (round_cents princ) (sc_rows sc) (sc_residual sc)"

lemma loan_schedule_rows:
  "loan_ok princ percent term_months inst \<Longrightarrow> loan_schedule princ percent term_months inst start = Inr sc \<Longrightarrow>
   follows_plan princ percent term_months inst start sc"
  by (elim loan_schedule_inv) (auto simp: plan_inv_def follows_plan_def)

text \<open>C22: A loan schedule follows the plan row by row, its totals are the sums of the rows, repayments and
  residual make up the principal, and the residual is an amount between zero and the principal.\<close>

theorem loan_schedule_conserves:
  assumes "loan_ok princ percent term_months inst" and "loan_schedule princ percent term_months inst start = Inr sc"
  shows "follows_plan princ percent term_months inst start sc \<and>
    sc_repayment_total sc = sum_list (map sr_repayment (sc_rows sc)) \<and>
    sc_interest_total sc = sum_list (map sr_interest (sc_rows sc)) \<and>
    sc_repayment_total sc + sc_residual sc = round_cents princ \<and>
    0 \<le> sc_residual sc \<and> is_cents (sc_residual sc) \<and> int (length (sc_rows sc)) \<le> schedule_limit term_months"
  using assms by (elim loan_schedule_inv) (auto simp: plan_inv_def follows_plan_def)

theorem loan_schedule_conserves_witness:
  "\<exists>sc. loan_schedule 1000 3 (Some 24) (Some 100) (Date 2024 1 31) = Inr sc \<and>
     sc_repayment_total sc + sc_residual sc = 1000"
proof -
  have ok: "loan_ok 1000 3 (Some 24) (Some 100)" by (simp add: loan_ok_def is_cents_def)
  obtain sc where sc: "loan_schedule 1000 3 (Some 24) (Some 100) (Date 2024 1 31) = Inr sc"
    using example_loan[of "Some 24"] by blast
  have "round_cents 1000 = (1000 :: dec)" by (rule round_cents_id) (simp add: is_cents_def)
  then show ?thesis using loan_schedule_conserves[OF ok sc] sc by auto
qed

text \<open>The schedule is refused exactly when neither an instalment nor a term is given, or when the
  instalment does not exceed the interest of the first month.\<close>

lemma loan_schedule_errors:
  assumes "loan_ok princ percent term_months inst"
  shows "loan_schedule princ percent term_months inst start = Inl e \<longleftrightarrow>
    e = Validation \<and> (inst = None \<and> term_months = None \<or>
      0 < round_cents princ \<and> (\<exists>i. inst = Some i \<and> i \<le> month_interest (monthly_rate_of percent) (round_cents princ)))"
  using assms by (rule loan_schedule_fails)

lemma loan_schedule_errors_witness:
  "loan_schedule 1000 100 None (Some 83) (Date 2024 1 31) = Inl Validation"
proof -
  have ok: "loan_ok 1000 100 None (Some 83)" by (simp add: loan_ok_def is_cents_def)
  have r: "round_cents 1000 = (1000 :: dec)" by (rule round_cents_id) (simp add: is_cents_def)
  have "83 \<le> month_interest (monthly_rate_of 100) 1000" by code_simp
  then show ?thesis using loan_schedule_errors[OF ok, of "Date 2024 1 31" Validation] by (simp add: r)
qed

text \<open>C23: A linear plan, given by its term, always exists, ends within the term and repays the loan in
  full.\<close>

theorem linear_plan_closes:
  assumes "loan_ok princ percent (Some t) None"
  shows "\<exists>sc. loan_schedule princ percent (Some t) None start = Inr sc \<and> sc_residual sc = 0 \<and>
    int (length (sc_rows sc)) \<le> t"
proof -
  have "1 \<le> t" using assms by (simp add: loan_ok_def)
  then have "loan_schedule princ percent (Some t) None start \<noteq> Inl e" for e
    by (auto simp: loan_schedule_eq schedule_limit_def bindr_eq_Inl schedule_loop_fails)
  then obtain sc where sc: "loan_schedule princ percent (Some t) None start = Inr sc"
    by (cases "loan_schedule princ percent (Some t) None start") auto
  from loan_schedule_inv[OF assms sc] obtain s where
    s: "plan_inv (monthly_rate_of percent) None (share_of princ (Some t)) (schedule_limit (Some t)) start (round_cents princ) s"
    "ps_balance s \<le> 0 \<or> schedule_limit (Some t) \<le> ps_number s" "sc_residual sc = ps_balance s" "sc_rows sc = ps_rows s"
    by (metis schedule.select_convs(2) schedule.select_convs(5))
  have "ps_balance s = 0" using s(1,2) by (auto simp: plan_inv_def)
  moreover have "int (length (ps_rows s)) \<le> t" using s(1) by (simp add: plan_inv_def schedule_limit_def)
  ultimately show ?thesis using sc s(3,4) by simp
qed

theorem linear_plan_closes_witness:
  "\<exists>sc. loan_schedule 1000 3 (Some 7) None (Date 2024 1 31) = Inr sc \<and> sc_residual sc = 0"
proof -
  have "loan_ok 1000 3 (Some 7) None" by (simp add: loan_ok_def)
  from linear_plan_closes[OF this] show ?thesis by blast
qed

lemma annuity_interest:
  assumes "plan_rows rate (Some i) share limit start n b rs b'" and "0 \<le> rate" and "month_interest rate b < i"
    and "r \<in> set rs"
  shows "sr_interest r \<le> month_interest rate b"
  using assms
proof (induction rs arbitrary: n b)
  case (Cons q rs)
  define c where "c = sr_balance q"
  have c: "plan_rows rate (Some i) share limit start (n + 1) c rs b'" "c = b - min (i - month_interest rate b) b" "0 < b"
    "sr_interest q = month_interest rate b"
    using Cons.prems(1) by (auto simp: c_def repayment_share_def)
  have "0 \<le> c" "c \<le> b" using c Cons.prems(3) by auto
  then have m: "month_interest rate c \<le> month_interest rate b" using Cons.prems(2) by (intro month_interest_mono)
  show ?case
  proof (cases "r = q")
    case False
    then have "sr_interest r \<le> month_interest rate c" using Cons.IH[OF c(1)] Cons.prems m by auto
    then show ?thesis using m by simp
  qed (use c in simp)
qed simp

lemma annuity_rows:
  assumes "plan_rows rate (Some i) share limit start n b rs b'" and "0 \<le> rate" and "month_interest rate b < i"
  shows "sorted_wrt (\<lambda>r q. sr_interest q \<le> sr_interest r) rs"
    and "\<And>r. r \<in> set (butlast rs) \<Longrightarrow> sr_repayment r = i - sr_interest r \<and> sr_instalment r = i"
proof -
  have "sorted_wrt (\<lambda>r q. sr_interest q \<le> sr_interest r) rs \<and>
      (\<forall>r \<in> set (butlast rs). sr_repayment r = i - sr_interest r \<and> sr_instalment r = i)"
    using assms
  proof (induction rs arbitrary: n b)
    case (Cons q rs)
    define c where "c = sr_balance q"
    have c: "plan_rows rate (Some i) share limit start (n + 1) c rs b'" "c = b - min (i - month_interest rate b) b" "0 < b"
      "sr_interest q = month_interest rate b" "sr_repayment q = min (i - month_interest rate b) b"
      "sr_instalment q = month_interest rate b + min (i - month_interest rate b) b"
      using Cons.prems(1) by (auto simp: c_def repayment_share_def)
    have cb: "0 \<le> c" "c \<le> b" using c Cons.prems(3) by auto
    then have m: "month_interest rate c < i"
      using month_interest_mono[OF cb Cons.prems(2)] Cons.prems(3) by simp
    note IH = Cons.IH[OF c(1) Cons.prems(2) m]
    have "sr_interest r \<le> sr_interest q" if "r \<in> set rs" for r
      using annuity_interest[OF c(1) Cons.prems(2) m that] month_interest_mono[OF cb Cons.prems(2)] c(4) by simp
    moreover have "sr_repayment q = i - sr_interest q \<and> sr_instalment q = i" if "rs \<noteq> []"
    proof -
      from \<open>rs \<noteq> []\<close> obtain q' rs' where "rs = q' # rs'" by (meson neq_Nil_conv)
      then have "0 < c" using c(1) by simp
      then show ?thesis using c by (auto simp: min_def split: if_splits)
    qed
    ultimately show ?case using IH by auto
  qed simp
  then show "sorted_wrt (\<lambda>r q. sr_interest q \<le> sr_interest r) rs"
    and "\<And>r. r \<in> set (butlast rs) \<Longrightarrow> sr_repayment r = i - sr_interest r \<and> sr_instalment r = i" by auto
qed

text \<open>In an annuity plan every instalment but the last is the agreed one, the interest share never
  rises and the repayment share never falls.\<close>

lemma annuity_plan_shape:
  assumes ok: "loan_ok princ percent term_months (Some i)"
    and sc: "loan_schedule princ percent term_months (Some i) start = Inr sc"
  shows "(\<forall>r \<in> set (butlast (sc_rows sc)). sr_instalment r = i) \<and>
    sorted_wrt (\<lambda>r q. sr_interest q \<le> sr_interest r) (sc_rows sc) \<and>
    sorted_wrt (\<lambda>r q. sr_repayment r \<le> sr_repayment q) (butlast (sc_rows sc))"
proof (cases "sc_rows sc = []")
  case False
  from loan_schedule_inv[OF ok sc] obtain s where
    s: "plan_inv (monthly_rate_of percent) (Some i) (share_of princ term_months) (schedule_limit term_months) start (round_cents princ) s"
    "sc_rows sc = ps_rows s" by (metis schedule.select_convs(2))
  then have p: "plan_rows (monthly_rate_of percent) (Some i) (share_of princ term_months) (schedule_limit term_months) start 0
      (round_cents princ) (sc_rows sc) (ps_balance s)" "month_interest (monthly_rate_of percent) (round_cents princ) < i"
    using False by (auto simp: plan_inv_def)
  have "0 \<le> monthly_rate_of percent" using loan_terms[OF ok] by (simp add: terms_ok_def)
  note a = annuity_rows[OF p(1) this p(2)]
  have "sorted_wrt (\<lambda>r q. sr_interest q \<le> sr_interest r) (butlast (sc_rows sc))"
    using a(1) by (simp add: butlast_conv_take sorted_wrt_take)
  then have "sorted_wrt (\<lambda>r q. sr_repayment r \<le> sr_repayment q) (butlast (sc_rows sc))"
    by (rule sorted_wrt_mono_rel[rotated]) (use a(2) in auto)
  then show ?thesis using a by blast
qed simp

lemma annuity_plan_shape_witness:
  "\<exists>sc. loan_schedule 1000 3 None (Some 100) (Date 2024 1 31) = Inr sc \<and>
     (\<forall>r \<in> set (butlast (sc_rows sc)). sr_instalment r = 100)"
proof -
  have ok: "loan_ok 1000 3 None (Some 100)" by (simp add: loan_ok_def is_cents_def)
  obtain sc where sc: "loan_schedule 1000 3 None (Some 100) (Date 2024 1 31) = Inr sc"
    using example_loan[of None] by blast
  from annuity_plan_shape[OF ok sc] sc show ?thesis by blast
qed

end
