(* ===== verification/HoaLoanYear.thy ===== *)
theory HoaLoanYear
  imports HoaLoan LedgerState
begin

text \<open>
  The plan of a loan against its booked items: the comparison per month and the figures of a calendar
  year (\<open>schedule_comparison\<close> and \<open>loan_year_figures\<close> in \<open>mhvp/hoa/calc.py\<close>). Amounts are money
  columns, so their sums are exact and written with plain addition; a month \<open>YYYY-MM\<close> is the pair of
  its year and its month, which sorts in the same order.
\<close>

section \<open>Plan and booked items per month\<close>

type_synonym month_key = "int \<times> int"

record booked_item =
  bk_booked :: bool
  bk_kind :: string
  bk_date :: date
  bk_amount :: dec

record month_bucket =
  mb_planned_repayment :: dec
  mb_planned_interest :: dec
  mb_booked_repayment :: dec
  mb_booked_interest :: dec

record comparison_row =
  cr_month :: month_key
  cr_bucket :: month_bucket
  cr_difference_repayment :: dec
  cr_difference_interest :: dec

definition month_of :: "date \<Rightarrow> month_key" where "month_of d = (year d, month d)"

definition empty_bucket :: month_bucket where
  "empty_bucket = \<lparr>mb_planned_repayment = 0, mb_planned_interest = 0, mb_booked_repayment = 0, mb_booked_interest = 0\<rparr>"

definition add_planned :: "(month_key, month_bucket) dict \<Rightarrow> schedule_row \<Rightarrow> (month_key, month_bucket) dict" where
  "add_planned months r =
     (let m = month_of (sr_due r); b = dict_get months m empty_bucket
      in AList.update m (b\<lparr>mb_planned_repayment := mb_planned_repayment b + sr_repayment r,
           mb_planned_interest := mb_planned_interest b + sr_interest r\<rparr>) months)"

definition counted :: "booked_item \<Rightarrow> bool" where
  "counted i \<longleftrightarrow> bk_booked i \<and> bk_kind i \<in> {''repayment'', ''interest''}"

definition add_booked :: "(month_key, month_bucket) dict \<Rightarrow> booked_item \<Rightarrow> (month_key, month_bucket) dict" where
  "add_booked months i =
     (if \<not> counted i then months
      else let m = month_of (bk_date i); b = dict_get months m empty_bucket
        in AList.update m
          (if bk_kind i = ''repayment'' then b\<lparr>mb_booked_repayment := mb_booked_repayment b + bk_amount i\<rparr>
           else b\<lparr>mb_booked_interest := mb_booked_interest b + bk_amount i\<rparr>) months)"

definition schedule_comparison :: "schedule_row list \<Rightarrow> booked_item list \<Rightarrow> comparison_row list" where
  "schedule_comparison rows booked_items =
     (let months = foldl add_booked (foldl add_planned [] rows) booked_items
      in map (\<lambda>m. let b = dict_get months m empty_bucket
           in \<lparr>cr_month = m, cr_bucket = b,
               cr_difference_repayment = mb_booked_repayment b - mb_planned_repayment b,
               cr_difference_interest = mb_booked_interest b - mb_planned_interest b\<rparr>) (sort (map fst months)))"

definition planned_in :: "(schedule_row \<Rightarrow> dec) \<Rightarrow> month_key \<Rightarrow> schedule_row list \<Rightarrow> dec" where
  "planned_in f m rows = sum_list (map f (filter (\<lambda>r. month_of (sr_due r) = m) rows))"

definition booked_in :: "string \<Rightarrow> month_key \<Rightarrow> booked_item list \<Rightarrow> dec" where
  "booked_in kind m xs = sum_list (map bk_amount (filter (\<lambda>i. bk_booked i \<and> bk_kind i = kind \<and> month_of (bk_date i) = m) xs))"

lemma foldl_add_planned:
  "distinct (map fst ms) \<Longrightarrow> distinct (map fst (foldl add_planned ms rows)) \<and>
   fst ` set (foldl add_planned ms rows) = fst ` set ms \<union> (month_of \<circ> sr_due) ` set rows \<and>
   dict_get (foldl add_planned ms rows) m empty_bucket =
     (dict_get ms m empty_bucket)\<lparr>mb_planned_repayment := mb_planned_repayment (dict_get ms m empty_bucket) + planned_in sr_repayment m rows,
       mb_planned_interest := mb_planned_interest (dict_get ms m empty_bucket) + planned_in sr_interest m rows\<rparr>"
proof (induction rows arbitrary: ms)
  case (Cons r rows)
  have d: "distinct (map fst (add_planned ms r))" using Cons.prems by (simp add: add_planned_def Let_def)
  show ?case
    using Cons.IH[OF d] by (auto simp: add_planned_def Let_def fst_update planned_in_def dict_simps)
qed (simp add: planned_in_def)

lemma foldl_add_booked:
  "distinct (map fst ms) \<Longrightarrow> distinct (map fst (foldl add_booked ms xs)) \<and>
   fst ` set (foldl add_booked ms xs) = fst ` set ms \<union> (month_of \<circ> bk_date) ` set (filter counted xs) \<and>
   dict_get (foldl add_booked ms xs) m empty_bucket =
     (dict_get ms m empty_bucket)\<lparr>mb_booked_repayment := mb_booked_repayment (dict_get ms m empty_bucket) + booked_in ''repayment'' m xs,
       mb_booked_interest := mb_booked_interest (dict_get ms m empty_bucket) + booked_in ''interest'' m xs\<rparr>"
proof (induction xs arbitrary: ms)
  case (Cons i xs)
  have d: "distinct (map fst (add_booked ms i))" using Cons.prems by (simp add: add_booked_def Let_def)
  show ?case
    using Cons.IH[OF d] by (auto simp: add_booked_def Let_def fst_update booked_in_def dict_simps counted_def)
qed (simp add: booked_in_def)

text \<open>The comparison lists every month with a planned or a booked position once, in calendar order, and
  each row shows the planned and the booked sums of its month and their difference.\<close>

lemma schedule_comparison_exact:
  "sorted_wrt (<) (map cr_month (schedule_comparison rows xs)) \<and>
   set (map cr_month (schedule_comparison rows xs)) =
     (month_of \<circ> sr_due) ` set rows \<union> (month_of \<circ> bk_date) ` set (filter counted xs) \<and>
   list_all (\<lambda>c. cr_difference_repayment c = booked_in ''repayment'' (cr_month c) xs - planned_in sr_repayment (cr_month c) rows \<and>
     cr_difference_interest c = booked_in ''interest'' (cr_month c) xs - planned_in sr_interest (cr_month c) rows)
     (schedule_comparison rows xs)"
proof -
  note p = foldl_add_planned[of "[]" rows]
  note b = foldl_add_booked[of "foldl add_planned [] rows" xs]
  define months where "months = foldl add_booked (foldl add_planned [] rows) xs"
  have d: "distinct (map fst months)"
    and s: "fst ` set months = (month_of \<circ> sr_due) ` set rows \<union> (month_of \<circ> bk_date) ` set (filter counted xs)"
    and v: "dict_get months m empty_bucket = \<lparr>mb_planned_repayment = planned_in sr_repayment m rows,
      mb_planned_interest = planned_in sr_interest m rows, mb_booked_repayment = booked_in ''repayment'' m xs,
      mb_booked_interest = booked_in ''interest'' m xs\<rparr>" for m
    using p b by (simp_all add: months_def dict_get_def empty_bucket_def)
  have "schedule_comparison rows xs = map (\<lambda>m. \<lparr>cr_month = m, cr_bucket = dict_get months m empty_bucket,
      cr_difference_repayment = booked_in ''repayment'' m xs - planned_in sr_repayment m rows,
      cr_difference_interest = booked_in ''interest'' m xs - planned_in sr_interest m rows\<rparr>) (sort (map fst months))"
    unfolding schedule_comparison_def Let_def months_def[symmetric] by (simp add: v)
  then show ?thesis
    using d s by (simp add: comp_def list_all_iff strict_sorted_iff)
qed

section \<open>The figures of a year\<close>

record loan_item =
  li_kind :: string
  li_amount :: dec
  li_entry :: "(entry_status \<times> date) option"

record loan =
  n_principal :: dec
  n_rate :: dec
  n_term :: "int option"
  n_instalment :: "dec option"
  n_start :: date

record component =
  cp_amount :: dec
  cp_source :: string
  cp_booked :: dec
  cp_planned :: "dec option"

record year_figures =
  yf_interest :: component
  yf_repayment :: component
  yf_fees_booked :: dec
  yf_residual_booked :: dec
  yf_residual_schedule :: "dec option"
  yf_available :: bool

definition posted_day :: "loan_item \<Rightarrow> date option" where
  "posted_day i = (case li_entry i of Some (Posted, d) \<Rightarrow> Some d | _ \<Rightarrow> None)"

definition items_sum :: "string \<Rightarrow> (date \<Rightarrow> bool) \<Rightarrow> loan_item list \<Rightarrow> dec" where
  "items_sum kind p xs = sum_list (map li_amount
     (filter (\<lambda>i. li_kind i = kind \<and> (case posted_day i of None \<Rightarrow> False | Some d \<Rightarrow> p d)) xs))"

definition component_of :: "bool \<Rightarrow> dec \<Rightarrow> dec \<Rightarrow> component" where
  "component_of available booked planned =
     (let (source, amount) = (if booked \<noteq> 0 then (''booked'', booked)
        else if available \<and> planned \<noteq> 0 then (''schedule'', planned) else (''none'', 0))
      in \<lparr>cp_amount = amount, cp_source = source, cp_booked = booked,
          cp_planned = (if available then Some planned else None)\<rparr>)"

definition rows_in_year :: "int \<Rightarrow> schedule_row list \<Rightarrow> schedule_row list" where
  "rows_in_year y rows = filter (\<lambda>r. Date y 1 1 \<le> sr_due r \<and> sr_due r \<le> Date y 12 31) rows"

definition schedule_balance_at :: "loan \<Rightarrow> date \<Rightarrow> schedule_row list \<Rightarrow> dec option" where
  "schedule_balance_at n stop rows =
     (let due = filter (\<lambda>r. sr_due r \<le> stop) rows
      in if due \<noteq> [] then Some (sr_balance (last due))
         else if n_start n \<le> stop then Some (quantize round_half_up CENT (n_principal n)) else None)"

definition year_plan :: "loan \<Rightarrow> schedule option res" where
  "year_plan n =
     (if n_instalment n = None \<and> n_term n = None then Inr None
      else case loan_schedule (n_principal n) (n_rate n) (n_term n) (n_instalment n) (n_start n) of
        Inr sc \<Rightarrow> Inr (Some sc)
      | Inl Zero_Division \<Rightarrow> Inl Zero_Division
      | Inl _ \<Rightarrow> Inr None)"

definition loan_year_figures :: "loan \<Rightarrow> loan_item list \<Rightarrow> int \<Rightarrow> year_figures res" where
  "loan_year_figures n xs y =
     (let start = Date y 1 1; stop = Date y 12 31;
          booked = (\<lambda>kind. items_sum kind (\<lambda>d. start \<le> d \<and> d \<le> stop) xs);
          disbursed = items_sum ''disbursement'' (\<lambda>d. d \<le> stop) xs;
          repaid = items_sum ''repayment'' (\<lambda>d. d \<le> stop) xs
      in bindr (year_plan n) (\<lambda>plan.
        (let rows = (case plan of None \<Rightarrow> [] | Some sc \<Rightarrow> sc_rows sc);
             available = (plan \<noteq> None)
         in Inr \<lparr>yf_interest = component_of available (booked ''interest'') (sum_list (map sr_interest (rows_in_year y rows))),
              yf_repayment = component_of available (booked ''repayment'') (sum_list (map sr_repayment (rows_in_year y rows))),
              yf_fees_booked = booked ''fee'', yf_residual_booked = disbursed - repaid,
              yf_residual_schedule = (if available then schedule_balance_at n stop rows else None),
              yf_available = available\<rparr>)))"

lemma loan_add_months_less:
  assumes "j < k"
  shows "loan_add_months d j < loan_add_months d k"
proof -
  let ?i = "\<lambda>k. month d - 1 + k"
  have "?i j = 12 * (?i j div 12) + ?i j mod 12" "?i k = 12 * (?i k div 12) + ?i k mod 12"
    "0 \<le> ?i k mod 12" "?i j mod 12 < 12" "?i k mod 12 < 12" "0 \<le> ?i j mod 12" by simp_all
  then have "?i j div 12 < ?i k div 12 \<or> ?i j div 12 = ?i k div 12 \<and> ?i j mod 12 < ?i k mod 12"
    using assms by linarith
  then show ?thesis by (auto simp: loan_add_months_eq Let_def date_less_iff)
qed

lemma plan_rows_due:
  assumes "plan_rows rate inst share limit start n b rs b'"
  shows "sorted_wrt (\<lambda>r q. sr_due r < sr_due q) rs \<and> (\<forall>r \<in> set rs. loan_add_months start n < sr_due r)"
  using assms
proof (induction rs arbitrary: n b)
  case (Cons r rs)
  then have r: "sr_due r = loan_add_months start (n + 1)"
    and rs: "sorted_wrt (\<lambda>r q. sr_due r < sr_due q) rs" "\<forall>r \<in> set rs. loan_add_months start (n + 1) < sr_due r" by auto
  then show ?case using loan_add_months_less[of n "n + 1" start] by fastforce
qed simp

text \<open>The balance after the rows due by a day.\<close>

lemma plan_rows_balance:
  assumes "plan_rows rate inst share limit start n b rs b'" and "filter (\<lambda>r. sr_due r \<le> stop) rs \<noteq> []"
  shows "sr_balance (last (filter (\<lambda>r. sr_due r \<le> stop) rs)) = b - sum_list (map sr_repayment (filter (\<lambda>r. sr_due r \<le> stop) rs))"
  using assms
proof (induction rs arbitrary: n b)
  case (Cons r rs)
  have r: "sr_balance r = b - sr_repayment r" and rs: "plan_rows rate inst share limit start (n + 1) (sr_balance r) rs b'"
    using Cons.prems(1) by auto
  have later: "sr_due r < sr_due q" if "q \<in> set rs" for q using plan_rows_due[OF Cons.prems(1)] that by simp
  show ?case
  proof (cases "sr_due r \<le> stop")
    case True
    then show ?thesis using Cons.IH[OF rs] r by simp
  next
    case False
    then have "filter (\<lambda>r. sr_due r \<le> stop) rs = []" using later by (fastforce simp: filter_empty_conv)
    then show ?thesis using Cons.prems(2) False by simp
  qed
qed simp

text \<open>The planned residual debt at the end of a year is the principal less the planned repayments due up
  to that day.\<close>

lemma year_residual_is_open_plan:
  assumes ok: "loan_ok (n_principal n) (n_rate n) (n_term n) (n_instalment n)"
    and sc: "loan_schedule (n_principal n) (n_rate n) (n_term n) (n_instalment n) (n_start n) = Inr sc"
    and f: "loan_year_figures n xs y = Inr f" and b: "yf_residual_schedule f = Some b"
  shows "b = round_cents (n_principal n) - sum_list (map sr_repayment (filter (\<lambda>r. sr_due r \<le> Date y 12 31) (sc_rows sc)))"
proof -
  have p: "plan_rows (monthly_rate_of (n_rate n)) (n_instalment n)
      (share_of (n_principal n) (n_term n)) (schedule_limit (n_term n)) (n_start n) 0 (round_cents (n_principal n)) (sc_rows sc) (sc_residual sc)"
    using loan_schedule_rows[OF ok sc] by (simp add: follows_plan_def)
  have "\<not> (n_instalment n = None \<and> n_term n = None)" using sc by (simp add: loan_schedule_def split: if_splits)
  then have "year_plan n = Inr (Some sc)" using sc by (auto simp: year_plan_def)
  then have "schedule_balance_at n (Date y 12 31) (sc_rows sc) = Some b"
    using f b by (auto simp: loan_year_figures_def Let_def)
  note bal = this[unfolded schedule_balance_at_def Let_def]
  show ?thesis
  proof (cases "filter (\<lambda>r. sr_due r \<le> Date y 12 31) (sc_rows sc) = []")
    case True
    then have "b = round_cents (n_principal n)" using bal by (simp add: round_cents_def split: if_splits)
    then show ?thesis unfolding True by simp
  next
    case False
    then show ?thesis using plan_rows_balance[OF p False] bal by simp
  qed
qed

definition example_loan_terms :: loan where
  "example_loan_terms = \<lparr>n_principal = 1000, n_rate = 3, n_term = None, n_instalment = Some 100, n_start = Date 2024 1 31\<rparr>"

lemma year_residual_is_open_plan_witness:
  "\<exists>f b sc. loan_year_figures example_loan_terms [] 2024 = Inr f \<and> yf_residual_schedule f = Some b \<and>
     loan_schedule 1000 3 None (Some 100) (Date 2024 1 31) = Inr sc \<and>
     b = 1000 - sum_list (map sr_repayment (filter (\<lambda>r. sr_due r \<le> Date 2024 12 31) (sc_rows sc)))"
proof -
  obtain sc where sc: "loan_schedule 1000 3 None (Some 100) (Date 2024 1 31) = Inr sc" using example_loan[of None] by blast
  let ?n = example_loan_terms
  have p: "year_plan ?n = Inr (Some sc)" using sc by (simp add: year_plan_def example_loan_terms_def)
  then obtain f where f: "loan_year_figures ?n [] 2024 = Inr f"
    "yf_residual_schedule f = schedule_balance_at ?n (Date 2024 12 31) (sc_rows sc)"
    by (simp add: loan_year_figures_def Let_def)
  have "n_start ?n \<le> Date 2024 12 31" by code_simp
  then obtain b where b: "yf_residual_schedule f = Some b"
    unfolding f(2) schedule_balance_at_def Let_def by (metis (full_types))
  have ok: "loan_ok (n_principal ?n) (n_rate ?n) (n_term ?n) (n_instalment ?n)"
    by (simp add: loan_ok_def is_cents_def example_loan_terms_def)
  have sc': "loan_schedule (n_principal ?n) (n_rate ?n) (n_term ?n) (n_instalment ?n) (n_start ?n) = Inr sc"
    using sc by (simp add: example_loan_terms_def)
  have "round_cents (n_principal ?n) = 1000"
    unfolding example_loan_terms_def by (simp add: round_cents_id is_cents_def)
  then show ?thesis using year_residual_is_open_plan[OF ok sc' f(1) b] f b sc by auto
qed

end
