(* ===== verification/HoaStatement.thy ===== *)
theory HoaStatement
  imports HoaPlan HoaLoanYear LedgerChecks
begin

text \<open>
  The annual statement of a community (\<open>advances\<close>, \<open>statement_results\<close>, \<open>statement_key_figures\<close> and
  their helpers in \<open>mhvp/hoa/calc.py\<close>): the cost share of every unit against its resolved advances,
  arrears apart from the result, and the development of the reserve. Amounts that the program
  renders as strings stay decimals; notes are left out.
\<close>

section \<open>Contracts and receivables\<close>

datatype contract_kind = Tenancy | Ownership

datatype item_status = Ready | Manual | Blocked | Item_Posted | Item_Reversed

record contract =
  c_unit :: uid
  c_kind :: contract_kind
  c_party :: uid
  c_start :: date
  c_end :: "date option"

record receivable =
  rv_contract :: uid
  rv_code :: string
  rv_status :: item_status
  rv_month :: date
  rv_amount :: dec
  rv_entry :: "uid option"
  rv_reserve :: "uid option"

text \<open>\<open>w_bank_reserve\<close> says for a bank account of the ledger that is linked to a bank account of the
  object whether that one is of kind reserve.\<close>

record weg_db =
  w_contracts :: "(uid, contract) dict"
  w_receivables :: "receivable list"
  w_bank_reserve :: "(uid, bool) dict"

definition open_from :: "contract \<Rightarrow> date \<Rightarrow> bool" where
  "open_from c d \<longleftrightarrow> (case c_end c of None \<Rightarrow> True | Some e \<Rightarrow> d \<le> e)"

definition owner_at :: "weg_db \<Rightarrow> uid \<Rightarrow> date \<Rightarrow> (uid \<times> contract) option" where
  "owner_at w unit_id d =
     find (\<lambda>(_, c). c_unit c = unit_id \<and> c_kind c = Ownership \<and> c_start c \<le> d \<and> open_from c d) (w_contracts w)"

record ownership =
  ow_contract :: uid
  ow_party :: uid
  ow_from :: date
  ow_to :: date
  ow_days :: int

definition ownership_periods :: "weg_db \<Rightarrow> uid \<Rightarrow> date \<Rightarrow> date \<Rightarrow> ownership list" where
  "ownership_periods w unit_id start stop =
     map (\<lambda>(cid, c). let s = max (c_start c) start; e = min (case c_end c of None \<Rightarrow> stop | Some d \<Rightarrow> d) stop
         in \<lparr>ow_contract = cid, ow_party = c_party c, ow_from = s, ow_to = e, ow_days = days s e\<rparr>)
       (py_sorted (c_start \<circ> snd) (filter (\<lambda>(_, c). c_unit c = unit_id \<and> c_kind c = Ownership \<and>
          c_start c \<le> stop \<and> open_from c start) (w_contracts w)))"

section \<open>Resolved advances and payments\<close>

definition advance_items :: "weg_db \<Rightarrow> uid \<Rightarrow> string \<Rightarrow> date \<Rightarrow> date \<Rightarrow> receivable list" where
  "advance_items w unit_id component start stop =
     filter (\<lambda>r. (case map_of (w_contracts w) (rv_contract r) of None \<Rightarrow> False | Some c \<Rightarrow> c_unit c = unit_id) \<and>
       rv_code r = component \<and> rv_status r = Item_Posted \<and> start \<le> rv_month r \<and> rv_month r \<le> stop) (w_receivables w)"

definition entry_item :: "db \<Rightarrow> uid option \<Rightarrow> (uid \<times> open_item) option" where
  "entry_item db eid = (case eid of None \<Rightarrow> None | Some k \<Rightarrow> find (\<lambda>(_, i). i_entry i = k) (items db))"

definition pay_advance :: "db \<Rightarrow> dec \<times> (uid, dec) dict \<Rightarrow> receivable \<Rightarrow> (dec \<times> (uid, dec) dict) res" where
  "pay_advance db st r =
     (case st of (paid, by_reserve) \<Rightarrow>
       (case entry_item db (rv_entry r) of
          None \<Rightarrow> Inr (paid, by_reserve)
        | Some (iid, i) \<Rightarrow>
            bindr (remaining db iid None) (\<lambda>rest.
              (let amount_paid = i_amount i - rest
               in Inr (paid + amount_paid,
                    (case rv_reserve r of None \<Rightarrow> by_reserve
                     | Some k \<Rightarrow> AList.update k (dict_get by_reserve k 0 + amount_paid) by_reserve))))))"

text \<open>Due amount, paid amount and the paid parts per earmarked reserve.\<close>

definition advances ::
  "weg_db \<Rightarrow> db \<Rightarrow> uid \<Rightarrow> string \<Rightarrow> date \<Rightarrow> date \<Rightarrow> (uid, dec) dict \<Rightarrow> (dec \<times> dec \<times> (uid, dec) dict) res" where
  "advances w db unit_id component start stop by_reserve =
     (let its = advance_items w unit_id component start stop
      in bindr (foldr_res (pay_advance db) (0, by_reserve) its) (\<lambda>(paid, by).
           Inr (sum_list (map rv_amount its), paid, by)))"

section \<open>The statement\<close>

record cost_item =
  ci_label :: string
  ci_amount :: dec
  ci_key :: uid
  ci_basis :: string
  ci_labour :: "dec option"
  ci_document :: "uid option"

record statement =
  st_year :: int
  st_opening :: dec
  st_withdrawals :: dec
  st_interest :: dec

record position =
  po_label :: string
  po_amount :: dec
  po_basis :: string
  po_split :: "(uid \<times> dec) list"

record cost_sums =
  cs_costs :: "(uid, dec) dict"
  cs_numbers :: "(uid, string) dict"
  cs_positions :: "position list"

record statement_row =
  sw_unit :: uid
  sw_number :: string
  sw_cost :: dec
  sw_advances :: dec
  sw_paid :: dec
  sw_result :: dec
  sw_arrears :: dec
  sw_information :: dec
  sw_reserve_due :: dec
  sw_reserve_paid :: dec
  sw_periods :: "ownership list"

record reserve_block =
  rb_opening :: dec
  rb_resolved :: dec
  rb_paid :: dec
  rb_open :: dec
  rb_by_reserve :: "(uid \<times> dec) list"
  rb_unassigned :: dec
  rb_withdrawals :: dec
  rb_interest :: dec
  rb_closing :: dec
  rb_bank :: dec
  rb_difference :: dec

record statement_result =
  sx_units :: "statement_row list"
  sx_positions :: "position list"
  sx_reserve :: reserve_block
  sx_total :: dec

definition add_cost :: "cost_sums \<Rightarrow> unit_key \<times> dec \<Rightarrow> cost_sums" where
  "add_cost st part =
     (case part of ((number, unit_id), v) \<Rightarrow>
       st\<lparr>cs_numbers := AList.update unit_id number (cs_numbers st),
          cs_costs := AList.update unit_id (dict_get (cs_costs st) unit_id 0 + v) (cs_costs st)\<rparr>)"

definition cost_step :: "hoa_db \<Rightarrow> uid \<Rightarrow> date \<Rightarrow> date \<Rightarrow> cost_sums \<Rightarrow> cost_item \<Rightarrow> cost_sums res" where
  "cost_step h property_id start stop st item =
     bindr (unit_weights h property_id (ci_key item) start stop) (\<lambda>shares.
     bindr (distribute (ci_amount item) shares) (\<lambda>parts.
       Inr (foldl add_cost
         (st\<lparr>cs_positions := cs_positions st @ [\<lparr>po_label = ci_label item, po_amount = ci_amount item,
            po_basis = ci_basis item, po_split = map (\<lambda>((_, u), v). (u, v)) parts\<rparr>]\<rparr>) parts)))"

type_synonym row_state = "statement_row list \<times> dec \<times> dec \<times> (uid, dec) dict"

definition statement_row_step ::
  "weg_db \<Rightarrow> db \<Rightarrow> date \<Rightarrow> date \<Rightarrow> cost_sums \<Rightarrow> row_state \<Rightarrow> uid \<Rightarrow> row_state res" where
  "statement_row_step w db start stop cs st unit_id =
     (case st of (rows, reserve_due, reserve_paid, by_reserve) \<Rightarrow>
       bindr (advances w db unit_id ''hoa_fee'' start stop []) (\<lambda>(soll, paid, _).
       bindr (advances w db unit_id ''reserve'' start stop by_reserve) (\<lambda>(r_due, r_paid, by).
         (let cost = dict_get (cs_costs cs) unit_id 0;
              result = cost - soll; arrears = soll - paid
          in Inr (rows @ [\<lparr>sw_unit = unit_id, sw_number = dict_get (cs_numbers cs) unit_id [], sw_cost = cost,
                 sw_advances = soll, sw_paid = paid, sw_result = result, sw_arrears = arrears,
                 sw_information = result + arrears, sw_reserve_due = r_due, sw_reserve_paid = r_paid,
                 sw_periods = ownership_periods w unit_id start stop\<rparr>],
               reserve_due + r_due, reserve_paid + r_paid, by)))))"

definition reserve_accounts :: "weg_db \<Rightarrow> db \<Rightarrow> uid \<Rightarrow> (uid \<times> account) list" where
  "reserve_accounts w db lid =
     filter (\<lambda>(k, a). a_ledger a = lid \<and> a_category a = Cat_Bank \<and>
       (case map_of (w_bank_reserve w) k of Some b \<Rightarrow> b | None \<Rightarrow> a_number a = ''001201'')) (accounts db)"

definition reserve_bank_balance :: "weg_db \<Rightarrow> db \<Rightarrow> uid \<Rightarrow> date \<Rightarrow> dec" where
  "reserve_bank_balance w db lid as_of =
     sum_list (map (\<lambda>(k, _). account_balance db k as_of) (reserve_accounts w db lid))"

definition statement_results ::
  "hoa_db \<Rightarrow> weg_db \<Rightarrow> db \<Rightarrow> uid \<Rightarrow> uid \<Rightarrow> statement \<Rightarrow> cost_item list \<Rightarrow> statement_result res" where
  "statement_results h w db lid property_id st cost_items =
     (let start = Date (st_year st) 1 1; stop = Date (st_year st) 12 31
      in bindr (foldr_res (cost_step h property_id start stop) \<lparr>cs_costs = [], cs_numbers = [], cs_positions = []\<rparr> cost_items) (\<lambda>cs.
         bindr (foldr_res (statement_row_step w db start stop cs) ([], 0, 0, [])
           (py_sorted (\<lambda>u. dict_get (cs_numbers cs) u []) (map fst (cs_costs cs)))) (\<lambda>(rows, reserve_due, reserve_paid, by).
           (let closing = st_opening st + reserve_paid - st_withdrawals st + st_interest st;
                bank = reserve_bank_balance w db lid stop
            in Inr \<lparr>sx_units = rows, sx_positions = cs_positions cs,
                 sx_reserve = \<lparr>rb_opening = st_opening st, rb_resolved = reserve_due, rb_paid = reserve_paid,
                   rb_open = reserve_due - reserve_paid, rb_by_reserve = py_sorted fst by,
                   rb_unassigned = reserve_paid - sum_list (map snd by), rb_withdrawals = st_withdrawals st,
                   rb_interest = st_interest st, rb_closing = closing, rb_bank = bank, rb_difference = bank - closing\<rparr>,
                 sx_total = sum_list (map ci_amount cost_items)\<rparr>))))"

section \<open>Key figures\<close>

record debtor_row =
  db_unit :: uid
  db_number :: string
  db_arrears :: dec
  db_reserve_open :: dec

record key_figures =
  kf_relevant :: dec
  kf_distributed :: dec
  kf_not_distributed :: dec
  kf_advances :: dec
  kf_paid :: dec
  kf_arrears :: dec
  kf_additional :: dec
  kf_adjustments :: dec
  kf_reserve_due :: dec
  kf_reserve_paid :: dec
  kf_debtors :: "debtor_row list"

definition statement_key_figures :: "statement_result \<Rightarrow> key_figures" where
  "statement_key_figures r =
     (let us = sx_units r; tot = (\<lambda>f. sum_list (map f us)); distributed = tot sw_cost; relevant = sx_total r
      in \<lparr>kf_relevant = relevant, kf_distributed = distributed, kf_not_distributed = relevant - distributed,
          kf_advances = tot sw_advances, kf_paid = tot sw_paid, kf_arrears = tot sw_arrears,
          kf_additional = sum_list (filter (\<lambda>x. 0 < x) (map sw_result us)),
          kf_adjustments = sum_list (filter (\<lambda>x. x < 0) (map sw_result us)),
          kf_reserve_due = tot sw_reserve_due, kf_reserve_paid = tot sw_reserve_paid,
          kf_debtors = map (\<lambda>u. \<lparr>db_unit = sw_unit u, db_number = sw_number u, db_arrears = sw_arrears u,
              db_reserve_open = sw_reserve_due u - sw_reserve_paid u\<rparr>)
            (filter (\<lambda>u. 0 < sw_arrears u \<or> sw_reserve_paid u < sw_reserve_due u) us)\<rparr>)"

section \<open>The statement reconciles\<close>

definition costs_ok :: "cost_item list \<Rightarrow> bool" where
  "costs_ok its \<longleftrightarrow> list_all (\<lambda>i. is_cents (ci_amount i) \<and> \<bar>ci_amount i\<bar> < 10 ^ 16) its"

definition cost_total :: "cost_sums \<Rightarrow> dec" where
  "cost_total cs = table_sum (\<lambda>_ v. v) (cs_costs cs)"

lemma foldl_add_cost:
  "distinct (map fst (cs_costs st)) \<Longrightarrow> distinct (map fst (cs_costs (foldl add_cost st parts))) \<and>
   cost_total (foldl add_cost st parts) = cost_total st + sum_list (map snd parts)"
proof (induction parts arbitrary: st)
  case (Cons p parts)
  obtain num u v where p: "p = ((num, u), v)" by (metis prod.collapse)
  have "distinct (map fst (cs_costs (add_cost st p)))" using Cons.prems by (simp add: p add_cost_def)
  moreover have "cost_total (add_cost st p) = cost_total st + v"
    using Cons.prems by (simp add: p add_cost_def cost_total_def table_sum_put[where z = 0])
  ultimately show ?case using Cons.IH[of "add_cost st p"] by (simp add: p)
qed simp

lemma cost_steps:
  assumes h: "values_ok h" and d: "valid_date start" "valid_date stop" and its: "costs_ok its"
    and st: "distinct (map fst (cs_costs st))" and f: "foldr_res (cost_step h property_id start stop) st its = Inr st'"
  shows "distinct (map fst (cs_costs st')) \<and> cost_total st' = cost_total st + sum_list (map ci_amount its)"
  using its st f
proof (induction its arbitrary: st)
  case (Cons i its)
  from Cons.prems(3) obtain t where t: "cost_step h property_id start stop st i = Inr t"
    "foldr_res (cost_step h property_id start stop) t its = Inr st'" by (auto simp: res_simps)
  from t(1) obtain shares parts st1 where w: "unit_weights h property_id (ci_key i) start stop = Inr shares"
    and p: "distribute (ci_amount i) shares = Inr parts" "t = foldl add_cost st1 parts" "cs_costs st1 = cs_costs st"
    by (auto simp: cost_step_def res_simps)
  have "shares_ok (ci_amount i) shares"
    using unit_weights_ok[OF h d w] Cons.prems(1) by (simp add: costs_ok_def)
  then have "sum_list (map snd parts) = ci_amount i" using dist.split_sum p(1) by blast
  then have "distinct (map fst (cs_costs t))" "cost_total t = cost_total st + ci_amount i"
    using foldl_add_cost[of st1 parts] Cons.prems(2) p(2,3) by (simp_all add: cost_total_def)
  then show ?case using Cons.IH[OF _ _ t(2)] Cons.prems(1) by (simp add: costs_ok_def)
qed simp

definition row_ok :: "cost_sums \<Rightarrow> statement_row \<Rightarrow> bool" where
  "row_ok cs r \<longleftrightarrow> sw_cost r = dict_get (cs_costs cs) (sw_unit r) 0 \<and> sw_result r = sw_cost r - sw_advances r \<and>
     sw_arrears r = sw_advances r - sw_paid r \<and> sw_information r = sw_result r + sw_arrears r"

lemma statement_row_stepE:
  assumes "statement_row_step w db start stop cs (rows, due, paid, br) u = Inr t"
  obtains r br1 where "t = (rows @ [r], due + sw_reserve_due r, paid + sw_reserve_paid r, br1)" "sw_unit r = u" "row_ok cs r"
    "\<exists>due'. advances w db u ''reserve'' start stop br = Inr (due', sw_reserve_paid r, br1)"
proof -
  note th = that
  from assms obtain soll paid' x r_due r_paid br1 where
    a: "advances w db u ''reserve'' start stop br = Inr (r_due, r_paid, br1)"
    and t: "t = (rows @ [\<lparr>sw_unit = u, sw_number = dict_get (cs_numbers cs) u [], sw_cost = dict_get (cs_costs cs) u 0,
       sw_advances = soll, sw_paid = paid', sw_result = dict_get (cs_costs cs) u 0 - soll, sw_arrears = soll - paid',
       sw_information = dict_get (cs_costs cs) u 0 - soll + (soll - paid'), sw_reserve_due = r_due, sw_reserve_paid = r_paid,
       sw_periods = ownership_periods w u start stop\<rparr>], due + r_due, paid + r_paid, br1)"
    by (auto simp: statement_row_step_def Let_def res_simps)
  define r where "r = last (fst t)"
  show thesis by (rule th[of r br1]) (use a in \<open>simp_all add: r_def t row_ok_def\<close>)
qed

lemma statement_rows:
  assumes "foldr_res (statement_row_step w db start stop cs) (rows, due, paid, br) us = Inr (rows', due', paid', br')"
  shows "\<exists>new. rows' = rows @ new \<and> map sw_unit new = us \<and> list_all (row_ok cs) new \<and>
    due' = due + sum_list (map sw_reserve_due new) \<and> paid' = paid + sum_list (map sw_reserve_paid new)"
  using assms
proof (induction us arbitrary: rows due paid br)
  case (Cons u us)
  then obtain t where t: "statement_row_step w db start stop cs (rows, due, paid, br) u = Inr t"
    "foldr_res (statement_row_step w db start stop cs) t us = Inr (rows', due', paid', br')"
    by (auto simp only: foldr_res.simps bindr_eq_Inr)
  from t(1) obtain r br1 where r: "t = (rows @ [r], due + sw_reserve_due r, paid + sw_reserve_paid r, br1)" "sw_unit r = u" "row_ok cs r"
    by (rule statement_row_stepE)
  define due1 paid1 where "due1 = due + sw_reserve_due r" and "paid1 = paid + sw_reserve_paid r"
  note r = r this
  from Cons.IH[OF t(2)[unfolded r(1) due1_def[symmetric] paid1_def[symmetric]]] obtain new where "rows' = (rows @ [r]) @ new" "map sw_unit new = us" "list_all (row_ok cs) new"
    "due' = due1 + sum_list (map sw_reserve_due new)" "paid' = paid1 + sum_list (map sw_reserve_paid new)" by blast
  then show ?case using r by (intro exI[of _ "r # new"]) auto
qed simp

lemma statement_parts:
  assumes "values_ok h" and "costs_ok its" and "statement_results h w db lid property_id st its = Inr r"
  obtains cs where "distinct (map sw_unit (sx_units r))" "list_all (row_ok cs) (sx_units r)"
    "sum_list (map sw_cost (sx_units r)) = sx_total r" "sx_total r = sum_list (map ci_amount its)"
    "rb_resolved (sx_reserve r) = sum_list (map sw_reserve_due (sx_units r))"
    "rb_paid (sx_reserve r) = sum_list (map sw_reserve_paid (sx_units r))"
    "rb_closing (sx_reserve r) = st_opening st + rb_paid (sx_reserve r) - st_withdrawals st + st_interest st"
proof -
  note th = that
  let ?start = "Date (st_year st) 1 1" and ?stop = "Date (st_year st) 12 31"
  from assms(3) obtain cs rows due paid br where
    cs: "foldr_res (cost_step h property_id ?start ?stop) \<lparr>cs_costs = [], cs_numbers = [], cs_positions = []\<rparr> its = Inr cs"
    and rows: "foldr_res (statement_row_step w db ?start ?stop cs) ([], 0, 0, [])
        (py_sorted (\<lambda>u. dict_get (cs_numbers cs) u []) (map fst (cs_costs cs))) = Inr (rows, due, paid, br)"
    and r: "sx_units r = rows" "sx_total r = sum_list (map ci_amount its)" "rb_resolved (sx_reserve r) = due"
      "rb_paid (sx_reserve r) = paid" "rb_closing (sx_reserve r) = st_opening st + paid - st_withdrawals st + st_interest st"
    by (auto simp: statement_results_def Let_def res_simps)
  have v: "valid_date ?start" "valid_date ?stop" by (simp_all add: valid_date_def month_days_def)
  have d: "distinct (map fst (cs_costs cs))" and t: "cost_total cs = sum_list (map ci_amount its)"
    using cost_steps[OF assms(1) v assms(2) _ cs] by (simp_all add: cost_total_def)
  from statement_rows[OF rows] have n: "map sw_unit rows = py_sorted (\<lambda>u. dict_get (cs_numbers cs) u []) (map fst (cs_costs cs))"
    "list_all (row_ok cs) rows" "due = sum_list (map sw_reserve_due rows)" "paid = sum_list (map sw_reserve_paid rows)" by auto
  have "map sw_cost rows = map (\<lambda>u. dict_get (cs_costs cs) u 0) (map sw_unit rows)"
    using n(2) by (auto simp: list_all_iff row_ok_def)
  then have "sum_list (map sw_cost rows) = sum_list (map (\<lambda>u. dict_get (cs_costs cs) u 0) (map fst (cs_costs cs)))"
    unfolding n(1) by (simp only: sum_list_py_sorted)
  also have "\<dots> = cost_total cs"
    unfolding cost_total_def table_sum_def map_map using d
    by (intro arg_cong[where f = sum_list] map_cong) (auto simp: dict_get_def)
  finally have "sum_list (map sw_cost rows) = sx_total r" using t r(2) by simp
  moreover have "distinct (map sw_unit rows)" unfolding n(1) using d by simp
  ultimately show thesis using th[of cs] r n(2-4) by simp
qed

text \<open>C25: An annual statement reconciles: it has one row per unit, the cost shares add up to the total
  costs, every result is the cost share less the resolved advances, the information total is the
  cost share less the payments, and the reserve moves by the contributions paid, the withdrawals
  and the interest.\<close>

theorem statement_reconciles:
  assumes "values_ok h" and "costs_ok its" and "statement_results h w db lid property_id st its = Inr r"
  shows "distinct (map sw_unit (sx_units r)) \<and> sum_list (map sw_cost (sx_units r)) = sum_list (map ci_amount its) \<and>
    list_all (\<lambda>u. sw_result u + sw_advances u = sw_cost u \<and> sw_information u = sw_cost u - sw_paid u) (sx_units r) \<and>
    rb_closing (sx_reserve r) = st_opening st + sum_list (map sw_reserve_paid (sx_units r)) - st_withdrawals st + st_interest st"
  using assms by (elim statement_parts) (auto simp: list_all_iff row_ok_def)

text \<open>The key figures of a computed statement agree with it: no cost stays undistributed, additional
  payments and adjustments together are the costs less the resolved advances, and the arrears are
  the advances not paid.\<close>

lemma key_figures_agree:
  assumes "values_ok h" and "costs_ok its" and "statement_results h w db lid property_id st its = Inr r"
    and kf: "kf = statement_key_figures r"
  shows "kf_not_distributed kf = 0 \<and> kf_additional kf + kf_adjustments kf = kf_relevant kf - kf_advances kf \<and>
    kf_arrears kf = kf_advances kf - kf_paid kf \<and> kf_reserve_paid kf = rb_paid (sx_reserve r)"
proof -
  from assms(1-3) obtain cs where s: "list_all (row_ok cs) (sx_units r)"
    "sum_list (map sw_cost (sx_units r)) = sx_total r" "rb_paid (sx_reserve r) = sum_list (map sw_reserve_paid (sx_units r))"
    by (rule statement_parts)
  have split: "sum_list (filter (\<lambda>x. 0 < x) xs) + sum_list (filter (\<lambda>x. x < 0) xs) = sum_list xs" for xs :: "dec list"
    by (induction xs) auto
  have "sum_list (map sw_result us) = sum_list (map sw_cost us) - sum_list (map sw_advances us)"
    "sum_list (map sw_arrears us) = sum_list (map sw_advances us) - sum_list (map sw_paid us)"
    if "list_all (row_ok cs) us" for us
    using that by (induction us) (auto simp: row_ok_def)
  from this[OF s(1)] show ?thesis
    using s split[of "map sw_result (sx_units r)"] by (simp add: kf statement_key_figures_def Let_def)
qed

section \<open>Payments on earmarked reserves\<close>

lemma pay_advance_nonneg:
  assumes inv: "ledger_inv db" and st: "distinct (map fst br)" "\<forall>v \<in> snd ` set br. 0 \<le> v"
    and p: "pay_advance db (paid, br) r = Inr (paid', br')"
  shows "distinct (map fst br') \<and> (\<forall>v \<in> snd ` set br'. 0 \<le> v) \<and>
    sum_list (map snd br') - sum_list (map snd br) \<le> paid' - paid \<and> paid \<le> paid'"
proof (cases "entry_item db (rv_entry r)")
  case None
  then show ?thesis using p st by (simp add: pay_advance_def)
next
  case (Some ii)
  obtain iid i where ii: "ii = (iid, i)" by force
  from p obtain rest where rest: "remaining db iid None = Inr rest"
    and r: "paid' = paid + (i_amount i - rest)" "br' = (case rv_reserve r of None \<Rightarrow> br
       | Some k \<Rightarrow> AList.update k (dict_get br k 0 + (i_amount i - rest)) br)"
    by (auto simp: pay_advance_def Some ii Let_def res_simps)
  have "(iid, i) \<in> set (items db)"
    using Some unfolding ii entry_item_def by (auto simp: find_Some_iff split: option.splits dest: nth_mem)
  then have m: "map_of (items db) iid = Some i" by (rule item_of_db(1)[OF inv])
  have a: "0 \<le> i_amount i - rest"
    using settled_nonneg_item[OF inv m] rest m by (auto simp: remaining_def res_simps)
  show ?thesis
  proof (cases "rv_reserve r")
    case (Some k)
    have "0 \<le> dict_get br k 0"
      using st(2) by (auto simp: dict_get_def split: option.splits dest!: map_of_SomeD)
    then have "\<forall>v \<in> snd ` set br'. 0 \<le> v"
      using st(2) a update_values[of k "dict_get br k 0 + (i_amount i - rest)" br] by (fastforce simp: r Some)
    then show ?thesis using st a sum_list_update[OF st(1)] by (simp add: r Some)
  qed (use st a r in simp)
qed

lemma advances_nonneg:
  assumes inv: "ledger_inv db" and st: "distinct (map fst br)" "\<forall>v \<in> snd ` set br. 0 \<le> v"
    and a: "advances w db u component start stop br = Inr (due, paid, br')"
  shows "distinct (map fst br') \<and> (\<forall>v \<in> snd ` set br'. 0 \<le> v) \<and>
    sum_list (map snd br') - sum_list (map snd br) \<le> paid \<and> 0 \<le> paid"
proof -
  have "distinct (map fst br') \<and> (\<forall>v \<in> snd ` set br'. 0 \<le> v) \<and>
      sum_list (map snd br') - sum_list (map snd br) \<le> paid - p0 \<and> p0 \<le> paid"
    if "foldr_res (pay_advance db) (p0, br) its = Inr (paid, br')" for p0 its
    using st that
  proof (induction its arbitrary: p0 br)
    case (Cons r its)
    from Cons.prems(3) obtain p1 br1 where t: "pay_advance db (p0, br) r = Inr (p1, br1)"
      "foldr_res (pay_advance db) (p1, br1) its = Inr (paid, br')" by (auto simp: bindr_eq_Inr)
    show ?case using pay_advance_nonneg[OF inv Cons.prems(1,2) t(1)] Cons.IH[OF _ _ t(2)] by auto
  qed simp
  moreover obtain its where "foldr_res (pay_advance db) (0, br) its = Inr (paid, br')"
    using a by (auto simp: advances_def Let_def bindr_eq_Inr)
  ultimately show ?thesis by fastforce
qed

lemma statement_rows_reserve:
  assumes inv: "ledger_inv db"
    and "foldr_res (statement_row_step w db start stop cs) (rows, due, paid, br) us = Inr (rows', due', paid', br')"
    and "distinct (map fst br)" "\<forall>v \<in> snd ` set br. 0 \<le> v" "sum_list (map snd br) \<le> paid"
  shows "(\<forall>v \<in> snd ` set br'. 0 \<le> v) \<and> sum_list (map snd br') \<le> paid'"
  using assms(2-)
proof (induction us arbitrary: rows due paid br)
  case (Cons u us)
  then obtain t where t: "statement_row_step w db start stop cs (rows, due, paid, br) u = Inr t"
    "foldr_res (statement_row_step w db start stop cs) t us = Inr (rows', due', paid', br')"
    by (auto simp only: foldr_res.simps bindr_eq_Inr)
  from t(1) obtain r br1 where r: "t = (rows @ [r], due + sw_reserve_due r, paid + sw_reserve_paid r, br1)"
    "\<exists>due'. advances w db u ''reserve'' start stop br = Inr (due', sw_reserve_paid r, br1)"
    by (rule statement_row_stepE)
  from r(2) obtain due1 where "advances w db u ''reserve'' start stop br = Inr (due1, sw_reserve_paid r, br1)" ..
  from advances_nonneg[OF inv Cons.prems(2,3) this] have b: "distinct (map fst br1)" "\<forall>v \<in> snd ` set br1. 0 \<le> v"
    "sum_list (map snd br1) \<le> paid + sw_reserve_paid r" using Cons.prems(4) by auto
  show ?case by (rule Cons.IH[OF t(2)[unfolded r(1)] b])
qed simp

text \<open>In every reachable state of the ledger the payments shown for an earmarked reserve are not
  negative, and together they never exceed the contributions paid: the unassigned rest is not
  negative either.\<close>

lemma reserve_payments_bounded:
  assumes "reachable db" and r: "statement_results h w db lid property_id st its = Inr r"
  shows "(\<forall>(k, v) \<in> set (rb_by_reserve (sx_reserve r)). 0 \<le> v) \<and> 0 \<le> rb_unassigned (sx_reserve r)"
proof -
  let ?start = "Date (st_year st) 1 1" and ?stop = "Date (st_year st) 12 31"
  from r obtain cs rows due paid br where
    rows: "foldr_res (statement_row_step w db ?start ?stop cs) ([], 0, 0, [])
        (py_sorted (\<lambda>u. dict_get (cs_numbers cs) u []) (map fst (cs_costs cs))) = Inr (rows, due, paid, br)"
    and r': "rb_by_reserve (sx_reserve r) = py_sorted fst br" "rb_unassigned (sx_reserve r) = paid - sum_list (map snd br)"
    by (auto simp: statement_results_def Let_def res_simps)
  from statement_rows_reserve[OF reachable_inv[OF assms(1)] rows] show ?thesis by (force simp: r')
qed

definition example_costs :: "cost_item list" where
  "example_costs = [\<lparr>ci_label = ''a'', ci_amount = 1000, ci_key = 3, ci_basis = [], ci_labour = Some 50, ci_document = Some 8\<rparr>]"

definition example_weg :: weg_db where
  "example_weg = \<lparr>w_contracts = [(4, \<lparr>c_unit = 1, c_kind = Ownership, c_party = 6, c_start = Date 2020 1 1, c_end = None\<rparr>)],
     w_receivables = [\<lparr>rv_contract = 4, rv_code = ''reserve'', rv_status = Item_Posted, rv_month = Date 2024 1 1,
       rv_amount = 100, rv_entry = Some 100, rv_reserve = Some 9\<rparr>], w_bank_reserve = []\<rparr>"

definition example_statement :: statement where
  "example_statement = \<lparr>st_year = 2024, st_opening = 10, st_withdrawals = 5, st_interest = 1\<rparr>"

text \<open>In a reachable ledger a statement fails only for an unusable allocation key.\<close>

lemma advances_succeed:
  assumes "ledger_inv db"
  shows "\<exists>x. advances w db u component start stop br = Inr x"
proof -
  have "\<exists>y. pay_advance db st r = Inr y" for st r
  proof (cases "entry_item db (rv_entry r)")
    case (Some ii)
    obtain iid i where ii: "ii = (iid, i)" by force
    have "(iid, i) \<in> set (items db)"
      using Some unfolding ii entry_item_def by (auto simp: find_Some_iff split: option.splits dest: nth_mem)
    then have "map_of (items db) iid = Some i" by (rule item_of_db(1)[OF assms])
    then show ?thesis by (cases st) (simp add: pay_advance_def Some ii remaining_def fetch_def Let_def)
  qed (cases st, simp add: pay_advance_def)
  then have "\<exists>y. foldr_res (pay_advance db) st its = Inr y" for st its
    by (induction its arbitrary: st) (simp, metis bindr_Inr foldr_res.simps(2))
  then obtain y where "foldr_res (pay_advance db) (0, br) (advance_items w u component start stop) = Inr y" by blast
  then show ?thesis by (cases y) (simp add: advances_def Let_def)
qed

lemma statement_succeeds:
  assumes "values_ok h" and "costs_ok its" and inv: "ledger_inv db"
    and w: "list_all (\<lambda>i. \<not> isl (unit_weights h property_id (ci_key i) (Date (st_year st) 1 1) (Date (st_year st) 12 31))) its"
  shows "\<exists>r. statement_results h w db lid property_id st its = Inr r"
proof -
  let ?start = "Date (st_year st) 1 1" and ?stop = "Date (st_year st) 12 31"
  have v: "valid_date ?start" "valid_date ?stop" by (simp_all add: valid_date_def month_days_def)
  have "\<exists>cs. foldr_res (cost_step h property_id ?start ?stop) cs0 its = Inr cs" for cs0
    using assms(2) w
  proof (induction its arbitrary: cs0)
    case (Cons i its)
    obtain shares where s: "unit_weights h property_id (ci_key i) ?start ?stop = Inr shares"
      using Cons.prems(2) by (cases "unit_weights h property_id (ci_key i) ?start ?stop") auto
    then have "shares_ok (ci_amount i) shares" using unit_weights_ok[OF assms(1) v s] Cons.prems(1) by (simp add: costs_ok_def)
    then obtain parts where "distribute (ci_amount i) shares = Inr parts" using distribute_ok by blast
    then show ?case using Cons s by (simp add: cost_step_def costs_ok_def)
  qed simp
  moreover have "\<exists>y. foldr_res (statement_row_step w db ?start ?stop cs) t us = Inr y" for cs t us
  proof (induction us arbitrary: t)
    case (Cons u us)
    obtain rows due paid br where t: "t = (rows, due, paid, br)" by (cases t) auto
    obtain a b c where 1: "advances w db u ''hoa_fee'' ?start ?stop [] = Inr (a, b, c)"
      using advances_succeed[OF inv] by (metis prod_cases3)
    obtain a' b' c' where 2: "advances w db u ''reserve'' ?start ?stop br = Inr (a', b', c')"
      using advances_succeed[OF inv] by (metis prod_cases3)
    have "\<exists>t'. statement_row_step w db ?start ?stop cs t u = Inr t'"
      by (simp add: statement_row_step_def t 1 2 Let_def)
    then show ?case using Cons.IH by auto
  qed auto
  ultimately show ?thesis unfolding statement_results_def Let_def by (metis (no_types, lifting) bindr_Inr prod.case_eq_if)
qed

definition example_result :: "statement_result res" where
  "example_result = statement_results example_hoa example_weg ex5 1 7 example_statement example_costs"

lemma example_result_inputs: "values_ok example_hoa" "costs_ok example_costs"
  by (simp_all add: values_ok_def example_hoa_def valid_date_def month_days_def costs_ok_def example_costs_def is_cents_def)

lemma example_result: "\<exists>r. example_result = Inr r"
proof -
  have "\<not> isl (unit_weights example_hoa 7 3 (Date 2024 1 1) (Date 2024 12 31))" by code_simp
  then show ?thesis
    unfolding example_result_def
    by (intro statement_succeeds[OF example_result_inputs reachable_inv[OF example_reachable(3)]])
      (simp add: example_costs_def example_statement_def)
qed

theorem statement_reconciles_witness:
  "\<exists>r. example_result = Inr r \<and> sum_list (map sw_cost (sx_units r)) = 1000"
proof -
  from example_result obtain r where r: "example_result = Inr r" ..
  from statement_reconciles[OF example_result_inputs r[unfolded example_result_def]] r
  show ?thesis by (auto simp: example_costs_def)
qed

lemma key_figures_agree_witness:
  "\<exists>r. example_result = Inr r \<and> kf_not_distributed (statement_key_figures r) = 0"
proof -
  from example_result obtain r where r: "example_result = Inr r" ..
  from key_figures_agree[OF example_result_inputs r[unfolded example_result_def] refl] r show ?thesis by blast
qed

lemma reserve_payments_bounded_witness:
  "\<exists>r. example_result = Inr r \<and> 0 \<le> rb_unassigned (sx_reserve r)"
proof -
  from example_result obtain r where r: "example_result = Inr r" ..
  from reserve_payments_bounded[OF example_reachable(3) r[unfolded example_result_def]] r show ?thesis by blast
qed

end
