(* ===== verification/HoaBlocks.thy ===== *)
theory HoaBlocks
  imports HoaStatement LedgerTrial
begin

text \<open>
  The blocks around the annual statement (\<open>mhvp/hoa/calc.py\<close>): labour shares of section 35a, the
  development of earmarked reserves, the distribution of loans, the asset report and the proposed
  debtor on an owner change (with \<open>pick_day\<close> and \<open>resolve_variant\<close> of \<open>mhvp/hoa/acquisition_rule.py\<close>).
\<close>

section \<open>Labour shares\<close>

record labour_position =
  lp_label :: string
  lp_labour :: dec
  lp_document :: "uid option"
  lp_split :: "(uid \<times> dec) list"

record labour_block =
  lb_positions :: "labour_position list"
  lb_per_unit :: "(uid, dec) dict"
  lb_seen :: "(uid, string) dict"
  lb_duplicates :: "(string \<times> string) list"

definition add_unit :: "(uid, dec) dict \<Rightarrow> unit_key \<times> dec \<Rightarrow> (uid, dec) dict" where
  "add_unit d part = (case part of ((_, u), v) \<Rightarrow> AList.update u (dict_get d u 0 + v) d)"

definition labour_step :: "hoa_db \<Rightarrow> uid \<Rightarrow> date \<Rightarrow> date \<Rightarrow> labour_block \<Rightarrow> cost_item \<Rightarrow> labour_block res" where
  "labour_step h property_id start stop st item =
     (case ci_labour item of
        None \<Rightarrow> Inr st
      | Some labour \<Rightarrow>
          if labour = 0 then Inr st
          else (case (case ci_document item of None \<Rightarrow> None | Some d \<Rightarrow> map_of (lb_seen st) d) of
              Some other \<Rightarrow> Inr (st\<lparr>lb_duplicates := lb_duplicates st @ [(ci_label item, other)]\<rparr>)
            | None \<Rightarrow>
                (let seen = (case ci_document item of None \<Rightarrow> lb_seen st
                     | Some d \<Rightarrow> AList.update d (ci_label item) (lb_seen st))
                 in bindr (unit_weights h property_id (ci_key item) start stop) (\<lambda>shares.
                    bindr (distribute labour shares) (\<lambda>parts.
                      Inr (st\<lparr>lb_seen := seen, lb_per_unit := foldl add_unit (lb_per_unit st) parts,
                        lb_positions := lb_positions st @ [\<lparr>lp_label = ci_label item, lp_labour = labour,
                          lp_document = ci_document item, lp_split = map (\<lambda>((_, u), v). (u, v)) parts\<rparr>]\<rparr>))))))"

definition section_35a_block :: "hoa_db \<Rightarrow> uid \<Rightarrow> int \<Rightarrow> cost_item list \<Rightarrow> (labour_block \<times> dec) res" where
  "section_35a_block h property_id y its =
     bindr (foldr_res (labour_step h property_id (Date y 1 1) (Date y 12 31))
       \<lparr>lb_positions = [], lb_per_unit = [], lb_seen = [], lb_duplicates = []\<rparr> its)
       (\<lambda>b. Inr (b, sum_list (map snd (lb_per_unit b))))"

definition labour_ok :: "cost_item list \<Rightarrow> bool" where
  "labour_ok its \<longleftrightarrow> list_all (\<lambda>i. case ci_labour i of None \<Rightarrow> True | Some v \<Rightarrow> is_cents v \<and> \<bar>v\<bar> < 10 ^ 16) its"

definition labour_inv :: "labour_block \<Rightarrow> bool" where
  "labour_inv b \<longleftrightarrow> distinct (map fst (lb_per_unit b)) \<and>
     sum_list (map snd (lb_per_unit b)) = sum_list (map lp_labour (lb_positions b)) \<and>
     distinct (List.map_filter lp_document (lb_positions b)) \<and>
     set (List.map_filter lp_document (lb_positions b)) = fst ` set (lb_seen b)"

lemma foldl_add_unit:
  "distinct (map fst d) \<Longrightarrow> distinct (map fst (foldl add_unit d parts)) \<and>
   sum_list (map snd (foldl add_unit d parts)) = sum_list (map snd d) + sum_list (map snd parts)"
proof (induction parts arbitrary: d)
  case (Cons p parts)
  obtain num u v where p: "p = ((num, u), v)" by (metis prod.collapse)
  have "distinct (map fst (add_unit d p))" using Cons.prems by (simp add: p add_unit_def)
  then show ?case using Cons.IH[of "add_unit d p"] Cons.prems by (simp add: p add_unit_def sum_list_update)
qed simp

lemma map_filter_snoc: "List.map_filter f (xs @ [x]) = List.map_filter f xs @ (case f x of None \<Rightarrow> [] | Some y \<Rightarrow> [y])"
  by (induction xs) (auto simp: map_filter_simps split: option.splits)

lemma labour_step_inv:
  assumes h: "values_ok h" and d: "valid_date start" "valid_date stop" and i: "labour_ok [item]"
    and st: "labour_inv b" and step: "labour_step h property_id start stop b item = Inr b'"
  shows "labour_inv b'"
proof (cases "b' = b \<or> (\<exists>x. b' = b\<lparr>lb_duplicates := x\<rparr>)")
  case True
  then show ?thesis using st unfolding labour_inv_def by (elim disjE exE) simp_all
next
  case False
  then obtain labour shares parts where l: "ci_labour item = Some labour"
    and new: "case ci_document item of None \<Rightarrow> True | Some doc \<Rightarrow> map_of (lb_seen b) doc = None"
    and w: "unit_weights h property_id (ci_key item) start stop = Inr shares" and p: "distribute labour shares = Inr parts"
    and b': "b' = b\<lparr>lb_seen := (case ci_document item of None \<Rightarrow> lb_seen b | Some doc \<Rightarrow> AList.update doc (ci_label item) (lb_seen b)),
      lb_per_unit := foldl add_unit (lb_per_unit b) parts,
      lb_positions := lb_positions b @ [\<lparr>lp_label = ci_label item, lp_labour = labour, lp_document = ci_document item,
        lp_split = map (\<lambda>((_, u), v). (u, v)) parts\<rparr>]\<rparr>"
    using step by (auto simp: labour_step_def Let_def res_simps split: option.splits if_splits)
  have "shares_ok labour shares" using unit_weights_ok[OF h d w] i l by (simp add: labour_ok_def)
  then have s: "sum_list (map snd parts) = labour" using dist.split_sum p by blast
  have n: "doc \<notin> fst ` set (lb_seen b)" if "ci_document item = Some doc" for doc
    using new that by (simp add: map_of_eq_None_iff)
  show ?thesis
    using st foldl_add_unit[of "lb_per_unit b" parts] n
    by (auto simp: labour_inv_def b' s map_filter_snoc fst_update split: option.splits)
qed

text \<open>The labour shares of section 35a count every receipt once: the shares of the units add up to the
  labour costs of the positions shown, and no receipt stands behind two of them.\<close>

lemma labour_counted_once:
  assumes "values_ok h" and "labour_ok its" and "section_35a_block h property_id y its = Inr (b, tot)"
  shows "tot = sum_list (map lp_labour (lb_positions b)) \<and> distinct (List.map_filter lp_document (lb_positions b))"
proof -
  have v: "valid_date (Date y 1 1)" "valid_date (Date y 12 31)" by (simp_all add: valid_date_def month_days_def)
  let ?b0 = "\<lparr>lb_positions = [], lb_per_unit = [], lb_seen = [], lb_duplicates = []\<rparr>"
  from assms(3) have f: "foldr_res (labour_step h property_id (Date y 1 1) (Date y 12 31)) ?b0 its = Inr b"
    and t: "tot = sum_list (map snd (lb_per_unit b))"
    by (auto simp: section_35a_block_def res_simps)
  have "labour_inv b"
  proof (rule foldr_res_invariant[OF f, where P = labour_inv])
    show "labour_inv ?b0" by (simp add: labour_inv_def map_filter_simps)
  next
    fix s x s' assume "x \<in> set its" "labour_inv s" "labour_step h property_id (Date y 1 1) (Date y 12 31) s x = Inr s'"
    moreover have "labour_ok [x]" using assms(2) \<open>x \<in> set its\<close> by (simp add: labour_ok_def list_all_iff)
    ultimately show "labour_inv s'" using labour_step_inv[OF assms(1) v] by blast
  qed
  then show ?thesis by (simp add: labour_inv_def t)
qed

definition twice_costs :: "cost_item list" where
  "twice_costs = example_costs @ example_costs"

lemma labour_counted_once_witness:
  "\<exists>b tot. section_35a_block example_hoa 7 2024 twice_costs = Inr (b, tot) \<and> tot = sum_list (map lp_labour (lb_positions b))"
proof -
  have v: "valid_date (Date 2024 1 1)" "valid_date (Date 2024 12 31)" by (simp_all add: valid_date_def month_days_def)
  have "\<not> isl (unit_weights example_hoa 7 3 (Date 2024 1 1) (Date 2024 12 31))" by code_simp
  then obtain shares where w: "unit_weights example_hoa 7 3 (Date 2024 1 1) (Date 2024 12 31) = Inr shares"
    by (cases "unit_weights example_hoa 7 3 (Date 2024 1 1) (Date 2024 12 31)") auto
  have "shares_ok 50 shares" by (rule unit_weights_ok[OF example_result_inputs(1) v w]) (simp_all add: is_cents_def)
  then obtain parts where "distribute 50 shares = Inr parts" using distribute_ok by blast
  then obtain b tot where b: "section_35a_block example_hoa 7 2024 twice_costs = Inr (b, tot)"
    by (simp add: section_35a_block_def twice_costs_def example_costs_def labour_step_def w)
  have "labour_ok twice_costs" by (simp add: labour_ok_def twice_costs_def example_costs_def is_cents_def)
  from labour_counted_once[OF example_result_inputs(1) this b] b show ?thesis by blast
qed

section \<open>Earmarked reserves\<close>

record reserve_movement =
  rm_reserve :: uid
  rm_kind :: string
  rm_amount :: dec

record reserve_position =
  rp_reserve :: uid
  rp_planned :: dec
  rp_paid :: dec
  rp_bound :: bool
  rp_paid_change :: dec
  rp_withdrawals :: dec
  rp_taxes :: dec
  rp_fees :: dec
  rp_interest :: dec
  rp_planned_change :: dec
  rp_movements :: "reserve_movement list"

definition reserve_positions ::
  "uid list \<Rightarrow> plan_item list \<Rightarrow> reserve_movement list \<Rightarrow> (uid, dec) dict \<Rightarrow> reserve_position list" where
  "reserve_positions reserves plan_items movements paid_by_reserve =
     map (\<lambda>r.
       (let planned = sum_list (map pi_amount (filter (\<lambda>i. pi_reserve i = Some r) plan_items));
            mine = filter (\<lambda>m. rm_reserve m = r) movements;
            kind_sum = (\<lambda>kind. sum_list (map rm_amount (filter (\<lambda>m. rm_kind m = kind) mine)));
            paid = dict_get paid_by_reserve r 0;
            change = - kind_sum ''withdrawal'' - kind_sum ''tax'' - kind_sum ''fee'' + kind_sum ''interest''
        in \<lparr>rp_reserve = r, rp_planned = planned, rp_paid = paid, rp_bound = (map_of paid_by_reserve r \<noteq> None),
            rp_paid_change = paid + change, rp_withdrawals = kind_sum ''withdrawal'', rp_taxes = kind_sum ''tax'',
            rp_fees = kind_sum ''fee'', rp_interest = kind_sum ''interest'', rp_planned_change = planned + change,
            rp_movements = mine\<rparr>)) reserves"

text \<open>A value attributed to one reserve is counted once over all reserves.\<close>

lemma sum_over_keys:
  fixes f :: "'a \<Rightarrow> dec"
  assumes "distinct ks"
  shows "(\<Sum>k\<leftarrow>ks. sum_list (map f (filter (\<lambda>x. key x = k) xs))) = sum_list (map f (filter (\<lambda>x. key x \<in> set ks) xs))"
proof (induction xs)
  case (Cons x xs)
  have "(\<Sum>k\<leftarrow>ks. if key x = k then f x + g k else g k) = (if key x \<in> set ks then f x else 0) + sum_list (map g ks)"
    for g :: "'b \<Rightarrow> dec"
    using assms by (induction ks) auto
  from this[of "\<lambda>k. sum_list (map f (filter (\<lambda>x. key x = k) xs))"] Cons
  show ?case by (simp add: if_distrib[of sum_list] if_distrib[of "map f"] cong: if_cong)
qed simp

section \<open>Loans in the statement\<close>

record loan_config =
  lc_loan :: uid
  lc_key :: uid
  lc_components :: "string list"

record loan_block =
  lk_figures :: "(uid \<times> year_figures) list"
  lk_per_unit :: "(uid, (string, dec) dict) dict"

definition LOAN_COMPONENTS :: "string list" where "LOAN_COMPONENTS = [''interest'', ''repayment'']"

definition component_amount :: "year_figures \<Rightarrow> string \<Rightarrow> dec res" where
  "component_amount f c =
     (if c = ''interest'' then Inr (cp_amount (yf_interest f))
      else if c = ''repayment'' then Inr (cp_amount (yf_repayment f)) else Inl Key_Error)"

definition add_loan_part :: "string \<Rightarrow> (uid, (string, dec) dict) dict \<Rightarrow> unit_key \<times> dec \<Rightarrow> (uid, (string, dec) dict) dict" where
  "add_loan_part c d part =
     (case part of ((_, u), v) \<Rightarrow>
       (let b = dict_get d u (map (\<lambda>c. (c, 0)) LOAN_COMPONENTS) in AList.update u (AList.update c (dict_get b c 0 + v) b) d))"

definition loan_component_step ::
  "unit_key share list \<Rightarrow> year_figures \<Rightarrow> (uid, (string, dec) dict) dict \<Rightarrow> string \<Rightarrow> (uid, (string, dec) dict) dict res" where
  "loan_component_step weights f d c =
     bindr (component_amount f c) (\<lambda>amount.
     bindr (distribute amount weights) (\<lambda>parts. Inr (foldl (add_loan_part c) d parts)))"

text \<open>\<open>loans\<close> gives the loans of the ledger with their items; a loan of another ledger is skipped.\<close>

definition loan_step ::
  "hoa_db \<Rightarrow> uid \<Rightarrow> (uid, loan \<times> loan_item list) dict \<Rightarrow> int \<Rightarrow> loan_block \<Rightarrow> loan_config \<Rightarrow> loan_block res" where
  "loan_step h property_id loans y st cfg =
     (case map_of loans (lc_loan cfg) of
        None \<Rightarrow> Inr st
      | Some (n, xs) \<Rightarrow>
          bindr (loan_year_figures n xs y) (\<lambda>f.
          bindr (unit_weights h property_id (lc_key cfg) (Date y 1 1) (Date y 12 31)) (\<lambda>weights.
          bindr (foldr_res (loan_component_step weights f) (lk_per_unit st) (lc_components cfg)) (\<lambda>d.
            Inr \<lparr>lk_figures = lk_figures st @ [(lc_loan cfg, f)], lk_per_unit = d\<rparr>))))"

definition loan_statement_block ::
  "hoa_db \<Rightarrow> uid \<Rightarrow> (uid, loan \<times> loan_item list) dict \<Rightarrow> int \<Rightarrow> loan_config list \<Rightarrow> loan_block res" where
  "loan_statement_block h property_id loans y allocation =
     foldr_res (loan_step h property_id loans y) \<lparr>lk_figures = [], lk_per_unit = []\<rparr> allocation"

section \<open>The asset report\<close>

record asset_figures =
  as_reserve_closing :: dec
  as_liquid_funds :: dec
  as_receivables :: dec
  as_payables :: dec
  as_loans :: dec

definition category_balance :: "db \<Rightarrow> uid \<Rightarrow> date \<Rightarrow> account_category \<Rightarrow> dec" where
  "category_balance db lid stop cat =
     (let hit = (\<lambda>r. e_booking_date (row_entry r) \<le> stop \<and>
            (case map_of (accounts db) (l_account (row_line r)) of None \<Rightarrow> False
             | Some a \<Rightarrow> a_ledger a = lid \<and> a_category a = cat));
          rows = filter hit (posted_lines db)
      in sum_list (map (l_debit \<circ> row_line) rows) - sum_list (map (l_credit \<circ> row_line) rows))"

definition asset_report :: "db \<Rightarrow> uid \<Rightarrow> int \<Rightarrow> dec \<Rightarrow> asset_figures" where
  "asset_report db lid y reserve_closing =
     (let stop = Date y 12 31; its = open_items db lid stop None
      in \<lparr>as_reserve_closing = reserve_closing,
          as_liquid_funds = category_balance db lid stop Cat_Bank + category_balance db lid stop Cat_Cash,
          as_receivables = sum_list (map op_remaining (filter (\<lambda>r. op_kind r = Item_Receivable \<and> 0 < op_remaining r) its)),
          as_payables = sum_list (map op_remaining (filter (\<lambda>r. op_kind r = Item_Payable) its)),
          as_loans = - category_balance db lid stop Cat_Loan\<rparr>)"

lemma category_balance_accounts:
  assumes keys: "distinct (map fst (accounts db))"
  shows "category_balance db lid stop cat =
    (\<Sum>k \<leftarrow> map fst (filter (\<lambda>(k, a). a_ledger a = lid \<and> a_category a = cat) (accounts db)). account_balance db k stop)"
proof -
  let ?ks = "map fst (filter (\<lambda>(k, a). a_ledger a = lid \<and> a_category a = cat) (accounts db))"
  have d: "distinct ?ks" using keys by (rule distinct_map_filter)
  have mem: "(case map_of (accounts db) k of None \<Rightarrow> False | Some a \<Rightarrow> a_ledger a = lid \<and> a_category a = cat) \<longleftrightarrow> k \<in> set ?ks" for k
  proof (cases "map_of (accounts db) k")
    case None
    then have "k \<notin> fst ` set (accounts db)" by (simp add: map_of_eq_None_iff)
    then show ?thesis using None by auto
  next
    case (Some a)
    have mem: "(k, a) \<in> set (accounts db)" using Some by (rule map_of_SomeD)
    have "k \<in> set ?ks \<longleftrightarrow> a_ledger a = lid \<and> a_category a = cat"
    proof
      assume "k \<in> set ?ks"
      then obtain b where b: "(k, b) \<in> set (accounts db)" "a_ledger b = lid" "a_category b = cat" by auto
      have "map_of (accounts db) k = Some b" using keys b(1) by (rule map_of_is_SomeI)
      then show "a_ledger a = lid \<and> a_category a = cat" using Some b(2,3) by simp
    next
      assume "a_ledger a = lid \<and> a_category a = cat"
      then have "(k, a) \<in> set (filter (\<lambda>(k, a). a_ledger a = lid \<and> a_category a = cat) (accounts db))" using mem by simp
      then show "k \<in> set ?ks" unfolding set_map by (rule image_eqI[rotated]) simp
    qed
    then show ?thesis using Some by simp
  qed
  have hit: "sum_list (map (f \<circ> row_line) (filter (\<lambda>r. e_booking_date (row_entry r) \<le> stop \<and>
        (case map_of (accounts db) (l_account (row_line r)) of None \<Rightarrow> False | Some a \<Rightarrow> a_ledger a = lid \<and> a_category a = cat)) (posted_lines db))) =
      (\<Sum>k \<leftarrow> ?ks. table_sum (\<lambda>_ e. if e_status e = Posted \<and> e_booking_date e \<le> stop
        then sum_list (map f (filter (\<lambda>row. l_account row = k) (e_lines e))) else 0) (entries db))" for f :: "line \<Rightarrow> dec"
  proof -
    have "sum_list (map (f \<circ> row_line) (filter (\<lambda>r. e_booking_date (row_entry r) \<le> stop \<and>
        (case map_of (accounts db) (l_account (row_line r)) of None \<Rightarrow> False | Some a \<Rightarrow> a_ledger a = lid \<and> a_category a = cat)) (posted_lines db))) =
      table_sum (\<lambda>_ e. if e_status e = Posted \<and> e_booking_date e \<le> stop
        then sum_list (map f (filter (\<lambda>row. l_account row \<in> set ?ks) (e_lines e))) else 0) (entries db)"
      using sum_posted_lines[of f "\<lambda>e. e_booking_date e \<le> stop" "\<lambda>row. l_account row \<in> set ?ks"] unfolding mem .
    also have "\<dots> = table_sum (\<lambda>_ e. \<Sum>k \<leftarrow> ?ks. if e_status e = Posted \<and> e_booking_date e \<le> stop
        then sum_list (map f (filter (\<lambda>row. l_account row = k) (e_lines e))) else 0) (entries db)"
    proof (rule table_sum_cong)
      fix k e
      have z: "(\<Sum>k \<leftarrow> ks. (0::rat)) = 0" for ks :: "uid list" by (induction ks) auto
      show "(if e_status e = Posted \<and> e_booking_date e \<le> stop then sum_list (map f (filter (\<lambda>row. l_account row \<in> set ?ks) (e_lines e))) else 0) =
        (\<Sum>k \<leftarrow> ?ks. if e_status e = Posted \<and> e_booking_date e \<le> stop then sum_list (map f (filter (\<lambda>row. l_account row = k) (e_lines e))) else 0)"
      proof (cases "e_status e = Posted \<and> e_booking_date e \<le> stop")
        case True
        then have c: "(if e_status e = Posted \<and> e_booking_date e \<le> stop then x else (0::rat)) = x" for x by simp
        show ?thesis unfolding c sum_over_accounts[OF d, of f "e_lines e"] ..
      next
        case False
        then have c: "(if e_status e = Posted \<and> e_booking_date e \<le> stop then x else (0::rat)) = 0" for x by auto
        show ?thesis unfolding c z ..
      qed
    qed
    finally show ?thesis unfolding table_sum_swap .
  qed
  have bal: "account_balance db k stop =
      table_sum (\<lambda>_ e. if e_status e = Posted \<and> e_booking_date e \<le> stop
        then sum_list (map l_debit (filter (\<lambda>row. l_account row = k) (e_lines e))) else 0) (entries db) -
      table_sum (\<lambda>_ e. if e_status e = Posted \<and> e_booking_date e \<le> stop
        then sum_list (map l_credit (filter (\<lambda>row. l_account row = k) (e_lines e))) else 0) (entries db)" for k
  proof -
    have "table_sum (\<lambda>_ e. if e_status e = Posted \<and> e_booking_date e \<le> stop then debit_on (e_lines e) k - credit_on (e_lines e) k else 0) t =
        table_sum (\<lambda>_ e. if e_status e = Posted \<and> e_booking_date e \<le> stop then debit_on (e_lines e) k else 0) t -
        table_sum (\<lambda>_ e. if e_status e = Posted \<and> e_booking_date e \<le> stop then credit_on (e_lines e) k else 0) t" for t
      by (induction t) auto
    from this[of "entries db"] show ?thesis unfolding account_balance_def debit_on_def credit_on_def .
  qed
  show ?thesis unfolding category_balance_def Let_def hit bal sum_list_subtractf ..
qed

text \<open>The liquid funds of the asset report are the balances of the bank and cash accounts of the ledger,
  account by account, and the open receivables it shows are not negative.\<close>

lemma asset_report_funds:
  assumes "distinct (map fst (accounts db))"
  shows "as_liquid_funds (asset_report db lid y c) =
      sum_list (map (\<lambda>(k, a). if a_ledger a = lid \<and> a_category a \<in> {Cat_Bank, Cat_Cash} then account_balance db k (Date y 12 31) else 0) (accounts db)) \<and>
    0 \<le> as_receivables (asset_report db lid y c)"
proof
  have s: "sum_list (map g (map fst (filter (\<lambda>(k, a). a_ledger a = lid \<and> a_category a = Cat_Bank) xs))) +
      sum_list (map g (map fst (filter (\<lambda>(k, a). a_ledger a = lid \<and> a_category a = Cat_Cash) xs))) =
      sum_list (map (\<lambda>(k, a). if a_ledger a = lid \<and> a_category a \<in> {Cat_Bank, Cat_Cash} then g k else 0) xs)"
    for g :: "uid \<Rightarrow> dec" and xs
    by (induction xs) (auto split: if_splits)
  show "as_liquid_funds (asset_report db lid y c) =
      sum_list (map (\<lambda>(k, a). if a_ledger a = lid \<and> a_category a \<in> {Cat_Bank, Cat_Cash} then account_balance db k (Date y 12 31) else 0) (accounts db))"
    using s[of "\<lambda>k. account_balance db k (Date y 12 31)" "accounts db"]
    by (simp add: asset_report_def Let_def category_balance_accounts[OF assms])
  show "0 \<le> as_receivables (asset_report db lid y c)"
    by (auto simp: asset_report_def Let_def intro!: sum_list_nonneg)
qed

lemma asset_report_funds_witness:
  "as_liquid_funds (asset_report ex5 1 2024 0) = 40"
proof -
  have "distinct (map fst (accounts ex5))" by code_simp
  moreover have "sum_list (map (\<lambda>(k, a). if a_ledger a = 1 \<and> a_category a \<in> {Cat_Bank, Cat_Cash}
      then account_balance ex5 k (Date 2024 12 31) else 0) (accounts ex5)) = 40" by code_simp
  ultimately show ?thesis using asset_report_funds[of ex5 1 2024 0] by simp
qed

section \<open>The proposed debtor\<close>

definition DEFAULT_VARIANT :: string where "DEFAULT_VARIANT = ''manual_release''"

definition pick_day :: "string \<Rightarrow> date \<Rightarrow> date option \<Rightarrow> date option \<Rightarrow> date" where
  "pick_day variant default_day due_day resolution_day =
     (if variant = ''by_due_date'' \<and> due_day \<noteq> None then the due_day
      else if variant = ''by_resolution_date'' \<and> resolution_day \<noteq> None then the resolution_day
      else default_day)"

definition resolve_variant :: "(string, string) dict \<Rightarrow> string option \<Rightarrow> string" where
  "resolve_variant rules kind = (case kind of None \<Rightarrow> DEFAULT_VARIANT | Some k \<Rightarrow> dict_get rules k DEFAULT_VARIANT)"

text \<open>\<open>acquisition\<close> gives the acquisition kind of a contract.\<close>

definition allocation_owner ::
  "weg_db \<Rightarrow> (string, string) dict \<Rightarrow> (uid \<Rightarrow> string option) \<Rightarrow> uid \<Rightarrow> date \<Rightarrow> date option \<Rightarrow> date option \<Rightarrow> (uid \<times> contract) option" where
  "allocation_owner w rules acquisition unit_id default_day due_day resolution_day =
     (case owner_at w unit_id default_day of
        None \<Rightarrow> None
      | Some base \<Rightarrow>
          (let d = pick_day (resolve_variant rules (acquisition (fst base))) default_day due_day resolution_day
           in if d = default_day then Some base
              else case owner_at w unit_id d of None \<Rightarrow> Some base | Some o' \<Rightarrow> Some o'))"

text \<open>A debtor is proposed exactly when the unit has an owner on the default day; the proposal is an
  ownership of that unit, and without a rule for the acquisition kind it is the owner on the default
  day.\<close>

lemma allocation_owner_sound:
  "(allocation_owner w rules acq u d due res = None \<longleftrightarrow> owner_at w u d = None) \<and>
   (\<forall>cid c. allocation_owner w rules acq u d due res = Some (cid, c) \<longrightarrow> c_unit c = u \<and> c_kind c = Ownership) \<and>
   (rules = [] \<longrightarrow> allocation_owner w rules acq u d due res = owner_at w u d)"
proof (intro conjI allI impI)
  show "allocation_owner w rules acq u d due res = None \<longleftrightarrow> owner_at w u d = None"
    by (auto simp: allocation_owner_def Let_def split: option.splits)
next
  have own: "c_unit c = u \<and> c_kind c = Ownership" if "owner_at w u e = Some (cid, c)" for e cid c
    using that by (auto simp: owner_at_def find_Some_iff)
  fix cid c assume "allocation_owner w rules acq u d due res = Some (cid, c)"
  then show "c_unit c = u" "c_kind c = Ownership"
    using own by (auto simp: allocation_owner_def Let_def split: option.splits if_splits)
next
  assume "rules = []"
  then have "resolve_variant rules k = ''manual_release''" for k
    by (simp add: resolve_variant_def DEFAULT_VARIANT_def dict_get_def split: option.split)
  then show "allocation_owner w rules acq u d due res = owner_at w u d"
    by (simp add: allocation_owner_def pick_day_def split: option.split)
qed

end
