(* ===== verification/CashFlow.thy ===== *)
theory CashFlow
  imports LedgerTrial "HOL-Library.Sublist"
begin

text \<open>
  The cash flow reconciliation of the annual statement (\<open>cash_flow_reconciliation\<close> in
  \<open>mhvp/hoa/calc.py\<close>): opening and closing balances of the bank and cash accounts, in and out flows by
  category of the counter account, and the bridge from the cash paid for costs over the costs booked
  to the costs distributed. Texts are left out, amounts stay decimals.
\<close>

section \<open>Flows\<close>

record flows =
  fl_in :: "(string, dec) dict"
  fl_out :: "(string, dec) dict"
  fl_booked :: dec
  fl_via_creditor :: dec

definition cash_ids :: "db \<Rightarrow> uid \<Rightarrow> uid list" where
  "cash_ids db lid = map fst (filter (\<lambda>(_, a). a_ledger a = lid \<and> a_category a \<in> {Cat_Bank, Cat_Cash}) (accounts db))"

text \<open>\<open>tech\<close> holds the accounts whose statement kind is reserve.\<close>

definition flow_category :: "db \<Rightarrow> uid list \<Rightarrow> uid \<Rightarrow> string" where
  "flow_category db tech a =
     (case category_of db a of
        Cat_Cost \<Rightarrow> ''cost'' | Cat_Creditor \<Rightarrow> ''creditor'' | Cat_Debtor \<Rightarrow> ''debtor'' | Cat_Loan \<Rightarrow> ''loan''
      | Cat_Reserve \<Rightarrow> ''reserve'' | Cat_Revenue \<Rightarrow> ''revenue''
      | Cat_Technical \<Rightarrow> if a \<in> set tech then ''reserve'' else ''other''
      | _ \<Rightarrow> ''other'')"

definition line_value :: "line \<Rightarrow> dec" where "line_value row = l_debit row - l_credit row"

definition add_to :: "string \<Rightarrow> dec \<Rightarrow> (string, dec) dict \<Rightarrow> (string, dec) dict" where
  "add_to k v d = AList.update k (dict_get d k 0 + v) d"

definition line_category :: "db \<Rightarrow> uid list \<Rightarrow> string option \<Rightarrow> line \<Rightarrow> string" where
  "line_category db tech loan_kind row =
     (case loan_kind of
        None \<Rightarrow> flow_category db tech (l_account row)
      | Some k \<Rightarrow> if k = [] then flow_category db tech (l_account row) else ''loan_'' @ k)"

definition add_flow_line ::
  "db \<Rightarrow> uid \<Rightarrow> uid list \<Rightarrow> string option \<Rightarrow> bool \<Rightarrow> bool \<Rightarrow> flows \<Rightarrow> line \<Rightarrow> flows" where
  "add_flow_line db lid tech loan_kind has_cash has_creditor st row =
     (if l_account row \<in> set (cash_ids db lid) then st
      else
        (let v = line_value row;
             st1 = (if category_of db (l_account row) = Cat_Cost \<and> loan_kind = None
               then st\<lparr>fl_booked := fl_booked st + v,
                 fl_via_creditor := (if has_creditor \<and> \<not> has_cash then fl_via_creditor st + v else fl_via_creditor st)\<rparr>
               else st);
             c = line_category db tech loan_kind row
         in if \<not> has_cash then st1
            else if 0 < v then st1\<lparr>fl_out := add_to c v (fl_out st1)\<rparr>
            else if v < 0 then st1\<lparr>fl_in := add_to c (- v) (fl_in st1)\<rparr>
            else st1))"

definition has_cash :: "db \<Rightarrow> uid \<Rightarrow> entry \<Rightarrow> bool" where
  "has_cash db lid e \<longleftrightarrow> list_ex (\<lambda>row. l_account row \<in> set (cash_ids db lid)) (e_lines e)"

definition has_creditor :: "db \<Rightarrow> entry \<Rightarrow> bool" where
  "has_creditor db e \<longleftrightarrow> list_ex (\<lambda>row. category_of db (l_account row) = Cat_Creditor) (e_lines e)"

definition add_flow_entry :: "db \<Rightarrow> uid \<Rightarrow> uid list \<Rightarrow> (uid, string) dict \<Rightarrow> flows \<Rightarrow> uid \<times> entry \<Rightarrow> flows" where
  "add_flow_entry db lid tech loan_entries st x =
     (case x of (eid, e) \<Rightarrow>
       foldl (add_flow_line db lid tech (map_of loan_entries eid) (has_cash db lid e) (has_creditor db e)) st (e_lines e))"

text \<open>\<open>k in keys or k.startswith(keys)\<close>\<close>

definition flow :: "(string, dec) dict \<Rightarrow> string list \<Rightarrow> dec" where
  "flow bucket keys = sum_list (map snd (filter (\<lambda>(k, _). list_ex (\<lambda>p. prefix p k) keys) bucket))"

section \<open>The reconciliation\<close>

record reconciliation_note =
  rn_code :: string
  rn_amount :: dec

record cash_account =
  ca_number :: string
  ca_opening :: dec
  ca_closing :: dec
  ca_migration :: "dec option"

record cash_flow =
  cf_accounts :: "cash_account list"
  cf_opening :: dec
  cf_inflows :: dec
  cf_outflows :: dec
  cf_closing :: dec
  cf_check_ok :: bool
  cf_in :: "(string \<times> dec) list"
  cf_out :: "(string \<times> dec) list"
  cf_cost_paid :: dec
  cf_creditor_timing :: dec
  cf_structure_residual :: dec
  cf_cost_booked :: dec
  cf_migration_cash :: dec
  cf_migration_cost :: dec
  cf_migration_other :: dec
  cf_migrations :: nat
  cf_bridge :: "(string \<times> dec) list"
  cf_unexplained :: dec

definition year_entries :: "db \<Rightarrow> uid \<Rightarrow> int \<Rightarrow> (uid \<times> entry) list" where
  "year_entries db lid y =
     filter (\<lambda>(_, e). e_ledger e = lid \<and> e_status e = Posted \<and> Date y 1 1 \<le> e_booking_date e \<and> e_booking_date e \<le> Date y 12 31) (entries db)"

definition lines_value :: "(line \<Rightarrow> bool) \<Rightarrow> (uid \<times> entry) list \<Rightarrow> dec" where
  "lines_value p es = sum_list (map (\<lambda>(_, e). sum_list (map line_value (filter p (e_lines e)))) es)"

definition cash_flow_reconciliation ::
  "db \<Rightarrow> uid \<Rightarrow> uid list \<Rightarrow> (uid, string) dict \<Rightarrow> int \<Rightarrow> dec \<Rightarrow> reconciliation_note list \<Rightarrow> cash_flow" where
  "cash_flow_reconciliation db lid tech loan_entries y cost_total notes =
     (let start = Date y 1 1; stop = Date y 12 31; cash = cash_ids db lid;
          es = year_entries db lid y;
          migrations = filter (\<lambda>(_, e). e_kind e = K_Opening_Balance) es;
          others = filter (\<lambda>(_, e). e_kind e \<noteq> K_Opening_Balance) es;
          mig_cash = lines_value (\<lambda>row. l_account row \<in> set cash) migrations;
          mig_cost = lines_value (\<lambda>row. l_account row \<notin> set cash \<and> category_of db (l_account row) = Cat_Cost) migrations;
          mig_other = lines_value (\<lambda>row. l_account row \<notin> set cash \<and> category_of db (l_account row) \<noteq> Cat_Cost) migrations;
          sorted_cash = py_sorted (\<lambda>k. a_number (the (map_of (accounts db) k))) cash;
          accs = map (\<lambda>k. \<lparr>ca_number = a_number (the (map_of (accounts db) k)),
            ca_opening = account_balance db k (prev_day start), ca_closing = account_balance db k stop,
            ca_migration = (if migrations = [] then None else Some (lines_value (\<lambda>row. l_account row = k) migrations))\<rparr>) sorted_cash;
          opening' = sum_list (map ca_opening accs) + (if migrations = [] then 0 else mig_cash);
          closing = sum_list (map ca_closing accs);
          fl = foldl (add_flow_entry db lid tech loan_entries) \<lparr>fl_in = [], fl_out = [], fl_booked = 0, fl_via_creditor = 0\<rparr> others;
          inflows = sum_list (map snd (fl_in fl)); outflows = sum_list (map snd (fl_out fl));
          loan_out = flow (fl_out fl) [''loan''];
          non_cost_out = flow (fl_out fl) [''reserve''] + loan_out + flow (fl_out fl) [''debtor''] +
            flow (fl_out fl) [''other''] + flow (fl_out fl) [''revenue''];
          cost_refunds = flow (fl_in fl) [''cost''] + flow (fl_in fl) [''creditor''];
          cost_paid = outflows - non_cost_out - cost_refunds;
          creditor_paid = flow (fl_out fl) [''creditor''] - flow (fl_in fl) [''creditor''];
          creditor_timing = creditor_paid - fl_via_creditor fl;
          structure_residual = cost_paid - creditor_timing - fl_booked fl;
          manual_total = sum_list (map rn_amount notes);
          unexplained = cost_total - fl_booked fl - manual_total - mig_cost + structure_residual
      in \<lparr>cf_accounts = accs, cf_opening = opening', cf_inflows = inflows, cf_outflows = outflows, cf_closing = closing,
          cf_check_ok = (opening' + inflows - outflows = closing),
          cf_in = py_sorted fst (fl_in fl), cf_out = py_sorted fst (fl_out fl),
          cf_cost_paid = cost_paid, cf_creditor_timing = creditor_timing, cf_structure_residual = structure_residual,
          cf_cost_booked = fl_booked fl, cf_migration_cash = mig_cash, cf_migration_cost = mig_cost,
          cf_migration_other = mig_other, cf_migrations = length migrations,
          cf_bridge = [(''outflows'', outflows), (''reserve'', - flow (fl_out fl) [''reserve'']), (''loan'', - loan_out),
            (''owner_refund'', - flow (fl_out fl) [''debtor'']),
            (''other_non_cost'', - (flow (fl_out fl) [''other''] + flow (fl_out fl) [''revenue''])),
            (''cost_refunds'', - cost_refunds), (''cost_paid'', cost_paid), (''creditor_timing'', - creditor_timing),
            (''structure_residual'', - structure_residual), (''cost_booked'', fl_booked fl)] @
            (if migrations = [] then [] else [(''migration_opening'', mig_cost)]) @
            map (\<lambda>n. (rn_code n, rn_amount n)) notes @
            [(''cost_distributed'', cost_total), (''unexplained'', unexplained)],
          cf_unexplained = unexplained\<rparr>)"

section \<open>What the flows add up to\<close>

definition net :: "string \<Rightarrow> flows \<Rightarrow> dec" where
  "net p st = flow (fl_out st) [p] - flow (fl_in st) [p]"

lemma flow_table: "flow d [p] = table_sum (\<lambda>k v. if prefix p k then v else 0) d"
  by (induction d) (auto simp: flow_def)

lemma flow_Nil: "flow d [[]] = sum_list (map snd d)"
  by (induction d) (auto simp: flow_def)

lemma flow_add_to: "distinct (map fst d) \<Longrightarrow> flow (add_to k v d) [p] = flow d [p] + (if prefix p k then v else 0)"
  by (simp add: flow_table add_to_def table_sum_put[where z = 0])

definition flow_key :: "string \<Rightarrow> bool" where
  "flow_key k \<longleftrightarrow> k \<in> {''cost'', ''creditor'', ''debtor'', ''loan'', ''reserve'', ''revenue'', ''other''} \<or> (\<exists>s. k = ''loan_'' @ s)"

definition flows_ok :: "flows \<Rightarrow> bool" where
  "flows_ok st \<longleftrightarrow> distinct (map fst (fl_in st)) \<and> distinct (map fst (fl_out st)) \<and>
     (\<forall>k \<in> fst ` set (fl_in st) \<union> fst ` set (fl_out st). flow_key k)"

lemma flow_key_category: "flow_key (line_category db tech lk row)"
  by (auto simp: flow_key_def line_category_def flow_category_def split: option.split account_category.split)

lemma add_flow_line_step:
  assumes "flows_ok st"
  shows "flows_ok (add_flow_line db lid tech lk hc hr st row)"
    and "net p (add_flow_line db lid tech lk hc hr st row) = net p st +
      (if l_account row \<notin> set (cash_ids db lid) \<and> hc \<and> prefix p (line_category db tech lk row) then line_value row else 0)"
    and "fl_booked (add_flow_line db lid tech lk hc hr st row) = fl_booked st +
      (if l_account row \<notin> set (cash_ids db lid) \<and> category_of db (l_account row) = Cat_Cost \<and> lk = None then line_value row else 0)"
    and "fl_via_creditor (add_flow_line db lid tech lk hc hr st row) = fl_via_creditor st +
      (if l_account row \<notin> set (cash_ids db lid) \<and> category_of db (l_account row) = Cat_Cost \<and> lk = None \<and> hr \<and> \<not> hc
       then line_value row else 0)"
proof -
  have d: "distinct (map fst (fl_in st))" "distinct (map fst (fl_out st))" using assms(1) by (simp_all add: flows_ok_def)
  show "flows_ok (add_flow_line db lid tech lk hc hr st row)"
    using assms(1) flow_key_category[of db tech lk row]
    by (auto simp: add_flow_line_def Let_def flows_ok_def add_to_def fst_update)
  show "net p (add_flow_line db lid tech lk hc hr st row) = net p st +
      (if l_account row \<notin> set (cash_ids db lid) \<and> hc \<and> prefix p (line_category db tech lk row) then line_value row else 0)"
    using d by (auto simp: add_flow_line_def Let_def net_def flow_add_to)
qed (auto simp: add_flow_line_def Let_def)

text \<open>Sums of the values of the lines of one entry, and of a list of entries.\<close>

definition value_of :: "(line \<Rightarrow> bool) \<Rightarrow> entry \<Rightarrow> dec" where
  "value_of p e = sum_list (map line_value (filter p (e_lines e)))"

lemma lines_value_alt: "lines_value p es = (\<Sum>(_, e) \<leftarrow> es. value_of p e)"
  by (simp add: lines_value_def value_of_def)

abbreviation (input) free_line :: "db \<Rightarrow> uid \<Rightarrow> line \<Rightarrow> bool" where
  "free_line db lid row \<equiv> l_account row \<notin> set (cash_ids db lid)"

lemma add_flow_lines:
  assumes "flows_ok st"
  shows "flows_ok (foldl (add_flow_line db lid tech lk hc hr) st lns) \<and>
    net p (foldl (add_flow_line db lid tech lk hc hr) st lns) = net p st + sum_list (map line_value
      (filter (\<lambda>row. free_line db lid row \<and> hc \<and> prefix p (line_category db tech lk row)) lns)) \<and>
    fl_booked (foldl (add_flow_line db lid tech lk hc hr) st lns) = fl_booked st + sum_list (map line_value
      (filter (\<lambda>row. free_line db lid row \<and> category_of db (l_account row) = Cat_Cost \<and> lk = None) lns)) \<and>
    fl_via_creditor (foldl (add_flow_line db lid tech lk hc hr) st lns) = fl_via_creditor st + sum_list (map line_value
      (filter (\<lambda>row. free_line db lid row \<and> category_of db (l_account row) = Cat_Cost \<and> lk = None \<and> hr \<and> \<not> hc) lns))"
  using assms
proof (induction lns arbitrary: st)
  case (Cons row lns)
  note step = add_flow_line_step[OF Cons.prems, where db = db and lid = lid and tech = tech and lk = lk and hc = hc and hr = hr and row = row]
  show ?case using Cons.IH[OF step(1)] step(2)[of p] step(3,4) by simp
qed simp

definition flow_part :: "db \<Rightarrow> uid \<Rightarrow> uid list \<Rightarrow> (uid, string) dict \<Rightarrow> string \<Rightarrow> uid \<times> entry \<Rightarrow> dec" where
  "flow_part db lid tech lents p x = value_of (\<lambda>row. free_line db lid row \<and> has_cash db lid (snd x) \<and>
     prefix p (line_category db tech (map_of lents (fst x)) row)) (snd x)"

definition cost_part :: "db \<Rightarrow> uid \<Rightarrow> (uid, string) dict \<Rightarrow> (entry \<Rightarrow> bool) \<Rightarrow> uid \<times> entry \<Rightarrow> dec" where
  "cost_part db lid lents q x = value_of (\<lambda>row. free_line db lid row \<and> category_of db (l_account row) = Cat_Cost \<and>
     map_of lents (fst x) = None \<and> q (snd x)) (snd x)"

lemma add_flow_entries:
  assumes "flows_ok st"
  shows "flows_ok (foldl (add_flow_entry db lid tech lents) st es) \<and>
    net p (foldl (add_flow_entry db lid tech lents) st es) = net p st + sum_list (map (flow_part db lid tech lents p) es) \<and>
    fl_booked (foldl (add_flow_entry db lid tech lents) st es) = fl_booked st + sum_list (map (cost_part db lid lents (\<lambda>_. True)) es) \<and>
    fl_via_creditor (foldl (add_flow_entry db lid tech lents) st es) = fl_via_creditor st +
      sum_list (map (cost_part db lid lents (\<lambda>e. has_creditor db e \<and> \<not> has_cash db lid e)) es)"
  using assms
proof (induction es arbitrary: st)
  case (Cons x es)
  obtain eid e where x: "x = (eid, e)" by (cases x)
  have s: "add_flow_entry db lid tech lents st x = foldl (add_flow_line db lid tech (map_of lents eid) (has_cash db lid e) (has_creditor db e)) st (e_lines e)"
    by (simp add: add_flow_entry_def x)
  note step = add_flow_lines[OF Cons.prems, where db = db and lid = lid and tech = tech and lk = "map_of lents eid" and
    hc = "has_cash db lid e" and hr = "has_creditor db e" and lns = "e_lines e" and p = p, folded s]
  have "flows_ok (add_flow_entry db lid tech lents st x)" using step by blast
  from Cons.IH[OF this] step show ?case
    by (simp add: x flow_part_def cost_part_def value_of_def)
qed simp

section \<open>The cash check\<close>

lemma on_value: "debit_on lns k - credit_on lns k = sum_list (map line_value (filter (\<lambda>row. l_account row = k) lns))"
  by (induction lns) (auto simp: debit_on_def credit_on_def line_value_def)

lemma value_split: "value_of p e + value_of (\<lambda>row. \<not> p row) e = sum_list (map line_value (e_lines e))"
proof -
  have "sum_list (map line_value (filter p xs)) + sum_list (map line_value (filter (\<lambda>row. \<not> p row) xs)) =
      sum_list (map line_value xs)" for xs
    by (induction xs) (auto simp: algebra_simps)
  then show ?thesis by (simp add: value_of_def)
qed

lemma value_of_none: "(\<And>row. row \<in> set (e_lines e) \<Longrightarrow> \<not> p row) \<Longrightarrow> value_of p e = 0"
proof -
  assume "\<And>row. row \<in> set (e_lines e) \<Longrightarrow> \<not> p row"
  then have "filter p (e_lines e) = []" by (simp add: filter_empty_conv)
  then show ?thesis by (simp add: value_of_def)
qed

lemma posted_entry:
  assumes inv: "ledger_inv db" and e: "(eid, e) \<in> set (entries db)" "e_status e = Posted"
  shows "balanced (e_lines e)" "accounts_of db (e_ledger e) (e_lines e)"
proof -
  have "distinct (map fst (entries db))" using inv by (simp add: ledger_inv_def entries_ok_def)
  then have "map_of (entries db) eid = Some e" using e(1) by simp
  then have "entry_ok db eid e" using inv unfolding ledger_inv_def entries_ok_def by blast
  then show "balanced (e_lines e)" "accounts_of db (e_ledger e) (e_lines e)" using e(2) by (simp_all add: entry_ok_def)
qed

lemma balanced_value:
  assumes "balanced (e_lines e)"
  shows "sum_list (map line_value (e_lines e)) = 0"
proof -
  have "sum_list (map line_value lns) = sum_list (map l_debit lns) - sum_list (map l_credit lns)" for lns
    by (induction lns) (auto simp: line_value_def)
  then show ?thesis using assms by (simp add: balanced_def)
qed

lemma cash_ids_ledger:
  assumes "distinct (map fst (accounts db))" and "k \<in> set (cash_ids db lid)"
  shows "\<exists>a. map_of (accounts db) k = Some a \<and> a_ledger a = lid"
proof -
  obtain a where a: "(k, a) \<in> set (accounts db)" "a_ledger a = lid"
    using assms(2) by (auto simp: cash_ids_def)
  then show ?thesis using assms(1) by (auto intro: exI[of _ a])
qed

lemma foreign_cash:
  assumes inv: "ledger_inv db" and keys: "distinct (map fst (accounts db))"
    and e: "(eid, e) \<in> set (entries db)" "e_status e = Posted" "e_ledger e \<noteq> lid"
  shows "value_of (\<lambda>row. l_account row \<in> set (cash_ids db lid)) e = 0"
proof (rule value_of_none)
  fix row assume row: "row \<in> set (e_lines e)"
  show "l_account row \<notin> set (cash_ids db lid)"
  proof
    assume "l_account row \<in> set (cash_ids db lid)"
    from cash_ids_ledger[OF keys this] obtain a where a: "map_of (accounts db) (l_account row) = Some a" "a_ledger a = lid" by blast
    have "a_ledger a = e_ledger e" using posted_entry(2)[OF inv e(1,2)] row a(1) by (force simp: accounts_of_def list_all_iff)
    then show False using a(2) e(3) by simp
  qed
qed

abbreviation (input) cash_value :: "db \<Rightarrow> uid \<Rightarrow> entry \<Rightarrow> dec" where
  "cash_value db lid e \<equiv> value_of (\<lambda>row. l_account row \<in> set (cash_ids db lid)) e"

lemma cash_balance:
  assumes inv: "ledger_inv db" and keys: "distinct (map fst (accounts db))"
  shows "(\<Sum>k \<leftarrow> cash_ids db lid. account_balance db k d) =
    table_sum (\<lambda>_ e. if e_status e = Posted \<and> e_ledger e = lid \<and> e_booking_date e \<le> d then cash_value db lid e else 0) (entries db)"
proof -
  have dist: "distinct (cash_ids db lid)" unfolding cash_ids_def using keys by (rule distinct_map_filter)
  have "(\<Sum>k \<leftarrow> cash_ids db lid. account_balance db k d) =
      table_sum (\<lambda>_ e. \<Sum>k \<leftarrow> cash_ids db lid. if e_status e = Posted \<and> e_booking_date e \<le> d
        then sum_list (map line_value (filter (\<lambda>row. l_account row = k) (e_lines e))) else 0) (entries db)"
    unfolding account_balance_def on_value by (rule table_sum_swap)
  also have "\<dots> = table_sum (\<lambda>_ e. if e_status e = Posted \<and> e_ledger e = lid \<and> e_booking_date e \<le> d
      then cash_value db lid e else 0) (entries db)"
  proof (rule table_sum_cong)
    fix k e assume e: "(k, e) \<in> set (entries db)"
    have zs: "(\<Sum>k \<leftarrow> xs. (0::rat)) = 0" for xs :: "uid list" by (induction xs) auto
    show "(\<Sum>k \<leftarrow> cash_ids db lid. if e_status e = Posted \<and> e_booking_date e \<le> d
        then sum_list (map line_value (filter (\<lambda>row. l_account row = k) (e_lines e))) else 0) =
      (if e_status e = Posted \<and> e_ledger e = lid \<and> e_booking_date e \<le> d then cash_value db lid e else 0)"
    proof (cases "e_status e = Posted \<and> e_booking_date e \<le> d")
      case True
      then have c: "(if e_status e = Posted \<and> e_booking_date e \<le> d then x else (0::rat)) = x" for x by simp
      show ?thesis unfolding c sum_over_accounts[OF dist, of line_value "e_lines e"]
        using True foreign_cash[OF inv keys e] by (simp add: value_of_def)
    next
      case False
      then have z: "(if e_status e = Posted \<and> e_booking_date e \<le> d then x else (0::rat)) = 0" for x by auto
      show ?thesis unfolding z zs using False by auto
    qed
  qed
  finally show ?thesis .
qed

lemma day_at_most: "valid_date d \<Longrightarrow> day d \<le> 31"
  by (auto simp: valid_date_def month_days_def split: if_splits)

lemma before_year: "valid_date d \<Longrightarrow> d \<le> prev_day (Date y 1 1) \<longleftrightarrow> d < Date y 1 1"
  using day_at_most[of d] by (cases d) (auto simp: prev_day_def date_less_iff less_eq_date_def valid_date_def month_days_def)

lemma year_entries_sum:
  fixes f :: "entry \<Rightarrow> rat"
  shows "(\<Sum>x \<leftarrow> year_entries db lid y. f (snd x)) = table_sum (\<lambda>_ e. if e_ledger e = lid \<and> e_status e = Posted \<and>
    Date y 1 1 \<le> e_booking_date e \<and> e_booking_date e \<le> Date y 12 31 then f e else 0) (entries db)"
proof -
  have "(\<Sum>x \<leftarrow> filter (\<lambda>(_, e). P e) es. f (snd x)) = table_sum (\<lambda>_ e. if P e then f e else 0) es" for P es
    by (induction es) auto
  then show ?thesis unfolding year_entries_def .
qed

text \<open>The movement of the cash accounts over a year is the cash side of the entries of the year.\<close>

lemma cash_movement:
  assumes inv: "ledger_inv db" and keys: "distinct (map fst (accounts db))"
    and dates: "list_all (\<lambda>(_, e). valid_date (e_booking_date e)) (entries db)"
  shows "(\<Sum>k \<leftarrow> cash_ids db lid. account_balance db k (Date y 12 31)) =
    (\<Sum>k \<leftarrow> cash_ids db lid. account_balance db k (prev_day (Date y 1 1))) +
    (\<Sum>x \<leftarrow> year_entries db lid y. cash_value db lid (snd x))"
proof -
  have "table_sum (\<lambda>_ e. if e_status e = Posted \<and> e_ledger e = lid \<and> e_booking_date e \<le> Date y 12 31 then f e else 0) t =
      table_sum (\<lambda>_ e. if e_status e = Posted \<and> e_ledger e = lid \<and> e_booking_date e \<le> prev_day (Date y 1 1) then f e else 0) t +
      table_sum (\<lambda>_ e. if e_ledger e = lid \<and> e_status e = Posted \<and> Date y 1 1 \<le> e_booking_date e \<and>
        e_booking_date e \<le> Date y 12 31 then f e else 0) t"
    if "list_all (\<lambda>(_, e). valid_date (e_booking_date e)) t" for f :: "entry \<Rightarrow> rat" and t
    using that
  proof (induction t)
    case (Cons x t)
    obtain k e where x: "x = (k, e)" by (cases x)
    have v: "valid_date (e_booking_date e)" using Cons.prems by (simp add: x)
    have before: "e_booking_date e < Date y 1 1 \<Longrightarrow> e_booking_date e \<le> Date y 12 31"
      by (cases "e_booking_date e") (auto simp: date_less_iff less_eq_date_def)
    show ?case using Cons before before_year[OF v, of y] by (auto simp: x not_less)
  qed simp
  then show ?thesis unfolding cash_balance[OF inv keys] year_entries_sum using dates by blast
qed

abbreviation (input) no_flows :: flows where
  "no_flows \<equiv> \<lparr>fl_in = [], fl_out = [], fl_booked = 0, fl_via_creditor = 0\<rparr>"

lemma flow_part_cash:
  assumes "balanced (e_lines e)"
  shows "flow_part db lid tech lents [] (eid, e) = - cash_value db lid e"
proof (cases "has_cash db lid e")
  case True
  then show ?thesis
    using value_split[of "\<lambda>row. l_account row \<in> set (cash_ids db lid)" e] balanced_value[OF assms]
    by (simp add: flow_part_def)
next
  case False
  then have "cash_value db lid e = 0" by (intro value_of_none) (auto simp: has_cash_def list_ex_iff)
  moreover have "flow_part db lid tech lents [] (eid, e) = 0"
    using False unfolding flow_part_def by (intro value_of_none) simp
  ultimately show ?thesis by simp
qed

lemma sum_list_partition:
  fixes f :: "'a \<Rightarrow> rat"
  shows "(\<Sum>x \<leftarrow> xs. f x) = (\<Sum>x \<leftarrow> filter p xs. f x) + (\<Sum>x \<leftarrow> filter (\<lambda>x. \<not> p x) xs. f x)"
  by (induction xs) auto

lemma sum_list_neg: "(\<Sum>x \<leftarrow> xs. - f x) = - (\<Sum>x \<leftarrow> xs. (f x :: rat))"
  by (induction xs) auto

lemma migration_rows:
  "lines_value p (filter (\<lambda>(_, e). q e) es) = (\<Sum>x \<leftarrow> filter (\<lambda>x. q (snd x)) es. value_of p (snd x))"
  unfolding lines_value_alt case_prod_beta' ..

text \<open>C26: The cash flow of a year closes: the balances of the bank and cash accounts at the end of the year
  are the opening balances plus the inflows less the outflows, whatever entries the year has, the
  takeover entries of a migration year included.\<close>

theorem cash_check_ok:
  assumes reach: "reachable db" and keys: "distinct (map fst (accounts db))"
    and dates: "list_all (\<lambda>(_, e). valid_date (e_booking_date e)) (entries db)"
  shows "cf_check_ok (cash_flow_reconciliation db lid tech lents y cost_total notes)"
proof -
  note inv = reachable_inv[OF reach]
  define es where "es = year_entries db lid y"
  define fl where "fl = foldl (add_flow_entry db lid tech lents) no_flows (filter (\<lambda>(_, e). e_kind e \<noteq> K_Opening_Balance) es)"
  have entry: "x \<in> set es \<Longrightarrow> balanced (e_lines (snd x))" for x
    using posted_entry(1)[OF inv] by (auto simp: es_def year_entries_def)
  have part: "flow_part db lid tech lents [] x = - cash_value db lid (snd x)" if "x \<in> set es" for x
    using flow_part_cash[OF entry[OF that], of db lid tech lents "fst x"] by simp
  have "net [] fl = net [] no_flows + sum_list (map (flow_part db lid tech lents [])
      (filter (\<lambda>(_, e). e_kind e \<noteq> K_Opening_Balance) es))"
    unfolding fl_def using add_flow_entries[of no_flows] by (simp add: flows_ok_def)
  also have "map (flow_part db lid tech lents []) (filter (\<lambda>(_, e). e_kind e \<noteq> K_Opening_Balance) es) =
      map (\<lambda>x. - cash_value db lid (snd x)) (filter (\<lambda>x. \<not> e_kind (snd x) = K_Opening_Balance) es)"
    using part by (intro map_cong) (auto simp: case_prod_beta')
  finally have net: "sum_list (map snd (fl_out fl)) - sum_list (map snd (fl_in fl)) =
      - (\<Sum>x \<leftarrow> filter (\<lambda>x. \<not> e_kind (snd x) = K_Opening_Balance) es. cash_value db lid (snd x))"
    by (simp add: net_def flow_Nil sum_list_neg)
  have split: "(\<Sum>x \<leftarrow> es. cash_value db lid (snd x)) =
      lines_value (\<lambda>row. l_account row \<in> set (cash_ids db lid)) (filter (\<lambda>(_, e). e_kind e = K_Opening_Balance) es) +
      (\<Sum>x \<leftarrow> filter (\<lambda>x. \<not> e_kind (snd x) = K_Opening_Balance) es. cash_value db lid (snd x))"
    unfolding migration_rows by (rule sum_list_partition)
  have none: "lines_value p [] = 0" for p by (simp add: lines_value_def)
  have "cf_check_ok (cash_flow_reconciliation db lid tech lents y cost_total notes) \<longleftrightarrow>
      (\<Sum>k \<leftarrow> cash_ids db lid. account_balance db k (prev_day (Date y 1 1))) +
      lines_value (\<lambda>row. l_account row \<in> set (cash_ids db lid)) (filter (\<lambda>(_, e). e_kind e = K_Opening_Balance) es) +
      sum_list (map snd (fl_in fl)) - sum_list (map snd (fl_out fl)) =
      (\<Sum>k \<leftarrow> cash_ids db lid. account_balance db k (Date y 12 31))"
    unfolding cash_flow_reconciliation_def Let_def es_def fl_def by (auto simp: comp_def none)
  then show ?thesis
    using net split unfolding cash_movement[OF inv keys dates] es_def by (simp add: algebra_simps)
qed

section \<open>The bridge from the flows to the distributed costs\<close>

lemma flow_partition:
  assumes "\<forall>k \<in> fst ` set d. flow_key k"
  shows "sum_list (map snd d) = flow d [''cost''] + flow d [''creditor''] + flow d [''debtor''] + flow d [''loan''] +
    flow d [''reserve''] + flow d [''revenue''] + flow d [''other'']"
  using assms
proof (induction d)
  case (Cons kv d)
  obtain k v where kv: "kv = (k, v)" by (cases kv)
  have "flow_key k" using Cons.prems by (simp add: kv)
  then have "flow (kv # d) [''cost''] + flow (kv # d) [''creditor''] + flow (kv # d) [''debtor''] + flow (kv # d) [''loan''] +
      flow (kv # d) [''reserve''] + flow (kv # d) [''revenue''] + flow (kv # d) [''other''] =
      v + (flow d [''cost''] + flow d [''creditor''] + flow d [''debtor''] + flow d [''loan''] +
      flow d [''reserve''] + flow d [''revenue''] + flow d [''other''])"
    by (auto simp: kv flow_key_def flow_def)
  then show ?case using Cons by (simp add: kv)
qed (simp add: flow_def)

lemma category_prefix:
  "prefix ''cost'' (flow_category db tech a) \<longleftrightarrow> category_of db a = Cat_Cost"
  "prefix ''creditor'' (flow_category db tech a) \<longleftrightarrow> category_of db a = Cat_Creditor"
  by (auto simp: flow_category_def split: account_category.split)

lemma cost_flow_part:
  assumes "[] \<notin> snd ` set lents"
  shows "flow_part db lid tech lents ''cost'' x = cost_part db lid lents (has_cash db lid) x"
proof (cases "map_of lents (fst x)")
  case (Some k)
  then have "(fst x, k) \<in> set lents" by (rule map_of_SomeD)
  then have "k \<noteq> []" using assms by force
  then show ?thesis using Some unfolding flow_part_def cost_part_def
    by (subst (1 2) value_of_none) (auto simp: line_category_def)
next
  case None
  then show ?thesis unfolding flow_part_def cost_part_def
    by (simp add: line_category_def category_prefix) (meson conj_commute)
qed

lemma cost_parts:
  "cost_part db lid lents (\<lambda>_. True) x = cost_part db lid lents (has_cash db lid) x +
    cost_part db lid lents (\<lambda>e. has_creditor db e \<and> \<not> has_cash db lid e) x +
    cost_part db lid lents (\<lambda>e. \<not> has_creditor db e \<and> \<not> has_cash db lid e) x"
proof -
  have z: "value_of (\<lambda>_. False) e = 0" for e by (simp add: value_of_def)
  show ?thesis unfolding cost_part_def by (cases "has_cash db lid (snd x)"; cases "has_creditor db (snd x)") (simp_all add: z)
qed

text \<open>In the bridge of the reconciliation the structural residual is, up to its sign, exactly the cost
  booked in entries that touch neither a cash nor a creditor account, and the bridge as shown adds up to
  the distributed costs only up to this residual.\<close>

lemma structure_residual_meaning:
  assumes kinds: "[] \<notin> snd ` set lents"
    and r: "r = cash_flow_reconciliation db lid tech lents y cost_total notes"
  shows "cf_structure_residual r = - (\<Sum>x \<leftarrow> filter (\<lambda>(_, e). e_kind e \<noteq> K_Opening_Balance) (year_entries db lid y).
      cost_part db lid lents (\<lambda>e. \<not> has_creditor db e \<and> \<not> has_cash db lid e) x) \<and>
    cf_cost_booked r + cf_migration_cost r + sum_list (map rn_amount notes) + cf_unexplained r =
      cost_total + cf_structure_residual r"
proof -
  define es where "es = filter (\<lambda>(_, e). e_kind e \<noteq> K_Opening_Balance) (year_entries db lid y)"
  define fl where "fl = foldl (add_flow_entry db lid tech lents) no_flows es"
  note steps = add_flow_entries[of no_flows db lid tech lents es, folded fl_def]
  have ok: "flows_ok fl" and booked: "fl_booked fl = sum_list (map (cost_part db lid lents (\<lambda>_. True)) es)"
    and vc: "fl_via_creditor fl = sum_list (map (cost_part db lid lents (\<lambda>e. has_creditor db e \<and> \<not> has_cash db lid e)) es)"
    using steps by (simp_all add: flows_ok_def)
  have "net ''cost'' fl = net ''cost'' no_flows + sum_list (map (flow_part db lid tech lents ''cost'') es)"
    using add_flow_entries[of no_flows db lid tech lents es "''cost''"] by (simp add: fl_def flows_ok_def)
  then have cost: "net ''cost'' fl = sum_list (map (cost_part db lid lents (has_cash db lid)) es)"
    using ext[of "flow_part db lid tech lents ''cost''", OF cost_flow_part[OF kinds]] by (simp add: net_def flow_def)
  have all: "fl_booked fl = net ''cost'' fl + fl_via_creditor fl +
      (\<Sum>x \<leftarrow> es. cost_part db lid lents (\<lambda>e. \<not> has_creditor db e \<and> \<not> has_cash db lid e) x)"
    unfolding booked vc cost map_cong[OF refl cost_parts] by (simp add: sum_list_addf)
  have parts: "sum_list (map snd (fl_out fl)) = flow (fl_out fl) [''cost''] + flow (fl_out fl) [''creditor''] + flow (fl_out fl) [''debtor''] +
      flow (fl_out fl) [''loan''] + flow (fl_out fl) [''reserve''] + flow (fl_out fl) [''revenue''] + flow (fl_out fl) [''other'']"
    using ok by (intro flow_partition) (simp add: flows_ok_def)
  have f: "cf_structure_residual r = (sum_list (map snd (fl_out fl)) - (flow (fl_out fl) [''reserve''] + flow (fl_out fl) [''loan''] +
      flow (fl_out fl) [''debtor''] + flow (fl_out fl) [''other''] + flow (fl_out fl) [''revenue'']) -
      (flow (fl_in fl) [''cost''] + flow (fl_in fl) [''creditor''])) -
      (flow (fl_out fl) [''creditor''] - flow (fl_in fl) [''creditor''] - fl_via_creditor fl) - fl_booked fl"
    unfolding r cash_flow_reconciliation_def Let_def fl_def es_def by simp
  have residual: "cf_structure_residual r = - (\<Sum>x \<leftarrow> es. cost_part db lid lents (\<lambda>e. \<not> has_creditor db e \<and> \<not> has_cash db lid e) x)"
    unfolding f parts using all by (simp add: net_def algebra_simps)
  have "cf_cost_booked r + cf_migration_cost r + sum_list (map rn_amount notes) + cf_unexplained r = cost_total + cf_structure_residual r"
    unfolding r cash_flow_reconciliation_def Let_def by simp
  then show ?thesis using residual unfolding es_def by blast
qed

section \<open>Examples\<close>

theorem cash_check_ok_witness:
  "cf_check_ok (cash_flow_reconciliation ex5 1 [] [] 2024 0 []) \<and>
   cf_closing (cash_flow_reconciliation ex5 1 [] [] 2024 0 []) = 40"
proof -
  have "distinct (map fst (accounts ex5))" "list_all (\<lambda>(_, e). valid_date (e_booking_date e)) (entries ex5)" by code_simp+
  from cash_check_ok[OF example_reachable(3) this]
  have "cf_check_ok (cash_flow_reconciliation ex5 1 [] [] 2024 0 [])" .
  moreover have "cf_closing (cash_flow_reconciliation ex5 1 [] [] 2024 0 []) = 40" by code_simp
  ultimately show ?thesis ..
qed

text \<open>A cost of 100 is booked against a revenue account, no money moves, and 200 are distributed.\<close>

definition cost_start :: db where
  "cost_start = start_db\<lparr>accounts := [(11, \<lparr>a_ledger = 1, a_number = ''400000'', a_category = Cat_Revenue, a_active = True\<rparr>),
     (13, \<lparr>a_ledger = 1, a_number = ''500000'', a_category = Cat_Cost, a_active = True\<rparr>)]\<rparr>"

definition cost_body :: entry_in where
  "cost_body = example_body (Date 2024 3 5) K_Custom [example_line 13 100 0, example_line 11 0 100] []"

definition cost1 :: db where "cost1 = fst (projr (create_entry_route cost_start 1 cost_body (Some 5)))"
definition cost2 :: db where "cost2 = projr (post_entry_route cost1 1 100 (Some 5))"

lemma cost_reachable: "reachable cost2"
proof -
  have r1: "\<not> isl (create_entry_route cost_start 1 cost_body (Some 5))" by code_simp
  have r2: "\<not> isl (post_entry_route cost1 1 100 (Some 5))" by code_simp
  have "ledger_step cost_start cost1" unfolding cost1_def by (rule ledger_step.create[OF projr_pair_step[OF r1]])
  moreover have "ledger_step cost1 cost2" unfolding cost2_def by (rule ledger_step.post[OF projr_step[OF r2]])
  moreover have "fresh_db cost_start" by (simp add: fresh_db_def cost_start_def start_db_def)
  ultimately show ?thesis unfolding reachable_def by (meson rtranclp.simps)
qed

definition cost_flow :: cash_flow where "cost_flow = cash_flow_reconciliation cost2 1 [] [] 2024 200 []"

lemma structure_residual_meaning_witness:
  "cf_structure_residual cost_flow = - 100 \<and>
   cf_cost_booked cost_flow + cf_migration_cost cost_flow + cf_unexplained cost_flow = 100"
proof -
  have "(\<Sum>x \<leftarrow> filter (\<lambda>(_, e). e_kind e \<noteq> K_Opening_Balance) (year_entries cost2 1 2024).
      cost_part cost2 1 [] (\<lambda>e. \<not> has_creditor cost2 e \<and> \<not> has_cash cost2 1 e) x) = 100" by code_simp
  then show ?thesis using structure_residual_meaning[OF _ cost_flow_def] by simp
qed

text \<open>The unexplained difference of a reconciliation can be zero although the distributed costs are twice
  the booked ones and nothing explains the difference: cost booked past cash and creditors enters the
  unexplained rest a second time through the structural residual.\<close>

lemma unexplained_hides_difference:
  "reachable cost2 \<and> cf_unexplained cost_flow = 0 \<and> cf_cost_booked cost_flow = 100 \<and>
   cost_flow = cash_flow_reconciliation cost2 1 [] [] 2024 200 [] \<and> cf_migrations cost_flow = 0"
proof -
  have "cf_unexplained cost_flow = 0" by code_simp
  moreover have "cf_cost_booked cost_flow = 100" "cf_migrations cost_flow = 0" by code_simp+
  ultimately show ?thesis using cost_reachable cost_flow_def by blast
qed

end
