(* ===== verification/Majority.thy ===== *)
theory Majority
  imports LedgerState
begin

text \<open>
  Majority rules per subject (\<open>mhvp/hoa/majority.py\<close>) and the access scope of a membership
  (\<open>mhvp/core/auth/scope.py\<close>): the check of a tally against a rule, the lookup of the rule of a
  community and the routes that create, change, approve and deactivate rules. Texts for display
  (\<open>rule_text\<close>, labels) and events are left out; a tally holds the numbers \<open>_num\<close> reads from it.
\<close>

section \<open>Access scope\<close>

record principal =
  pr_user :: "uid option"
  pr_api_key :: bool
  pr_platform_admin :: bool
  pr_access_reason :: bool
  pr_roles :: "string list"
  pr_entities :: "uid list"

definition SCOPED_ROLES :: "string list" where "SCOPED_ROLES = [''tax_advisor'']"

definition allowed_legal_entity_ids :: "principal option \<Rightarrow> uid list option" where
  "allowed_legal_entity_ids p =
     (case p of None \<Rightarrow> None
      | Some q \<Rightarrow>
          if pr_api_key q then None
          else if pr_platform_admin q \<and> pr_access_reason q then None
          else if pr_roles q = [] \<or> list_ex (\<lambda>r. r \<notin> set SCOPED_ROLES) (pr_roles q) then None
          else Some (pr_entities q))"

definition legal_entity_allowed :: "principal option \<Rightarrow> uid \<Rightarrow> bool" where
  "legal_entity_allowed p e = (case allowed_legal_entity_ids p of None \<Rightarrow> True | Some es \<Rightarrow> e \<in> set es)"

definition ensure_legal_entity_allowed :: "principal option \<Rightarrow> uid \<Rightarrow> unit res" where
  "ensure_legal_entity_allowed p e = guardr (legal_entity_allowed p e) Resource_Not_Found"

section \<open>Rules and tallies\<close>

definition SUBJECT_KINDS :: "string list" where
  "SUBJECT_KINDS = [''economic_plan'', ''annual_statement'', ''maintenance'', ''structural_change'', ''manager_appointment'', ''other'']"

definition MAJORITY_TYPES :: "string list" where
  "MAJORITY_TYPES = [''simple'', ''qualified_2_3'', ''qualified_3_4'', ''unanimous'', ''custom'']"

definition COUNTING_BASES :: "string list" where "COUNTING_BASES = [''heads'', ''shares'', ''units'']"

definition BASIS_TO_PRINCIPLE :: "(string, string) dict" where
  "BASIS_TO_PRINCIPLE = [(''heads'', ''head''), (''shares'', ''mea''), (''units'', ''unit'')]"

record rule_spec =
  rs_type :: string
  rs_basis :: string
  rs_numerator :: "int option"
  rs_denominator :: "int option"
  rs_approved :: bool
  rs_default :: bool

definition DEFAULT_RULE :: rule_spec where
  "DEFAULT_RULE = \<lparr>rs_type = ''simple'', rs_basis = ''heads'', rs_numerator = None, rs_denominator = None,
     rs_approved = False, rs_default = True\<rparr>"

definition threshold :: "rule_spec \<Rightarrow> rat option res" where
  "threshold rule =
     (if rs_type rule = ''qualified_2_3'' then Inr (Some (2 / 3))
      else if rs_type rule = ''qualified_3_4'' then Inr (Some (3 / 4))
      else if rs_type rule = ''custom'' then
        (case (rs_numerator rule, rs_denominator rule) of
           (Some n, Some d) \<Rightarrow> if n = 0 \<or> d = 0 then Inl Value_Error else Inr (Some (of_int n / of_int d))
         | _ \<Rightarrow> Inl Value_Error)
      else if rs_type rule = ''simple'' then Inr (Some (1 / 2))
      else Inr None)"

record tally =
  vt_principle :: "string option"
  vt_yes :: "dec option"
  vt_no :: "dec option"
  vt_abstain :: "dec option"
  vt_eligible :: "dec option"

datatype obstacle = No_Subject | No_Tally | Incomplete_Tally | Other_Basis | No_Eligible | No_Fraction

datatype verdict = Reached | Not_Reached | Not_Checkable obstacle

record check =
  ck_subject :: "string option"
  ck_standard :: bool
  ck_approved :: bool
  ck_result :: verdict

definition verdict_of :: "bool \<Rightarrow> verdict" where
  "verdict_of ok = (if ok then Reached else Not_Reached)"

definition verdict_on :: "rule_spec \<Rightarrow> tally option \<Rightarrow> string option \<Rightarrow> verdict" where
  "verdict_on rule votes subject =
     (if subject = None then Not_Checkable No_Subject
      else case votes of None \<Rightarrow> Not_Checkable No_Tally
      | Some v \<Rightarrow>
        (case (vt_yes v, vt_no v) of
           (Some yes, Some no) \<Rightarrow>
             if yes < 0 \<or> no < 0 then Not_Checkable Incomplete_Tally
             else if vt_principle v \<noteq> map_of BASIS_TO_PRINCIPLE (rs_basis rule) then Not_Checkable Other_Basis
             else if rs_type rule = ''unanimous'' then
               (case vt_eligible v of None \<Rightarrow> Not_Checkable No_Eligible
                | Some eligible \<Rightarrow>
                    if eligible \<le> 0 then Not_Checkable No_Eligible
                    else verdict_of (yes = eligible \<and> no = 0 \<and> (case vt_abstain v of None \<Rightarrow> 0 | Some a \<Rightarrow> a) = 0))
             else (case threshold rule of
                 Inl _ \<Rightarrow> Not_Checkable No_Fraction
               | Inr share \<Rightarrow>
                   (case share of
                      None \<Rightarrow> verdict_of (no < yes)
                    | Some s \<Rightarrow>
                        if rs_type rule = ''simple'' then verdict_of (no < yes)
                        else verdict_of (0 < yes + no \<and> s * (yes + no) \<le> yes)))
         | _ \<Rightarrow> Not_Checkable Incomplete_Tally))"

definition evaluate :: "rule_spec \<Rightarrow> tally option \<Rightarrow> string option \<Rightarrow> check" where
  "evaluate rule votes subject =
     \<lparr>ck_subject = subject, ck_standard = rs_default rule, ck_approved = rs_approved rule,
      ck_result = verdict_on rule votes subject\<rparr>"

section \<open>Stored rules\<close>

record rule_row =
  hr_entity :: "uid option"
  hr_subject :: string
  hr_type :: string
  hr_numerator :: "int option"
  hr_denominator :: "int option"
  hr_basis :: string
  hr_source :: string
  hr_created_by :: "uid option"
  hr_updated_by :: "uid option"
  hr_approved_by :: "uid option"
  hr_active :: bool

text \<open>\<open>md_entities\<close>: the legal entities of the tenant, with whether each is a community.\<close>

record majority_db =
  md_entities :: "(uid, bool) dict"
  md_rules :: "(uid, rule_row) dict"
  md_next :: uid

definition spec_of :: "rule_row option \<Rightarrow> rule_spec" where
  "spec_of row = (case row of None \<Rightarrow> DEFAULT_RULE
     | Some r \<Rightarrow> \<lparr>rs_type = hr_type r, rs_basis = hr_basis r, rs_numerator = hr_numerator r,
         rs_denominator = hr_denominator r, rs_approved = (hr_approved_by r \<noteq> None), rs_default = False\<rparr>)"

definition find_rule :: "majority_db \<Rightarrow> uid \<Rightarrow> string option \<Rightarrow> (uid \<times> rule_row) option" where
  "find_rule db entity subject =
     (case subject of None \<Rightarrow> None
      | Some s \<Rightarrow>
          (let rows = filter (\<lambda>(_, r). hr_subject r = s \<and> hr_active r \<and> (hr_entity r = Some entity \<or> hr_entity r = None)) (md_rules db);
               override = filter (\<lambda>(_, r). hr_entity r \<noteq> None) rows;
               pick = (if override = [] then rows else override)
           in case pick of [] \<Rightarrow> None | x # _ \<Rightarrow> Some x))"

section \<open>The routes\<close>

record rule_in =
  ri_entity :: "uid option"
  ri_subject :: string
  ri_type :: string
  ri_numerator :: "int option"
  ri_denominator :: "int option"
  ri_basis :: string
  ri_source :: string

definition in_range_1000 :: "int option \<Rightarrow> bool" where
  "in_range_1000 n = (case n of None \<Rightarrow> True | Some k \<Rightarrow> 1 \<le> k \<and> k \<le> 1000)"

definition rule_in_ok :: "rule_in \<Rightarrow> bool" where
  "rule_in_ok b \<longleftrightarrow>
     ri_subject b \<in> set SUBJECT_KINDS \<and> ri_type b \<in> set MAJORITY_TYPES \<and>
     in_range_1000 (ri_numerator b) \<and> in_range_1000 (ri_denominator b) \<and>
     ri_basis b \<in> set COUNTING_BASES \<and> 3 \<le> length (ri_source b) \<and> length (ri_source b) \<le> 4000 \<and>
     (if ri_type b = ''custom''
      then (case (ri_numerator b, ri_denominator b) of (Some n, Some d) \<Rightarrow> n \<le> d | _ \<Rightarrow> False)
      else ri_numerator b = None \<and> ri_denominator b = None)"

definition load_rule :: "majority_db \<Rightarrow> principal option \<Rightarrow> uid \<Rightarrow> rule_row res" where
  "load_rule db p rid =
     (case map_of (md_rules db) rid of
        None \<Rightarrow> Inl Resource_Not_Found
      | Some row \<Rightarrow>
          if \<not> hr_active row then Inl Resource_Not_Found
          else case hr_entity row of None \<Rightarrow> Inr row
            | Some e \<Rightarrow> bindr (ensure_legal_entity_allowed p e) (\<lambda>_. Inr row))"

definition ensure_community :: "majority_db \<Rightarrow> principal option \<Rightarrow> uid option \<Rightarrow> unit res" where
  "ensure_community db p entity =
     (case entity of None \<Rightarrow> Inr ()
      | Some e \<Rightarrow> bindr (ensure_legal_entity_allowed p e) (\<lambda>_.
          guardr (map_of (md_entities db) e = Some True) Validation))"

definition ensure_unique :: "majority_db \<Rightarrow> rule_in \<Rightarrow> uid option \<Rightarrow> unit res" where
  "ensure_unique db b skip =
     guardr (\<not> list_ex (\<lambda>(k, r). hr_subject r = ri_subject b \<and> hr_active r \<and> hr_entity r = ri_entity b \<and> Some k \<noteq> skip)
       (md_rules db)) Conflict"

definition put_rule :: "majority_db \<Rightarrow> uid \<Rightarrow> rule_row \<Rightarrow> majority_db" where
  "put_rule db k r = db\<lparr>md_rules := AList.update k r (md_rules db)\<rparr>"

definition user_of :: "principal option \<Rightarrow> uid option" where
  "user_of p = (case p of None \<Rightarrow> None | Some q \<Rightarrow> pr_user q)"

definition create_subject_rule :: "majority_db \<Rightarrow> principal option \<Rightarrow> rule_in \<Rightarrow> (majority_db \<times> uid) res" where
  "create_subject_rule db p b =
     (if \<not> rule_in_ok b then Inl Validation
      else bindr (ensure_community db p (ri_entity b)) (\<lambda>_.
        bindr (ensure_unique db b None) (\<lambda>_.
          (let row = \<lparr>hr_entity = ri_entity b, hr_subject = ri_subject b, hr_type = ri_type b,
                 hr_numerator = ri_numerator b, hr_denominator = ri_denominator b, hr_basis = ri_basis b,
                 hr_source = ri_source b, hr_created_by = user_of p, hr_updated_by = None,
                 hr_approved_by = None, hr_active = True\<rparr>
           in Inr ((put_rule db (md_next db) row)\<lparr>md_next := md_next db + 1\<rparr>, md_next db)))))"

definition update_subject_rule :: "majority_db \<Rightarrow> principal option \<Rightarrow> uid \<Rightarrow> rule_in \<Rightarrow> majority_db res" where
  "update_subject_rule db p rid b =
     (if \<not> rule_in_ok b then Inl Validation
      else bindr (load_rule db p rid) (\<lambda>row.
        bindr (ensure_community db p (ri_entity b)) (\<lambda>_.
        bindr (ensure_unique db b (Some rid)) (\<lambda>_.
          Inr (put_rule db rid (row\<lparr>hr_entity := ri_entity b, hr_subject := ri_subject b, hr_type := ri_type b,
            hr_numerator := ri_numerator b, hr_denominator := ri_denominator b, hr_basis := ri_basis b,
            hr_source := ri_source b, hr_updated_by := user_of p, hr_approved_by := None\<rparr>))))))"

definition approve_subject_rule :: "majority_db \<Rightarrow> principal option \<Rightarrow> uid \<Rightarrow> majority_db res" where
  "approve_subject_rule db p rid =
     bindr (load_rule db p rid) (\<lambda>row.
       if user_of p = hr_created_by row \<or> user_of p = hr_updated_by row then Inl Conflict
       else Inr (put_rule db rid (row\<lparr>hr_approved_by := user_of p\<rparr>)))"

definition delete_subject_rule :: "majority_db \<Rightarrow> principal option \<Rightarrow> uid \<Rightarrow> majority_db res" where
  "delete_subject_rule db p rid =
     bindr (load_rule db p rid) (\<lambda>row.
       Inr (put_rule db rid (row\<lparr>hr_active := False, hr_updated_by := user_of p\<rparr>)))"

section \<open>Invariant of the stored rules\<close>

definition rule_key :: "rule_row \<Rightarrow> uid option \<times> string" where
  "rule_key r = (hr_entity r, hr_subject r)"

definition terms_valid :: "string \<Rightarrow> string \<Rightarrow> int option \<Rightarrow> int option \<Rightarrow> bool" where
  "terms_valid ty basis n d \<longleftrightarrow> ty \<in> set MAJORITY_TYPES \<and> basis \<in> set COUNTING_BASES \<and>
     (if ty = ''custom'' then \<exists>a b. n = Some a \<and> d = Some b \<and> 1 \<le> a \<and> a \<le> b \<and> b \<le> 1000 else n = None \<and> d = None)"

definition second_person :: "rule_row \<Rightarrow> bool" where
  "second_person r \<longleftrightarrow> hr_approved_by r = None \<or> hr_approved_by r \<noteq> hr_created_by r \<and> hr_approved_by r \<noteq> hr_updated_by r"

definition rules_inv :: "majority_db \<Rightarrow> bool" where
  "rules_inv db \<longleftrightarrow> distinct (map fst (md_rules db)) \<and> (\<forall>k \<in> fst ` set (md_rules db). k < md_next db) \<and>
     (\<forall>k r. (k, r) \<in> set (md_rules db) \<longrightarrow> hr_active r \<longrightarrow>
        terms_valid (hr_type r) (hr_basis r) (hr_numerator r) (hr_denominator r) \<and> second_person r) \<and>
     (\<forall>k r k' r'. (k, r) \<in> set (md_rules db) \<longrightarrow> (k', r') \<in> set (md_rules db) \<longrightarrow> hr_active r \<longrightarrow> hr_active r' \<longrightarrow>
        rule_key r = rule_key r' \<longrightarrow> k = k')"

lemma rule_in_terms: "rule_in_ok b \<Longrightarrow> terms_valid (ri_type b) (ri_basis b) (ri_numerator b) (ri_denominator b)"
  by (auto simp: rule_in_ok_def terms_valid_def in_range_1000_def split: option.splits if_splits)

text \<open>Writing a row keeps the invariant when the row is well formed and its key is free.\<close>

lemma put_rule_inv:
  assumes inv: "rules_inv db" and k: "k < md_next db"
    and row: "hr_active r \<Longrightarrow> terms_valid (hr_type r) (hr_basis r) (hr_numerator r) (hr_denominator r) \<and> second_person r"
    and free: "\<And>k' r'. hr_active r \<Longrightarrow> (k', r') \<in> set (md_rules db) \<Longrightarrow> hr_active r' \<Longrightarrow> rule_key r' = rule_key r \<Longrightarrow> k' = k"
  shows "rules_inv (put_rule db k r)"
proof -
  have mem: "x \<in> set (md_rules (put_rule db k r)) \<longleftrightarrow> x = (k, r) \<or> x \<in> set (md_rules db) \<and> fst x \<noteq> k" for x
    using inv by (cases x) (auto simp: put_rule_def set_update rules_inv_def)
  have keys: "distinct (map fst (md_rules (put_rule db k r)))" using inv by (simp add: put_rule_def rules_inv_def)
  show ?thesis
    unfolding rules_inv_def mem
  proof (intro conjI)
    show "distinct (map fst (md_rules (put_rule db k r)))" by (rule keys)
    show "\<forall>k' \<in> fst ` set (md_rules (put_rule db k r)). k' < md_next (put_rule db k r)"
      using inv k by (auto simp: put_rule_def fst_update rules_inv_def)
  qed (use inv row free in \<open>auto simp: rules_inv_def dest: free\<close>)
qed

lemma load_rule_active:
  "load_rule db p rid = Inr row \<Longrightarrow> map_of (md_rules db) rid = Some row \<and> hr_active row"
  by (auto simp: load_rule_def bindr_eq_Inr split: option.splits if_splits)

lemma unique_free:
  assumes "ensure_unique db b skip = Inr u" and "(k', r') \<in> set (md_rules db)" and "hr_active r'"
    and "rule_key r' = (ri_entity b, ri_subject b)"
  shows "skip = Some k'"
  using assms by (auto simp: ensure_unique_def list_ex_iff rule_key_def)

inductive majority_step :: "majority_db \<Rightarrow> majority_db \<Rightarrow> bool" where
  create: "create_subject_rule db p b = Inr (db', k) \<Longrightarrow> majority_step db db'"
| update: "update_subject_rule db p k b = Inr db' \<Longrightarrow> majority_step db db'"
| approve: "approve_subject_rule db p k = Inr db' \<Longrightarrow> majority_step db db'"
| delete: "delete_subject_rule db p k = Inr db' \<Longrightarrow> majority_step db db'"

lemma rule_step_inv:
  assumes "majority_step db db'" and inv: "rules_inv db"
  shows "rules_inv db'"
  using assms(1)
proof cases
  case (create p b k)
  note c = create[unfolded create_subject_rule_def]
  then have ok: "rule_in_ok b" and u: "ensure_unique db b None = Inr ()"
    by (auto simp: bindr_eq_Inr split: if_splits)
  obtain row where row: "db' = (put_rule db (md_next db) row)\<lparr>md_next := md_next db + 1\<rparr>"
    and f: "hr_type row = ri_type b" "hr_basis row = ri_basis b" "hr_numerator row = ri_numerator b"
      "hr_denominator row = ri_denominator b" "rule_key row = (ri_entity b, ri_subject b)" "hr_approved_by row = None"
    using c ok by (auto simp: bindr_eq_Inr rule_key_def Let_def)
  have "rules_inv (db\<lparr>md_next := md_next db + 1\<rparr>)" using inv by (auto simp: rules_inv_def less_Suc_eq)
  then have "rules_inv (put_rule (db\<lparr>md_next := md_next db + 1\<rparr>) (md_next db) row)"
    by (rule put_rule_inv) (use rule_in_terms[OF ok] unique_free[OF u] f in \<open>auto simp: second_person_def\<close>)
  then show ?thesis unfolding row by (simp add: put_rule_def rules_inv_def)
next
  case (update p k b)
  note c = update[unfolded update_subject_rule_def]
  then have ok: "rule_in_ok b" and u: "ensure_unique db b (Some k) = Inr ()"
    by (auto simp: bindr_eq_Inr split: if_splits)
  obtain row where load: "load_rule db p k = Inr row" and row: "db' = put_rule db k (row\<lparr>hr_entity := ri_entity b,
      hr_subject := ri_subject b, hr_type := ri_type b, hr_numerator := ri_numerator b, hr_denominator := ri_denominator b,
      hr_basis := ri_basis b, hr_source := ri_source b, hr_updated_by := user_of p, hr_approved_by := None\<rparr>)"
    using c ok by (auto simp: bindr_eq_Inr)
  have "k \<in> fst ` set (md_rules db)" using load_rule_active[OF load] by (force dest: map_of_SomeD)
  then have k: "k < md_next db" using inv by (auto simp: rules_inv_def)
  show ?thesis unfolding row
    by (rule put_rule_inv[OF inv k]) (use rule_in_terms[OF ok] unique_free[OF u] in \<open>auto simp: second_person_def rule_key_def\<close>)
next
  case (approve p k)
  obtain row where load: "load_rule db p k = Inr row" and row: "db' = put_rule db k (row\<lparr>hr_approved_by := user_of p\<rparr>)"
    and other: "user_of p \<noteq> hr_created_by row" "user_of p \<noteq> hr_updated_by row"
    using approve by (auto simp: approve_subject_rule_def bindr_eq_Inr split: if_splits)
  note m = load_rule_active[OF load]
  then have mem: "(k, row) \<in> set (md_rules db)" by (auto dest: map_of_SomeD)
  then have k: "k < md_next db" using inv by (force simp: rules_inv_def)
  show ?thesis unfolding row
    by (rule put_rule_inv[OF inv k]) (use inv m mem other in \<open>auto simp: second_person_def rule_key_def rules_inv_def\<close>)
next
  case (delete p k)
  obtain row where load: "load_rule db p k = Inr row" and row: "db' = put_rule db k (row\<lparr>hr_active := False, hr_updated_by := user_of p\<rparr>)"
    using delete by (auto simp: delete_subject_rule_def bindr_eq_Inr)
  have "k \<in> fst ` set (md_rules db)" using load_rule_active[OF load] by (force dest: map_of_SomeD)
  then have k: "k < md_next db" using inv by (auto simp: rules_inv_def)
  show ?thesis unfolding row by (rule put_rule_inv[OF inv k]) simp_all
qed

definition fresh_rules :: "majority_db \<Rightarrow> bool" where "fresh_rules db \<longleftrightarrow> md_rules db = []"

definition reachable_rules :: "majority_db \<Rightarrow> bool" where
  "reachable_rules db \<longleftrightarrow> (\<exists>db0. fresh_rules db0 \<and> majority_step\<^sup>*\<^sup>* db0 db)"

interpretation rules: machine fresh_rules majority_step rules_inv
  by unfold_locales (simp add: fresh_rules_def rules_inv_def, rule rule_step_inv)

lemma reachable_rules_inv: "reachable_rules db \<Longrightarrow> rules_inv db"
  unfolding reachable_rules_def using rules.inv_reach by blast

text \<open>C32: In every state the routes reach, an active majority rule is well formed - known type and counting
  basis, a fraction between zero and one exactly for an own majority -, a functional release comes from
  a person who neither created nor last changed it, and a community has at most one active rule per
  subject.\<close>

theorem majority_rules_invariant:
  assumes reach: "reachable_rules db" and r: "map_of (md_rules db) k = Some r" "hr_active r"
  shows "terms_valid (hr_type r) (hr_basis r) (hr_numerator r) (hr_denominator r) \<and>
    (hr_approved_by r = None \<or> hr_approved_by r \<notin> {hr_created_by r, hr_updated_by r}) \<and>
    card {k' \<in> fst ` set (md_rules db). \<exists>r'. map_of (md_rules db) k' = Some r' \<and> hr_active r' \<and> rule_key r' = rule_key r} = 1"
proof -
  note inv = reachable_rules_inv[OF reach]
  have mem: "(k, r) \<in> set (md_rules db)" using r(1) by (rule map_of_SomeD)
  have row: "terms_valid (hr_type r) (hr_basis r) (hr_numerator r) (hr_denominator r)" "second_person r"
    using inv mem r(2) unfolding rules_inv_def by blast+
  have "k' = k" if "map_of (md_rules db) k' = Some r'" "hr_active r'" "rule_key r' = rule_key r" for k' r'
    using inv mem r(2) that(2,3) map_of_SomeD[OF that(1)] unfolding rules_inv_def by blast
  note uniq = this
  have kk: "k \<in> fst ` set (md_rules db)" using mem by (rule image_eqI[rotated]) simp
  have "{k' \<in> fst ` set (md_rules db). \<exists>r'. map_of (md_rules db) k' = Some r' \<and> hr_active r' \<and> rule_key r' = rule_key r} = {k}"
  proof (intro equalityI subsetI)
    fix x assume "x \<in> {k' \<in> fst ` set (md_rules db). \<exists>r'. map_of (md_rules db) k' = Some r' \<and> hr_active r' \<and> rule_key r' = rule_key r}"
    then obtain r' where "map_of (md_rules db) x = Some r'" "hr_active r'" "rule_key r' = rule_key r" by blast
    then have "x = k" by (rule uniq)
    then show "x \<in> {k}" by simp
  next
    fix x assume "x \<in> {k}"
    then show "x \<in> {k' \<in> fst ` set (md_rules db). \<exists>r'. map_of (md_rules db) k' = Some r' \<and> hr_active r' \<and> rule_key r' = rule_key r}"
      using kk r by simp
  qed
  then have one: "card {k' \<in> fst ` set (md_rules db). \<exists>r'. map_of (md_rules db) k' = Some r' \<and> hr_active r' \<and> rule_key r' = rule_key r} = 1"
    by simp
  show ?thesis using row one by (auto simp: second_person_def)
qed

section \<open>The stored rules as a map\<close>

text \<open>
  What the table stands for: for the tenant (\<open>None\<close>) or a community and a subject, the one active
  rule. The routes add, change, release and remove one binding of this map.
\<close>

type_synonym rule_map = "uid option \<times> string \<Rightarrow> (uid \<times> rule_row) option"

definition active_rule :: "majority_db \<Rightarrow> rule_map" where
  "active_rule db key = find (\<lambda>(_, r). hr_active r \<and> rule_key r = key) (md_rules db)"

inductive map_step :: "rule_map \<Rightarrow> rule_map \<Rightarrow> bool" where
  add: "m (rule_key r) = None \<Longrightarrow> hr_approved_by r = None \<Longrightarrow> map_step m (m(rule_key r \<mapsto> (k, r)))"
| change: "m (rule_key r) = Some (k, r) \<Longrightarrow> m (rule_key r') = None \<or> rule_key r' = rule_key r \<Longrightarrow>
    hr_approved_by r' = None \<Longrightarrow> map_step m (m(rule_key r := None, rule_key r' \<mapsto> (k, r')))"
| free: "m (rule_key r) = Some (k, r) \<Longrightarrow> u \<noteq> hr_created_by r \<Longrightarrow> u \<noteq> hr_updated_by r \<Longrightarrow>
    map_step m (m(rule_key r \<mapsto> (k, r\<lparr>hr_approved_by := u\<rparr>)))"
| remove: "m (rule_key r) = Some (k, r) \<Longrightarrow> map_step m (m(rule_key r := None))"

lemma active_rule_found:
  assumes "active_rule db key = Some (k, r)"
  shows "(k, r) \<in> set (md_rules db)" "hr_active r" "rule_key r = key"
proof -
  obtain i where i: "i < length (md_rules db)" "md_rules db ! i = (k, r)" "hr_active r \<and> rule_key r = key"
    using assms unfolding active_rule_def find_Some_iff by auto
  then show "(k, r) \<in> set (md_rules db)" "hr_active r" "rule_key r = key" by (metis nth_mem, simp_all)
qed

lemma active_rule_Some:
  assumes "rules_inv db"
  shows "active_rule db key = Some (k, r) \<longleftrightarrow> map_of (md_rules db) k = Some r \<and> hr_active r \<and> rule_key r = key"
proof
  assume "active_rule db key = Some (k, r)"
  from active_rule_found[OF this] show "map_of (md_rules db) k = Some r \<and> hr_active r \<and> rule_key r = key"
    using assms by (simp add: rules_inv_def)
next
  assume a: "map_of (md_rules db) k = Some r \<and> hr_active r \<and> rule_key r = key"
  then have mem: "(k, r) \<in> set (md_rules db)" by (simp add: map_of_SomeD)
  then have "active_rule db key \<noteq> None" using a by (auto simp: active_rule_def find_None_iff)
  then obtain k' r' where s: "active_rule db key = Some (k', r')" by auto
  note m' = active_rule_found[OF s]
  then have "k = k'" using assms mem a unfolding rules_inv_def by blast
  moreover have "map_of (md_rules db) k' = Some r'" using assms m'(1) by (simp add: rules_inv_def)
  ultimately show "active_rule db key = Some (k, r)" using s a by simp
qed

lemma active_rule_None:
  "active_rule db key = None \<longleftrightarrow> (\<forall>(k, r) \<in> set (md_rules db). hr_active r \<longrightarrow> rule_key r \<noteq> key)"
  by (auto simp: active_rule_def find_None_iff)

lemma active_rule_put:
  assumes inv: "rules_inv db" "rules_inv (put_rule db k r)"
  shows "active_rule (put_rule db k r) key =
    (if hr_active r \<and> rule_key r = key then Some (k, r)
     else case active_rule db key of None \<Rightarrow> None | Some (k', r') \<Rightarrow> if k' = k then None else Some (k', r'))"
proof (cases "active_rule (put_rule db k r) key")
  case None
  have "(k, r) \<in> set (md_rules (put_rule db k r))" using inv(1) by (auto simp: put_rule_def set_update rules_inv_def)
  then have "\<not> (hr_active r \<and> rule_key r = key)" using None unfolding active_rule_None by blast
  moreover have "k' = k" if "active_rule db key = Some (k', r')" for k' r'
  proof (rule ccontr)
    assume "k' \<noteq> k"
    then have "active_rule (put_rule db k r) key = Some (k', r')"
      using that unfolding active_rule_Some[OF inv(1)] active_rule_Some[OF inv(2)] by (simp add: put_rule_def map_of_update)
    then show False using None by simp
  qed
  ultimately show ?thesis using None by (auto split: option.split)
next
  case (Some x)
  obtain k' r' where x: "x = (k', r')" by (cases x)
  note s = Some[unfolded x active_rule_Some[OF inv(2)]]
  show ?thesis
  proof (cases "k' = k")
    case True
    then show ?thesis using s Some x by (simp add: put_rule_def map_of_update)
  next
    case False
    then have old: "active_rule db key = Some (k', r')"
      using s unfolding active_rule_Some[OF inv(1)] by (simp add: put_rule_def map_of_update)
    have "\<not> (hr_active r \<and> rule_key r = key)"
    proof
      assume a: "hr_active r \<and> rule_key r = key"
      then have "active_rule (put_rule db k r) key = Some (k, r)"
        unfolding active_rule_Some[OF inv(2)] by (simp add: put_rule_def map_of_update)
      then show False using Some x False by simp
    qed
    then show ?thesis using old Some x False by simp
  qed
qed

lemma put_binding:
  assumes inv: "rules_inv db" "rules_inv (put_rule db k r')" and old: "map_of (md_rules db) k = Some r" "hr_active r"
  shows "active_rule (put_rule db k r') =
    (if hr_active r' then (active_rule db)(rule_key r := None, rule_key r' \<mapsto> (k, r')) else (active_rule db)(rule_key r := None))"
proof (rule ext)
  fix key
  have o: "active_rule db (rule_key r) = Some (k, r)" using old unfolding active_rule_Some[OF inv(1)] by simp
  have other: "k' \<noteq> k" if "key \<noteq> rule_key r" "active_rule db key = Some (k', r'')" for k' r''
    using that old(1) active_rule_Some[OF inv(1), of key k' r''] by auto
  show "active_rule (put_rule db k r') key =
    (if hr_active r' then (active_rule db)(rule_key r := None, rule_key r' \<mapsto> (k, r')) else (active_rule db)(rule_key r := None)) key"
  proof (cases "key = rule_key r")
    case True
    then show ?thesis unfolding active_rule_put[OF inv] True o by simp
  next
    case False
    then have "(case active_rule db key of None \<Rightarrow> None | Some (k', r') \<Rightarrow> if k' = k then None else Some (k', r')) = active_rule db key"
      using other by (cases "active_rule db key") auto
    then show ?thesis using False unfolding active_rule_put[OF inv] by simp
  qed
qed

lemma unique_key:
  assumes "ensure_unique db b skip = Inr u"
  shows "active_rule db (ri_entity b, ri_subject b) = None \<or>
    (\<exists>k r. active_rule db (ri_entity b, ri_subject b) = Some (k, r) \<and> skip = Some k)"
proof (cases "active_rule db (ri_entity b, ri_subject b)")
  case (Some x)
  obtain k r where x: "x = (k, r)" by (cases x)
  note f = active_rule_found[OF Some[unfolded x]]
  show ?thesis using unique_free[OF assms f] Some x by simp
qed simp

lemma load_binding:
  assumes "rules_inv db" and "load_rule db p k = Inr r"
  shows "active_rule db (rule_key r) = Some (k, r)" "map_of (md_rules db) k = Some r" "hr_active r"
  using load_rule_active[OF assms(2)] active_rule_Some[OF assms(1)] by auto

lemma step_refines:
  assumes inv: "rules_inv db" and step: "majority_step db db'"
  shows "map_step (active_rule db) (active_rule db')"
proof -
  note inv' = rule_step_inv[OF step inv]
  from step show ?thesis
  proof cases
    case (create p b k)
    note c = create[unfolded create_subject_rule_def]
    then have u: "ensure_unique db b None = Inr ()" by (auto simp: bindr_eq_Inr split: if_splits)
    obtain row where row: "db' = (put_rule db (md_next db) row)\<lparr>md_next := md_next db + 1\<rparr>"
      and f: "rule_key row = (ri_entity b, ri_subject b)" "hr_approved_by row = None" "hr_active row"
      using c by (auto simp: bindr_eq_Inr rule_key_def Let_def split: if_splits)
    have new: "active_rule db (rule_key row) = None" using unique_key[OF u] f(1) by simp
    have "md_next db \<notin> fst ` set (md_rules db)" using inv by (auto simp: rules_inv_def)
    then have app: "md_rules db' = md_rules db @ [(md_next db, row)]" unfolding row by (simp add: put_rule_def update_new)
    have "active_rule db' = (active_rule db)(rule_key row \<mapsto> (md_next db, row))"
    proof (rule ext)
      fix key
      have app_find: "find P (xs @ [x]) = (case find P xs of None \<Rightarrow> if P x then Some x else None | Some y \<Rightarrow> Some y)" for P xs and x :: "uid \<times> rule_row"
        by (induction xs) auto
      show "active_rule db' key = ((active_rule db)(rule_key row \<mapsto> (md_next db, row))) key"
        using new f(3) by (auto simp: active_rule_def app app_find split: option.split)
    qed
    then show ?thesis using map_step.add[of "active_rule db" row "md_next db", OF new f(2)] by simp
  next
    case (update p k b)
    note c = update[unfolded update_subject_rule_def]
    then have u: "ensure_unique db b (Some k) = Inr ()" by (auto simp: bindr_eq_Inr split: if_splits)
    obtain row row' where load: "load_rule db p k = Inr row" and row: "db' = put_rule db k row'"
      and f: "rule_key row' = (ri_entity b, ri_subject b)" "hr_approved_by row' = None" "hr_active row' = hr_active row"
      using c by (auto simp: bindr_eq_Inr rule_key_def split: if_splits)
    note l = load_binding[OF inv load]
    have free: "active_rule db (rule_key row') = None \<or> rule_key row' = rule_key row"
      using unique_key[OF u] f(1) l(2) active_rule_Some[OF inv] by auto
    have "active_rule db' = (active_rule db)(rule_key row := None, rule_key row' \<mapsto> (k, row'))"
      using put_binding[OF inv inv'[unfolded row] l(2,3)] f(3) l(3) unfolding row by simp
    then show ?thesis using map_step.change[of "active_rule db" row k row', OF l(1) free f(2)] by simp
  next
    case (approve p k)
    obtain row where load: "load_rule db p k = Inr row" and row: "db' = put_rule db k (row\<lparr>hr_approved_by := user_of p\<rparr>)"
      and other: "user_of p \<noteq> hr_created_by row" "user_of p \<noteq> hr_updated_by row"
      using approve by (auto simp: approve_subject_rule_def bindr_eq_Inr split: if_splits)
    note l = load_binding[OF inv load]
    have "active_rule db' = (active_rule db)(rule_key row \<mapsto> (k, row\<lparr>hr_approved_by := user_of p\<rparr>))"
      using put_binding[OF inv inv'[unfolded row] l(2,3)] l(3) unfolding row by (simp add: rule_key_def)
    then show ?thesis using map_step.free[of "active_rule db" row k "user_of p", OF l(1) other] by simp
  next
    case (delete p k)
    obtain row where load: "load_rule db p k = Inr row" and row: "db' = put_rule db k (row\<lparr>hr_active := False, hr_updated_by := user_of p\<rparr>)"
      using delete by (auto simp: delete_subject_rule_def bindr_eq_Inr)
    note l = load_binding[OF inv load]
    have "active_rule db' = (active_rule db)(rule_key row := None)"
      using put_binding[OF inv inv'[unfolded row] l(2,3)] unfolding row by simp
    then show ?thesis using map_step.remove[of "active_rule db" row k, OF l(1)] by simp
  qed
qed

lemma find_rule_lookup:
  "find_rule db e (Some s) =
    (case active_rule db (Some e, s) of Some x \<Rightarrow> Some x | None \<Rightarrow> active_rule db (None, s))"
proof -
  have pick: "(case filter P xs of [] \<Rightarrow> None | x # _ \<Rightarrow> Some x) = find P xs" for P and xs :: "(uid \<times> rule_row) list"
    by (induction xs) auto
  define rows where "rows = filter (\<lambda>(_, r). hr_subject r = s \<and> hr_active r \<and> (hr_entity r = Some e \<or> hr_entity r = None)) (md_rules db)"
  define own where "own = filter (\<lambda>(_, r). hr_entity r \<noteq> None) rows"
  have over: "own = filter (\<lambda>(_, r). hr_active r \<and> rule_key r = (Some e, s)) (md_rules db)"
    unfolding own_def rows_def filter_filter by (rule filter_cong) (auto simp: rule_key_def)
  have fr: "find_rule db e (Some s) = (case (if own = [] then rows else own) of [] \<Rightarrow> None | x # _ \<Rightarrow> Some x)"
    by (simp only: find_rule_def option.case Let_def rows_def own_def)
  have first: "(case own of [] \<Rightarrow> None | x # _ \<Rightarrow> Some x) = active_rule db (Some e, s)"
    unfolding over active_rule_def by (rule pick)
  show ?thesis
  proof (cases "own = []")
    case True
    then have "rows = filter (\<lambda>(_, r). hr_active r \<and> rule_key r = (None, s)) (md_rules db)"
      unfolding rows_def own_def by (intro filter_cong) (auto simp: rule_key_def filter_empty_conv)
    then have "(case rows of [] \<Rightarrow> None | x # _ \<Rightarrow> Some x) = active_rule db (None, s)"
      unfolding active_rule_def using pick by simp
    then show ?thesis using True first fr by simp
  next
    case False
    then obtain x xs where "own = x # xs" by (cases own) auto
    then show ?thesis using first[symmetric] fr by simp
  qed
qed

text \<open>C33: The table of majority rules implements the map of its active rules: in every reachable state every
  change by a route adds, changes, releases or removes exactly one binding, and the lookup for a
  resolution is the binding of its community, else that of the tenant.\<close>

theorem rules_refine_map:
  assumes reach: "reachable_rules db"
  shows "(majority_step db db' \<longrightarrow> map_step (active_rule db) (active_rule db')) \<and>
    find_rule db e (Some s) = (case active_rule db (Some e, s) of Some x \<Rightarrow> Some x | None \<Rightarrow> active_rule db (None, s))"
  using step_refines[OF reachable_rules_inv[OF reach]] find_rule_lookup by blast

section \<open>The check of a tally\<close>

definition tally_ok :: "tally \<Rightarrow> bool" where
  "tally_ok v \<longleftrightarrow> (\<exists>y n e. vt_yes v = Some y \<and> vt_no v = Some n \<and> vt_eligible v = Some e \<and> 0 \<le> y \<and> 0 \<le> n \<and> 0 < e)"

definition fits :: "rule_row \<Rightarrow> tally \<Rightarrow> bool" where
  "fits r v \<longleftrightarrow> vt_principle v = map_of BASIS_TO_PRINCIPLE (hr_basis r)"

definition needed :: "rule_row \<Rightarrow> rat" where
  "needed r = (if hr_type r = ''qualified_2_3'' then 2 / 3 else if hr_type r = ''qualified_3_4'' then 3 / 4
     else of_int (the (hr_numerator r)) / of_int (the (hr_denominator r)))"

lemma verdict_of_eq [simp]: "verdict_of b = Reached \<longleftrightarrow> b" "verdict_of b = Not_Reached \<longleftrightarrow> \<not> b" "verdict_of b \<noteq> Not_Checkable x"
  by (simp_all add: verdict_of_def)

text \<open>C34: A complete tally, counted on the basis of a well formed stored rule, is always decided: a simple
  majority is reached when there are more yes than no votes, a qualified or own majority when votes were
  cast and the yes votes are at least the required fraction of yes and no, unanimity when all eligible
  votes are yes and none is no or an abstention.\<close>

theorem evaluate_decides:
  assumes ok: "terms_valid (hr_type r) (hr_basis r) (hr_numerator r) (hr_denominator r)"
    and v: "tally_ok v" "fits r v" and y: "vt_yes v = Some y" and n: "vt_no v = Some n" and e: "vt_eligible v = Some g"
  shows "ck_result (evaluate (spec_of (Some r)) (Some v) (Some s)) =
    (if (if hr_type r = ''simple'' then n < y
         else if hr_type r = ''unanimous'' then y = g \<and> n = 0 \<and> (vt_abstain v = None \<or> vt_abstain v = Some 0)
         else 0 < y + n \<and> needed r * (y + n) \<le> y)
     then Reached else Not_Reached)"
proof -
  have nn: "\<not> (y < 0 \<or> n < 0)" "\<not> g \<le> 0" using v(1) y n e by (auto simp: tally_ok_def)
  have t: "hr_type r \<in> {''simple'', ''qualified_2_3'', ''qualified_3_4'', ''unanimous'', ''custom''}"
    using ok by (auto simp: terms_valid_def MAJORITY_TYPES_def)
  have c: "\<exists>a b. hr_numerator r = Some a \<and> hr_denominator r = Some b \<and> a \<noteq> 0 \<and> b \<noteq> 0" if "hr_type r = ''custom''"
    using ok that by (force simp: terms_valid_def)
  have sp: "rs_type (spec_of (Some r)) = hr_type r" "rs_basis (spec_of (Some r)) = hr_basis r" by (simp_all add: spec_of_def)
  have p: "vt_principle v = map_of BASIS_TO_PRINCIPLE (hr_basis r)" using v(2) by (simp add: fits_def)
  have "verdict_on (spec_of (Some r)) (Some v) (Some s) =
      (if hr_type r = ''unanimous'' then verdict_of (y = g \<and> n = 0 \<and> (case vt_abstain v of None \<Rightarrow> 0 | Some a \<Rightarrow> a) = 0)
       else (case threshold (spec_of (Some r)) of Inl _ \<Rightarrow> Not_Checkable No_Fraction
         | Inr share \<Rightarrow> (case share of None \<Rightarrow> verdict_of (n < y)
             | Some q \<Rightarrow> if hr_type r = ''simple'' then verdict_of (n < y) else verdict_of (0 < y + n \<and> q * (y + n) \<le> y))))"
    using nn p by (simp add: verdict_on_def sp y n e split: sum.split option.split)
  also have "\<dots> = verdict_of (if hr_type r = ''simple'' then n < y
       else if hr_type r = ''unanimous'' then y = g \<and> n = 0 \<and> (vt_abstain v = None \<or> vt_abstain v = Some 0)
       else 0 < y + n \<and> needed r * (y + n) \<le> y)"
    using t c by (cases "vt_abstain v") (auto simp: threshold_def spec_of_def needed_def)
  finally show ?thesis by (simp add: evaluate_def verdict_of_def)
qed

section \<open>An example\<close>

text \<open>
  User 1 stores an own majority of three fifths for the maintenance of community 7, user 2 approves it,
  a tally of six yes and four no votes by units reaches it.
\<close>

definition start_rules :: majority_db where
  "start_rules = \<lparr>md_entities = [(7, True), (8, False)], md_rules = [], md_next = 20\<rparr>"

definition accountant :: "uid \<Rightarrow> principal option" where
  "accountant u = Some \<lparr>pr_user = Some u, pr_api_key = False, pr_platform_admin = False, pr_access_reason = False,
     pr_roles = [''accountant''], pr_entities = []\<rparr>"

definition own_rule :: rule_in where
  "own_rule = \<lparr>ri_entity = Some 7, ri_subject = ''maintenance'', ri_type = ''custom'', ri_numerator = Some 3,
     ri_denominator = Some 5, ri_basis = ''units'', ri_source = ''GO 4''\<rparr>"

definition rules1 :: majority_db where "rules1 = fst (projr (create_subject_rule start_rules (accountant 1) own_rule))"
definition rules2 :: majority_db where "rules2 = projr (approve_subject_rule rules1 (accountant 2) 20)"

definition own_row :: rule_row where "own_row = the (map_of (md_rules rules2) 20)"

lemma example_rules:
  "create_subject_rule start_rules (accountant 1) own_rule = Inr (rules1, 20)"
  "approve_subject_rule rules1 (accountant 2) 20 = Inr rules2"
  "map_of (md_rules rules2) 20 = Some own_row" "hr_active own_row"
  by code_simp+

lemma example_rules_reachable: "reachable_rules rules1" "reachable_rules rules2" "majority_step rules1 rules2"
proof -
  have 1: "majority_step start_rules rules1" by (rule majority_step.create[OF example_rules(1)])
  show 2: "majority_step rules1 rules2" by (rule majority_step.approve[OF example_rules(2)])
  have f: "fresh_rules start_rules" by (simp add: fresh_rules_def start_rules_def)
  show "reachable_rules rules1" "reachable_rules rules2"
    unfolding reachable_rules_def using f 1 2 by (meson rtranclp.simps)+
qed

theorem majority_rules_invariant_witness:
  "terms_valid (hr_type own_row) (hr_basis own_row) (hr_numerator own_row) (hr_denominator own_row) \<and>
   hr_approved_by own_row = Some 2 \<and> hr_approved_by own_row \<notin> {hr_created_by own_row, hr_updated_by own_row}"
proof -
  have a: "hr_approved_by own_row = Some 2" by code_simp
  then show ?thesis
    using majority_rules_invariant[OF example_rules_reachable(2) example_rules(3,4)] by (simp del: insert_iff)
qed

theorem rules_refine_map_witness:
  "map_step (active_rule rules1) (active_rule rules2) \<and> find_rule rules1 7 (Some ''maintenance'') \<noteq> None"
proof -
  have "active_rule rules1 (Some 7, ''maintenance'') \<noteq> None" by code_simp
  then show ?thesis
    using rules_refine_map[OF example_rules_reachable(1), of rules2 7 "''maintenance''"] example_rules_reachable(3)
    by (auto split: option.splits)
qed

theorem evaluate_decides_witness:
  "ck_result (evaluate (spec_of (Some own_row)) (Some \<lparr>vt_principle = Some ''unit'', vt_yes = Some 6, vt_no = Some 4,
     vt_abstain = None, vt_eligible = Some 12\<rparr>) (Some ''maintenance'')) = Reached"
proof -
  let ?v = "\<lparr>vt_principle = Some ''unit'', vt_yes = Some 6, vt_no = Some 4, vt_abstain = None, vt_eligible = Some 12\<rparr>"
  have ok: "terms_valid (hr_type own_row) (hr_basis own_row) (hr_numerator own_row) (hr_denominator own_row)"
    using reachable_rules_inv[OF example_rules_reachable(2)] map_of_SomeD[OF example_rules(3)] example_rules(4)
    unfolding rules_inv_def by blast
  have f: "fits own_row ?v" by code_simp
  have r: "hr_type own_row = ''custom''" "hr_numerator own_row = Some 3" "hr_denominator own_row = Some 5" by code_simp+
  have t: "tally_ok ?v" by (simp add: tally_ok_def)
  show ?thesis
    using evaluate_decides[OF ok t f, of 6 4 12 "''maintenance''"] r by (simp add: needed_def)
qed

end
