(* ===== verification/BusinessTime.thy ===== *)
theory BusinessTime
  imports Prelude
begin

text \<open>
  Business hours of the service level clocks (\<open>mhvp/sla/business_time.py\<close>). A local time is the number
  of microseconds since the start of day 0 of Python's proleptic calendar, so that day \<open>d\<close>
  (\<open>date.toordinal\<close>) starts at \<open>d * DAY\<close>; arithmetic on times of one zone is arithmetic on the local
  clock, as in Python. The time zone data is outside the program: \<open>to_local\<close> and \<open>of_local\<close> are the
  two conversions. Holidays are given by their ordinals; a text that is no date matches no day.
\<close>

definition MINUTE :: int where "MINUTE = 60000000"
definition DAY :: int where "DAY = 86400000000"
definition MAX_DAY :: int where "MAX_DAY = 3652059"

record work_calendar =
  wc_weekdays :: "int list"
  wc_opens :: int
  wc_closes :: int
  wc_holidays :: "int list"

definition weekday :: "int \<Rightarrow> int" where "weekday d = (d + 6) mod 7"

definition is_working_day :: "work_calendar \<Rightarrow> int \<Rightarrow> bool" where
  "is_working_day cal d = (if weekday d \<notin> set (wc_weekdays cal) then False else d \<notin> set (wc_holidays cal))"

definition window :: "work_calendar \<Rightarrow> int \<Rightarrow> int \<times> int" where
  "window cal d = (d * DAY + wc_opens cal, d * DAY + wc_closes cal)"

text \<open>The next day, which Python refuses after the year 9999.\<close>

definition next_date :: "int \<Rightarrow> int res" where
  "next_date d = (if d < MAX_DAY then Inr (d + 1) else Inl Overflow_Error)"

lemma next_date_eq: "next_date d = Inr d' \<longleftrightarrow> d < MAX_DAY \<and> d' = d + 1"
  by (auto simp: next_date_def)

function add_loop :: "work_calendar \<Rightarrow> int \<Rightarrow> int \<Rightarrow> int \<Rightarrow> int res" where
  "add_loop cal d cursor left =
     (if \<not> is_working_day cal d
      then bindr (next_date d) (\<lambda>d'. add_loop cal d' (d' * DAY + wc_opens cal) left)
      else
        (let window_start = fst (window cal d); window_end = snd (window cal d);
             c = (if cursor < window_start then window_start else cursor)
         in if window_end \<le> c
            then bindr (next_date d) (\<lambda>d'. add_loop cal d' (d' * DAY + wc_opens cal) left)
            else
              (let available = (window_end - c) div MINUTE
               in if left \<le> available then Inr (c + left * MINUTE)
                  else bindr (next_date d) (\<lambda>d'. add_loop cal d' (d' * DAY + wc_opens cal) (left - available)))))"
  by auto
termination
  by (relation "measure (\<lambda>(cal, d, c, m). nat (MAX_DAY - d))") (auto simp: next_date_eq)

declare add_loop.simps [simp del]

definition add_business_minutes ::
  "(int \<Rightarrow> int) \<Rightarrow> (int \<Rightarrow> int) \<Rightarrow> work_calendar \<Rightarrow> int \<Rightarrow> int \<Rightarrow> int res" where
  "add_business_minutes to_local of_local cal start minutes =
     (let cursor = to_local start
      in bindr (add_loop cal (cursor div DAY) cursor minutes) (\<lambda>r. Inr (of_local r)))"

definition day_minutes :: "work_calendar \<Rightarrow> int \<Rightarrow> int \<Rightarrow> int \<Rightarrow> int" where
  "day_minutes cal cursor stop d =
     (if is_working_day cal d
      then (let window_start = fst (window cal d); window_end = snd (window cal d);
                lo = max window_start (if d = cursor div DAY then cursor else window_start);
                hi = min window_end (if d = stop div DAY then stop else window_end)
            in if lo < hi then (hi - lo) div MINUTE else 0)
      else 0)"

function between_loop :: "work_calendar \<Rightarrow> int \<Rightarrow> int \<Rightarrow> int \<Rightarrow> int \<Rightarrow> int res" where
  "between_loop cal cursor stop d tot =
     (if d \<le> stop div DAY
      then (let tot' = tot + day_minutes cal cursor stop d
            in bindr (next_date d) (\<lambda>d'. between_loop cal cursor stop d' tot'))
      else Inr tot)"
  by auto
termination
  by (relation "measure (\<lambda>(cal, c, s, d, t). nat (MAX_DAY - d))") (auto simp: next_date_eq)

declare between_loop.simps [simp del]

definition business_minutes_between :: "(int \<Rightarrow> int) \<Rightarrow> work_calendar \<Rightarrow> int \<Rightarrow> int \<Rightarrow> int res" where
  "business_minutes_between to_local cal start stop =
     (if stop \<le> start then Inr 0
      else let cursor = to_local start; s = to_local stop
           in between_loop cal cursor s (cursor div DAY) 0)"

section \<open>What the loops compute\<close>

definition calendar_ok :: "work_calendar \<Rightarrow> bool" where
  "calendar_ok cal \<longleftrightarrow> 0 \<le> wc_opens cal \<and> wc_opens cal < DAY \<and> 0 \<le> wc_closes cal \<and> wc_closes cal < DAY"

lemma units [simp]: "0 < DAY" "0 < MINUTE" by (simp_all add: DAY_def MINUTE_def)

lemma day_of: "0 \<le> t \<Longrightarrow> t < DAY \<Longrightarrow> (d * DAY + t) div DAY = d"
  by (simp add: DAY_def)

lemma between_loop_sum:
  assumes "stop div DAY < MAX_DAY" and "d \<le> stop div DAY + 1"
  shows "between_loop cal cursor stop d tot = Inr (tot + (\<Sum>k = d..stop div DAY. day_minutes cal cursor stop k))"
  using assms
proof (induction cal cursor stop d tot rule: between_loop.induct)
  case (1 cal cursor stop d tot)
  show ?case
  proof (cases "d \<le> stop div DAY")
    case True
    then have "{d..stop div DAY} = insert d {d + 1..stop div DAY}" by auto
    then have "(\<Sum>k = d..stop div DAY. day_minutes cal cursor stop k) =
        day_minutes cal cursor stop d + (\<Sum>k = d + 1..stop div DAY. day_minutes cal cursor stop k)" by simp
    moreover have "next_date d = Inr (d + 1)" using True 1(2) by (simp add: next_date_def)
    ultimately show ?thesis
      using 1(1)[OF True refl, of "d + 1"] True 1(2) by (subst between_loop.simps) simp
  next
    case False
    then show ?thesis by (subst between_loop.simps) simp
  qed
qed

text \<open>The minutes a day offers to a clock that stands at \<open>cursor\<close>.\<close>

definition offer :: "work_calendar \<Rightarrow> int \<Rightarrow> int \<Rightarrow> int" where
  "offer cal cursor d = (if is_working_day cal d \<and> max (fst (window cal d)) cursor < snd (window cal d)
     then (snd (window cal d) - max (fst (window cal d)) cursor) div MINUTE else 0)"

definition open_at :: "work_calendar \<Rightarrow> int \<Rightarrow> int \<Rightarrow> bool" where
  "open_at cal cursor d \<longleftrightarrow> is_working_day cal d \<and> max (fst (window cal d)) cursor < snd (window cal d)"

lemma add_loop_alt:
  "add_loop cal d cursor left =
     (if open_at cal cursor d \<and> left \<le> offer cal cursor d then Inr (max (fst (window cal d)) cursor + left * MINUTE)
      else bindr (next_date d) (\<lambda>d'. add_loop cal d' (d' * DAY + wc_opens cal) (left - offer cal cursor d)))"
proof -
  have m: "(if a < b then b else a) = max b a" for a b :: int by (simp add: max_def)
  show ?thesis by (subst add_loop.simps) (auto simp: open_at_def offer_def m Let_def)
qed

lemma offer_nonneg: "0 \<le> offer cal cursor d"
  by (simp add: offer_def pos_imp_zdiv_nonneg_iff)

text \<open>On a later day the clock starts at the opening time.\<close>

lemma fresh_day:
  assumes "calendar_ok cal"
  shows "((d * DAY + wc_opens cal) div DAY) = d" and "max (fst (window cal d)) (d * DAY + wc_opens cal) = fst (window cal d)"
  using assms by (simp_all add: calendar_ok_def day_of window_def)

lemma day_minutes_first:
  assumes "cursor div DAY = d" and "d < stop div DAY"
  shows "day_minutes cal cursor stop d = offer cal cursor d"
  using assms by (simp add: day_minutes_def offer_def Let_def)

lemma day_minutes_later:
  assumes "calendar_ok cal" and "cursor div DAY = d" and "d < k"
  shows "day_minutes cal cursor stop k = day_minutes cal ((d + 1) * DAY + wc_opens cal) stop k"
proof -
  have c2: "(d + 1) * DAY + wc_opens cal = fst (window cal (d + 1))" by (simp add: window_def)
  have "max (fst (window cal k)) (if k = cursor div DAY then cursor else fst (window cal k)) =
      max (fst (window cal k)) (if k = ((d + 1) * DAY + wc_opens cal) div DAY then (d + 1) * DAY + wc_opens cal else fst (window cal k))"
    unfolding fresh_day(1)[OF assms(1)] unfolding c2 using assms(2,3) by auto
  then show ?thesis unfolding day_minutes_def Let_def by (simp only:)
qed

lemma add_loop_result:
  assumes ok: "calendar_ok cal" and "add_loop cal d cursor left = Inr r" and "cursor div DAY = d" and "0 \<le> left"
  shows "d \<le> r div DAY \<and> r div DAY \<le> max d MAX_DAY \<and> cursor \<le> r \<and> (0 < left \<longrightarrow> cursor < r) \<and>
    (\<Sum>k = d..r div DAY. day_minutes cal cursor r k) = left"
  using assms(2-)
proof (induction "nat (MAX_DAY - d)" arbitrary: d cursor left rule: less_induct)
  case less
  have cur: "d * DAY \<le> cursor" "cursor < d * DAY + DAY"
  proof -
    have "cursor = d * DAY + cursor mod DAY" unfolding less.prems(2)[symmetric] by simp
    then show "d * DAY \<le> cursor" "cursor < d * DAY + DAY"
      using pos_mod_bound[of DAY cursor, OF units(1)] pos_mod_sign[of DAY cursor, OF units(1)] by linarith+
  qed
  show ?case
  proof (cases "open_at cal cursor d \<and> left \<le> offer cal cursor d")
    case True
    let ?c = "max (fst (window cal d)) cursor" and ?we = "snd (window cal d)"
    have r: "r = ?c + left * MINUTE" using less.prems(1) True by (simp add: add_loop_alt[of cal d])
    have o: "?c < ?we" "is_working_day cal d" "left \<le> (?we - ?c) div MINUTE" using True by (auto simp: open_at_def offer_def split: if_splits)
    have "left * MINUTE \<le> (?we - ?c) div MINUTE * MINUTE" using o(3) by (simp add: mult_right_mono)
    also have "\<dots> \<le> ?we - ?c" using pos_mod_sign[of MINUTE "?we - ?c", OF units(2)] div_mult_mod_eq[of "?we - ?c" MINUTE] by linarith
    finally have le: "r \<le> ?we" by (simp add: r)
    have "0 \<le> left * MINUTE" using less.prems(3) by (simp add: MINUTE_def)
    then have ge: "cursor \<le> r" "?c \<le> r" by (simp_all add: r max_def)
    have "?we < d * DAY + DAY" using ok by (simp add: window_def calendar_ok_def)
    then have day: "r div DAY = d" using le ge(1) cur day_of[of "r - d * DAY" d] by simp
    have "day_minutes cal cursor r d = (if ?c < r then (r - ?c) div MINUTE else 0)"
      using o(2) le by (simp add: day_minutes_def Let_def less.prems(2) day min_def) (auto split: if_splits)
    also have "\<dots> = left"
    proof (cases "left = 0")
      case False
      then have "?c < r" using less.prems(3) by (simp add: r)
      then show ?thesis by (simp add: r MINUTE_def)
    qed (simp add: r)
    finally have sum: "(\<Sum>k = d..r div DAY. day_minutes cal cursor r k) = left" by (simp add: day)
    have "0 < left \<longrightarrow> cursor < r" by (auto simp: r max_def MINUTE_def)
    then show ?thesis using sum ge day by simp
  next
    case False
    let ?c2 = "(d + 1) * DAY + wc_opens cal" and ?left = "left - offer cal cursor d"
    have nx: "d < MAX_DAY" "add_loop cal (d + 1) ?c2 ?left = Inr r"
      using less.prems(1) False by (auto simp: add_loop_alt[of cal d] bindr_eq_Inr next_date_eq)
    have left: "0 \<le> ?left" using False less.prems(3) by (auto simp: open_at_def offer_def)
    from less.hyps[OF _ nx(2) fresh_day(1)[OF ok] left] nx(1)
    have IH: "d + 1 \<le> r div DAY" "r div DAY \<le> max (d + 1) MAX_DAY" "?c2 \<le> r"
      "(\<Sum>k = d + 1..r div DAY. day_minutes cal ?c2 r k) = ?left" by auto
    have "cursor < ?c2" using cur(2) ok by (simp add: calendar_ok_def algebra_simps)
    then have gt: "cursor < r" using IH(3) by simp
    have "{d..r div DAY} = insert d {d + 1..r div DAY}" using IH(1) by auto
    then have "(\<Sum>k = d..r div DAY. day_minutes cal cursor r k) =
        day_minutes cal cursor r d + (\<Sum>k = d + 1..r div DAY. day_minutes cal cursor r k)" by simp
    also have "(\<Sum>k = d + 1..r div DAY. day_minutes cal cursor r k) = ?left"
      unfolding IH(4)[symmetric] by (rule sum.cong[OF refl], rule day_minutes_later[OF ok less.prems(2)]) simp
    also have "day_minutes cal cursor r d = offer cal cursor d"
      by (rule day_minutes_first[OF less.prems(2)]) (use IH(1) in simp)
    finally show ?thesis using IH(1,2) gt nx(1) by simp
  qed
qed

text \<open>
  The conversion of the zone is faithful for a local time \<open>r\<close> seen from the instant \<open>start\<close>: the
  local time exists once and lies after the local start exactly when its instant lies after the start.
  Only the hour in which clocks are changed violates it.
\<close>

definition zone_ok :: "(int \<Rightarrow> int) \<Rightarrow> (int \<Rightarrow> int) \<Rightarrow> int \<Rightarrow> int \<Rightarrow> bool" where
  "zone_ok to_local of_local start r \<longleftrightarrow> to_local (of_local r) = r \<and> (of_local r \<le> start \<longleftrightarrow> r \<le> to_local start)"

text \<open>C35: Adding business minutes and counting them back agree: whenever the addition returns a time, counting
  the business minutes from the start to it gives exactly the minutes added.\<close>

theorem business_minutes_roundtrip:
  assumes ok: "calendar_ok cal" and m: "0 \<le> minutes"
    and add: "add_business_minutes to_local of_local cal start minutes = Inr t"
    and zone: "\<And>r. t = of_local r \<Longrightarrow> zone_ok to_local of_local start r"
    and last: "to_local t div DAY < MAX_DAY"
  shows "business_minutes_between to_local cal start t = Inr minutes"
proof -
  obtain r where r: "add_loop cal (to_local start div DAY) (to_local start) minutes = Inr r" "t = of_local r"
    using add by (auto simp: add_business_minutes_def Let_def bindr_eq_Inr)
  have z: "to_local t = r" "t \<le> start \<longleftrightarrow> r \<le> to_local start" using zone[OF r(2)] r(2) by (simp_all add: zone_ok_def)
  note res = add_loop_result[OF ok r(1) refl m]
  show ?thesis
  proof (cases "t \<le> start")
    case True
    then have "minutes = 0" using z(2) res m by fastforce
    then show ?thesis using True by (simp add: business_minutes_between_def)
  next
    case False
    then show ?thesis
      using between_loop_sum[of r "to_local start div DAY" cal "to_local start" 0] res last z(1)
      by (simp add: business_minutes_between_def Let_def)
  qed
qed

section \<open>When the addition returns\<close>

text \<open>The minutes of a whole day, and of the days from \<open>d\<close> on for a clock that stands at \<open>cursor\<close>.\<close>

definition offer_from :: "work_calendar \<Rightarrow> int \<Rightarrow> int \<Rightarrow> int \<Rightarrow> int" where
  "offer_from cal d cursor k = (if k = d then offer cal cursor k else offer cal (k * DAY + wc_opens cal) k)"

definition open_from :: "work_calendar \<Rightarrow> int \<Rightarrow> int \<Rightarrow> int \<Rightarrow> bool" where
  "open_from cal d cursor k = (if k = d then open_at cal cursor k else open_at cal (k * DAY + wc_opens cal) k)"

lemma add_loop_returns:
  assumes "0 \<le> left"
  shows "(\<exists>r. add_loop cal d cursor left = Inr r) \<longleftrightarrow>
    (\<exists>e. d \<le> e \<and> e \<le> max d MAX_DAY \<and> open_from cal d cursor e \<and> left \<le> (\<Sum>k = d..e. offer_from cal d cursor k))"
  using assms
proof (induction "nat (MAX_DAY - d)" arbitrary: d cursor left rule: less_induct)
  case less
  have tail: "(\<Sum>k = d..e. offer_from cal d cursor k) = offer cal cursor d +
      (\<Sum>k = d + 1..e. offer_from cal (d + 1) ((d + 1) * DAY + wc_opens cal) k)" if "d \<le> e" for e
  proof -
    have "{d..e} = insert d {d + 1..e}" using that by auto
    then have "(\<Sum>k = d..e. offer_from cal d cursor k) = offer_from cal d cursor d + (\<Sum>k = d + 1..e. offer_from cal d cursor k)" by simp
    also have "(\<Sum>k = d + 1..e. offer_from cal d cursor k) = (\<Sum>k = d + 1..e. offer_from cal (d + 1) ((d + 1) * DAY + wc_opens cal) k)"
      by (rule sum.cong) (auto simp: offer_from_def)
    finally show ?thesis by (simp add: offer_from_def)
  qed
  have later: "open_from cal d cursor e = open_from cal (d + 1) ((d + 1) * DAY + wc_opens cal) e" if "d + 1 \<le> e" for e
    using that by (auto simp: open_from_def)
  show ?case
  proof (cases "open_at cal cursor d \<and> left \<le> offer cal cursor d")
    case True
    then have "\<exists>r. add_loop cal d cursor left = Inr r" by (simp add: add_loop_alt[of cal d])
    moreover have "d \<le> d \<and> d \<le> max d MAX_DAY \<and> open_from cal d cursor d \<and> left \<le> (\<Sum>k = d..d. offer_from cal d cursor k)"
      using True by (simp add: open_from_def offer_from_def)
    ultimately show ?thesis by blast
  next
    case False
    let ?c2 = "(d + 1) * DAY + wc_opens cal" and ?left = "left - offer cal cursor d"
    have left: "0 \<le> ?left" using False less.prems by (auto simp: open_at_def offer_def)
    have not_here: "\<not> (open_from cal d cursor d \<and> left \<le> (\<Sum>k = d..d. offer_from cal d cursor k))"
      using False by (simp add: open_from_def offer_from_def)
    have unfold: "(\<exists>r. add_loop cal d cursor left = Inr r) \<longleftrightarrow> d < MAX_DAY \<and> (\<exists>r. add_loop cal (d + 1) ?c2 ?left = Inr r)"
      using False by (auto simp: add_loop_alt[of cal d] bindr_eq_Inr next_date_eq)
    have rest: "(\<exists>e. d \<le> e \<and> e \<le> max d MAX_DAY \<and> open_from cal d cursor e \<and> left \<le> (\<Sum>k = d..e. offer_from cal d cursor k)) \<longleftrightarrow>
        d < MAX_DAY \<and> (\<exists>e. d + 1 \<le> e \<and> e \<le> max (d + 1) MAX_DAY \<and> open_from cal (d + 1) ?c2 e \<and>
          ?left \<le> (\<Sum>k = d + 1..e. offer_from cal (d + 1) ?c2 k))" (is "(\<exists>e. ?P e) \<longleftrightarrow> _ \<and> (\<exists>e. ?Q e)")
    proof
      assume "\<exists>e. ?P e"
      then obtain e where e: "?P e" ..
      then have "e \<noteq> d" using not_here by blast
      then have "d + 1 \<le> e" "d < MAX_DAY" using e by auto
      moreover have "?Q e" using e calculation tail[of e] later[of e] by auto
      ultimately show "d < MAX_DAY \<and> (\<exists>e. ?Q e)" by blast
    next
      assume "d < MAX_DAY \<and> (\<exists>e. ?Q e)"
      then obtain e where "d < MAX_DAY" and e: "?Q e" by blast
      then have "?P e" using tail[of e] later[of e] by auto
      then show "\<exists>e. ?P e" ..
    qed
    show ?thesis
    proof (cases "d < MAX_DAY")
      case True
      then show ?thesis using less.hyps[of "d + 1" ?left ?c2] left unfold rest by simp
    next
      case False
      then show ?thesis using unfold rest by simp
    qed
  qed
qed

text \<open>C36: The addition of business minutes always ends: it returns exactly when some day up to the end of the
  year 9999 still has open hours for the clock and the days up to it offer enough minutes, and fails
  with a date overflow otherwise.\<close>

theorem business_minutes_end:
  assumes m: "0 \<le> minutes" and c: "cursor = to_local start"
  shows "(if \<exists>e. cursor div DAY \<le> e \<and> e \<le> max (cursor div DAY) MAX_DAY \<and> open_from cal (cursor div DAY) cursor e \<and>
      minutes \<le> (\<Sum>k = cursor div DAY..e. offer_from cal (cursor div DAY) cursor k)
    then \<exists>t. add_business_minutes to_local of_local cal start minutes = Inr t
    else add_business_minutes to_local of_local cal start minutes = Inl Overflow_Error)"
proof -
  have err: "add_loop cal d cur left = Inl e \<Longrightarrow> e = Overflow_Error" for d cur left e
  proof (induction "nat (MAX_DAY - d)" arbitrary: d cur left rule: less_induct)
    case less
    show ?case
    proof (cases "d < MAX_DAY")
      case True
      then show ?thesis
        using less.hyps[of "d + 1" "(d + 1) * DAY + wc_opens cal" "left - offer cal cur d"] less.prems
        by (auto simp: add_loop_alt[of cal d] next_date_def split: if_splits)
    next
      case False
      then show ?thesis using less.prems by (auto simp: add_loop_alt[of cal d] next_date_def split: if_splits)
    qed
  qed
  show ?thesis
    using add_loop_returns[OF m, of cal "cursor div DAY" cursor] err[of "cursor div DAY" cursor minutes]
    by (cases "add_loop cal (cursor div DAY) cursor minutes") (auto simp: add_business_minutes_def Let_def c)
qed

text \<open>A calendar that closes before it opens, or has no weekday, is accepted by \<open>PUT /sla/calendar\<close>.\<close>

text \<open>With a calendar that never opens - closing not after opening, or no weekday, both of which the
  calendar route accepts - every addition of business minutes fails, whatever the start and the minutes.\<close>

lemma closed_calendar_overflows:
  assumes closed: "wc_closes cal \<le> wc_opens cal \<or> wc_weekdays cal = []" and m: "0 \<le> minutes"
  shows "add_business_minutes to_local of_local cal start minutes = Inl Overflow_Error"
proof -
  have never: "\<not> open_at cal c d" for c d
    using closed by (auto simp: open_at_def window_def is_working_day_def)
  then have "\<not> open_from cal d c e" for d c e by (simp add: open_from_def)
  then have none: "\<not> (\<exists>r. add_loop cal d c left = Inr r)" if "0 \<le> left" for d c left
    unfolding add_loop_returns[OF that] by blast
  have "offer cal c d = 0" for c d using never[of c d] by (auto simp: offer_def open_at_def)
  note z = this
  have "add_loop cal d c left = Inl Overflow_Error" if "0 \<le> left" for d c left
  proof (induction "nat (MAX_DAY - d)" arbitrary: d c rule: less_induct)
    case less
    then show ?case
      by (cases "d < MAX_DAY") (simp_all add: add_loop_alt[of cal d] never next_date_def z)
  qed
  then show ?thesis using m by (simp add: add_business_minutes_def Let_def)
qed

section \<open>Examples\<close>

text \<open>The default calendar: Monday to Friday, 8:00 to 16:30; a zone one hour ahead.\<close>

definition default_calendar :: work_calendar where
  "default_calendar = \<lparr>wc_weekdays = [0, 1, 2, 3, 4], wc_opens = 480 * MINUTE, wc_closes = 990 * MINUTE, wc_holidays = []\<rparr>"

text \<open>Friday 16:00 local time: sixty minutes end on Monday at 8:30.\<close>

definition friday :: int where "friday = 738890 * DAY + 960 * MINUTE - 60 * MINUTE"

lemma friday_minutes:
  "add_business_minutes (\<lambda>t. t + 60 * MINUTE) (\<lambda>t. t - 60 * MINUTE) default_calendar friday 60 =
    Inr (738893 * DAY + 510 * MINUTE - 60 * MINUTE)"
  by code_simp

theorem business_minutes_roundtrip_witness:
  "business_minutes_between (\<lambda>t. t + 60 * MINUTE) default_calendar friday (738893 * DAY + 510 * MINUTE - 60 * MINUTE) = Inr 60"
  by (rule business_minutes_roundtrip[OF _ _ friday_minutes])
    (simp_all add: zone_ok_def calendar_ok_def default_calendar_def DAY_def MINUTE_def MAX_DAY_def)

theorem business_minutes_end_witness:
  "\<exists>t. add_business_minutes (\<lambda>t. t) (\<lambda>t. t) default_calendar (738890 * DAY) 60 = Inr t"
proof -
  have c: "738890 * DAY = (\<lambda>t. t) (738890 * DAY)" ..
  have d: "738890 * DAY div DAY = 738890" by (simp add: DAY_def)
  have o: "open_from default_calendar 738890 (738890 * DAY) 738890" "offer_from default_calendar 738890 (738890 * DAY) 738890 = 510"
    by code_simp+
  have "\<exists>e. 738890 \<le> e \<and> e \<le> max 738890 MAX_DAY \<and> open_from default_calendar 738890 (738890 * DAY) e \<and>
      60 \<le> (\<Sum>k = 738890..e. offer_from default_calendar 738890 (738890 * DAY) k)"
    by (rule exI[of _ 738890]) (simp add: o)
  then show ?thesis
    using business_minutes_end[of 60 "738890 * DAY" "\<lambda>t. t" "738890 * DAY" default_calendar "\<lambda>t. t"] unfolding d by simp
qed

lemma closed_calendar_overflows_witness:
  "add_business_minutes (\<lambda>t. t) (\<lambda>t. t) (default_calendar\<lparr>wc_weekdays := []\<rparr>) 0 60 = Inl Overflow_Error"
  by (rule closed_calendar_overflows) simp_all

end
