(* ===== verification/Tickets.thy ===== *)
theory Tickets
  imports BusinessTime
begin

text \<open>
  Status changes, assignment and service level clock of one ticket (\<open>mhvp/tickets/status.py\<close>,
  \<open>mhvp/tickets/resolution_kinds.py\<close>, \<open>mhvp/sla/service.py\<close>, the escalation steps of
  \<open>mhvp/sla/escalation.py\<close>, the assignee rows of \<open>mhvp/communication/assignment.py\<close>, the automatic close from
  Gmail and its revert in \<open>mhvp/communication/gmail_done.py\<close>). What involves several tickets is in
  \<open>TicketDesk\<close>. A ticket is modelled with its assignee rows, its events and its clock.
  Instants are microseconds, \<open>now\<close> is the clock of the caller. Notifications, the event bus,
  playbook learning, mail archiving and the claims adjuster link are left out: they run after the
  change and never undo it.
\<close>

type_synonym uid = nat

section \<open>Resolution kinds\<close>

definition BUILTIN_KINDS :: "string list" where
  "BUILTIN_KINDS = [''stammdaten_ergaenzt'', ''handwerker_beauftragt'', ''auskunft_erteilt'', ''weitergeleitet'',
     ''kein_handlungsbedarf'', ''abgelehnt'', ''zahlung_geklaert'', ''termin_vereinbart'', ''mangel_behoben'',
     ''vertrag_geaendert'', ''zusammengefuehrt'', ''sonstiges'']"

definition PROTECTED_KINDS :: "string list" where "PROTECTED_KINDS = [''sonstiges'', ''zusammengefuehrt'']"

definition MAX_CUSTOM_KINDS :: nat where "MAX_CUSTOM_KINDS = 30"

definition is_lower_digit :: "char \<Rightarrow> bool" where
  "is_lower_digit c \<longleftrightarrow> (CHR ''a'' \<le> c \<and> c \<le> CHR ''z'') \<or> (CHR ''0'' \<le> c \<and> c \<le> CHR ''9'')"

text \<open>\<open>KIND_CODE_PATTERN\<close>\<close>

definition is_valid_kind_code :: "string \<Rightarrow> bool" where
  "is_valid_kind_code s \<longleftrightarrow>
     (case s of [] \<Rightarrow> False
      | c # cs \<Rightarrow> is_lower_digit c \<and> list_all (\<lambda>x. is_lower_digit x \<or> x = CHR ''_'') cs \<and> 1 \<le> length cs \<and> length cs \<le> 31)"

definition is_space :: "char \<Rightarrow> bool" where
  "is_space c \<longleftrightarrow> (CHR 0x09 \<le> c \<and> c \<le> CHR 0x0D) \<or> (CHR 0x1C \<le> c \<and> c \<le> CHR 0x20)"

definition strip :: "string \<Rightarrow> string" where
  "strip s = List.rev (dropWhile is_space (List.rev (dropWhile is_space s)))"

record custom_kind =
  kd_code :: string
  kd_label :: string

record kinds_config =
  kc_disabled :: "string list"
  kc_custom :: "custom_kind list"

definition custom_kind_ok :: "custom_kind \<Rightarrow> bool" where
  "custom_kind_ok k \<longleftrightarrow> is_valid_kind_code (kd_code k) \<and> 1 \<le> length (kd_label k) \<and> length (kd_label k) \<le> 60 \<and>
     strip (kd_label k) \<noteq> []"

definition kinds_config_ok :: "kinds_config \<Rightarrow> bool" where
  "kinds_config_ok cfg \<longleftrightarrow>
     list_all (\<lambda>c. c \<in> set BUILTIN_KINDS \<and> c \<notin> set PROTECTED_KINDS) (kc_disabled cfg) \<and>
     length (kc_custom cfg) \<le> MAX_CUSTOM_KINDS \<and> list_all custom_kind_ok (kc_custom cfg) \<and>
     list_all (\<lambda>k. kd_code k \<notin> set BUILTIN_KINDS) (kc_custom cfg) \<and> distinct (map kd_code (kc_custom cfg))"

text \<open>Codes of all kinds with whether each is active; an invalid configuration falls back to the built-in list.\<close>

definition effective_resolution_kinds :: "kinds_config \<Rightarrow> (string \<times> bool) list" where
  "effective_resolution_kinds cfg =
     (let p = (if kinds_config_ok cfg then cfg else \<lparr>kc_disabled = [], kc_custom = []\<rparr>)
      in map (\<lambda>c. (c, c \<notin> set (kc_disabled p))) BUILTIN_KINDS @ map (\<lambda>k. (kd_code k, True)) (kc_custom p))"

definition active_kind_codes :: "kinds_config \<Rightarrow> string list" where
  "active_kind_codes cfg = map fst (filter snd (effective_resolution_kinds cfg))"

definition assert_resolution_kind_allowed :: "kinds_config \<Rightarrow> string \<Rightarrow> unit res" where
  "assert_resolution_kind_allowed cfg kind = guardr (kind \<in> set (active_kind_codes cfg)) Validation"

record resolution =
  rv_kind :: string
  rv_note :: "string option"

text \<open>The validated request \<open>ResolutionIn\<close>.\<close>

definition resolution_in :: "string \<Rightarrow> string option \<Rightarrow> resolution res" where
  "resolution_in kind note =
     (if \<not> is_valid_kind_code kind then Inl Validation
      else if (case note of None \<Rightarrow> False | Some n \<Rightarrow> 4000 < length n) then Inl Validation
      else
        (let text = strip (case note of None \<Rightarrow> [] | Some n \<Rightarrow> n);
             note' = (if text = [] then None else Some text)
         in if kind = ''sonstiges'' \<and> note' = None then Inl Validation
            else Inr \<lparr>rv_kind = kind, rv_note = note'\<rparr>))"

section \<open>The service level clock\<close>

datatype clock_state = Running | Paused | Breached | Clock_Done
datatype clock_type = Business | Calendar
datatype sla_color = Green | Yellow | Red
datatype priority = Low | Normal | High | Urgent | Immediate

fun rank_value :: "sla_color \<Rightarrow> nat" where
  "rank_value Green = 0" | "rank_value Yellow = 1" | "rank_value Red = 2"

record sla_rule =
  sl_priority :: priority
  sl_category :: "string option"
  sl_approved :: bool
  sl_response :: int
  sl_resolution :: int
  sl_type :: clock_type
  sl_active :: bool

record escalation_step =
  es_rule :: uid
  es_step :: int
  es_after :: int

record clock =
  cl_rule :: "uid option"
  cl_started :: int
  cl_paused_at :: "int option"
  cl_paused_total :: int
  cl_due_response :: "int option"
  cl_due_resolution :: "int option"
  cl_first_response :: "int option"
  cl_resolved :: "int option"
  cl_state :: clock_state
  cl_color :: sla_color
  cl_escalated :: "int list"
  cl_log :: "string list"

text \<open>What the operations read: calendar and zone, rules and steps, templates, resolution kinds, the calendar
  day of an instant in the operator's zone (\<open>local_date\<close>) and the tenant's reopening window.\<close>

record sla_env =
  ev_to_local :: "int \<Rightarrow> int"
  ev_of_local :: "int \<Rightarrow> int"
  ev_calendar :: work_calendar
  ev_rules :: "(uid, sla_rule) dict"
  ev_steps :: "escalation_step list"
  ev_on_call :: bool
  ev_templates :: "(uid, (string \<times> bool) list) dict"
  ev_kinds :: kinds_config
  ev_operator_day :: "int \<Rightarrow> int"
  ev_reopen_window :: int

definition resolve_rule :: "sla_env \<Rightarrow> priority \<Rightarrow> string option \<Rightarrow> (uid \<times> sla_rule) option" where
  "resolve_rule env p category =
     (let base = filter (\<lambda>(_, r). sl_priority r = p \<and> sl_active r \<and> sl_approved r) (ev_rules env);
          general = find (\<lambda>(_, r). sl_category r = None) base
      in case category of None \<Rightarrow> general
         | Some c \<Rightarrow>
             if c = [] then general
             else case find (\<lambda>(_, r). sl_category r = Some c) base of None \<Rightarrow> general | Some x \<Rightarrow> Some x)"

definition due_at :: "sla_env \<Rightarrow> int \<Rightarrow> int \<Rightarrow> clock_type \<Rightarrow> int res" where
  "due_at env start minutes ty =
     (if ty = Calendar then Inr (start + minutes * MINUTE)
      else add_business_minutes (ev_to_local env) (ev_of_local env) (ev_calendar env) start minutes)"

definition start_clock :: "sla_env \<Rightarrow> clock option \<Rightarrow> priority \<Rightarrow> int \<Rightarrow> string option \<Rightarrow> clock res" where
  "start_clock env existing p now category =
     (case existing of Some c \<Rightarrow> Inr c
      | None \<Rightarrow>
          (let new = \<lparr>cl_rule = None, cl_started = now, cl_paused_at = None, cl_paused_total = 0,
                 cl_due_response = None, cl_due_resolution = None, cl_first_response = None, cl_resolved = None,
                 cl_state = Running, cl_color = Green, cl_escalated = [], cl_log = []\<rparr>
           in case resolve_rule env p category of
                None \<Rightarrow> Inr (new\<lparr>cl_log := [''started'']\<rparr>)
              | Some (rid, r) \<Rightarrow>
                  bindr (due_at env now (sl_response r) (sl_type r)) (\<lambda>response.
                  bindr (due_at env now (sl_resolution r) (sl_type r)) (\<lambda>resolution.
                    Inr (new\<lparr>cl_rule := Some rid, cl_due_response := Some response,
                      cl_due_resolution := Some resolution, cl_log := [''started'']\<rparr>)))))"

definition log_clock :: "string \<Rightarrow> clock \<Rightarrow> clock" where
  "log_clock event c = c\<lparr>cl_log := cl_log c @ [event]\<rparr>"

definition pause_clock :: "int \<Rightarrow> clock \<Rightarrow> clock" where
  "pause_clock now c =
     (if cl_state c \<noteq> Running then c
      else log_clock ''paused'' (c\<lparr>cl_state := Paused, cl_paused_at := Some now\<rparr>))"

text \<open>\<open>int(seconds // 60)\<close>: the floor of the minutes.\<close>

definition resume_clock :: "sla_env \<Rightarrow> int \<Rightarrow> clock \<Rightarrow> clock res" where
  "resume_clock env now c =
     (case cl_paused_at c of None \<Rightarrow> Inr c
      | Some paused \<Rightarrow>
          if cl_state c \<noteq> Paused then Inr c
          else
            (let minutes = (now - paused) div MINUTE;
                 done' = (\<lambda>c'. log_clock ''resumed'' (c'\<lparr>cl_paused_at := None, cl_state := Running\<rparr>));
                 c1 = c\<lparr>cl_paused_total := cl_paused_total c + minutes\<rparr>
             in case cl_due_resolution c of None \<Rightarrow> Inr (done' c1)
                | Some due \<Rightarrow>
                    bindr (due_at env due minutes (if minutes = 0 then Calendar else Business)) (\<lambda>due'.
                      Inr (done' (c1\<lparr>cl_due_resolution := Some due'\<rparr>)))))"

definition mark_first_response :: "int \<Rightarrow> clock \<Rightarrow> clock" where
  "mark_first_response now c =
     (if cl_first_response c \<noteq> None then c else log_clock ''first_response'' (c\<lparr>cl_first_response := Some now\<rparr>))"

definition reopen_clock :: "clock \<Rightarrow> clock" where
  "reopen_clock c =
     (if cl_state c \<noteq> Clock_Done then c else log_clock ''reopened'' (c\<lparr>cl_resolved := None, cl_state := Running\<rparr>))"

definition mark_resolved :: "int \<Rightarrow> clock \<Rightarrow> clock" where
  "mark_resolved now c =
     (if cl_resolved c \<noteq> None then c else log_clock ''resolved'' (c\<lparr>cl_resolved := Some now, cl_state := Clock_Done\<rparr>))"

definition WARN_PERCENT :: int where "WARN_PERCENT = 50"

text \<open>
  The color of one of the two deadlines. The source compares the floating point quotient of two minute
  counts with 50 percent; for counts of this size it decides like the exact comparison.
\<close>

definition deadline_color :: "sla_env \<Rightarrow> int \<Rightarrow> clock \<Rightarrow> int option \<times> int option \<Rightarrow> sla_color res" where
  "deadline_color env now c x =
     (case x of
        (Some due, None) \<Rightarrow>
          bindr (business_minutes_between (ev_to_local env) (ev_calendar env) (cl_started c) due) (\<lambda>t.
          bindr (business_minutes_between (ev_to_local env) (ev_calendar env) (cl_started c) (min now due)) (\<lambda>e.
            (let target = (if t = 0 then 1 else t)
             in Inr (if due \<le> now then Red else if WARN_PERCENT * target \<le> e * 100 then Yellow else Green))))
      | _ \<Rightarrow> Inr Green)"

definition recompute_color :: "sla_env \<Rightarrow> int \<Rightarrow> clock \<Rightarrow> (clock \<times> sla_color) res" where
  "recompute_color env now c =
     (if cl_state c = Clock_Done then Inr (c\<lparr>cl_color := Green\<rparr>, Green)
      else
        bindr (deadline_color env now c (cl_due_response c, cl_first_response c)) (\<lambda>a.
        bindr (deadline_color env now c (cl_due_resolution c, cl_resolved c)) (\<lambda>b.
          (let w1 = (if rank_value Green < rank_value a then a else Green);
               worst = (if rank_value w1 < rank_value b then b else w1);
               c1 = c\<lparr>cl_color := worst\<rparr>
           in Inr (if worst = Red \<and> cl_state c = Running then c1\<lparr>cl_state := Breached\<rparr> else c1, worst)))))"

definition escalate_step :: "int \<Rightarrow> clock \<Rightarrow> escalation_step \<Rightarrow> clock" where
  "escalate_step elapsed c st =
     (if es_step st \<in> set (cl_escalated c) \<or> elapsed < es_after st then c
      else log_clock ''escalated'' (c\<lparr>cl_escalated := cl_escalated c @ [es_step st]\<rparr>))"

definition ESCALATED_PRIORITIES :: "priority list" where "ESCALATED_PRIORITIES = [Immediate, Urgent]"

definition check_and_escalate :: "sla_env \<Rightarrow> int \<Rightarrow> priority \<Rightarrow> clock \<Rightarrow> (clock \<times> sla_color) res" where
  "check_and_escalate env now p c =
     bindr (recompute_color env now c) (\<lambda>(c1, color).
       if cl_state c1 \<noteq> Breached then Inr (c1, color)
       else
         (let steps = py_sorted es_step (filter (\<lambda>st. Some (es_rule st) = cl_rule c1) (ev_steps env));
              elapsed = (now - cl_started c1) div MINUTE;
              c2 = foldl (escalate_step elapsed) c1 steps
          in Inr (if steps = [] \<and> ev_on_call env \<and> p \<in> set ESCALATED_PRIORITIES \<and> 0 \<notin> set (cl_escalated c2)
                  then log_clock ''escalated'' (c2\<lparr>cl_escalated := cl_escalated c2 @ [0]\<rparr>) else c2, color)))"

section \<open>The ticket\<close>

datatype ticket_status = St_New | St_In_Progress | St_Waiting | St_Done | St_Closed | St_Rejected

fun TICKET_FLOW :: "ticket_status \<Rightarrow> ticket_status list" where
  "TICKET_FLOW St_New = [St_In_Progress, St_Waiting, St_Rejected, St_Done]"
| "TICKET_FLOW St_In_Progress = [St_Waiting, St_Done, St_Rejected]"
| "TICKET_FLOW St_Waiting = [St_In_Progress, St_Done, St_Rejected]"
| "TICKET_FLOW St_Done = [St_Closed, St_In_Progress]"
| "TICKET_FLOW St_Closed = []"
| "TICKET_FLOW St_Rejected = [St_In_Progress]"

definition CLOSING_STATUSES :: "ticket_status list" where
  "CLOSING_STATUSES = [St_Done, St_Closed, St_Rejected]"

record check_item =
  ci_required :: bool
  ci_done :: bool

record ticket =
  t_status :: ticket_status
  t_priority :: priority
  t_category :: "string option"
  t_assignee :: "uid option"
  t_template :: "uid option"
  t_checklist :: "check_item list"
  t_extra :: "(string, bool) dict"
  t_resolved_at :: "int option"
  t_resolution_kind :: "string option"
  t_resolution_note :: "string option"
  t_resolved_by :: "uid option"
  t_merged_into :: "uid option"
  t_follow_up_of :: "uid option"

record assignee =
  as_user :: uid
  as_primary :: bool
  as_reason :: string

text \<open>
  Rows of the history. A status row carries its time, and may be marked as an automatic close from
  Gmail (\<open>data.source\<close>) or as a merge (\<open>data.merge\<close>). \<open>Other_Event\<close> is any row that records no change of
  the modelled state (mails, comments, field changes, skipped automatic closes).
\<close>

datatype event_mark = Unmarked | From_Gmail | By_Merge

datatype ticket_event =
    Status_Event int "uid option" ticket_status ticket_status bool bool event_mark "resolution option"
  | Reopened_Event int "uid option" bool ticket_status
  | Reverted_Event int "uid option" ticket_status
  | Merged_Into_Event uid
  | Merged_From_Event uid nat
  | Assigned_Event "uid option" "uid option" uid string
  | Other_Event string

record case_state =
  cs_ticket :: ticket
  cs_assignees :: "assignee list"
  cs_events :: "ticket_event list"
  cs_clock :: "clock option"

text \<open>\<open>t_extra\<close> tells for each extra field whether its value is filled (true in Python).\<close>

definition check_required_extra_fields :: "(string \<times> bool) list \<Rightarrow> (string, bool) dict \<Rightarrow> unit res" where
  "check_required_extra_fields flds vals =
     guardr (\<not> list_ex (\<lambda>(key, required). required \<and> \<not> dict_get vals key False) flds) Validation"

definition check_checklist_complete :: "check_item list \<Rightarrow> unit res" where
  "check_checklist_complete checklist = guardr (\<not> list_ex (\<lambda>i. ci_required i \<and> \<not> ci_done i) checklist) Validation"

definition completion_check :: "sla_env \<Rightarrow> ticket \<Rightarrow> unit res" where
  "completion_check env t =
     bindr (check_checklist_complete (t_checklist t)) (\<lambda>_.
       case t_template t of None \<Rightarrow> Inr ()
       | Some k \<Rightarrow> (case map_of (ev_templates env) k of None \<Rightarrow> Inr ()
           | Some fs \<Rightarrow> check_required_extra_fields fs (t_extra t)))"

definition assert_transition_allowed :: "sla_env \<Rightarrow> ticket \<Rightarrow> ticket_status \<Rightarrow> bool \<Rightarrow> unit res" where
  "assert_transition_allowed env t new_status skip_flow =
     (if \<not> skip_flow \<and> new_status \<notin> set (TICKET_FLOW (t_status t)) then Inl Conflict
      else if new_status \<in> {St_Done, St_Closed} then completion_check env t
      else Inr ())"

definition sync_sla_clock :: "int \<Rightarrow> bool \<Rightarrow> clock option \<Rightarrow> clock option" where
  "sync_sla_clock now closing c =
     (case c of None \<Rightarrow> None
      | Some k \<Rightarrow>
          Some (if closing then mark_resolved now k
                else if cl_state k = Clock_Done
                then log_clock ''reopened'' (k\<lparr>cl_resolved := None, cl_state := Running\<rparr>)
                else k))"

definition transition_status ::
  "sla_env \<Rightarrow> int \<Rightarrow> case_state \<Rightarrow> ticket_status \<Rightarrow> uid option \<Rightarrow> bool \<Rightarrow> bool \<Rightarrow> resolution option \<Rightarrow> (case_state \<times> bool) res" where
  "transition_status env now cs new_status actor bulk skip_flow res =
     (let t = cs_ticket cs in
      if new_status = t_status t then Inr (cs, False)
      else
        (let closing = (new_status \<in> set CLOSING_STATUSES);
             admin_override = (skip_flow \<and> new_status \<notin> set (TICKET_FLOW (t_status t)))
         in bindr (assert_transition_allowed env t new_status skip_flow) (\<lambda>_.
            if closing \<and> res = None \<and> \<not> skip_flow then Inl Validation
            else bindr (case res of None \<Rightarrow> Inr ()
                | Some r \<Rightarrow> if closing then assert_resolution_kind_allowed (ev_kinds env) (rv_kind r) else Inr ()) (\<lambda>_.
              (let event = Status_Event now actor (t_status t) new_status bulk admin_override Unmarked (if closing then res else None);
                   t1 = t\<lparr>t_status := new_status, t_resolved_at := (if closing then Some now else None)\<rparr>;
                   t2 = (if closing
                     then (case res of None \<Rightarrow> t1
                       | Some r \<Rightarrow> t1\<lparr>t_resolution_kind := Some (rv_kind r), t_resolution_note := rv_note r, t_resolved_by := actor\<rparr>)
                     else t1\<lparr>t_resolution_kind := None, t_resolution_note := None, t_resolved_by := None\<rparr>)
               in Inr (cs\<lparr>cs_ticket := t2, cs_events := cs_events cs @ [event],
                     cs_clock := sync_sla_clock now closing (cs_clock cs)\<rparr>, True))))))"

definition assign_ticket :: "case_state \<Rightarrow> uid \<Rightarrow> uid option \<Rightarrow> string \<Rightarrow> case_state \<times> bool" where
  "assign_ticket cs user actor reason =
     (let t = cs_ticket cs in
      if Some user = t_assignee t then (cs, False)
      else
        (let rows = cs_assignees cs;
             rows1 = map (\<lambda>r. if as_user r = user then r else if as_primary r then r\<lparr>as_primary := False\<rparr> else r) rows;
             rows2 = (if list_ex (\<lambda>r. as_user r = user) rows
               then map (\<lambda>r. if as_user r = user then r\<lparr>as_primary := True, as_reason := reason\<rparr> else r) rows1
               else rows1 @ [\<lparr>as_user = user, as_primary = True, as_reason = reason\<rparr>])
         in (cs\<lparr>cs_ticket := t\<lparr>t_assignee := Some user\<rparr>, cs_assignees := rows2,
               cs_events := cs_events cs @ [Assigned_Event actor (t_assignee t) user reason]\<rparr>, True)))"

text \<open>
  Rows of the assignee table beside \<open>assign_ticket\<close>: \<open>add_assignee\<close> (\<open>communication/assignment.py\<close>) does
  nothing for a user who has a row. \<open>auto_assign\<close> is the assignment of a ticket made from a mail, by
  the owner of the mailbox, a name in the text, competences and the rows of an earlier ticket.
\<close>

definition add_assignee :: "case_state \<Rightarrow> uid \<Rightarrow> string \<Rightarrow> bool \<Rightarrow> case_state" where
  "add_assignee cs user reason primary =
     (if list_ex (\<lambda>r. as_user r = user) (cs_assignees cs) then cs
      else cs\<lparr>cs_assignees := cs_assignees cs @ [\<lparr>as_user = user, as_primary = primary, as_reason = reason\<rparr>],
        cs_ticket := (if primary \<and> t_assignee (cs_ticket cs) = None then (cs_ticket cs)\<lparr>t_assignee := Some user\<rparr> else cs_ticket cs)\<rparr>)"

definition remove_assignee :: "case_state \<Rightarrow> uid \<Rightarrow> case_state" where
  "remove_assignee cs user = cs\<lparr>cs_assignees := filter (\<lambda>r. as_user r \<noteq> user) (cs_assignees cs)\<rparr>"

definition auto_assign :: "case_state \<Rightarrow> uid option \<Rightarrow> uid option \<Rightarrow> (uid \<times> string) list \<Rightarrow> assignee list \<Rightarrow> case_state" where
  "auto_assign cs mailbox name members previous =
     (let c1 = (case mailbox of None \<Rightarrow> cs | Some u \<Rightarrow> add_assignee cs u ''Anschrift'' True);
          c2 = (case name of None \<Rightarrow> c1 | Some u \<Rightarrow> add_assignee c1 u ''Signatur'' (mailbox = None));
          c3 = foldl (\<lambda>c (u, reason). add_assignee c u reason False) c2 members
      in if mailbox \<noteq> None \<or> name \<noteq> None then c3
         else foldl (\<lambda>c r. add_assignee c (as_user r) ''Verlauf'' (as_primary r)) c3 previous)"

section \<open>Automatic close, reopening and revert\<close>

definition finished :: "case_state \<Rightarrow> bool" where
  "finished cs \<longleftrightarrow> t_status (cs_ticket cs) \<in> set CLOSING_STATUSES"

text \<open>
  The automatic close from Gmail (\<open>try_auto_close_ticket\<close>), after its own refusals: the newest status row,
  which \<open>transition_status\<close> has just written, is marked.
\<close>

definition AUTO_CLOSE_KIND :: string where "AUTO_CLOSE_KIND = ''auskunft_erteilt''"

fun mark_gmail :: "ticket_event \<Rightarrow> ticket_event" where
  "mark_gmail (Status_Event tm a x y b ov m r) = (if y = St_Done then Status_Event tm a x y b ov From_Gmail r
     else Status_Event tm a x y b ov m r)"
| "mark_gmail e = e"

definition gmail_close :: "sla_env \<Rightarrow> int \<Rightarrow> case_state \<Rightarrow> string \<Rightarrow> (case_state \<times> bool) res" where
  "gmail_close env now cs note =
     bindr (transition_status env now cs St_Done None False False (Some \<lparr>rv_kind = AUTO_CLOSE_KIND, rv_note = Some note\<rparr>))
       (\<lambda>(cs', changed). Inr (if changed
          then cs'\<lparr>cs_ticket := (cs_ticket cs')\<lparr>t_resolved_by := None\<rparr>,
            cs_events := butlast (cs_events cs') @ [mark_gmail (last (cs_events cs'))]\<rparr>
          else cs', changed))"

text \<open>
  A finished ticket is reopened by a mail (\<open>attach_to_ticket\<close>) or by a mail moved back to the inbox
  (\<open>reopen_from_gmail\<close>): status, time of completion, an event of its own and the clock; resolution kind,
  note and person stay. Which ticket it is and whether the window allows it is decided in \<open>TicketDesk\<close>.
\<close>

definition reopen_case :: "int \<Rightarrow> uid option \<Rightarrow> bool \<Rightarrow> case_state \<Rightarrow> case_state" where
  "reopen_case now actor by_gmail cs =
     cs\<lparr>cs_ticket := (cs_ticket cs)\<lparr>t_status := St_In_Progress, t_resolved_at := None\<rparr>,
        cs_events := cs_events cs @ [Reopened_Event now actor by_gmail (t_status (cs_ticket cs))],
        cs_clock := map_option reopen_clock (cs_clock cs)\<rparr>"

definition closed_at :: "ticket \<Rightarrow> int \<Rightarrow> int" where
  "closed_at t updated = (case t_resolved_at t of Some r \<Rightarrow> r | None \<Rightarrow> updated)"

definition within_reopen_window :: "sla_env \<Rightarrow> int \<Rightarrow> int \<Rightarrow> bool" where
  "within_reopen_window env since now \<longleftrightarrow> ev_operator_day env now - ev_operator_day env since \<le> ev_reopen_window env"

text \<open>
  \<open>revert_gmail_decision\<close>: it looks at the newest status row of the ticket (rows of the same time in any
  order) and, when that row comes from Gmail and the ticket is finished, sets it back to in progress. The
  clock is not touched.
\<close>

fun is_status :: "ticket_event \<Rightarrow> bool" where
  "is_status (Status_Event tm a x y b ov m r) = True" | "is_status e = False"

fun event_at :: "ticket_event \<Rightarrow> int" where
  "event_at (Status_Event tm a x y b ov m r) = tm" | "event_at e = 0"

fun from_gmail :: "ticket_event \<Rightarrow> bool" where
  "from_gmail (Status_Event tm a x y b ov m r) = (m = From_Gmail)" | "from_gmail e = False"

fun by_merge :: "ticket_event \<Rightarrow> bool" where
  "by_merge (Status_Event tm a x y b ov m r) = (m = By_Merge)" | "by_merge e = False"

fun is_revert :: "ticket_event \<Rightarrow> bool" where
  "is_revert (Reverted_Event tm a x) = True" | "is_revert e = False"

fun is_merged_from :: "ticket_event \<Rightarrow> bool" where
  "is_merged_from (Merged_From_Event k n) = True" | "is_merged_from e = False"

definition newest_status :: "case_state \<Rightarrow> ticket_event \<Rightarrow> bool" where
  "newest_status cs e \<longleftrightarrow> e \<in> set (cs_events cs) \<and> is_status e \<and>
     list_all (\<lambda>x. is_status x \<longrightarrow> event_at x \<le> event_at e) (cs_events cs)"

definition revert_gmail :: "int \<Rightarrow> uid option \<Rightarrow> case_state \<Rightarrow> case_state" where
  "revert_gmail now actor cs =
     cs\<lparr>cs_ticket := (cs_ticket cs)\<lparr>t_status := St_In_Progress, t_resolved_at := None\<rparr>,
        cs_events := cs_events cs @ [Reverted_Event now actor (t_status (cs_ticket cs))]\<rparr>"

text \<open>
  Any change of the other fields by the handlers that edit a ticket (patch, checklist, invoice, process flow)
  or by an automation rule, which may set the responsible user without touching the assignee rows.
\<close>

definition edit_fields ::
  "case_state \<Rightarrow> priority \<Rightarrow> string option \<Rightarrow> uid option \<Rightarrow> uid option \<Rightarrow> check_item list \<Rightarrow> (string, bool) dict \<Rightarrow> case_state" where
  "edit_fields cs p category assignee template checklist extra =
     cs\<lparr>cs_ticket := (cs_ticket cs)\<lparr>t_priority := p, t_category := category, t_assignee := assignee, t_template := template,
       t_checklist := checklist, t_extra := extra\<rparr>\<rparr>"

definition note_event :: "case_state \<Rightarrow> string \<Rightarrow> case_state" where
  "note_event cs kind = cs\<lparr>cs_events := cs_events cs @ [Other_Event kind]\<rparr>"

section \<open>Steps\<close>

text \<open>
  The steps of one ticket. \<open>upkeep_step\<close> holds those that do not ask whether the ticket was merged into
  another: the clock, rows of the history, the removal of an assignee and the revert of a Gmail close. A
  clock starts when a ticket is created or, by the backfill job, for a ticket that is not finished.
  \<open>ticket_step\<close> adds the others; its flag tells whether the acting user may skip the flow
  (\<open>_may_skip_flow\<close>, tenant administrators). Merging, reopening and the assignment from an earlier ticket
  involve several tickets and are steps of the desk (\<open>TicketDesk\<close>).
\<close>

definition with_clock :: "case_state \<Rightarrow> clock \<Rightarrow> case_state" where
  "with_clock cs c = cs\<lparr>cs_clock := Some c\<rparr>"

inductive upkeep_step :: "sla_env \<Rightarrow> case_state \<Rightarrow> case_state \<Rightarrow> bool" for env :: sla_env where
  start: "t_status (cs_ticket cs) \<notin> set CLOSING_STATUSES \<Longrightarrow>
    start_clock env (cs_clock cs) (t_priority (cs_ticket cs)) now (t_category (cs_ticket cs)) = Inr c \<Longrightarrow>
    upkeep_step env cs (with_clock cs c)"
| pause: "cs_clock cs = Some c \<Longrightarrow> upkeep_step env cs (with_clock cs (pause_clock now c))"
| resume: "cs_clock cs = Some c \<Longrightarrow> resume_clock env now c = Inr c' \<Longrightarrow> upkeep_step env cs (with_clock cs c')"
| response: "cs_clock cs = Some c \<Longrightarrow> upkeep_step env cs (with_clock cs (mark_first_response now c))"
| color: "cs_clock cs = Some c \<Longrightarrow> check_and_escalate env now (t_priority (cs_ticket cs)) c = Inr (c', col) \<Longrightarrow>
    upkeep_step env cs (with_clock cs c')"
| note_row: "upkeep_step env cs (note_event cs kind)"
| unassign: "upkeep_step env cs (remove_assignee cs user)"
| revert: "newest_status cs e \<Longrightarrow> from_gmail e \<Longrightarrow> finished cs \<Longrightarrow> upkeep_step env cs (revert_gmail now actor cs)"

inductive ticket_step :: "sla_env \<Rightarrow> bool \<Rightarrow> case_state \<Rightarrow> case_state \<Rightarrow> bool" for env :: sla_env where
  transition: "transition_status env now cs st actor bulk (admin \<and> skip) res = Inr (cs', changed) \<Longrightarrow> ticket_step env admin cs cs'"
| auto_close: "\<not> finished cs \<Longrightarrow> gmail_close env now cs note = Inr (cs', changed) \<Longrightarrow> ticket_step env admin cs cs'"
| assign: "assign_ticket cs user actor reason = (cs', changed) \<Longrightarrow> ticket_step env admin cs cs'"
| additional: "ticket_step env admin cs (add_assignee cs user reason False)"
| edit: "ticket_step env admin cs (edit_fields cs p category assignee template checklist extra)"
| upkeep: "upkeep_step env cs cs' \<Longrightarrow> ticket_step env admin cs cs'"

definition new_case :: "case_state \<Rightarrow> bool" where
  "new_case cs \<longleftrightarrow> t_status (cs_ticket cs) = St_New \<and> t_resolved_at (cs_ticket cs) = None \<and>
     t_resolution_kind (cs_ticket cs) = None \<and> t_resolution_note (cs_ticket cs) = None \<and>
     t_resolved_by (cs_ticket cs) = None \<and> t_merged_into (cs_ticket cs) = None \<and>
     cs_assignees cs = [] \<and> cs_events cs = [] \<and> cs_clock cs = None"

inductive_cases ticket_stepE: "ticket_step env admin cs cs'"
inductive_cases upkeep_stepE: "upkeep_step env cs cs'"

section \<open>Invariant\<close>

text \<open>
  A completed ticket has a time of completion and an ended clock. An unfinished ticket may have an ended
  clock only after a revert. A merged ticket has no status row but that of its merge.
\<close>

definition ticket_ok :: "case_state \<Rightarrow> bool" where
  "ticket_ok cs \<longleftrightarrow> (t_resolved_at (cs_ticket cs) \<noteq> None \<longleftrightarrow> finished cs) \<and>
     (t_merged_into (cs_ticket cs) \<noteq> None \<longrightarrow> list_all (\<lambda>e. is_status e \<longrightarrow> by_merge e) (cs_events cs))"

definition clock_ok :: "case_state \<Rightarrow> bool" where
  "clock_ok cs \<longleftrightarrow> (case cs_clock cs of None \<Rightarrow> True
     | Some c \<Rightarrow> (finished cs \<longrightarrow> cl_state c = Clock_Done) \<and>
         (cl_state c = Clock_Done \<longrightarrow> finished cs \<or> list_ex is_revert (cs_events cs)) \<and>
         (cl_state c = Clock_Done \<longleftrightarrow> cl_resolved c \<noteq> None) \<and> distinct (cl_escalated c))"

text \<open>The users of the rows differ, and the primary rows belong to users of a set; one user is enough.\<close>

definition rows_in :: "uid set \<Rightarrow> assignee list \<Rightarrow> bool" where
  "rows_in U rows \<longleftrightarrow> distinct (map as_user rows) \<and> (\<forall>r \<in> set rows. as_primary r \<longrightarrow> as_user r \<in> U)"

definition rows_ok :: "assignee list \<Rightarrow> bool" where
  "rows_ok rows \<longleftrightarrow> (\<exists>u. rows_in {u} rows)"

definition assignees_ok :: "case_state \<Rightarrow> bool" where
  "assignees_ok cs \<longleftrightarrow> rows_ok (cs_assignees cs)"

definition case_inv :: "case_state \<Rightarrow> bool" where
  "case_inv cs \<longleftrightarrow> ticket_ok cs \<and> clock_ok cs \<and> assignees_ok cs"

lemmas case_defs = case_inv_def ticket_ok_def clock_ok_def assignees_ok_def finished_def

text \<open>Status changes of the history and the form each row may have.\<close>

fun chained :: "ticket_status \<Rightarrow> (ticket_status \<times> ticket_status) list \<Rightarrow> ticket_status \<Rightarrow> bool" where
  "chained a [] z \<longleftrightarrow> a = z"
| "chained a ((x, y) # ps) z \<longleftrightarrow> a = x \<and> chained y ps z"

fun status_change :: "ticket_event \<Rightarrow> (ticket_status \<times> ticket_status) list" where
  "status_change (Status_Event tm a x y b ov m r) = [(x, y)]"
| "status_change (Reopened_Event tm a g x) = [(x, St_In_Progress)]"
| "status_change (Reverted_Event tm a x) = [(x, St_In_Progress)]"
| "status_change e = []"

fun event_ok :: "sla_env \<Rightarrow> bool \<Rightarrow> ticket_event \<Rightarrow> bool" where
  "event_ok env admin (Status_Event tm a x y b override m r) \<longleftrightarrow>
     (if m = By_Merge then x \<noteq> St_Closed \<and> y = St_Closed else if override then admin else y \<in> set (TICKET_FLOW x)) \<and>
     (y \<in> set CLOSING_STATUSES \<longrightarrow> (case r of None \<Rightarrow> admin | Some q \<Rightarrow> rv_kind q \<in> set (active_kind_codes (ev_kinds env))))"
| "event_ok env admin (Reopened_Event tm a g x) \<longleftrightarrow> x \<in> set CLOSING_STATUSES"
| "event_ok env admin (Reverted_Event tm a x) \<longleftrightarrow> x \<in> set CLOSING_STATUSES"
| "event_ok env admin (Assigned_Event a p u r) \<longleftrightarrow> p \<noteq> Some u"
| "event_ok env admin e \<longleftrightarrow> True"

lemma transition_result:
  assumes "transition_status env now cs st actor bulk skip res = Inr (cs', changed)" and "st \<noteq> t_status (cs_ticket cs)"
  shows "cs_assignees cs' = cs_assignees cs \<and> t_assignee (cs_ticket cs') = t_assignee (cs_ticket cs) \<and>
    t_status (cs_ticket cs') = st \<and>
    t_resolved_at (cs_ticket cs') = (if st \<in> set CLOSING_STATUSES then Some now else None) \<and>
    cs_clock cs' = sync_sla_clock now (st \<in> set CLOSING_STATUSES) (cs_clock cs) \<and>
    (st \<notin> set CLOSING_STATUSES \<longrightarrow> t_resolution_kind (cs_ticket cs') = None \<and> t_resolution_note (cs_ticket cs') = None \<and>
      t_resolved_by (cs_ticket cs') = None) \<and>
    t_merged_into (cs_ticket cs') = t_merged_into (cs_ticket cs) \<and> t_follow_up_of (cs_ticket cs') = t_follow_up_of (cs_ticket cs) \<and>
    cs_events cs' = cs_events cs @ [Status_Event now actor (t_status (cs_ticket cs)) st bulk
      (skip \<and> st \<notin> set (TICKET_FLOW (t_status (cs_ticket cs)))) Unmarked (if st \<in> set CLOSING_STATUSES then res else None)] \<and>
    (skip \<or> st \<in> set (TICKET_FLOW (t_status (cs_ticket cs)))) \<and>
    (st \<in> {St_Done, St_Closed} \<longrightarrow> completion_check env (cs_ticket cs) = Inr ()) \<and>
    (st \<in> set CLOSING_STATUSES \<longrightarrow> (case res of None \<Rightarrow> skip | Some r \<Rightarrow> rv_kind r \<in> set (active_kind_codes (ev_kinds env))))"
  using assms unfolding transition_status_def Let_def assert_transition_allowed_def assert_resolution_kind_allowed_def
  by (auto simp: bindr_eq_Inr split: option.splits if_splits)

lemma transition_keeps:
  assumes "transition_status env now cs st actor bulk skip res = Inr (cs', changed)"
  shows "t_checklist (cs_ticket cs') = t_checklist (cs_ticket cs)" "t_template (cs_ticket cs') = t_template (cs_ticket cs)"
    "t_extra (cs_ticket cs') = t_extra (cs_ticket cs)"
  using assms unfolding transition_status_def Let_def
  by (auto simp: bindr_eq_Inr split: option.splits if_splits)

text \<open>Clock operations that neither end nor restart the clock.\<close>

definition same_end :: "clock \<Rightarrow> clock \<Rightarrow> bool" where
  "same_end c c' \<longleftrightarrow> (cl_state c' = Clock_Done \<longleftrightarrow> cl_state c = Clock_Done) \<and> cl_resolved c' = cl_resolved c \<and>
     (distinct (cl_escalated c) \<longrightarrow> distinct (cl_escalated c'))"

lemma same_end_trans: "same_end a b \<Longrightarrow> same_end b c \<Longrightarrow> same_end a c"
  by (auto simp: same_end_def)

lemma resume_same_end:
  assumes "resume_clock env now c = Inr c'"
  shows "same_end c c'"
proof (cases "cl_paused_at c = None \<or> cl_state c \<noteq> Paused")
  case True
  then have "c' = c" using assms by (auto simp: resume_clock_def split: option.splits)
  then show ?thesis by (simp add: same_end_def)
next
  case False
  then obtain p where "cl_paused_at c = Some p" "cl_state c = Paused" by auto
  then show ?thesis
    using assms by (cases "cl_due_resolution c") (auto simp: resume_clock_def Let_def bindr_eq_Inr same_end_def log_clock_def)
qed

lemma recompute_result:
  assumes "recompute_color env now c = Inr (c', col)"
  shows "c' = c\<lparr>cl_color := col\<rparr> \<or> cl_state c = Running \<and> c' = c\<lparr>cl_color := col, cl_state := Breached\<rparr>"
proof (cases "cl_state c = Clock_Done")
  case True
  then show ?thesis using assms by (simp add: recompute_color_def)
next
  case False
  then show ?thesis using assms by (auto simp: recompute_color_def bindr_eq_Inr Let_def split: if_splits)
qed

lemma same_end_clock:
  "same_end c (pause_clock now c)" "same_end c (mark_first_response now c)"
  "recompute_color env now c = Inr (c', col) \<Longrightarrow> same_end c c'"
  using recompute_result[of env now c c' col]
  by (auto simp: same_end_def pause_clock_def mark_first_response_def log_clock_def)

lemma escalate_steps: "same_end c (foldl (escalate_step n) c steps)"
proof (induction steps arbitrary: c)
  case (Cons st steps)
  have "same_end c (escalate_step n c st)" by (auto simp: same_end_def escalate_step_def log_clock_def)
  then show ?case using Cons[of "escalate_step n c st"] same_end_trans by auto
qed (simp add: same_end_def)

lemma same_end_escalate:
  assumes "check_and_escalate env now p c = Inr (c', col)"
  shows "same_end c c'"
proof -
  obtain c1 col1 where r: "recompute_color env now c = Inr (c1, col1)"
    using assms by (cases "recompute_color env now c") (auto simp: check_and_escalate_def)
  note k = assms[unfolded check_and_escalate_def r bindr_Inr prod.case]
  define c2 where "c2 = foldl (escalate_step ((now - cl_started c1) div MINUTE)) c1
    (py_sorted es_step (filter (\<lambda>st. Some (es_rule st) = cl_rule c1) (ev_steps env)))"
  have s2: "same_end c c2" using same_end_clock(3)[OF r] escalate_steps same_end_trans unfolding c2_def by blast
  have "same_end c (log_clock ''escalated'' (c2\<lparr>cl_escalated := cl_escalated c2 @ [0]\<rparr>))" if "0 \<notin> set (cl_escalated c2)"
    using s2 that by (auto simp: same_end_def log_clock_def)
  then show ?thesis
    using k s2 same_end_clock(3)[OF r] unfolding Let_def c2_def[symmetric] by (auto split: if_splits)
qed

lemma with_clock_inv:
  assumes "case_inv cs" and "cs_clock cs = Some c" and "same_end c c'"
  shows "case_inv (with_clock cs c')"
  using assms by (auto simp: case_defs with_clock_def same_end_def)

lemma sync_ok:
  assumes "case_inv cs" and "cs_clock cs = Some c"
  shows "\<exists>c'. sync_sla_clock now closing (Some c) = Some c' \<and> (cl_state c' = Clock_Done \<longleftrightarrow> closing) \<and>
    (cl_state c' = Clock_Done \<longleftrightarrow> cl_resolved c' \<noteq> None) \<and> distinct (cl_escalated c')"
  using assms by (auto simp: sync_sla_clock_def mark_resolved_def log_clock_def case_defs)

lemma transition_inv:
  assumes inv: "case_inv cs" and free: "t_merged_into (cs_ticket cs) = None"
    and tr: "transition_status env now cs st actor bulk skip res = Inr (cs', changed)"
  shows "case_inv cs'"
proof (cases "st = t_status (cs_ticket cs)")
  case True
  then have "cs' = cs" using tr by (simp add: transition_status_def Let_def)
  then show ?thesis using inv by simp
next
  case False
  note r = transition_result[OF tr False]
  have "clock_ok cs'"
  proof (cases "cs_clock cs")
    case None
    then show ?thesis using r by (simp add: clock_ok_def sync_sla_clock_def)
  next
    case (Some c)
    obtain c' where "cs_clock cs' = Some c'" "cl_state c' = Clock_Done \<longleftrightarrow> st \<in> set CLOSING_STATUSES"
      "cl_state c' = Clock_Done \<longleftrightarrow> cl_resolved c' \<noteq> None" "distinct (cl_escalated c')"
      using sync_ok[OF inv Some] r Some by metis
    then show ?thesis using r by (simp add: clock_ok_def finished_def)
  qed
  moreover have "ticket_ok cs'" using r free by (simp add: ticket_ok_def finished_def)
  moreover have "assignees_ok cs'" using inv r by (simp add: case_defs)
  ultimately show ?thesis by (simp add: case_inv_def)
qed

text \<open>The mark changes the last row only.\<close>

lemma gmail_close_result:
  assumes "gmail_close env now cs note = Inr (cs', changed)" and "\<not> finished cs"
  shows "\<exists>cs1. transition_status env now cs St_Done None False False (Some \<lparr>rv_kind = AUTO_CLOSE_KIND, rv_note = Some note\<rparr>)
      = Inr (cs1, True) \<and> cs_ticket cs' = (cs_ticket cs1)\<lparr>t_resolved_by := None\<rparr> \<and> cs_assignees cs' = cs_assignees cs1 \<and>
    cs_clock cs' = cs_clock cs1 \<and>
    cs_events cs' = cs_events cs @ [Status_Event now None (t_status (cs_ticket cs)) St_Done False False From_Gmail
      (Some \<lparr>rv_kind = AUTO_CLOSE_KIND, rv_note = Some note\<rparr>)]"
proof -
  let ?r = "\<lparr>rv_kind = AUTO_CLOSE_KIND, rv_note = Some note\<rparr>"
  obtain cs1 b where t: "transition_status env now cs St_Done None False False (Some ?r) = Inr (cs1, b)"
    and cs': "cs' = (if b then cs1\<lparr>cs_ticket := (cs_ticket cs1)\<lparr>t_resolved_by := None\<rparr>,
            cs_events := butlast (cs_events cs1) @ [mark_gmail (last (cs_events cs1))]\<rparr> else cs1)"
    using assms(1) by (auto simp: gmail_close_def bindr_eq_Inr)
  have ne: "St_Done \<noteq> t_status (cs_ticket cs)" using assms(2) by (auto simp: finished_def CLOSING_STATUSES_def)
  have "b" using t ne by (auto simp: transition_status_def Let_def bindr_eq_Inr split: if_splits)
  moreover have "cs_events cs1 = cs_events cs @ [Status_Event now None (t_status (cs_ticket cs)) St_Done False False Unmarked (Some ?r)]"
    using transition_result[OF t ne] by (simp add: CLOSING_STATUSES_def)
  ultimately show ?thesis using t cs' by simp
qed

lemma gmail_close_inv:
  assumes inv: "case_inv cs" and free: "t_merged_into (cs_ticket cs) = None" and open': "\<not> finished cs"
    and g: "gmail_close env now cs note = Inr (cs', changed)"
  shows "case_inv cs'"
proof -
  obtain cs1 where t: "transition_status env now cs St_Done None False False
      (Some \<lparr>rv_kind = AUTO_CLOSE_KIND, rv_note = Some note\<rparr>) = Inr (cs1, True)"
    and eq: "cs_ticket cs' = (cs_ticket cs1)\<lparr>t_resolved_by := None\<rparr>" "cs_assignees cs' = cs_assignees cs1"
      "cs_clock cs' = cs_clock cs1"
    using gmail_close_result[OF g open'] by blast
  have ne: "St_Done \<noteq> t_status (cs_ticket cs)" using open' by (auto simp: finished_def CLOSING_STATUSES_def)
  have i1: "case_inv cs1" by (rule transition_inv[OF inv free t])
  have st: "t_status (cs_ticket cs1) = St_Done" "t_merged_into (cs_ticket cs1) = None"
    using transition_result[OF t ne] free by simp_all
  then have fin: "finished cs1" "finished cs'" using eq by (simp_all add: finished_def CLOSING_STATUSES_def)
  have "ticket_ok cs'" using i1 fin eq st by (simp add: case_inv_def ticket_ok_def)
  moreover have "clock_ok cs'" using i1 fin eq by (auto simp: case_inv_def clock_ok_def split: option.splits)
  moreover have "assignees_ok cs'" using i1 eq by (simp add: case_inv_def assignees_ok_def)
  ultimately show ?thesis by (simp add: case_inv_def)
qed

text \<open>What assignments and edits leave alone.\<close>

definition ticket_core ::
  "case_state \<Rightarrow> ticket_status \<times> int option \<times> string option \<times> string option \<times> uid option \<times> uid option \<times> uid option" where
  "ticket_core cs = (t_status (cs_ticket cs), t_resolved_at (cs_ticket cs), t_resolution_kind (cs_ticket cs),
     t_resolution_note (cs_ticket cs), t_resolved_by (cs_ticket cs), t_merged_into (cs_ticket cs), t_follow_up_of (cs_ticket cs))"

lemma add_assignee_rows:
  assumes "rows_in U (cs_assignees cs)" and "primary \<longrightarrow> user \<in> U"
  shows "rows_in U (cs_assignees (add_assignee cs user reason primary))"
  using assms by (auto simp: add_assignee_def rows_in_def list_ex_iff)

lemma add_assignee_keeps [simp]:
  "cs_events (add_assignee cs user reason primary) = cs_events cs"
  "cs_clock (add_assignee cs user reason primary) = cs_clock cs"
  "ticket_core (add_assignee cs user reason primary) = ticket_core cs"
  by (simp_all add: add_assignee_def ticket_core_def)

lemma add_all_rows:
  assumes "rows_in U (cs_assignees cs)" and "\<And>r. r \<in> set rs \<Longrightarrow> prim r \<longrightarrow> usr r \<in> U"
  shows "rows_in U (cs_assignees (foldl (\<lambda>c r. add_assignee c (usr r) (why r) (prim r)) cs rs))"
  using assms
proof (induction rs arbitrary: cs)
  case (Cons r rs)
  have "rows_in U (cs_assignees (add_assignee cs (usr r) (why r) (prim r)))"
    by (rule add_assignee_rows[OF Cons.prems(1)]) (simp add: Cons.prems(2))
  then show ?case using Cons.IH Cons.prems(2) by simp
qed simp

lemma auto_assign_rows:
  assumes fresh: "cs_assignees cs = []" and prev: "rows_ok previous"
  shows "assignees_ok (auto_assign cs mailbox name members previous)"
proof -
  obtain u where u: "rows_in {u} previous" using prev by (auto simp: rows_ok_def)
  define w where "w = (case mailbox of Some v \<Rightarrow> v | None \<Rightarrow> (case name of Some v \<Rightarrow> v | None \<Rightarrow> u))"
  define c1 where "c1 = (case mailbox of None \<Rightarrow> cs | Some v \<Rightarrow> add_assignee cs v ''Anschrift'' True)"
  define c2 where "c2 = (case name of None \<Rightarrow> c1 | Some v \<Rightarrow> add_assignee c1 v ''Signatur'' (mailbox = None))"
  define c3 where "c3 = foldl (\<lambda>c x. add_assignee c (fst x) (snd x) False) c2 members"
  have "rows_in {w} (cs_assignees cs)" by (simp add: fresh rows_in_def)
  then have "rows_in {w} (cs_assignees c1)" unfolding c1_def
    by (cases mailbox) (simp_all add: w_def add_assignee_rows)
  then have "rows_in {w} (cs_assignees c2)" unfolding c2_def
    by (cases name; cases mailbox) (simp_all add: w_def add_assignee_rows)
  then have 3: "rows_in {w} (cs_assignees c3)" unfolding c3_def by (rule add_all_rows) simp
  have 4: "rows_in {w} (cs_assignees (foldl (\<lambda>c r. add_assignee c (as_user r) ''Verlauf'' (as_primary r)) c3 previous))"
    if "mailbox = None" "name = None"
    using 3 by (rule add_all_rows) (use that u in \<open>auto simp: w_def rows_in_def\<close>)
  have "auto_assign cs mailbox name members previous = (if mailbox \<noteq> None \<or> name \<noteq> None then c3
      else foldl (\<lambda>c r. add_assignee c (as_user r) ''Verlauf'' (as_primary r)) c3 previous)"
    by (simp only: auto_assign_def Let_def c1_def[symmetric] c2_def[symmetric] c3_def case_prod_unfold)
  then show ?thesis unfolding assignees_ok_def rows_ok_def using 3 4 by (auto split: if_splits)
qed

lemma add_all_keeps [simp]:
  "cs_events (foldl (\<lambda>c r. add_assignee c (usr r) (why r) (prim r)) cs rs) = cs_events cs"
  "cs_clock (foldl (\<lambda>c r. add_assignee c (usr r) (why r) (prim r)) cs rs) = cs_clock cs"
  "ticket_core (foldl (\<lambda>c r. add_assignee c (usr r) (why r) (prim r)) cs rs) = ticket_core cs"
  by (induction rs arbitrary: cs) simp_all

lemma auto_assign_keeps [simp]:
  "cs_events (auto_assign cs mailbox name members previous) = cs_events cs"
  "cs_clock (auto_assign cs mailbox name members previous) = cs_clock cs"
  "ticket_core (auto_assign cs mailbox name members previous) = ticket_core cs"
  by (simp_all add: auto_assign_def Let_def case_prod_unfold split: option.splits)

text \<open>Steps that leave status, resolution, links and clock alone.\<close>

fun side_event :: "ticket_event \<Rightarrow> bool" where
  "side_event (Assigned_Event a p u r) \<longleftrightarrow> p \<noteq> Some u"
| "side_event (Other_Event k) \<longleftrightarrow> True"
| "side_event e \<longleftrightarrow> False"

definition side_step :: "case_state \<Rightarrow> case_state \<Rightarrow> bool" where
  "side_step cs cs' \<longleftrightarrow> ticket_core cs' = ticket_core cs \<and> cs_clock cs' = cs_clock cs \<and>
     (\<exists>es. cs_events cs' = cs_events cs @ es \<and> list_all side_event es)"

lemma side_events:
  assumes "list_all side_event es"
  shows "list_all (\<lambda>e. is_status e \<longrightarrow> by_merge e) es" "list_all (event_ok env admin) es"
    "concat (map status_change es) = []"
proof -
  have "(is_status e \<longrightarrow> by_merge e) \<and> event_ok env admin e \<and> status_change e = []" if "side_event e" for e
    using that by (cases e) simp_all
  then show "list_all (\<lambda>e. is_status e \<longrightarrow> by_merge e) es" "list_all (event_ok env admin) es"
    "concat (map status_change es) = []"
    using assms by (auto simp: list_all_iff)
qed

lemma side_step_inv:
  assumes inv: "case_inv cs" and side: "side_step cs cs'" and rows: "assignees_ok cs'"
  shows "case_inv cs'"
proof -
  obtain es where core: "ticket_core cs' = ticket_core cs" "cs_clock cs' = cs_clock cs" "cs_events cs' = cs_events cs @ es"
    and es: "list_all side_event es"
    using side by (auto simp: side_step_def)
  have t: "ticket_ok cs" "clock_ok cs" using inv by (simp_all add: case_inv_def)
  have fin: "finished cs' = finished cs" using core(1) by (simp add: finished_def ticket_core_def)
  have "ticket_ok cs'" using t(1) core(1,3) side_events(1)[OF es] unfolding ticket_ok_def fin by (simp add: ticket_core_def)
  moreover have "clock_ok cs'" using t(2) core(2,3) unfolding clock_ok_def fin by (auto split: option.splits)
  ultimately show ?thesis using rows by (simp add: case_inv_def)
qed

lemma assign_side:
  assumes "assign_ticket cs user actor reason = (cs', changed)"
  shows "side_step cs cs'"
  using assms by (auto simp: assign_ticket_def Let_def side_step_def ticket_core_def split: if_splits)

lemma side_steps:
  "side_step cs (add_assignee cs user reason primary)" "side_step cs (remove_assignee cs user)"
  "side_step cs (edit_fields cs p category assignee template checklist extra)" "side_step cs (note_event cs kind)"
  "side_step cs (auto_assign cs mailbox name members previous)"
  by (simp_all add: side_step_def) (simp_all add: remove_assignee_def edit_fields_def note_event_def ticket_core_def)

lemma assign_rows:
  assumes ok: "assignees_ok cs" and asg: "assign_ticket cs user actor reason = (cs', changed)"
  shows "assignees_ok cs'"
proof (cases "Some user = t_assignee (cs_ticket cs)")
  case True
  then show ?thesis using assms by (simp add: assign_ticket_def Let_def)
next
  case False
  let ?r1 = "map (\<lambda>r. if as_user r = user then r else if as_primary r then r\<lparr>as_primary := False\<rparr> else r) (cs_assignees cs)"
  let ?r2 = "map (\<lambda>r. if as_user r = user then r\<lparr>as_primary := True, as_reason := reason\<rparr> else r) ?r1"
  have users: "map as_user ?r1 = map as_user (cs_assignees cs)" "map as_user ?r2 = map as_user (cs_assignees cs)" by simp_all
  have d: "distinct (map as_user (cs_assignees cs))" using ok by (auto simp: assignees_ok_def rows_ok_def rows_in_def)
  have "rows_in {user} (cs_assignees cs')"
  proof (cases "list_ex (\<lambda>r. as_user r = user) (cs_assignees cs)")
    case True
    then have "cs_assignees cs' = ?r2" using asg False by (auto simp: assign_ticket_def Let_def)
    moreover have "\<forall>r \<in> set ?r2. as_primary r \<longrightarrow> as_user r \<in> {user}" by auto
    ultimately show ?thesis unfolding rows_in_def using d users(2) by metis
  next
    case new: False
    then have "cs_assignees cs' = ?r1 @ [\<lparr>as_user = user, as_primary = True, as_reason = reason\<rparr>]"
      using asg False by (auto simp: assign_ticket_def Let_def)
    moreover have "user \<notin> set (map as_user ?r1)" using new unfolding users by (auto simp: list_ex_iff)
    moreover have "\<forall>r \<in> set ?r1. as_primary r \<longrightarrow> as_user r \<in> {user}" by auto
    moreover have "distinct (map as_user ?r1)" using d users(1) by metis
    ultimately show ?thesis unfolding rows_in_def by (simp del: map_map set_map)
  qed
  then show ?thesis by (auto simp: assignees_ok_def rows_ok_def)
qed

lemma side_rows:
  assumes "assignees_ok cs"
  shows "assignees_ok (add_assignee cs user reason False)" "assignees_ok (remove_assignee cs user)"
    "assignees_ok (edit_fields cs p category assignee template checklist extra)" "assignees_ok (note_event cs kind)"
proof -
  obtain u where u: "rows_in {u} (cs_assignees cs)" using assms by (auto simp: assignees_ok_def rows_ok_def)
  show "assignees_ok (add_assignee cs user reason False)"
    using add_assignee_rows[OF u, of False] unfolding assignees_ok_def rows_ok_def by blast
  have "rows_in {u} (filter (\<lambda>r. as_user r \<noteq> user) (cs_assignees cs))"
    using u by (auto simp: rows_in_def distinct_map_filter)
  then show "assignees_ok (remove_assignee cs user)" by (auto simp: assignees_ok_def rows_ok_def remove_assignee_def)
qed (use assms in \<open>simp_all add: assignees_ok_def edit_fields_def note_event_def\<close>)

lemma revert_inv:
  assumes "case_inv cs" and new: "newest_status cs e" and g: "from_gmail e" and "finished cs"
  shows "case_inv (revert_gmail now actor cs)"
proof -
  have "is_status e" "e \<in> set (cs_events cs)" using new by (simp_all add: newest_status_def)
  moreover have "\<not> by_merge e" using g by (cases e) simp_all
  ultimately have "t_merged_into (cs_ticket cs) = None" using assms(1) by (auto simp: case_inv_def ticket_ok_def list_all_iff)
  moreover have "finished (revert_gmail now actor cs) = False" by (simp add: finished_def revert_gmail_def CLOSING_STATUSES_def)
  ultimately have "ticket_ok (revert_gmail now actor cs)" by (simp add: ticket_ok_def revert_gmail_def)
  moreover have "clock_ok (revert_gmail now actor cs)"
    using assms(1) by (auto simp: case_inv_def clock_ok_def finished_def revert_gmail_def CLOSING_STATUSES_def split: option.splits)
  moreover have "assignees_ok (revert_gmail now actor cs)" using assms(1) by (simp add: case_inv_def assignees_ok_def revert_gmail_def)
  ultimately show ?thesis by (simp add: case_inv_def)
qed

lemma reopen_inv:
  assumes "case_inv cs"
  shows "case_inv (reopen_case now actor by_gmail cs)"
proof -
  have fin: "finished (reopen_case now actor by_gmail cs) = False" by (simp add: finished_def reopen_case_def CLOSING_STATUSES_def)
  have "ticket_ok (reopen_case now actor by_gmail cs)"
    using assms fin by (auto simp: case_inv_def ticket_ok_def reopen_case_def)
  moreover have "clock_ok (reopen_case now actor by_gmail cs)"
    using assms fin by (auto simp: case_inv_def clock_ok_def reopen_case_def reopen_clock_def log_clock_def split: option.splits)
  moreover have "assignees_ok (reopen_case now actor by_gmail cs)" using assms by (simp add: case_inv_def assignees_ok_def reopen_case_def)
  ultimately show ?thesis by (simp add: case_inv_def)
qed

lemma start_inv:
  assumes inv: "case_inv cs" and open': "\<not> finished cs"
    and st: "start_clock env (cs_clock cs) p now cat = Inr c"
  shows "case_inv (with_clock cs c)"
proof (cases "cs_clock cs")
  case None
  then have "cl_state c = Running \<and> cl_resolved c = None \<and> cl_escalated c = []"
    using st by (auto simp: start_clock_def Let_def bindr_eq_Inr split: option.splits)
  then have "clock_ok (with_clock cs c)" using open' by (simp add: clock_ok_def with_clock_def finished_def)
  then show ?thesis using inv by (simp add: case_inv_def ticket_ok_def assignees_ok_def with_clock_def finished_def)
next
  case (Some k)
  then have "c = k" using st by (simp add: start_clock_def)
  then have "with_clock cs c = cs" using Some by (cases cs) (simp add: with_clock_def)
  then show ?thesis using inv by simp
qed

lemma upkeep_inv:
  assumes "upkeep_step env cs cs'" and inv: "case_inv cs"
  shows "case_inv cs'"
  using assms(1)
proof cases
  case (start now c)
  then show ?thesis using start_inv[OF inv] by (simp add: finished_def)
next
  case (pause c now)
  then show ?thesis using with_clock_inv[OF inv pause(2) same_end_clock(1)] by simp
next
  case (resume c now c')
  then show ?thesis using with_clock_inv[OF inv resume(2) resume_same_end] by simp
next
  case (response c now)
  then show ?thesis using with_clock_inv[OF inv response(2) same_end_clock(2)] by simp
next
  case (color c now c' col)
  then show ?thesis using with_clock_inv[OF inv color(2) same_end_escalate] by simp
next
  case (note_row kind)
  then show ?thesis using side_step_inv[OF inv side_steps(4)] side_rows(4) inv by (simp add: case_inv_def)
next
  case (unassign user)
  then show ?thesis using side_step_inv[OF inv side_steps(2)] side_rows(2) inv by (simp add: case_inv_def)
next
  case (revert e now actor)
  then show ?thesis using revert_inv[OF inv] by simp
qed

lemma case_step_inv:
  assumes "ticket_step env admin cs cs'" and inv: "case_inv cs" and free: "t_merged_into (cs_ticket cs) = None"
  shows "case_inv cs'"
  using assms(1)
proof cases
  case (transition now st actor bulk skip res changed)
  then show ?thesis using transition_inv inv free by blast
next
  case (auto_close now nt changed)
  then show ?thesis using gmail_close_inv inv free by blast
next
  case (assign user actor reason changed)
  then show ?thesis using side_step_inv[OF inv assign_side] assign_rows inv by (auto simp: case_inv_def)
next
  case (additional user reason)
  then show ?thesis using side_step_inv[OF inv side_steps(1)] side_rows(1) inv by (simp add: case_inv_def)
next
  case (edit p category assignee template checklist extra)
  then show ?thesis using side_step_inv[OF inv side_steps(3)] side_rows(3) inv by (simp add: case_inv_def)
next
  case upkeep
  then show ?thesis using upkeep_inv inv by blast
qed

section \<open>The history of a ticket\<close>

lemma event_ok_marked: "\<not> by_merge e \<Longrightarrow> event_ok env admin (mark_gmail e) = event_ok env admin e"
  by (cases e) simp_all

lemma chained_snoc: "chained a (ps @ [(x, y)]) z \<longleftrightarrow> chained a ps x \<and> y = z"
  by (induction ps arbitrary: a) auto

text \<open>
  The chain of a ticket starts at new, or, after its rows were moved to the target of its merge, at the
  status it had then; nothing is said of a ticket that received the rows of others.
\<close>

definition history_ok :: "sla_env \<Rightarrow> bool \<Rightarrow> case_state \<Rightarrow> bool" where
  "history_ok env admin cs \<longleftrightarrow> list_all (event_ok env admin) (cs_events cs) \<and>
     (\<not> list_ex is_merged_from (cs_events cs) \<longrightarrow>
       (\<exists>a. chained a (concat (map status_change (cs_events cs))) (t_status (cs_ticket cs)) \<and>
         (t_merged_into (cs_ticket cs) = None \<longrightarrow> a = St_New)))"

lemma history_append:
  assumes h: "history_ok env admin cs" and ev: "cs_events cs' = cs_events cs @ [e]" and ok: "event_ok env admin e"
    and ch: "status_change e = [(t_status (cs_ticket cs), t_status (cs_ticket cs'))]"
    and m: "t_merged_into (cs_ticket cs') = t_merged_into (cs_ticket cs)"
  shows "history_ok env admin cs'"
  using assms by (auto simp: history_ok_def chained_snoc)

lemma history_side:
  assumes h: "history_ok env admin cs" and side: "side_step cs cs'"
  shows "history_ok env admin cs'"
proof -
  obtain es where core: "ticket_core cs' = ticket_core cs" "cs_events cs' = cs_events cs @ es"
    and es: "list_all side_event es"
    using side by (auto simp: side_step_def)
  have changes: "concat (map status_change (cs_events cs')) = concat (map status_change (cs_events cs))"
    using core(2) side_events(3)[OF es] by (simp only: map_append concat_append append_Nil2)
  have ok: "list_all (event_ok env admin) (cs_events cs')"
    using h core(2) side_events(2)[OF es] by (simp add: history_ok_def)
  have "\<not> list_ex is_merged_from (cs_events cs)" if "\<not> list_ex is_merged_from (cs_events cs')"
    using that core(2) by simp
  then show ?thesis using h ok core(1) unfolding history_ok_def changes by (simp add: ticket_core_def)
qed

lemma history_clock: "history_ok env admin (with_clock cs c) = history_ok env admin cs"
  by (simp add: history_ok_def with_clock_def)

lemma transition_history:
  assumes h: "history_ok env admin cs" and tr: "transition_status env now cs st actor bulk (admin \<and> skip) res = Inr (cs', changed)"
    and new: "st \<noteq> t_status (cs_ticket cs)"
  shows "\<exists>e. cs_events cs' = cs_events cs @ [e] \<and> event_ok env admin e \<and>
    status_change e = [(t_status (cs_ticket cs), st)] \<and> event_ok env admin (mark_gmail e)"
proof -
  note r = transition_result[OF tr new]
  define e where "e = Status_Event now actor (t_status (cs_ticket cs)) st bulk
    ((admin \<and> skip) \<and> st \<notin> set (TICKET_FLOW (t_status (cs_ticket cs)))) Unmarked (if st \<in> set CLOSING_STATUSES then res else None)"
  have "(admin \<and> skip) \<or> st \<in> set (TICKET_FLOW (t_status (cs_ticket cs)))"
    and "st \<in> set CLOSING_STATUSES \<longrightarrow> (case res of None \<Rightarrow> admin \<and> skip | Some r \<Rightarrow> rv_kind r \<in> set (active_kind_codes (ev_kinds env)))"
    using r by blast+
  then have "event_ok env admin e"
    by (cases "st \<in> set (TICKET_FLOW (t_status (cs_ticket cs)))"; cases "st \<in> set CLOSING_STATUSES"; cases res) (simp_all add: e_def)
  moreover have "\<not> by_merge e" by (simp add: e_def)
  ultimately have marked: "event_ok env admin e" "event_ok env admin (mark_gmail e)" by (simp_all add: event_ok_marked)
  moreover have "cs_events cs' = cs_events cs @ [e]" using r unfolding e_def by blast
  moreover have "status_change e = [(t_status (cs_ticket cs), st)]" by (simp add: e_def)
  ultimately show ?thesis by blast
qed

lemma upkeep_history:
  assumes "upkeep_step env cs cs'" and h: "history_ok env admin cs"
  shows "history_ok env admin cs'"
  using assms(1)
proof cases
  case (note_row kind)
  then show ?thesis using history_side[OF h side_steps(4)] by simp
next
  case (unassign user)
  then show ?thesis using history_side[OF h side_steps(2)] by simp
next
  case (revert e now actor)
  then show ?thesis
    by (intro history_append[OF h, of _ "Reverted_Event now actor (t_status (cs_ticket cs))"])
      (simp_all add: revert_gmail_def finished_def)
qed (use h in \<open>simp_all add: history_clock\<close>)

lemma history_step:
  assumes "ticket_step env admin cs cs'" and h: "history_ok env admin cs"
  shows "history_ok env admin cs'"
  using assms(1)
proof cases
  case (transition now st actor bulk skip res changed)
  show ?thesis
  proof (cases "st = t_status (cs_ticket cs)")
    case True
    then show ?thesis using transition h by (simp add: transition_status_def Let_def)
  next
    case False
    obtain e where "cs_events cs' = cs_events cs @ [e]" "event_ok env admin e" "status_change e = [(t_status (cs_ticket cs), st)]"
      using transition_history[OF h transition False] by blast
    then show ?thesis using history_append[OF h] transition_result[OF transition False] by metis
  qed
next
  case (auto_close now nt changed)
  let ?r = "\<lparr>rv_kind = AUTO_CLOSE_KIND, rv_note = Some nt\<rparr>"
  obtain cs1 where t: "transition_status env now cs St_Done None False (admin \<and> False) (Some ?r) = Inr (cs1, True)"
    and eq: "cs_ticket cs' = (cs_ticket cs1)\<lparr>t_resolved_by := None\<rparr>"
      "cs_events cs' = cs_events cs @ [Status_Event now None (t_status (cs_ticket cs)) St_Done False False From_Gmail (Some ?r)]"
    using gmail_close_result[OF auto_close(2,1)] by auto
  have ne: "St_Done \<noteq> t_status (cs_ticket cs)" using auto_close(1) by (auto simp: finished_def CLOSING_STATUSES_def)
  have st: "t_status (cs_ticket cs') = St_Done" "t_merged_into (cs_ticket cs') = t_merged_into (cs_ticket cs)"
    using transition_result[OF t ne] eq(1) by simp_all
  have "cs_events cs1 = cs_events cs @ [Status_Event now None (t_status (cs_ticket cs)) St_Done False False Unmarked (Some ?r)]"
    using transition_result[OF t ne] by (simp add: CLOSING_STATUSES_def)
  then have "event_ok env admin (Status_Event now None (t_status (cs_ticket cs)) St_Done False False From_Gmail (Some ?r))"
    using transition_history[OF h t ne] by (auto simp: CLOSING_STATUSES_def)
  then show ?thesis using history_append[OF h eq(2)] st by (simp del: event_ok.simps)
next
  case (assign user actor reason changed)
  then show ?thesis using history_side[OF h assign_side] by blast
next
  case (additional user reason)
  then show ?thesis using history_side[OF h side_steps(1)] by simp
next
  case (edit p category assignee template checklist extra)
  then show ?thesis using history_side[OF h side_steps(3)] by simp
next
  case upkeep
  then show ?thesis using upkeep_history h by blast
qed

text \<open>C40: A ticket that is not merged never gets stuck: from every status but closed, when checklist and required fields are
  complete, an ordinary user can bring it to closed within three status changes, given a resolution of an
  active kind; nothing but these checks can refuse the changes.\<close>

theorem ticket_can_be_closed:
  fixes r :: resolution
  assumes complete: "completion_check env (cs_ticket cs) = Inr ()" and kind: "rv_kind r \<in> set (active_kind_codes (ev_kinds env))"
  shows "\<exists>cs'. (ticket_step env False)\<^sup>*\<^sup>* cs cs' \<and> t_status (cs_ticket cs') = St_Closed"
proof -
  have tr: "\<exists>cs'. ticket_step env False cs1 cs' \<and> t_status (cs_ticket cs') = st \<and> completion_check env (cs_ticket cs') = Inr ()"
    if "completion_check env (cs_ticket cs1) = Inr ()" "st \<in> set (TICKET_FLOW (t_status (cs_ticket cs1)))" for cs1 st
  proof -
    have ne: "st \<noteq> t_status (cs_ticket cs1)" using that(2) by (cases "t_status (cs_ticket cs1)") auto
    have "\<exists>p. transition_status env 0 cs1 st None False (False \<and> False) (Some r) = Inr p"
      using that kind ne unfolding transition_status_def Let_def assert_transition_allowed_def assert_resolution_kind_allowed_def
      by (auto simp: guardr_def)
    then obtain cs' b where t: "transition_status env 0 cs1 st None False (False \<and> False) (Some r) = Inr (cs', b)" by auto
    have "completion_check env (cs_ticket cs') = completion_check env (cs_ticket cs1)"
      unfolding completion_check_def transition_keeps[OF t] ..
    then show ?thesis using ticket_step.transition[OF t] transition_result[OF t ne] that(1) by auto
  qed
  have done': "\<exists>cs'. (ticket_step env False)\<^sup>*\<^sup>* cs1 cs' \<and> t_status (cs_ticket cs') = St_Closed"
    if c: "completion_check env (cs_ticket cs1) = Inr ()" "t_status (cs_ticket cs1) = St_Done" for cs1
    using tr[OF c(1), of St_Closed] c(2) by auto
  have active: "\<exists>cs'. (ticket_step env False)\<^sup>*\<^sup>* cs1 cs' \<and> t_status (cs_ticket cs') = St_Closed"
    if c: "completion_check env (cs_ticket cs1) = Inr ()" "St_Done \<in> set (TICKET_FLOW (t_status (cs_ticket cs1)))" for cs1
    using tr[OF c] done' by (meson converse_rtranclp_into_rtranclp)
  show ?thesis
  proof (cases "t_status (cs_ticket cs)")
    case St_Rejected
    then obtain cs1 where "ticket_step env False cs cs1" "t_status (cs_ticket cs1) = St_In_Progress" "completion_check env (cs_ticket cs1) = Inr ()"
      using tr[OF complete, of St_In_Progress] by auto
    moreover have "St_Done \<in> set (TICKET_FLOW St_In_Progress)" by simp
    ultimately obtain cs' where "(ticket_step env False)\<^sup>*\<^sup>* cs1 cs'" "t_status (cs_ticket cs') = St_Closed"
      using active[of cs1] by auto
    then show ?thesis using \<open>ticket_step env False cs cs1\<close> by (meson converse_rtranclp_into_rtranclp)
  next
    case St_Done
    then show ?thesis using done'[OF complete] by simp
  next
    case St_Closed
    then show ?thesis by blast
  qed (use active[OF complete] in simp_all)
qed

section \<open>Examples\<close>

definition example_env :: sla_env where
  "example_env = \<lparr>ev_to_local = (\<lambda>t. t), ev_of_local = (\<lambda>t. t), ev_calendar = default_calendar,
     ev_rules = [(1, \<lparr>sl_priority = Normal, sl_category = None, sl_approved = True, sl_response = 60, sl_resolution = 600,
       sl_type = Business, sl_active = True\<rparr>)], ev_steps = [], ev_on_call = False, ev_templates = [],
     ev_kinds = \<lparr>kc_disabled = [], kc_custom = []\<rparr>,
     ev_operator_day = (\<lambda>t. t div DAY), ev_reopen_window = 30\<rparr>"

definition new_ticket :: case_state where
  "new_ticket = \<lparr>cs_ticket = \<lparr>t_status = St_New, t_priority = Normal, t_category = None, t_assignee = None, t_template = None,
     t_checklist = [\<lparr>ci_required = True, ci_done = True\<rparr>], t_extra = [], t_resolved_at = None, t_resolution_kind = None,
     t_resolution_note = None, t_resolved_by = None, t_merged_into = None, t_follow_up_of = None\<rparr>, cs_assignees = [], cs_events = [], cs_clock = None\<rparr>"

definition example_resolution :: resolution where
  "example_resolution = \<lparr>rv_kind = ''mangel_behoben'', rv_note = None\<rparr>"

definition case1 :: case_state where "case1 = fst (assign_ticket new_ticket 7 (Some 7) ''manuell'')"
definition case2 :: case_state where
  "case2 = with_clock case1 (projr (start_clock example_env None Normal (738890 * DAY) None))"
definition case3 :: case_state where
  "case3 = fst (projr (transition_status example_env (738890 * DAY + 1) case2 St_Done (Some 7) False (False \<and> False) (Some example_resolution)))"
definition case4 :: case_state where
  "case4 = fst (projr (transition_status example_env (738890 * DAY + 2) case3 St_Closed (Some 7) False (False \<and> False) (Some example_resolution)))"

lemma example_case_runs:
  "\<not> isl (start_clock example_env None Normal (738890 * DAY) None)"
  "\<not> isl (transition_status example_env (738890 * DAY + 1) case2 St_Done (Some 7) False (False \<and> False) (Some example_resolution))"
  "\<not> isl (transition_status example_env (738890 * DAY + 2) case3 St_Closed (Some 7) False (False \<and> False) (Some example_resolution))"
  by code_simp+

lemma example_case_steps:
  "ticket_step example_env False new_ticket case1" "ticket_step example_env False case1 case2"
  "ticket_step example_env False case2 case3" "ticket_step example_env False case3 case4"
proof -
  have r: "\<not> isl x \<Longrightarrow> x = Inr (projr x)" for x :: "clock res" by (cases x) auto
  have r2: "\<not> isl x \<Longrightarrow> x = Inr (fst (projr x), snd (projr x))" for x :: "(case_state \<times> bool) res" by (cases x) auto
  show "ticket_step example_env False new_ticket case1"
    unfolding case1_def by (rule ticket_step.assign) (rule prod.collapse[symmetric])
  have c: "cs_clock case1 = None" "t_priority (cs_ticket case1) = Normal" "t_category (cs_ticket case1) = None"
    "t_status (cs_ticket case1) \<notin> set CLOSING_STATUSES" by code_simp+
  show "ticket_step example_env False case1 case2"
    unfolding case2_def by (rule ticket_step.upkeep[OF upkeep_step.start[OF c(4)]]) (simp only: c, rule r[OF example_case_runs(1)])
  show "ticket_step example_env False case2 case3"
    unfolding case3_def by (rule ticket_step.transition[OF r2[OF example_case_runs(2)]])
  show "ticket_step example_env False case3 case4"
    unfolding case4_def by (rule ticket_step.transition[OF r2[OF example_case_runs(3)]])
qed

theorem ticket_can_be_closed_witness:
  "\<exists>cs'. (ticket_step example_env False)\<^sup>*\<^sup>* new_ticket cs' \<and> t_status (cs_ticket cs') = St_Closed"
proof -
  have c: "completion_check example_env (cs_ticket new_ticket) = Inr ()" by code_simp
  have k: "rv_kind example_resolution \<in> set (active_kind_codes (ev_kinds example_env))" by code_simp
  show ?thesis by (rule ticket_can_be_closed[OF c k])
qed

text \<open>A clock paused from Friday 16:30 to Monday 8:00 in the default calendar.\<close>

definition paused_clock :: clock where
  "paused_clock = pause_clock (738890 * DAY + 990 * MINUTE) (projr (start_clock example_env None Normal (738890 * DAY + 480 * MINUTE) None))"

text \<open>A pause is added in minutes of the calendar to a deadline that counts business minutes: a clock paused
  over a weekend, in which no business minute passes, is due more than a week later.\<close>

lemma weekend_pause_overextends:
  "business_minutes_between (\<lambda>t. t) default_calendar (738890 * DAY + 990 * MINUTE) (738893 * DAY + 480 * MINUTE) = Inr 0 \<and>
   cl_due_resolution paused_clock = Some (738893 * DAY + 570 * MINUTE) \<and>
   (\<exists>c. resume_clock example_env (738893 * DAY + 480 * MINUTE) paused_clock = Inr c \<and>
     cl_due_resolution c = Some (738902 * DAY + 810 * MINUTE))"
proof -
  have a: "business_minutes_between (\<lambda>t. t) default_calendar (738890 * DAY + 990 * MINUTE) (738893 * DAY + 480 * MINUTE) = Inr 0"
    "cl_due_resolution paused_clock = Some (738893 * DAY + 570 * MINUTE)" by code_simp+
  have b: "(case resume_clock example_env (738893 * DAY + 480 * MINUTE) paused_clock of Inl _ \<Rightarrow> False
     | Inr c \<Rightarrow> cl_due_resolution c = Some (738902 * DAY + 810 * MINUTE))" by code_simp
  then show ?thesis using a by (auto split: sum.splits)
qed

end
