(* ===== verification/TicketDesk.thy ===== *)
theory TicketDesk
  imports Tickets
begin

text \<open>
  Operations over several tickets: the merge (\<open>tickets/merge.py\<close> and \<open>merge_tickets\<close> of
  \<open>tickets/routers.py\<close>), the end of a case and the target of a new mail (\<open>tickets/follow_up.py\<close>), the
  arrival of a mail (\<open>attach_to_ticket\<close> of \<open>communication/services.py\<close>) and the reopening from Gmail
  (\<open>communication/gmail_done.py\<close>). A desk is the table of tickets by id. Messages, comments,
  notifications and the texts of the history rows are left out; the fields a new ticket takes from a mail
  or from the sources of a merge are arbitrary.
\<close>

type_synonym desk = "(uid, case_state) dict"

definition change :: "uid \<Rightarrow> (case_state \<Rightarrow> case_state) \<Rightarrow> desk \<Rightarrow> desk" where
  "change k f d = (case map_of d k of None \<Rightarrow> d | Some c \<Rightarrow> AList.update k (f c) d)"

section \<open>The end of a case\<close>

text \<open>The follow-up of a ticket and the release of its link (\<open>follow_up_of\<close>, \<open>release\<close>).\<close>

definition follow_up_of :: "desk \<Rightarrow> uid \<Rightarrow> uid option" where
  "follow_up_of d k = map_option fst (find (\<lambda>(_, c). t_follow_up_of (cs_ticket c) = Some k) d)"

definition unlink :: "case_state \<Rightarrow> case_state" where
  "unlink c = c\<lparr>cs_ticket := (cs_ticket c)\<lparr>t_follow_up_of := None\<rparr>\<rparr>"

definition release_link :: "desk \<Rightarrow> uid \<Rightarrow> desk" where
  "release_link d k = change k unlink d"

text \<open>
  \<open>resolve\<close> with at most \<open>_MAX_CHAIN\<close> tickets. \<open>last_open\<close> is \<open>end\<close>, the last ticket of the walk that is not
  merged, and \<open>pending\<close> its follow-up. \<open>ce_limit\<close>, which the code does not return, tells that the walk
  was cut off.
\<close>

definition MAX_CHAIN :: nat where "MAX_CHAIN = 50"

record case_end =
  ce_ticket :: uid
  ce_released :: "uid option"
  ce_limit :: bool

fun resolve_walk :: "desk \<Rightarrow> nat \<Rightarrow> uid list \<Rightarrow> uid option \<Rightarrow> uid option \<Rightarrow> uid \<Rightarrow> case_end" where
  "resolve_walk d 0 seen last_open pending k =
     \<lparr>ce_ticket = (case last_open of None \<Rightarrow> k | Some x \<Rightarrow> x), ce_released = None, ce_limit = True\<rparr>"
| "resolve_walk d (Suc n) seen last_open pending k =
     (let stop = \<lparr>ce_ticket = (case last_open of None \<Rightarrow> k | Some x \<Rightarrow> x), ce_released = None, ce_limit = False\<rparr>
      in if k \<in> set seen then stop\<lparr>ce_released := (if last_open = None then None else pending)\<rparr>
         else case map_of d k of None \<Rightarrow> stop
           | Some c \<Rightarrow> (case t_merged_into (cs_ticket c) of
               Some m \<Rightarrow> if map_of d m = None then stop else resolve_walk d n (k # seen) last_open pending m
             | None \<Rightarrow>
                 if \<not> finished c then stop\<lparr>ce_ticket := k\<rparr>
                 else (case follow_up_of d k of None \<Rightarrow> stop\<lparr>ce_ticket := k\<rparr>
                   | Some s \<Rightarrow> resolve_walk d n (k # seen) (Some k) (Some s) s)))"

definition resolve_case :: "desk \<Rightarrow> uid \<Rightarrow> case_end option" where
  "resolve_case d k = (if map_of d k = None then None else Some (resolve_walk d MAX_CHAIN [] None None k))"

section \<open>A new mail of a case\<close>

text \<open>
  The decision of \<open>mail_target\<close>: attach without a change, reopen, or create a follow-up (with the released
  former one). Links are released on the way, so the desk is returned too. \<open>updated\<close> is the time of the last
  change of a ticket, the fallback of \<open>closed_at\<close>.
\<close>

datatype mail_action = No_Ticket | Attach uid | Reopen uid | Follow_Up uid "uid option"

fun mail_rounds ::
  "sla_env \<Rightarrow> int \<Rightarrow> (uid \<Rightarrow> int) \<Rightarrow> bool \<Rightarrow> nat \<Rightarrow> desk \<Rightarrow> uid option \<Rightarrow> uid option \<Rightarrow> uid \<Rightarrow> desk \<times> mail_action" where
  "mail_rounds env now updated auto_reply 0 d latest released k =
     (d, case latest of None \<Rightarrow> No_Ticket | Some t \<Rightarrow> Reopen t)"
| "mail_rounds env now updated auto_reply (Suc n) d latest released k =
     (case resolve_case d k of None \<Rightarrow> (d, No_Ticket)
      | Some r \<Rightarrow>
          (case map_of d (ce_ticket r) of None \<Rightarrow> (d, No_Ticket)
           | Some c \<Rightarrow>
               if auto_reply \<or> t_merged_into (cs_ticket c) \<noteq> None \<or> \<not> finished c then (d, Attach (ce_ticket r))
               else if within_reopen_window env (closed_at (cs_ticket c) (updated (ce_ticket r))) now
               then (d, Reopen (ce_ticket r))
               else
                 (let d1 = (case ce_released r of None \<Rightarrow> d | Some f \<Rightarrow> release_link d f);
                      released1 = (case ce_released r of None \<Rightarrow> released | Some f \<Rightarrow> Some f)
                  in case follow_up_of d1 (ce_ticket r) of None \<Rightarrow> (d1, Follow_Up (ce_ticket r) released1)
                     | Some next_one \<Rightarrow>
                         mail_rounds env now updated auto_reply n d1 (Some (ce_ticket r)) released1 next_one)))"

definition mail_target :: "sla_env \<Rightarrow> int \<Rightarrow> (uid \<Rightarrow> int) \<Rightarrow> bool \<Rightarrow> desk \<Rightarrow> uid \<Rightarrow> desk \<times> mail_action" where
  "mail_target env now updated auto_reply d k = mail_rounds env now updated auto_reply MAX_CHAIN d None None k"

text \<open>
  \<open>attach_to_ticket\<close>. \<open>successor\<close> is the new ticket \<open>create_ticket\<close> makes for a follow-up, \<open>new\<close> its id. A mail
  for a ticket that does not exist fails on the foreign key of its history row.
\<close>

definition attach_to_ticket ::
  "sla_env \<Rightarrow> int \<Rightarrow> (uid \<Rightarrow> int) \<Rightarrow> bool \<Rightarrow> uid option \<Rightarrow> uid \<Rightarrow> case_state \<Rightarrow> desk \<Rightarrow> uid \<Rightarrow> desk res" where
  "attach_to_ticket env now updated auto_reply actor new successor d k =
     (case mail_target env now updated auto_reply d k of
        (d1, No_Ticket) \<Rightarrow> Inl Resource_Not_Found
      | (d1, Attach t) \<Rightarrow> Inr (change t (\<lambda>c. note_event c ''mail_received'') d1)
      | (d1, Reopen t) \<Rightarrow> Inr (change t (\<lambda>c. reopen_case now actor False (note_event c ''mail_received'')) d1)
      | (d1, Follow_Up p released) \<Rightarrow>
          Inr (change p (\<lambda>c. note_event c ''follow_up_created'') d1 @
            [(new, note_event (note_event (successor\<lparr>cs_ticket := (cs_ticket successor)\<lparr>t_follow_up_of := Some p\<rparr>\<rparr>)
               ''follow_up_of'') ''mail_received'')]))"

text \<open>\<open>reopen_from_gmail\<close>: the end of the case reopens within the window and never gets a follow-up.\<close>

definition reopen_from_gmail :: "sla_env \<Rightarrow> int \<Rightarrow> (uid \<Rightarrow> int) \<Rightarrow> desk \<Rightarrow> uid \<Rightarrow> desk" where
  "reopen_from_gmail env now updated d k =
     (case resolve_case d k of None \<Rightarrow> d
      | Some r \<Rightarrow> change (ce_ticket r) (\<lambda>c.
          if \<not> finished c then c
          else if \<not> within_reopen_window env (closed_at (cs_ticket c) (updated (ce_ticket r))) now
          then note_event c ''reopen_skipped''
          else reopen_case now None True c) d)"

section \<open>Merging tickets\<close>

text \<open>\<open>assert_mergeable\<close> for one ticket; all tickets belong to one tenant.\<close>

definition mergeable :: "case_state \<Rightarrow> bool" where
  "mergeable c \<longleftrightarrow> t_status (cs_ticket c) \<noteq> St_Closed \<and> t_merged_into (cs_ticket c) = None"

fun assignees_to_carry :: "uid list \<Rightarrow> uid option list \<Rightarrow> uid list" where
  "assignees_to_carry seen [] = []"
| "assignees_to_carry seen (None # us) = assignees_to_carry seen us"
| "assignees_to_carry seen (Some u # us) =
     (if u \<in> set seen then assignees_to_carry seen us else u # assignees_to_carry (u # seen) us)"

text \<open>The reason \<open>MERGE_ASSIGNEE_REASON\<close>, here without umlaut.\<close>

definition MERGE_ASSIGNEE_REASON :: string where "MERGE_ASSIGNEE_REASON = ''Zusammenfuehrung''"

definition carry_assignees :: "case_state list \<Rightarrow> case_state \<Rightarrow> case_state" where
  "carry_assignees sources t =
     (let skip = map as_user (cs_assignees t) @ (case t_assignee (cs_ticket t) of None \<Rightarrow> [] | Some u \<Rightarrow> [u]);
          users = concat (map (\<lambda>s. t_assignee (cs_ticket s) # map (\<lambda>r. Some (as_user r)) (cs_assignees s)) sources)
      in t\<lparr>cs_assignees := cs_assignees t @
           map (\<lambda>u. \<lparr>as_user = u, as_primary = False, as_reason = MERGE_ASSIGNEE_REASON\<rparr>) (assignees_to_carry skip users)\<rparr>)"

text \<open>The history of a source moves to the target, which records its origin; the source is closed.\<close>

definition receive_history :: "uid \<Rightarrow> case_state \<Rightarrow> case_state \<Rightarrow> case_state" where
  "receive_history k s t = t\<lparr>cs_events := cs_events t @ cs_events s @ [Merged_From_Event k (length (cs_events s))]\<rparr>"

definition close_source :: "int \<Rightarrow> uid option \<Rightarrow> resolution \<Rightarrow> uid \<Rightarrow> case_state \<Rightarrow> case_state" where
  "close_source now actor res target s =
     s\<lparr>cs_events := [Merged_Into_Event target,
         Status_Event now actor (t_status (cs_ticket s)) St_Closed False False By_Merge (Some res)],
       cs_ticket := (cs_ticket s)\<lparr>t_status := St_Closed, t_resolved_at := Some now, t_merged_into := Some target,
         t_resolution_kind := Some (rv_kind res), t_resolution_note := rv_note res, t_resolved_by := actor,
         t_follow_up_of := (if t_follow_up_of (cs_ticket s) = Some target then None else t_follow_up_of (cs_ticket s))\<rparr>,
       cs_clock := map_option (mark_resolved now) (cs_clock s)\<rparr>"

definition merge_one :: "int \<Rightarrow> uid option \<Rightarrow> resolution \<Rightarrow> uid \<Rightarrow> desk \<Rightarrow> uid \<Rightarrow> desk" where
  "merge_one now actor res target d k =
     (case map_of d k of None \<Rightarrow> d
      | Some s \<Rightarrow> change k (close_source now actor res target) (change target (receive_history k s) d))"

text \<open>
  \<open>merge_tickets\<close>: \<open>ids\<close> are the distinct sources; without a target a new ticket \<open>fresh\<close> with the id \<open>new\<close> and a
  clock is made. \<open>remark\<close> is the note of the default resolution, which names the number of the target.
\<close>

definition merge_target ::
  "sla_env \<Rightarrow> int \<Rightarrow> uid \<Rightarrow> case_state \<Rightarrow> uid option \<Rightarrow> desk \<Rightarrow> (desk \<times> uid) res" where
  "merge_target env now new fresh target d =
     (case target of Some t \<Rightarrow> Inr (d, t)
      | None \<Rightarrow> bindr (start_clock env None (t_priority (cs_ticket fresh)) now (t_category (cs_ticket fresh)))
          (\<lambda>clk. Inr (d @ [(new, with_clock fresh clk)], new)))"

definition merge_tickets ::
  "sla_env \<Rightarrow> int \<Rightarrow> uid option \<Rightarrow> resolution option \<Rightarrow> string \<Rightarrow> uid \<Rightarrow> case_state \<Rightarrow> uid option \<Rightarrow> uid list \<Rightarrow> desk \<Rightarrow> desk res" where
  "merge_tickets env now actor given remark new fresh target ids d =
     bindr (guardr (ids \<noteq> [] \<and> (target = None \<longrightarrow> 2 \<le> length ids)) Validation) (\<lambda>_.
     bindr (mapr (\<lambda>i. fetch d i Resource_Not_Found) (ids @ (case target of None \<Rightarrow> [] | Some t \<Rightarrow> [t]))) (\<lambda>rows.
     bindr (guardr (case target of None \<Rightarrow> True | Some t \<Rightarrow> t \<notin> set ids) Validation) (\<lambda>_.
     bindr (guardr (list_all mergeable rows) Conflict) (\<lambda>_.
     bindr (case given of None \<Rightarrow> Inr () | Some r \<Rightarrow> assert_resolution_kind_allowed (ev_kinds env) (rv_kind r)) (\<lambda>_.
     bindr (merge_target env now new fresh target d) (\<lambda>(d1, t).
       (let res = (case given of Some r \<Rightarrow> r | None \<Rightarrow> \<lparr>rv_kind = ''zusammengefuehrt'', rv_note = Some remark\<rparr>)
        in Inr (foldl (merge_one now actor res t) (change t (carry_assignees (take (length ids) rows)) d1) ids))))))))"

section \<open>Steps\<close>

text \<open>
  The desk as the interleaving of all handlers. A handler of one ticket refuses a merged one, the steps of
  \<open>upkeep_step\<close> do not ask. The rows \<open>auto_assign\<close> takes over belong to some ticket of the desk. The flag
  tells whether administrators act too.
\<close>

inductive desk_step :: "sla_env \<Rightarrow> bool \<Rightarrow> desk \<Rightarrow> desk \<Rightarrow> bool" for env :: sla_env where
  open_ticket: "k \<notin> fst ` set d \<Longrightarrow> new_case c \<Longrightarrow> t_follow_up_of (cs_ticket c) = None \<Longrightarrow> desk_step env admin d (d @ [(k, c)])"
| auto_assigned: "map_of d k = Some c \<Longrightarrow> cs_assignees c = [] \<Longrightarrow> previous = [] \<or> map_of d j = Some s \<and> previous = cs_assignees s \<Longrightarrow>
    desk_step env admin d (change k (\<lambda>c. auto_assign c mailbox name members previous) d)"
| on_ticket: "map_of d k = Some c \<Longrightarrow> t_merged_into (cs_ticket c) = None \<Longrightarrow> ticket_step env admin c c' \<Longrightarrow>
    desk_step env admin d (AList.update k c' d)"
| on_any: "map_of d k = Some c \<Longrightarrow> upkeep_step env c c' \<Longrightarrow> desk_step env admin d (AList.update k c' d)"
| mail: "new \<notin> fst ` set d \<Longrightarrow> new_case successor \<Longrightarrow>
    attach_to_ticket env now updated auto_reply actor new successor d k = Inr d' \<Longrightarrow> desk_step env admin d d'"
| gmail: "desk_step env admin d (reopen_from_gmail env now updated d k)"
| merge: "distinct ids \<Longrightarrow> new \<notin> fst ` set d \<Longrightarrow> new_case fresh \<Longrightarrow> t_follow_up_of (cs_ticket fresh) = None \<Longrightarrow>
    merge_tickets env now actor given remark new fresh target ids d = Inr d' \<Longrightarrow> desk_step env admin d d'"

definition reachable_desk :: "sla_env \<Rightarrow> bool \<Rightarrow> desk \<Rightarrow> bool" where
  "reachable_desk env admin d \<longleftrightarrow> (desk_step env admin)\<^sup>*\<^sup>* [] d"

inductive_cases desk_stepE: "desk_step env admin d d'"

section \<open>Tables and links\<close>

lemma map_of_change [simp]: "map_of (change k f d) j = (if j = k then map_option f (map_of d k) else map_of d j)"
  by (simp add: change_def map_of_update split: option.splits)

lemma keys_change [simp]: "fst ` set (change k f d) = fst ` set d"
  by (cases "map_of d k") (auto simp: change_def fst_update intro: rev_image_eqI dest: map_of_SomeD)

lemma distinct_change [simp]: "distinct (map fst d) \<Longrightarrow> distinct (map fst (change k f d))"
  by (simp add: change_def split: option.splits)

lemma update_change: "map_of d k = Some c \<Longrightarrow> AList.update k c' d = change k (\<lambda>_. c') d"
  by (simp add: change_def)

lemma map_of_new: "n \<notin> fst ` set d \<Longrightarrow> map_of (d @ [(n, c)]) j = (if j = n then Some c else map_of d j)"
  by (induction d) (auto simp del: map_of_append)

text \<open>The links of a ticket, and what holds of them: every target exists, merges never run in a circle, and a
  ticket has at most one follow-up (\<open>uq_ticket_follow_up_of\<close>).\<close>

definition links :: "desk \<Rightarrow> uid \<Rightarrow> (uid option \<times> uid option) option" where
  "links d j = map_option (\<lambda>c. (t_merged_into (cs_ticket c), t_follow_up_of (cs_ticket c))) (map_of d j)"

definition merge_links :: "desk \<Rightarrow> (uid \<times> uid) set" where
  "merge_links d = {(k, t). \<exists>p. links d k = Some (Some t, p)}"

definition links_ok :: "desk \<Rightarrow> bool" where
  "links_ok d \<longleftrightarrow> (\<forall>(k, t) \<in> merge_links d. links d t \<noteq> None) \<and> acyclic (merge_links d) \<and>
     (\<forall>k j p a b. links d k = Some (a, Some p) \<longrightarrow> links d j = Some (b, Some p) \<longrightarrow> k = j)"

lemma links_change:
  "links (change k f d) j = (if j = k then map_option (\<lambda>c. (t_merged_into (cs_ticket (f c)), t_follow_up_of (cs_ticket (f c)))) (map_of d k)
     else links d j)"
  by (simp add: links_def option.map_comp comp_def)

lemma links_same:
  assumes "\<And>c. map_of d k = Some c \<Longrightarrow> t_merged_into (cs_ticket (f c)) = t_merged_into (cs_ticket c) \<and>
    t_follow_up_of (cs_ticket (f c)) = t_follow_up_of (cs_ticket c)"
  shows "links (change k f d) = links d"
  using assms by (intro ext) (cases "map_of d k", auto simp: links_change links_def)

lemma links_ok_cong: "links d = links d' \<Longrightarrow> links_ok d = links_ok d'"
  by (simp add: links_ok_def merge_links_def)

text \<open>Clearing a follow-up link.\<close>

lemma links_unlink: "links (change k unlink d) j = (if j = k then map_option (\<lambda>x. (fst x, None)) (links d k) else links d j)"
  by (simp add: links_change links_def option.map_comp comp_def unlink_def)

lemma unlink_links_ok:
  assumes "links_ok d"
  shows "links_ok (change k unlink d)"
proof -
  have m: "merge_links (change k unlink d) = merge_links d"
    unfolding merge_links_def by (auto simp: links_unlink split: if_splits)
  have "links (change k unlink d) t \<noteq> None \<longleftrightarrow> links d t \<noteq> None" for t by (simp add: links_unlink)
  then show ?thesis using assms unfolding links_ok_def m by (auto simp: links_unlink split: if_splits)
qed

text \<open>A new ticket, which may be the first follow-up of another.\<close>

lemma new_links_ok:
  assumes ok: "links_ok d" and new: "n \<notin> fst ` set d" and free: "t_merged_into (cs_ticket c) = None"
    and follow: "\<And>p k a. t_follow_up_of (cs_ticket c) = Some p \<Longrightarrow> links d k \<noteq> Some (a, Some p)"
  shows "links_ok (d @ [(n, c)])"
proof -
  have l: "links (d @ [(n, c)]) j = (if j = n then Some (None, t_follow_up_of (cs_ticket c)) else links d j)" for j
    using free unfolding links_def map_of_new[OF new] by simp
  have out: "links d n = None" using new by (simp add: links_def map_of_eq_None_iff)
  have m: "merge_links (d @ [(n, c)]) = merge_links d" unfolding merge_links_def l using out by (auto split: if_splits)
  show ?thesis using ok follow out unfolding links_ok_def m by (auto simp: l split: if_splits)
qed

text \<open>A merge into a ticket that is not merged itself.\<close>

lemma merge_links_ok:
  assumes ok: "links_ok d" and k: "map_of d k = Some s" "t_merged_into (cs_ticket s) = None"
    and t: "map_of d t = Some b" "t_merged_into (cs_ticket b) = None" and ne: "k \<noteq> t"
  shows "links_ok (change k (close_source now actor res t) d)"
proof -
  let ?d = "change k (close_source now actor res t) d"
  let ?p = "if t_follow_up_of (cs_ticket s) = Some t then None else t_follow_up_of (cs_ticket s)"
  have l: "links ?d j = (if j = k then Some (Some t, ?p) else links d j)" for j
    using k by (simp add: links_change close_source_def)
  have lt: "links d t = Some (None, t_follow_up_of (cs_ticket b))" "links d k = Some (None, t_follow_up_of (cs_ticket s))"
    using k t by (simp_all add: links_def)
  have m: "merge_links ?d = insert (k, t) (merge_links d)"
    unfolding merge_links_def l using lt by (auto split: if_splits)
  have "(t, k) \<notin> (merge_links d)\<^sup>*"
  proof
    assume "(t, k) \<in> (merge_links d)\<^sup>*"
    then show False by (cases rule: converse_rtranclE) (use ne lt in \<open>auto simp: merge_links_def\<close>)
  qed
  then have ac: "acyclic (merge_links ?d)" unfolding m using ok by (simp add: acyclic_insert links_ok_def)
  have ex: "\<forall>(j, x) \<in> merge_links ?d. links ?d x \<noteq> None"
    unfolding m using ok lt by (auto simp: links_ok_def l)
  have "i = j" if ij: "links ?d i = Some (a, Some p)" "links ?d j = Some (c, Some p)" for i j p a c
  proof -
    have old: "\<exists>a. links d x = Some (a, Some p)" if "links ?d x = Some (y, Some p)" for x y
      using that lt unfolding l by (auto split: if_splits)
    obtain a' c' where "links d i = Some (a', Some p)" "links d j = Some (c', Some p)"
      using old[OF ij(1)] old[OF ij(2)] by blast
    then show ?thesis using ok unfolding links_ok_def by blast
  qed
  then show ?thesis unfolding links_ok_def using ac ex by blast
qed

lemma follow_up_of_None:
  "follow_up_of d p = None \<Longrightarrow> links d k \<noteq> Some (a, Some p)"
  by (auto simp: follow_up_of_def links_def find_None_iff dest!: map_of_SomeD)

lemma follow_up_of_Some:
  assumes "distinct (map fst d)" and "follow_up_of d p = Some k"
  shows "\<exists>c. map_of d k = Some c \<and> t_follow_up_of (cs_ticket c) = Some p"
proof -
  obtain c where "find (\<lambda>(_, c). t_follow_up_of (cs_ticket c) = Some p) d = Some (k, c)"
    using assms(2) by (auto simp: follow_up_of_def)
  then have "(k, c) \<in> set d" "t_follow_up_of (cs_ticket c) = Some p" by (auto simp: find_Some_iff in_set_conv_nth)
  then show ?thesis using assms(1) by auto
qed

lemma follow_up_of_links:
  assumes "distinct (map fst d)"
  shows "follow_up_of d p = None \<longleftrightarrow> (\<forall>k a. links d k \<noteq> Some (a, Some p))"
  using follow_up_of_None follow_up_of_Some[OF assms, of p] by (cases "follow_up_of d p") (auto simp: links_def)

section \<open>Invariant\<close>

text \<open>Every ticket is well formed, its history sound, and the links are.\<close>

definition cases_ok :: "sla_env \<Rightarrow> bool \<Rightarrow> desk \<Rightarrow> bool" where
  "cases_ok env admin d \<longleftrightarrow> (\<forall>k c. map_of d k = Some c \<longrightarrow> case_inv c \<and> history_ok env admin c)"

definition desk_ok :: "sla_env \<Rightarrow> bool \<Rightarrow> desk \<Rightarrow> bool" where
  "desk_ok env admin d \<longleftrightarrow> distinct (map fst d) \<and> cases_ok env admin d \<and> links_ok d"

lemma change_desk_ok:
  assumes ok: "desk_ok env admin d"
    and good: "\<And>c. map_of d k = Some c \<Longrightarrow> case_inv (f c) \<and> history_ok env admin (f c) \<and>
      t_merged_into (cs_ticket (f c)) = t_merged_into (cs_ticket c) \<and> t_follow_up_of (cs_ticket (f c)) = t_follow_up_of (cs_ticket c)"
  shows "desk_ok env admin (change k f d)"
proof -
  have "links (change k f d) = links d" using good by (intro links_same) blast
  then have "links_ok (change k f d)" using ok links_ok_cong desk_ok_def by metis
  moreover have "cases_ok env admin (change k f d)"
    using ok good by (auto simp: desk_ok_def cases_ok_def split: if_splits)
  ultimately show ?thesis using ok by (simp add: desk_ok_def)
qed

lemma new_desk_ok:
  assumes ok: "desk_ok env admin d" and new: "n \<notin> fst ` set d" and good: "case_inv c" "history_ok env admin c"
    and free: "t_merged_into (cs_ticket c) = None"
    and follow: "\<And>p. t_follow_up_of (cs_ticket c) = Some p \<Longrightarrow> follow_up_of d p = None"
  shows "desk_ok env admin (d @ [(n, c)])"
proof -
  have "links_ok (d @ [(n, c)])"
    using ok new free follow follow_up_of_None by (intro new_links_ok) (auto simp: desk_ok_def)
  moreover have "cases_ok env admin (d @ [(n, c)])" using ok good unfolding cases_ok_def map_of_new[OF new] by (auto simp: desk_ok_def cases_ok_def)
  ultimately show ?thesis using ok new by (simp add: desk_ok_def)
qed

lemma new_case_ok: "new_case c \<Longrightarrow> case_inv c \<and> history_ok env admin c"
  by (auto simp: new_case_def case_defs rows_ok_def rows_in_def CLOSING_STATUSES_def history_ok_def)

lemma unlink_ok: "case_inv (unlink c) = case_inv c" "history_ok env admin (unlink c) = history_ok env admin c"
  "finished (unlink c) = finished c" "t_merged_into (cs_ticket (unlink c)) = t_merged_into (cs_ticket c)"
proof -
  show fin: "finished (unlink c) = finished c" by (simp add: unlink_def finished_def)
  have eq: "cs_events (unlink c) = cs_events c" "cs_clock (unlink c) = cs_clock c" "cs_assignees (unlink c) = cs_assignees c"
    by (simp_all add: unlink_def)
  show "case_inv (unlink c) = case_inv c"
    unfolding case_inv_def ticket_ok_def clock_ok_def assignees_ok_def fin eq by (simp add: unlink_def)
qed (simp_all add: unlink_def history_ok_def)

lemma release_link_desk_ok: "desk_ok env admin d \<Longrightarrow> desk_ok env admin (release_link d f)"
  by (auto simp: desk_ok_def release_link_def cases_ok_def unlink_links_ok unlink_ok split: if_splits)

lemma core_links:
  "ticket_core c' = ticket_core c \<Longrightarrow> t_merged_into (cs_ticket c') = t_merged_into (cs_ticket c) \<and>
   t_follow_up_of (cs_ticket c') = t_follow_up_of (cs_ticket c)"
  by (simp add: ticket_core_def)

text \<open>The steps of one ticket keep its links.\<close>

lemma side_links: "side_step c c' \<Longrightarrow> t_merged_into (cs_ticket c') = t_merged_into (cs_ticket c) \<and>
    t_follow_up_of (cs_ticket c') = t_follow_up_of (cs_ticket c)"
  by (rule core_links) (simp add: side_step_def)

lemma transition_links:
  assumes "transition_status env now c st actor bulk skip res = Inr (c', changed)"
  shows "t_merged_into (cs_ticket c') = t_merged_into (cs_ticket c) \<and> t_follow_up_of (cs_ticket c') = t_follow_up_of (cs_ticket c)"
proof (cases "st = t_status (cs_ticket c)")
  case True
  then show ?thesis using assms by (simp add: transition_status_def Let_def)
next
  case False
  show ?thesis using transition_result[OF assms False] by blast
qed

lemma upkeep_links:
  assumes "upkeep_step env c c'"
  shows "t_merged_into (cs_ticket c') = t_merged_into (cs_ticket c) \<and> t_follow_up_of (cs_ticket c') = t_follow_up_of (cs_ticket c)"
  using assms by cases (auto simp: with_clock_def revert_gmail_def note_event_def remove_assignee_def)

lemma ticket_links:
  assumes "ticket_step env admin c c'"
  shows "t_merged_into (cs_ticket c') = t_merged_into (cs_ticket c) \<and> t_follow_up_of (cs_ticket c') = t_follow_up_of (cs_ticket c)"
  using assms
proof cases
  case (transition now st actor bulk skip res changed)
  then show ?thesis by (rule transition_links)
next
  case (auto_close now nt changed)
  then show ?thesis using gmail_close_result[OF auto_close(2,1)] transition_links by fastforce
next
  case (assign user actor reason changed)
  then show ?thesis using side_links[OF assign_side] by blast
next
  case (additional user reason)
  then show ?thesis using side_links[OF side_steps(1)] by simp
next
  case (edit p category assignee template checklist extra)
  then show ?thesis using side_links[OF side_steps(3)] by simp
next
  case upkeep
  then show ?thesis by (rule upkeep_links)
qed

lemma reopen_ok:
  assumes "case_inv c" "history_ok env admin c" "finished c"
  shows "case_inv (reopen_case now actor g c) \<and> history_ok env admin (reopen_case now actor g c)"
proof
  show "case_inv (reopen_case now actor g c)" by (rule reopen_inv[OF assms(1)])
  show "history_ok env admin (reopen_case now actor g c)"
    by (rule history_append[OF assms(2), of _ "Reopened_Event now actor g (t_status (cs_ticket c))"])
      (use assms(3) in \<open>simp_all add: reopen_case_def finished_def\<close>)
qed

lemma note_ok:
  assumes "case_inv c" "history_ok env admin c"
  shows "case_inv (note_event c s)" "history_ok env admin (note_event c s)" "finished (note_event c s) = finished c"
    "cs_ticket (note_event c s) = cs_ticket c"
  using side_step_inv[OF assms(1) side_steps(4) side_rows(4)] history_side[OF assms(2) side_steps(4)] assms(1)
  by (simp_all add: case_inv_def finished_def note_event_def)

section \<open>Where a mail goes\<close>

text \<open>Desks that differ in released follow-up links only.\<close>

definition relinked :: "desk \<Rightarrow> desk \<Rightarrow> bool" where
  "relinked d d' \<longleftrightarrow> fst ` set d' = fst ` set d \<and>
     (\<forall>j c'. map_of d' j = Some c' \<longrightarrow> (\<exists>c. map_of d j = Some c \<and> (c' = c \<or> c' = unlink c)))"

lemma relinked_refl: "relinked d d"
  by (auto simp: relinked_def)

lemma relinked_release: "relinked d (release_link d f)"
  by (auto simp: relinked_def release_link_def)

lemma relinked_trans:
  assumes "relinked d e" and "relinked e f"
  shows "relinked d f"
proof -
  have "unlink (unlink c) = unlink c" for c by (simp add: unlink_def)
  then show ?thesis using assms unfolding relinked_def by metis
qed

lemma relinked_case:
  assumes "relinked d d'" and "map_of d j = Some c"
  shows "\<exists>c'. map_of d' j = Some c' \<and> (c' = c \<or> c' = unlink c)"
proof -
  have "j \<in> fst ` set d'" using assms by (force simp: relinked_def dest: map_of_SomeD)
  then obtain c' where "map_of d' j = Some c'" by (metis map_of_eq_None_iff not_Some_eq)
  then show ?thesis using assms unfolding relinked_def by fastforce
qed

text \<open>What a decision presupposes.\<close>

fun action_ok :: "desk \<Rightarrow> mail_action \<Rightarrow> bool" where
  "action_ok d No_Ticket \<longleftrightarrow> True"
| "action_ok d (Attach t) \<longleftrightarrow> map_of d t \<noteq> None"
| "action_ok d (Reopen t) \<longleftrightarrow> (\<exists>c. map_of d t = Some c \<and> finished c)"
| "action_ok d (Follow_Up p r) \<longleftrightarrow> (\<exists>c. map_of d p = Some c \<and> finished c) \<and> follow_up_of d p = None"

lemma mail_rounds_ok:
  assumes "mail_rounds env now updated auto_reply n d latest released k = (d', act)" and "desk_ok env admin d"
    and "\<And>t. latest = Some t \<Longrightarrow> \<exists>c. map_of d t = Some c \<and> finished c"
  shows "desk_ok env admin d' \<and> relinked d d' \<and> action_ok d' act"
  using assms
proof (induction n arbitrary: d latest released k)
  case 0
  then show ?case by (auto simp: relinked_refl split: option.splits)
next
  case (Suc n)
  show ?case
  proof (cases "resolve_case d k")
    case None
    then show ?thesis using Suc.prems by (auto simp: relinked_refl)
  next
    case r: (Some r)
    show ?thesis
    proof (cases "map_of d (ce_ticket r)")
      case None
      then show ?thesis using Suc.prems r by (auto simp: relinked_refl)
    next
      case c: (Some c)
      define d1 where "d1 = (case ce_released r of None \<Rightarrow> d | Some f \<Rightarrow> release_link d f)"
      define rel1 where "rel1 = (case ce_released r of None \<Rightarrow> released | Some f \<Rightarrow> Some f)"
      have d1: "desk_ok env admin d1" "relinked d d1"
        using Suc.prems(2) by (auto simp: d1_def release_link_desk_ok relinked_refl relinked_release split: option.splits)
      then have c1: "\<exists>c'. map_of d1 (ce_ticket r) = Some c' \<and> (finished c \<longrightarrow> finished c')"
        using relinked_case[OF d1(2) c] unlink_ok(3) by metis
      show ?thesis
      proof (cases "auto_reply \<or> t_merged_into (cs_ticket c) \<noteq> None \<or> \<not> finished c \<or>
          within_reopen_window env (closed_at (cs_ticket c) (updated (ce_ticket r))) now")
        case True
        then show ?thesis using Suc.prems r c by (auto simp: relinked_refl split: if_splits)
      next
        case False
        then have fin: "finished c" by simp
        have run: "(case follow_up_of d1 (ce_ticket r) of None \<Rightarrow> (d1, Follow_Up (ce_ticket r) rel1)
            | Some x \<Rightarrow> mail_rounds env now updated auto_reply n d1 (Some (ce_ticket r)) rel1 x) = (d', act)"
          using Suc.prems(1) False unfolding mail_rounds.simps r c option.case Let_def d1_def rel1_def by simp
        show ?thesis
        proof (cases "follow_up_of d1 (ce_ticket r)")
          case None
          then show ?thesis using run d1 c1 fin by auto
        next
          case (Some x)
          then have "mail_rounds env now updated auto_reply n d1 (Some (ce_ticket r)) rel1 x = (d', act)" using run by simp
          then have "desk_ok env admin d' \<and> relinked d1 d' \<and> action_ok d' act"
            by (rule Suc.IH[OF _ d1(1)]) (use c1 fin in auto)
          then show ?thesis using relinked_trans[OF d1(2)] by blast
        qed
      qed
    qed
  qed
qed

lemma attach_desk_ok:
  assumes ok: "desk_ok env admin d" and new: "new \<notin> fst ` set d" "new_case successor"
    and at: "attach_to_ticket env now updated auto_reply actor new successor d k = Inr d'"
  shows "desk_ok env admin d'"
proof -
  obtain d1 act where m: "mail_target env now updated auto_reply d k = (d1, act)" by fastforce
  have d1: "desk_ok env admin d1" "relinked d d1" "action_ok d1 act"
    using mail_rounds_ok[OF m[unfolded mail_target_def] ok] by simp_all
  have case_ok: "case_inv c \<and> history_ok env admin c" if "map_of d1 t = Some c" for t c
    using d1(1) that by (auto simp: desk_ok_def cases_ok_def)
  show ?thesis
  proof (cases act)
    case No_Ticket
    then show ?thesis using at m by (simp add: attach_to_ticket_def)
  next
    case (Attach t)
    then have "d' = change t (\<lambda>c. note_event c ''mail_received'') d1" using at m by (simp add: attach_to_ticket_def)
    then show ?thesis using change_desk_ok[OF d1(1)] case_ok note_ok by metis
  next
    case (Reopen t)
    then have d': "d' = change t (\<lambda>c. reopen_case now actor False (note_event c ''mail_received'')) d1"
      using at m by (simp add: attach_to_ticket_def)
    obtain c0 where c0: "map_of d1 t = Some c0" "finished c0" using d1(3) Reopen by auto
    show ?thesis unfolding d'
    proof (rule change_desk_ok[OF d1(1)])
      fix c
      assume c: "map_of d1 t = Some c"
      note n = note_ok[OF case_ok[OF c, THEN conjunct1] case_ok[OF c, THEN conjunct2], of "''mail_received''"]
      have "finished (note_event c ''mail_received'')" using c c0 n(3) by simp
      then show "case_inv (reopen_case now actor False (note_event c ''mail_received'')) \<and>
          history_ok env admin (reopen_case now actor False (note_event c ''mail_received'')) \<and>
          t_merged_into (cs_ticket (reopen_case now actor False (note_event c ''mail_received''))) = t_merged_into (cs_ticket c) \<and>
          t_follow_up_of (cs_ticket (reopen_case now actor False (note_event c ''mail_received''))) = t_follow_up_of (cs_ticket c)"
        using reopen_ok[OF n(1,2)] n(4) by (simp add: reopen_case_def)
    qed
  next
    case (Follow_Up p rel)
    let ?d2 = "change p (\<lambda>c. note_event c ''follow_up_created'') d1"
    let ?s = "successor\<lparr>cs_ticket := (cs_ticket successor)\<lparr>t_follow_up_of := Some p\<rparr>\<rparr>"
    have d': "d' = ?d2 @ [(new, note_event (note_event ?s ''follow_up_of'') ''mail_received'')]"
      using at m Follow_Up by (simp add: attach_to_ticket_def)
    have 2: "desk_ok env admin ?d2" using change_desk_ok[OF d1(1)] case_ok note_ok by metis
    have "new_case ?s" using new(2) by (simp add: new_case_def)
    then have s: "case_inv ?s" "history_ok env admin ?s" using new_case_ok by blast+
    note s1 = note_ok[OF s, of "''follow_up_of''"]
    note s2 = note_ok[OF s1(1,2), of "''mail_received''"]
    have "links ?d2 = links d1" by (rule links_same) (simp add: note_event_def)
    then have none: "follow_up_of ?d2 p = None"
      using follow_up_of_links[of d1 p] follow_up_of_links[of ?d2 p] d1(1,3) 2 Follow_Up by (simp add: desk_ok_def)
    have "new \<notin> fst ` set ?d2" using new(1) d1(2) by (simp add: relinked_def)
    then show ?thesis unfolding d'
      by (rule new_desk_ok[OF 2 _ s2(1,2)]) (use s1(4) s2(4) none new(2) in \<open>simp_all add: new_case_def\<close>)
  qed
qed

lemma gmail_desk_ok:
  assumes ok: "desk_ok env admin d"
  shows "desk_ok env admin (reopen_from_gmail env now updated d k)"
proof (cases "resolve_case d k")
  case None
  then show ?thesis using ok by (simp add: reopen_from_gmail_def)
next
  case (Some r)
  have good: "case_inv c \<and> history_ok env admin c" if "map_of d (ce_ticket r) = Some c" for c
    using ok that by (auto simp: desk_ok_def cases_ok_def)
  show ?thesis unfolding reopen_from_gmail_def Some option.case
  proof (rule change_desk_ok[OF ok])
    fix c
    assume c: "map_of d (ce_ticket r) = Some c"
    let ?f = "if \<not> finished c then c
      else if \<not> within_reopen_window env (closed_at (cs_ticket c) (updated (ce_ticket r))) now then note_event c ''reopen_skipped''
      else reopen_case now None True c"
    show "case_inv ?f \<and> history_ok env admin ?f \<and> t_merged_into (cs_ticket ?f) = t_merged_into (cs_ticket c) \<and>
        t_follow_up_of (cs_ticket ?f) = t_follow_up_of (cs_ticket c)"
      using good[OF c] note_ok[of c env admin "''reopen_skipped''"] reopen_ok[of c env admin now None True]
      by (simp add: reopen_case_def)
  qed
qed

section \<open>Merging keeps the invariant\<close>

lemma protected_kind_active:
  assumes "k \<in> set PROTECTED_KINDS" and "k \<in> set BUILTIN_KINDS"
  shows "k \<in> set (active_kind_codes kc)"
proof -
  define p where "p = (if kinds_config_ok kc then kc else \<lparr>kc_disabled = [], kc_custom = []\<rparr>)"
  have "k \<notin> set (kc_disabled p)"
    using assms(1) by (cases "kinds_config_ok kc") (auto simp: p_def kinds_config_ok_def list_all_iff)
  then have "(k, True) \<in> (\<lambda>c. (c, c \<notin> set (kc_disabled p))) ` set BUILTIN_KINDS"
    by (intro image_eqI[OF _ assms(2)]) simp
  then have "(k, True) \<in> set (effective_resolution_kinds kc)"
    unfolding effective_resolution_kinds_def Let_def p_def[symmetric] by simp
  then show ?thesis unfolding active_kind_codes_def by force
qed

lemma merge_kind_active: "''zusammengefuehrt'' \<in> set (active_kind_codes kc)"
  by (rule protected_kind_active) (simp_all add: PROTECTED_KINDS_def BUILTIN_KINDS_def)

lemma receive_ok:
  assumes "case_inv t" "history_ok env admin t" "history_ok env admin s" and free: "t_merged_into (cs_ticket t) = None"
  shows "case_inv (receive_history k s t) \<and> history_ok env admin (receive_history k s t)"
proof
  have fin: "finished (receive_history k s t) = finished t" by (simp add: receive_history_def finished_def)
  have eq: "cs_ticket (receive_history k s t) = cs_ticket t" "cs_clock (receive_history k s t) = cs_clock t"
    "cs_assignees (receive_history k s t) = cs_assignees t" by (simp_all add: receive_history_def)
  have rev: "list_ex is_revert (cs_events t) \<Longrightarrow> list_ex is_revert (cs_events (receive_history k s t))"
    by (simp add: receive_history_def)
  show "case_inv (receive_history k s t)"
    using assms(1) free rev unfolding case_inv_def ticket_ok_def clock_ok_def assignees_ok_def fin eq by (auto split: option.splits)
  show "history_ok env admin (receive_history k s t)"
    using assms(2,3) by (simp add: receive_history_def history_ok_def)
qed

lemma close_ok:
  assumes inv: "case_inv s" and open': "t_status (cs_ticket s) \<noteq> St_Closed"
    and kind: "rv_kind res \<in> set (active_kind_codes (ev_kinds env))"
  shows "case_inv (close_source now actor res t s) \<and> history_ok env admin (close_source now actor res t s)"
proof
  have fin: "finished (close_source now actor res t s)" by (simp add: close_source_def finished_def CLOSING_STATUSES_def)
  have eq: "cs_assignees (close_source now actor res t s) = cs_assignees s"
    "cs_clock (close_source now actor res t s) = map_option (mark_resolved now) (cs_clock s)" by (simp_all add: close_source_def)
  have "ticket_ok (close_source now actor res t s)" unfolding ticket_ok_def using fin by (simp add: close_source_def)
  moreover have "clock_ok (close_source now actor res t s)"
    using inv fin unfolding clock_ok_def eq by (auto simp: case_inv_def clock_ok_def mark_resolved_def log_clock_def split: option.splits)
  moreover have "assignees_ok (close_source now actor res t s)" using inv unfolding assignees_ok_def eq by (simp add: case_inv_def assignees_ok_def)
  ultimately show "case_inv (close_source now actor res t s)" by (simp add: case_inv_def)
  show "history_ok env admin (close_source now actor res t s)"
    using open' kind by (simp add: history_ok_def close_source_def)
qed

text \<open>What the sources still to be merged need.\<close>

definition ready :: "desk \<Rightarrow> uid \<Rightarrow> bool" where
  "ready d k \<longleftrightarrow> (\<exists>c. map_of d k = Some c \<and> mergeable c)"

lemma merge_one_ok:
  assumes ok: "desk_ok env admin d" and k: "ready d k" and t: "ready d t" and ne: "k \<noteq> t"
    and kind: "rv_kind res \<in> set (active_kind_codes (ev_kinds env))"
  shows "desk_ok env admin (merge_one now actor res t d k)"
proof -
  obtain s b where s: "map_of d k = Some s" "mergeable s" and b: "map_of d t = Some b" "mergeable b"
    using k t by (auto simp: ready_def)
  have good: "case_inv s" "history_ok env admin s" "case_inv b" "history_ok env admin b"
    using ok s(1) b(1) by (auto simp: desk_ok_def cases_ok_def)
  let ?d1 = "change t (receive_history k s) d"
  let ?d2 = "change k (close_source now actor res t) ?d1"
  have 1: "desk_ok env admin ?d1"
  proof (rule change_desk_ok[OF ok])
    fix c assume "map_of d t = Some c"
    then have "c = b" using b(1) by simp
    then show "case_inv (receive_history k s c) \<and> history_ok env admin (receive_history k s c) \<and>
        t_merged_into (cs_ticket (receive_history k s c)) = t_merged_into (cs_ticket c) \<and>
        t_follow_up_of (cs_ticket (receive_history k s c)) = t_follow_up_of (cs_ticket c)"
      using receive_ok[OF good(3,4,2)] b(2) by (simp add: mergeable_def receive_history_def)
  qed
  have s1: "map_of ?d1 k = Some s" "map_of ?d1 t = Some (receive_history k s b)" using s b ne by simp_all
  have "links_ok ?d2"
    by (rule merge_links_ok[OF _ s1(1) _ s1(2) _ ne])
      (use 1 s(2) b(2) in \<open>simp_all add: desk_ok_def mergeable_def receive_history_def\<close>)
  moreover have "cases_ok env admin ?d2"
    using 1 s1(1) close_ok[OF good(1) _ kind] s(2) unfolding desk_ok_def cases_ok_def by (auto simp: mergeable_def split: if_splits)
  moreover have "distinct (map fst ?d2)" using 1 by (simp add: desk_ok_def)
  moreover have "merge_one now actor res t d k = ?d2" using s(1) by (simp add: merge_one_def)
  ultimately show ?thesis by (simp add: desk_ok_def)
qed

lemma merge_one_others:
  assumes "j \<noteq> k" and "j \<noteq> t"
  shows "map_of (merge_one now actor res t d k) j = map_of d j"
  using assms by (simp add: merge_one_def split: option.splits)

lemma merge_one_ready:
  assumes "ready d t" and "k \<noteq> t"
  shows "ready (merge_one now actor res t d k) t"
  using assms by (auto simp: merge_one_def ready_def mergeable_def receive_history_def split: option.splits)

lemma merge_all_ok:
  assumes "desk_ok env admin d" and "ready d t" and "\<And>k. k \<in> set ids \<Longrightarrow> ready d k" and "distinct ids" and "t \<notin> set ids"
    and kind: "rv_kind res \<in> set (active_kind_codes (ev_kinds env))"
  shows "desk_ok env admin (foldl (merge_one now actor res t) d ids)"
  using assms(1-5)
proof (induction ids arbitrary: d)
  case (Cons k ids)
  have ne: "k \<noteq> t" using Cons.prems(5) by auto
  let ?d = "merge_one now actor res t d k"
  have "desk_ok env admin ?d" by (rule merge_one_ok[OF Cons.prems(1) _ Cons.prems(2) ne kind]) (simp add: Cons.prems(3))
  moreover have "ready ?d t" by (rule merge_one_ready[OF Cons.prems(2) ne])
  moreover have "ready ?d j" if "j \<in> set ids" for j
  proof -
    have "j \<noteq> k" "j \<noteq> t" using that Cons.prems(4,5) by auto
    then show ?thesis using Cons.prems(3)[of j] that by (simp add: ready_def merge_one_others)
  qed
  ultimately show ?case using Cons.IH Cons.prems(4,5) by simp
qed simp

lemma carry_distinct: "distinct (assignees_to_carry seen us) \<and> set (assignees_to_carry seen us) \<inter> set seen = {}"
  by (induction seen us rule: assignees_to_carry.induct) auto

lemma carry_ok:
  assumes "case_inv c" "history_ok env admin c"
  shows "case_inv (carry_assignees ss c) \<and> history_ok env admin (carry_assignees ss c) \<and>
    t_merged_into (cs_ticket (carry_assignees ss c)) = t_merged_into (cs_ticket c) \<and>
    t_follow_up_of (cs_ticket (carry_assignees ss c)) = t_follow_up_of (cs_ticket c)"
proof -
  define us where "us = assignees_to_carry (map as_user (cs_assignees c) @ (case t_assignee (cs_ticket c) of None \<Rightarrow> [] | Some u \<Rightarrow> [u]))
    (concat (map (\<lambda>s. t_assignee (cs_ticket s) # map (\<lambda>r. Some (as_user r)) (cs_assignees s)) ss))"
  have us: "distinct us" "set us \<inter> set (map as_user (cs_assignees c)) = {}"
    using carry_distinct unfolding us_def by (blast, force)
  have eq: "carry_assignees ss c = c\<lparr>cs_assignees := cs_assignees c @
      map (\<lambda>u. \<lparr>as_user = u, as_primary = False, as_reason = MERGE_ASSIGNEE_REASON\<rparr>) us\<rparr>"
    by (simp add: carry_assignees_def us_def Let_def)
  have side: "side_step c (carry_assignees ss c)" unfolding eq by (simp add: side_step_def ticket_core_def)
  obtain u where "rows_in {u} (cs_assignees c)" using assms(1) by (auto simp: case_inv_def assignees_ok_def rows_ok_def)
  then have "rows_in {u} (cs_assignees (carry_assignees ss c))"
    using us unfolding rows_in_def eq by (auto simp: comp_def)
  then have "assignees_ok (carry_assignees ss c)" by (auto simp: assignees_ok_def rows_ok_def)
  then show ?thesis using side_step_inv[OF assms(1) side] history_side[OF assms(2) side] side_links[OF side] by blast
qed

lemma started_ok:
  assumes "new_case c" and st: "start_clock env None p now cat = Inr clk"
  shows "case_inv (with_clock c clk)" "history_ok env admin (with_clock c clk)"
proof -
  have "\<not> finished c" "cs_clock c = None" using assms(1) by (simp_all add: new_case_def finished_def CLOSING_STATUSES_def)
  then show "case_inv (with_clock c clk)" using start_inv[of c env p now cat clk] new_case_ok[OF assms(1)] st by simp
  show "history_ok env admin (with_clock c clk)" using new_case_ok[OF assms(1)] by (simp add: history_clock)
qed

lemma fetch_all:
  assumes "mapr (\<lambda>i. fetch d i e) ks = Inr rows"
  shows "length rows = length ks" "k \<in> set ks \<Longrightarrow> \<exists>c \<in> set rows. map_of d k = Some c"
  using assms unfolding mapr_eq_Inr by (auto dest: list_all2_lengthD list_all2_setD1)

text \<open>How a merge goes: the target is ready, so are the sources, and they are folded into it.\<close>

lemma merge_stages:
  assumes "merge_tickets env now actor given remark new fresh target ids d = Inr d'" and "desk_ok env admin d"
    and "new \<notin> fst ` set d" and "new_case fresh" and "t_follow_up_of (cs_ticket fresh) = None"
  shows "\<exists>d1 t ss res. desk_ok env admin d1 \<and> ready d1 t \<and> (\<forall>k \<in> set ids. ready d k \<and> map_of d1 k = map_of d k) \<and> t \<notin> set ids \<and>
    (target = Some t \<and> ready d t \<or> map_of d t = None) \<and> (target = Some t \<longrightarrow> d1 = d) \<and> (\<forall>j. j \<noteq> t \<longrightarrow> map_of d1 j = map_of d j) \<and>
    rv_kind res \<in> set (active_kind_codes (ev_kinds env)) \<and>
    d' = foldl (merge_one now actor res t) (change t (carry_assignees ss) d1) ids"
proof -
  let ?ks = "ids @ (case target of None \<Rightarrow> [] | Some t \<Rightarrow> [t])"
  obtain rows d1 t where rows: "mapr (\<lambda>i. fetch d i Resource_Not_Found) ?ks = Inr rows"
    and out: "case target of None \<Rightarrow> True | Some t \<Rightarrow> t \<notin> set ids" and able: "list_all mergeable rows"
    and kinds: "case given of None \<Rightarrow> True | Some r \<Rightarrow> rv_kind r \<in> set (active_kind_codes (ev_kinds env))"
    and d1: "merge_target env now new fresh target d = Inr (d1, t)"
    and d': "d' = foldl (merge_one now actor (case given of Some r \<Rightarrow> r | None \<Rightarrow> \<lparr>rv_kind = ''zusammengefuehrt'', rv_note = Some remark\<rparr>) t)
      (change t (carry_assignees (take (length ids) rows)) d1) ids"
    using assms(1) unfolding merge_tickets_def Let_def assert_resolution_kind_allowed_def
    by (auto simp: bindr_eq_Inr split: option.splits)
  have ready: "ready d k" if "k \<in> set ?ks" for k
    using fetch_all(2)[OF rows that] able by (auto simp: ready_def list_all_iff)
  have keys: "k \<in> fst ` set d" if "k \<in> set ids" for k using ready[of k] that by (force simp: ready_def dest: map_of_SomeD)
  have t: "desk_ok env admin d1 \<and> ready d1 t \<and> t \<notin> set ids \<and> (target = Some t \<and> ready d t \<or> map_of d t = None) \<and>
      (target = Some t \<longrightarrow> d1 = d) \<and> (\<forall>j. j \<noteq> t \<longrightarrow> map_of d1 j = map_of d j)"
  proof (cases target)
    case (Some t0)
    then show ?thesis using d1 ready[of t] out assms(2) by (auto simp: merge_target_def)
  next
    case None
    then obtain clk where clk: "start_clock env None (t_priority (cs_ticket fresh)) now (t_category (cs_ticket fresh)) = Inr clk"
      and eq: "d1 = d @ [(new, with_clock fresh clk)]" "t = new"
      using d1 by (auto simp: merge_target_def bindr_eq_Inr)
    have free: "t_merged_into (cs_ticket (with_clock fresh clk)) = None" "t_follow_up_of (cs_ticket (with_clock fresh clk)) = None"
      "mergeable (with_clock fresh clk)"
      using assms(4,5) by (simp_all add: new_case_def with_clock_def mergeable_def)
    have "desk_ok env admin d1" unfolding eq
      by (rule new_desk_ok[OF assms(2,3) started_ok[OF assms(4) clk] free(1)]) (simp add: free)
    moreover have "map_of d1 j = (if j = new then Some (with_clock fresh clk) else map_of d j)" for j
      unfolding eq by (rule map_of_new[OF assms(3)])
    ultimately show ?thesis using keys free(3) assms(3) eq(2) None by (auto simp: ready_def map_of_eq_None_iff)
  qed
  have "rv_kind (case given of Some r \<Rightarrow> r | None \<Rightarrow> \<lparr>rv_kind = ''zusammengefuehrt'', rv_note = Some remark\<rparr>)
      \<in> set (active_kind_codes (ev_kinds env))"
    using kinds merge_kind_active by (simp split: option.splits)
  moreover have "\<forall>k \<in> set ids. ready d k \<and> map_of d1 k = map_of d k" using t ready by fastforce
  ultimately show ?thesis using t d' by blast
qed

lemma merge_desk_ok:
  assumes "merge_tickets env now actor given remark new fresh target ids d = Inr d'" and "desk_ok env admin d"
    and "new \<notin> fst ` set d" and "new_case fresh" and "t_follow_up_of (cs_ticket fresh) = None" and "distinct ids"
  shows "desk_ok env admin d'"
proof -
  obtain d1 t ss res where d1: "desk_ok env admin d1" "ready d1 t" "\<forall>k \<in> set ids. ready d k \<and> map_of d1 k = map_of d k" "t \<notin> set ids"
    and kind: "rv_kind res \<in> set (active_kind_codes (ev_kinds env))"
    and d': "d' = foldl (merge_one now actor res t) (change t (carry_assignees ss) d1) ids"
    using merge_stages[OF assms(1-5)] by blast
  let ?d2 = "change t (carry_assignees ss) d1"
  have case_ok: "case_inv c \<and> history_ok env admin c" if "map_of d1 j = Some c" for j c
    using d1(1) that by (auto simp: desk_ok_def cases_ok_def)
  have "desk_ok env admin ?d2" by (rule change_desk_ok[OF d1(1)]) (use case_ok carry_ok in blast)
  moreover have "ready ?d2 t" using d1(2) by (auto simp: ready_def mergeable_def carry_assignees_def Let_def)
  moreover have "ready ?d2 k" if "k \<in> set ids" for k using d1(3,4) that by (auto simp: ready_def)
  ultimately show ?thesis unfolding d' by (intro merge_all_ok kind d1(4) assms(6)) auto
qed

lemma desk_step_ok:
  assumes "desk_step env admin d d'" and ok: "desk_ok env admin d"
  shows "desk_ok env admin d'"
proof -
  have case_ok: "case_inv c" "history_ok env admin c" if "map_of d j = Some c" for j c
    using ok that by (auto simp: desk_ok_def cases_ok_def)
  show ?thesis using assms(1)
  proof cases
    case (open_ticket k c)
    have good: "case_inv c" "history_ok env admin c" using new_case_ok[OF open_ticket(3)] by blast+
    show ?thesis unfolding open_ticket(1)
      by (rule new_desk_ok[OF ok open_ticket(2) good]) (use open_ticket(3,4) in \<open>simp_all add: new_case_def\<close>)
  next
    case (auto_assigned k c previous j s mailbox name members)
    have prev: "rows_ok previous"
      using auto_assigned(4) case_ok(1)[of j s] by (auto simp: case_inv_def assignees_ok_def rows_ok_def rows_in_def)
    note side = side_steps(5)[of c mailbox name members previous]
    show ?thesis unfolding auto_assigned(1)
      by (rule change_desk_ok[OF ok])
        (use auto_assigned(2,3) side_step_inv[OF case_ok(1)[OF auto_assigned(2)] side auto_assign_rows[OF auto_assigned(3) prev]]
          history_side[OF case_ok(2)[OF auto_assigned(2)] side] side_links[OF side] in simp)
  next
    case (on_ticket k c c')
    show ?thesis unfolding on_ticket(1) update_change[OF on_ticket(2)]
      by (rule change_desk_ok[OF ok])
        (use on_ticket case_step_inv[OF on_ticket(4) case_ok(1)[OF on_ticket(2)] on_ticket(3)]
          history_step[OF on_ticket(4) case_ok(2)[OF on_ticket(2)]] ticket_links[OF on_ticket(4)] in simp)
  next
    case (on_any k c c')
    show ?thesis unfolding on_any(1) update_change[OF on_any(2)]
      by (rule change_desk_ok[OF ok])
        (use on_any(2) upkeep_inv[OF on_any(3) case_ok(1)[OF on_any(2)]]
          upkeep_history[OF on_any(3) case_ok(2)[OF on_any(2)]] upkeep_links[OF on_any(3)] in simp)
  next
    case (mail new successor now updated auto_reply actor k)
    then show ?thesis using attach_desk_ok[OF ok] by blast
  next
    case (gmail now updated k)
    then show ?thesis using gmail_desk_ok[OF ok] by blast
  next
    case (merge ids new fresh now actor given remark target)
    then show ?thesis using merge_desk_ok[OF _ ok] by blast
  qed
qed

interpretation desk: machine "\<lambda>d. d = []" "desk_step env admin" "desk_ok env admin" for env admin
  by unfold_locales (simp add: desk_ok_def cases_ok_def links_ok_def merge_links_def links_def acyclic_def, rule desk_step_ok)

lemma reachable_desk_ok: "reachable_desk env admin d \<Longrightarrow> desk_ok env admin d"
  unfolding reachable_desk_def by (rule desk.inv_reach) simp_all

section \<open>No history is lost\<close>

text \<open>Every row of the history stays a row of some ticket: of its own or of the target of a merge.\<close>

definition recorded :: "desk \<Rightarrow> ticket_event set" where
  "recorded d = {e. \<exists>k c. map_of d k = Some c \<and> e \<in> set (cs_events c)}"

lemma recorded_change:
  assumes "\<And>c. map_of d k = Some c \<Longrightarrow> set (cs_events c) \<subseteq> set (cs_events (f c))"
  shows "recorded d \<subseteq> recorded (change k f d)"
proof
  fix e
  assume "e \<in> recorded d"
  then obtain j c where j: "map_of d j = Some c" "e \<in> set (cs_events c)" by (auto simp: recorded_def)
  then have "\<exists>c'. map_of (change k f d) j = Some c' \<and> e \<in> set (cs_events c')"
    using assms[of c] by (cases "j = k") auto
  then show "e \<in> recorded (change k f d)" unfolding recorded_def by blast
qed

lemma recorded_new: "n \<notin> fst ` set d \<Longrightarrow> recorded d \<subseteq> recorded (d @ [(n, c)])"
  unfolding recorded_def by (auto simp: map_of_new simp del: map_of_append dest: map_of_SomeD) (force dest: map_of_SomeD)

lemma recorded_relinked:
  assumes "relinked d d'"
  shows "recorded d \<subseteq> recorded d'"
proof -
  have "cs_events (unlink c) = cs_events c" for c by (simp add: unlink_def)
  then show ?thesis using relinked_case[OF assms] unfolding recorded_def by fastforce
qed

lemma recorded_merge_one:
  assumes "k \<noteq> t" and "map_of d t \<noteq> None"
  shows "recorded d \<subseteq> recorded (merge_one now actor res t d k)"
proof (cases "map_of d k")
  case (Some s)
  obtain b where b: "map_of d t = Some b" using assms(2) by auto
  let ?d = "change k (close_source now actor res t) (change t (receive_history k s) d)"
  have t: "map_of ?d t = Some (receive_history k s b)" using b assms(1) by simp
  have all: "e \<in> recorded ?d" if e: "map_of d j = Some c" "e \<in> set (cs_events c)" for e j c
  proof (cases "j = k \<or> j = t")
    case True
    then have "e \<in> set (cs_events (receive_history k s b))" using e Some b by (auto simp: receive_history_def)
    then show ?thesis using t unfolding recorded_def by blast
  next
    case False
    then have "map_of ?d j = Some c" using e(1) by simp
    then show ?thesis using e(2) unfolding recorded_def by blast
  qed
  have "recorded d \<subseteq> recorded ?d"
  proof (rule subsetI)
    fix e
    assume "e \<in> recorded d"
    then obtain j c where "map_of d j = Some c" "e \<in> set (cs_events c)" by (auto simp: recorded_def)
    then show "e \<in> recorded ?d" by (rule all)
  qed
  then show ?thesis using Some by (simp add: merge_one_def)
qed (simp add: merge_one_def)

lemma recorded_merge:
  assumes "t \<notin> set ids" and "map_of d t \<noteq> None"
  shows "recorded d \<subseteq> recorded (foldl (merge_one now actor res t) d ids)"
  using assms
proof (induction ids arbitrary: d)
  case (Cons k ids)
  have ne: "k \<noteq> t" using Cons.prems(1) by auto
  have "map_of (merge_one now actor res t d k) t \<noteq> None"
    using Cons.prems(2) ne by (auto simp: merge_one_def split: option.splits)
  then have "recorded (merge_one now actor res t d k) \<subseteq> recorded (foldl (merge_one now actor res t) d (k # ids))"
    using Cons.IH Cons.prems(1) by simp
  then show ?case using recorded_merge_one[OF ne Cons.prems(2)] by blast
qed simp

lemma ticket_events:
  assumes "ticket_step env admin c c'"
  shows "set (cs_events c) \<subseteq> set (cs_events c')"
  using assms
proof cases
  case (transition now st actor bulk skip res changed)
  show ?thesis
  proof (cases "st = t_status (cs_ticket c)")
    case True
    then show ?thesis using transition by (simp add: transition_status_def Let_def)
  next
    case False
    then have "\<exists>e. cs_events c' = cs_events c @ [e]" using transition_result[OF transition] by blast
    then show ?thesis by auto
  qed
next
  case (auto_close now nt changed)
  then show ?thesis using gmail_close_result[OF auto_close(2,1)] by auto
next
  case (assign user actor reason changed)
  then show ?thesis using assign_side by (fastforce simp: side_step_def)
next
  case upkeep
  then show ?thesis by cases (auto simp: with_clock_def note_event_def remove_assignee_def revert_gmail_def)
qed (simp_all add: edit_fields_def)

lemma history_kept:
  assumes step: "desk_step env admin d d'" and ok: "desk_ok env admin d"
  shows "recorded d \<subseteq> recorded d'"
  using step
proof cases
  case (open_ticket k c)
  then show ?thesis using recorded_new by simp
next
  case (auto_assigned k c previous j s mailbox name members)
  then show ?thesis by (simp add: recorded_change)
next
  case (on_ticket k c c')
  then show ?thesis unfolding on_ticket(1) update_change[OF on_ticket(2)]
    by (intro recorded_change) (use ticket_events in force)
next
  case (on_any k c c')
  then show ?thesis unfolding on_any(1) update_change[OF on_any(2)]
    by (intro recorded_change) (use ticket_events[OF ticket_step.upkeep] in force)
next
  case (mail new successor now updated auto_reply actor k)
  obtain d1 act where m: "mail_target env now updated auto_reply d k = (d1, act)" by fastforce
  have re: "relinked d d1" using mail_rounds_ok[OF m[unfolded mail_target_def] ok] by simp
  have note_row: "recorded d1 \<subseteq> recorded (change t (\<lambda>c. note_event c s) d1)" for t s
    by (rule recorded_change) (auto simp: note_event_def)
  have reopen: "recorded d1 \<subseteq> recorded (change t (\<lambda>c. reopen_case now actor False (note_event c s)) d1)" for t s
    by (rule recorded_change) (auto simp: note_event_def reopen_case_def)
  have "recorded d1 \<subseteq> recorded d'"
  proof (cases act)
    case (Follow_Up p rel)
    have "new \<notin> fst ` set (change p (\<lambda>c. note_event c ''follow_up_created'') d1)"
      using mail(1) re by (simp add: relinked_def)
    from recorded_new[OF this] have "recorded d1 \<subseteq> recorded (change p (\<lambda>c. note_event c ''follow_up_created'') d1 @ [(new, x)])" for x
      using note_row by (rule subset_trans[rotated])
    then show ?thesis using mail(3) m Follow_Up by (auto simp: attach_to_ticket_def)
  next
    case (Attach r)
    then have "d' = change r (\<lambda>c. note_event c ''mail_received'') d1" using mail(3) m by (simp add: attach_to_ticket_def)
    then show ?thesis by (simp only: note_row)
  next
    case (Reopen r)
    then have "d' = change r (\<lambda>c. reopen_case now actor False (note_event c ''mail_received'')) d1"
      using mail(3) m by (simp add: attach_to_ticket_def)
    then show ?thesis by (simp only: reopen)
  qed (use mail(3) m in \<open>simp add: attach_to_ticket_def\<close>)
  then show ?thesis using recorded_relinked[OF re] by blast
next
  case (gmail now updated k)
  show ?thesis
  proof (cases "resolve_case d k")
    case (Some r)
    then show ?thesis unfolding gmail reopen_from_gmail_def Some option.case
      by (intro recorded_change) (auto simp: note_event_def reopen_case_def)
  qed (simp add: gmail reopen_from_gmail_def)
next
  case (merge ids new fresh now actor given remark target)
  obtain d1 t ss res where d1: "desk_ok env admin d1" "ready d1 t" "t \<notin> set ids" "target = Some t \<and> ready d t \<or> map_of d t = None"
    "\<forall>j. j \<noteq> t \<longrightarrow> map_of d1 j = map_of d j" and keep: "target = Some t \<longrightarrow> d1 = d"
    and d': "d' = foldl (merge_one now actor res t) (change t (carry_assignees ss) d1) ids"
    using merge_stages[OF merge(5) ok merge(2-4)] by blast
  have "recorded d \<subseteq> recorded d1"
  proof (cases "target = Some t")
    case False
    then have "map_of d t = None" using d1(4) by blast
    then have "map_of d1 j = Some c" if "map_of d j = Some c" for j c using d1(5) that by (cases "j = t") auto
    then show ?thesis unfolding recorded_def by blast
  qed (simp add: keep)
  also have "\<dots> \<subseteq> recorded (change t (carry_assignees ss) d1)"
    by (rule recorded_change) (simp add: carry_assignees_def Let_def)
  also have "\<dots> \<subseteq> recorded d'"
    unfolding d' by (rule recorded_merge[OF d1(3)]) (use d1(2) in \<open>auto simp: ready_def\<close>)
  finally show ?thesis .
qed

section \<open>The rule for late mails\<close>

text \<open>No walk of the desk is cut off at \<open>_MAX_CHAIN\<close>.\<close>

definition short_cases :: "desk \<Rightarrow> bool" where
  "short_cases d \<longleftrightarrow> list_all (\<lambda>(k, _). case resolve_case d k of None \<Rightarrow> True | Some r \<Rightarrow> \<not> ce_limit r) d"





section \<open>Leaving closed\<close>













section \<open>Properties\<close>


text \<open>C38: The history of a ticket is sound. Every recorded status change, on its own ticket or moved to the target of
  a merge, is a move of the flow, an override by an administrator, or the close of a merged ticket that was not
  closed before; one into a completing status carries a resolution of an active kind unless an administrator
  acted; reopening and revert start from a completed status. On a ticket that took over no other history, all
  changes form an unbroken chain to its current status, from new on, or from the status at its merge when its
  own earlier rows went to the target.\<close>

theorem ticket_history_sound:
  assumes reach: "reachable_desk env admin d" and c: "map_of d k = Some c"
  shows "list_all (event_ok env admin) (cs_events c) \<and>
    (\<not> list_ex is_merged_from (cs_events c) \<longrightarrow>
      (\<exists>a. chained a (concat (map status_change (cs_events c))) (t_status (cs_ticket c)) \<and>
        (t_merged_into (cs_ticket c) = None \<longrightarrow> a = St_New)))"
  using reachable_desk_ok[OF reach] c by (simp add: desk_ok_def cases_ok_def history_ok_def)


section \<open>Examples and witnesses\<close>

definition desk1 :: desk where "desk1 = [(1, case4)]"

lemma desk1_reachable: "reachable_desk example_env False desk1"
proof -
  have one: "desk_step example_env False [] [(1, new_ticket)]"
    using desk_step.open_ticket[of 1 "[]" new_ticket example_env False] by (simp add: new_case_def new_ticket_def)
  have on: "desk_step example_env False [(1, c)] [(1, c')]"
    if "ticket_step example_env False c c'" "t_merged_into (cs_ticket c) = None" for c c'
    using desk_step.on_ticket[of "[(1, c)]" 1 c example_env False c'] that by simp
  have free: "t_merged_into (cs_ticket new_ticket) = None" "t_merged_into (cs_ticket case1) = None"
    "t_merged_into (cs_ticket case2) = None" "t_merged_into (cs_ticket case3) = None" by code_simp+
  note run = rtranclp.rtrancl_into_rtrancl[where r = "desk_step example_env False"]
  show ?thesis unfolding reachable_desk_def desk1_def
    by (rule run[OF run[OF run[OF run[OF r_into_rtranclp[where r = "desk_step example_env False", OF one]
      on[OF example_case_steps(1) free(1)]] on[OF example_case_steps(2) free(2)]]
      on[OF example_case_steps(3) free(3)]] on[OF example_case_steps(4) free(4)]])
qed

text \<open>Nine days after its completion a mail reopens the ticket; forty days after it, the mail gets a follow-up.\<close>

definition mail_after :: "int \<Rightarrow> desk res" where
  "mail_after days = attach_to_ticket example_env ((738890 + days) * DAY) (\<lambda>_. 0) False None 2 new_ticket desk1 1"

lemma mail_after_values:
  "\<not> isl (mail_after 9)" "map (\<lambda>(k, c). (k, t_status (cs_ticket c))) (projr (mail_after 9)) = [(1, St_In_Progress)]"
  "map (\<lambda>(k, c). (k, t_status (cs_ticket c), t_follow_up_of (cs_ticket c))) (projr (mail_after 40)) =
     [(1, St_Closed, None), (2, St_New, Some 1)]"
  "short_cases desk1" "map_of desk1 1 = Some case4" "t_status (cs_ticket case4) = St_Closed"
  by code_simp+



theorem ticket_history_sound_witness:
  "chained St_New (concat (map status_change (cs_events case4))) St_Closed \<and> length (cs_events case4) = 3"
proof -
  have s: "t_status (cs_ticket case4) = St_Closed" "length (cs_events case4) = 3" "\<not> list_ex is_merged_from (cs_events case4)"
    "t_merged_into (cs_ticket case4) = None" by code_simp+
  show ?thesis using ticket_history_sound[OF desk1_reachable mail_after_values(5)] s by auto
qed


section \<open>What reopening and revert leave behind\<close>

text \<open>
  A ticket closed automatically from Gmail, and the revert of that decision: the ticket is in progress again, but
  its clock has ended, so it is watched by no deadline; its resolution is still stored.
\<close>

definition gmail_note :: string where "gmail_note = ''In Gmail archiviert''"
definition case5 :: case_state where "case5 = fst (projr (gmail_close example_env (738890 * DAY + 5) case2 gmail_note))"
definition case6 :: case_state where "case6 = revert_gmail (738890 * DAY + 6) (Some 7) case5"

lemma revert_leaves_clock_ended:
  "upkeep_step example_env case5 case6 \<and> t_status (cs_ticket case6) = St_In_Progress \<and> t_resolution_kind (cs_ticket case6) \<noteq> None \<and>
   (case cs_clock case6 of None \<Rightarrow> False | Some x \<Rightarrow> cl_state x = Clock_Done)"
proof -
  have n: "newest_status case5 (last (cs_events case5))" "from_gmail (last (cs_events case5))" "finished case5" by code_simp+
  have "upkeep_step example_env case5 case6" unfolding case6_def by (rule upkeep_step.revert[OF n])
  moreover have "t_status (cs_ticket case6) = St_In_Progress" "t_resolution_kind (cs_ticket case6) \<noteq> None"
    "case cs_clock case6 of None \<Rightarrow> False | Some x \<Rightarrow> cl_state x = Clock_Done" by code_simp+
  ultimately show ?thesis by blast
qed

text \<open>
  Rows of a source move to the target of a merge. When a ticket completed by a user takes over one closed later
  from Gmail, the newest status row of the target is the moved one, and a revert undoes the user's completion.
\<close>

definition merged_case :: case_state where
  "merged_case = (case map_of (projr (merge_tickets example_env (738890 * DAY + 7) (Some 7) None [] 9 new_ticket (Some 1) [2]
     [(1, case3), (2, case5)])) 1 of None \<Rightarrow> new_ticket | Some c \<Rightarrow> c)"

lemma revert_undoes_user:
  "t_status (cs_ticket merged_case) = St_Done \<and> t_resolved_by (cs_ticket merged_case) = Some 7 \<and>
   (\<exists>e. newest_status merged_case e \<and> from_gmail e) \<and>
   upkeep_step example_env merged_case (revert_gmail (738890 * DAY + 8) None merged_case)"
proof -
  let ?e = "last (cs_events case5)"
  have n: "newest_status merged_case ?e" "from_gmail ?e" "finished merged_case"
    "t_status (cs_ticket merged_case) = St_Done" "t_resolved_by (cs_ticket merged_case) = Some 7" by code_simp+
  then show ?thesis using upkeep_step.revert[OF n(1-3)] by blast
qed

text \<open>An automation rule that sets the responsible user leaves the primary mark with the former one.\<close>

definition case7 :: case_state where
  "case7 = edit_fields case1 Normal None (Some 8) None (t_checklist (cs_ticket case1)) []"

lemma automation_leaves_primary:
  "ticket_step example_env False case1 case7 \<and> t_assignee (cs_ticket case7) = Some 8 \<and>
   map as_user (filter as_primary (cs_assignees case7)) = [7]"
proof -
  have "t_assignee (cs_ticket case7) = Some 8" "map as_user (filter as_primary (cs_assignees case7)) = [7]" by code_simp+
  then show ?thesis unfolding case7_def using ticket_step.edit by blast
qed

end
