(* ===== verification/Settlement.thy ===== *)
theory Settlement
  imports LedgerHistory
begin

text \<open>
  The proposal that allocates a payment to open receivables (\<open>mhvp/accounting/settlement.py\<close>): items
  named by the payer first, then the statutory order, what is left stays a credit. The fingerprint of
  a proposal and the parser of the payment purpose are left out; ids compare as numbers where the
  source compares their texts. Differences of amounts are exact here; the source subtracts under the 28-digit
  context, which does not round for the amounts the schemas allow.
\<close>

datatype claim_class = Costs | Interest | Principal

record proposal_item =
  pp_id :: uid
  pp_remaining :: dec
  pp_booking :: date
  pp_due :: "date option"
  pp_class :: claim_class
  pp_burdensome :: bool
  pp_security :: int

record determination =
  dt_item :: uid
  dt_amount :: "dec option"

datatype reason = By_Payer | By_Order

record allocation =
  al_item :: uid
  al_amount :: dec
  al_before :: dec
  al_reason :: reason
  al_rank :: int

datatype basis = Mixed | Determined | Statutory | No_Basis

record proposal =
  pl_amount :: dec
  pl_as_of :: date
  pl_allocations :: "allocation list"
  pl_unallocated :: dec
  pl_basis :: basis

fun class_rank :: "claim_class \<Rightarrow> int" where
  "class_rank Costs = 0" | "class_rank Interest = 1" | "class_rank Principal = 2"

definition due_day :: "proposal_item \<Rightarrow> date" where
  "due_day i = (case pp_due i of None \<Rightarrow> pp_booking i | Some d \<Rightarrow> d)"

definition statutory_key :: "date \<Rightarrow> proposal_item \<Rightarrow> bool \<times> int \<times> bool \<times> date \<times> int \<times> date \<times> uid" where
  "statutory_key as_of i =
     (as_of < due_day i, pp_security i, \<not> pp_burdensome i, due_day i, class_rank (pp_class i), pp_booking i, pp_id i)"

record allot =
  at_rest :: dec
  at_left :: "(uid, dec) dict"
  at_allocations :: "allocation list"

text \<open>The local function \<open>take\<close>; the rank is the number of allocations so far.\<close>

definition take_item :: "uid \<Rightarrow> dec option \<Rightarrow> reason \<Rightarrow> allot \<Rightarrow> allot" where
  "take_item item wanted r st =
     (let open_amount = dict_get (at_left st) item 0;
          v = min (at_rest st) (case wanted of None \<Rightarrow> open_amount | Some w \<Rightarrow> min w open_amount)
      in if v \<le> 0 then st
         else \<lparr>at_rest = at_rest st - v, at_left = AList.update item (open_amount - v) (at_left st),
           at_allocations = at_allocations st @
             [\<lparr>al_item = item, al_amount = v, al_before = open_amount, al_reason = r,
               al_rank = int (length (at_allocations st)) + 1\<rparr>]\<rparr>)"

definition determine :: "proposal_item list \<Rightarrow> allot \<Rightarrow> determination \<Rightarrow> allot res" where
  "determine its st d =
     (if dt_item d \<notin> pp_id ` set its then Inl Validation
      else if (case dt_amount d of None \<Rightarrow> False | Some a \<Rightarrow> a \<le> 0) then Inl Validation
      else Inr (take_item (dt_item d) (dt_amount d) By_Payer st))"

fun fill :: "uid list \<Rightarrow> allot \<Rightarrow> allot" where
  "fill [] st = st"
| "fill (i # is) st = (if at_rest st \<le> 0 then st else fill is (take_item i None By_Order st))"

definition start_allot :: "proposal_item list \<Rightarrow> dec \<Rightarrow> allot" where
  "start_allot its amount = \<lparr>at_rest = amount,
     at_left = dict_of (map (\<lambda>i. (pp_id i, pp_remaining i)) (filter (\<lambda>i. 0 < pp_remaining i) its)),
     at_allocations = []\<rparr>"

definition propose :: "proposal_item list \<Rightarrow> dec \<Rightarrow> date \<Rightarrow> determination list \<Rightarrow> proposal res" where
  "propose its amount as_of ds =
     (if amount \<le> 0 then Inl Validation
      else bindr (foldr_res (determine its) (start_allot its amount) ds) (\<lambda>st.
        (let st' = fill (map pp_id (py_sorted (statutory_key as_of) its)) st;
             determined = length (at_allocations st);
             statutory = length (at_allocations st') - determined
         in Inr \<lparr>pl_amount = amount, pl_as_of = as_of, pl_allocations = at_allocations st',
              pl_unallocated = at_rest st',
              pl_basis = (if determined \<noteq> 0 \<and> statutory \<noteq> 0 then Mixed
                else if determined \<noteq> 0 then Determined else if statutory \<noteq> 0 then Statutory else No_Basis)\<rparr>)))"

text \<open>
  The receivables of a debtor account as of a day. \<open>pending\<close> are the accounts with unreviewed
  automatic postings, \<open>dunned\<close> the items of sent dunning cases.
\<close>

definition class_of_kind :: "entry_kind \<Rightarrow> claim_class" where
  "class_of_kind k = (if k = K_Dunning_Fee then Costs else if k = K_Interest then Interest else Principal)"

definition items_for :: "db \<Rightarrow> uid list \<Rightarrow> uid list \<Rightarrow> uid \<Rightarrow> uid \<Rightarrow> date \<Rightarrow> proposal_item list res" where
  "items_for db pending dunned lid acc as_of =
     (case map_of (accounts db) acc of None \<Rightarrow> Inl Resource_Not_Found
      | Some a \<Rightarrow>
          if a_ledger a \<noteq> lid then Inl Resource_Not_Found
          else if a_category a \<noteq> Cat_Debtor then Inl Validation
          else if acc \<in> set pending then Inl Bank_Auto_Review_Pending
          else Inr (map (\<lambda>r. \<lparr>pp_id = op_item r, pp_remaining = op_remaining r,
              pp_booking = i_booking_date (the (map_of (items db) (op_item r))), pp_due = Some (i_due_date (the (map_of (items db) (op_item r)))),
              pp_class = (case map_of (entries db) (i_entry (the (map_of (items db) (op_item r)))) of
                 None \<Rightarrow> Principal | Some e \<Rightarrow> class_of_kind (e_kind e)),
              pp_burdensome = (op_item r \<in> set dunned), pp_security = 0\<rparr>)
            (filter (\<lambda>r. op_kind r = Item_Receivable \<and> 0 < op_remaining r) (open_items db lid as_of (Some acc)))))"

section \<open>What a proposal allocates\<close>

definition taken :: "uid \<Rightarrow> allocation list \<Rightarrow> dec" where
  "taken k als = sum_list (map al_amount (filter (\<lambda>a. al_item a = k) als))"

definition allot_ok :: "dec \<Rightarrow> (uid \<Rightarrow> dec) \<Rightarrow> allot \<Rightarrow> bool" where
  "allot_ok amount cap st \<longleftrightarrow>
     0 \<le> at_rest st \<and> at_rest st + sum_list (map al_amount (at_allocations st)) = amount \<and>
     (\<forall>k. dict_get (at_left st) k 0 = cap k - taken k (at_allocations st) \<and> 0 \<le> dict_get (at_left st) k 0) \<and>
     (\<forall>a \<in> set (at_allocations st). 0 < al_amount a \<and> al_amount a \<le> al_before a) \<and>
     map al_rank (at_allocations st) = map int [1..<Suc (length (at_allocations st))]"

lemma taken_snoc: "taken k (als @ [a]) = taken k als + (if al_item a = k then al_amount a else 0)"
  by (simp add: taken_def)

lemma take_ok:
  assumes ok: "allot_ok amount cap st"
  shows "allot_ok amount cap (take_item item wanted r st)"
proof (cases "min (at_rest st) (case wanted of None \<Rightarrow> dict_get (at_left st) item 0 | Some w \<Rightarrow> min w (dict_get (at_left st) item 0)) \<le> 0")
  case True
  then show ?thesis using ok by (simp add: take_item_def Let_def)
next
  case False
  let ?open = "dict_get (at_left st) item 0"
  define v where "v = min (at_rest st) (case wanted of None \<Rightarrow> ?open | Some w \<Rightarrow> min w ?open)"
  have v: "0 < v" "v \<le> at_rest st" "v \<le> ?open" using False by (auto simp: v_def min_def split: option.splits if_splits)
  have st': "take_item item wanted r st = \<lparr>at_rest = at_rest st - v, at_left = AList.update item (?open - v) (at_left st),
      at_allocations = at_allocations st @ [\<lparr>al_item = item, al_amount = v, al_before = ?open, al_reason = r,
        al_rank = int (length (at_allocations st)) + 1\<rparr>]\<rparr>"
    using False by (simp add: take_item_def Let_def v_def)
  show ?thesis
    unfolding st' allot_ok_def using ok v
    by (auto simp: allot_ok_def taken_snoc dict_get_update algebra_simps simp del: upt_Suc) (simp add: upt_Suc_append)
qed

lemma fill_ok: "allot_ok amount cap st \<Longrightarrow> allot_ok amount cap (fill ks st)"
  by (induction ks arbitrary: st) (auto simp: take_ok)

lemma determine_ok:
  assumes "foldr_res (determine its) st ds = Inr st'" and "allot_ok amount cap st"
  shows "allot_ok amount cap st'"
  using assms
  by (induction ds arbitrary: st) (auto simp: bindr_eq_Inr determine_def take_ok split: if_splits)

definition open_amount :: "proposal_item list \<Rightarrow> uid \<Rightarrow> dec" where
  "open_amount its k = (case find (\<lambda>i. pp_id i = k) its of None \<Rightarrow> 0 | Some i \<Rightarrow> max 0 (pp_remaining i))"

lemma start_left:
  assumes "distinct (map pp_id its)"
  shows "dict_get (at_left (start_allot its amount)) k 0 = open_amount its k"
proof -
  have d: "distinct (map fst (map (\<lambda>i. (pp_id i, pp_remaining i)) (filter (\<lambda>i. 0 < pp_remaining i) its)))"
    using assms by (simp add: comp_def distinct_map_filter)
  have "dict_get (map (\<lambda>i. (pp_id i, pp_remaining i)) (filter (\<lambda>i. 0 < pp_remaining i) xs)) k 0 = open_amount xs k"
    if "distinct (map pp_id xs)" for xs
    using that
  proof (induction xs)
    case (Cons i xs)
    have "open_amount xs k = 0" if "pp_id i = k"
    proof -
      have "find (\<lambda>j. pp_id j = k) xs = None" using Cons.prems that by (auto simp: find_None_iff image_iff)
      then show ?thesis by (simp add: open_amount_def)
    qed
    then show ?case using Cons by (auto simp: dict_get_def open_amount_def max_def)
  qed (simp add: dict_get_def open_amount_def)
  then show ?thesis using assms unfolding start_allot_def by (simp only: allot.simps dict_of_distinct[OF d])
qed

lemma start_ok:
  assumes "distinct (map pp_id its)" and "0 < amount"
  shows "allot_ok amount (open_amount its) (start_allot its amount)"
proof -
  have "0 \<le> open_amount its k" for k by (simp add: open_amount_def split: option.split)
  then show ?thesis unfolding allot_ok_def start_left[OF assms(1)] using assms(2)
    by (simp add: start_allot_def taken_def)
qed

text \<open>The statutory part leaves money over only when every item is settled.\<close>

lemma fill_complete:
  assumes "allot_ok amount cap st" and "0 < at_rest (fill ks st)"
  shows "\<forall>k \<in> set ks. dict_get (at_left (fill ks st)) k 0 = 0"
  using assms
proof (induction ks arbitrary: st)
  case (Cons i ks)
  then have rest: "\<not> at_rest st \<le> 0" by (auto split: if_splits)
  let ?st = "take_item i None By_Order st"
  have ok: "allot_ok amount cap ?st" by (rule take_ok[OF Cons.prems(1)])
  have f: "fill (i # ks) st = fill ks ?st" using rest by simp
  have mono: "at_rest (fill xs s) \<le> at_rest s \<and> (\<forall>k. dict_get (at_left (fill xs s)) k 0 \<le> dict_get (at_left s) k 0)"
    if "allot_ok amount cap s" for xs s
    using that
  proof (induction xs arbitrary: s)
    case (Cons x xs)
    have t: "at_rest (take_item x None By_Order s) \<le> at_rest s \<and>
        (\<forall>k. dict_get (at_left (take_item x None By_Order s)) k 0 \<le> dict_get (at_left s) k 0)"
      by (auto simp: take_item_def Let_def dict_get_update)
    note ih = Cons.IH[OF take_ok[OF Cons.prems], of x None By_Order]
    show ?case
    proof (cases "at_rest s \<le> 0")
      case False
      then have f: "fill (x # xs) s = fill xs (take_item x None By_Order s)" by simp
      show ?thesis unfolding f using t ih by (meson order_trans)
    qed simp
  qed simp
  have pos: "0 < at_rest ?st" using Cons.prems(2) mono[OF ok, of ks] unfolding f by simp
  have "dict_get (at_left ?st) i 0 = 0"
  proof -
    have l: "0 \<le> dict_get (at_left st) i 0" using Cons.prems(1) unfolding allot_ok_def by blast
    show ?thesis using pos l by (auto simp: take_item_def Let_def dict_get_update min_def split: if_splits)
  qed
  then have "dict_get (at_left (fill ks ?st)) i 0 \<le> 0" using mono[OF ok, of ks] by metis
  moreover have "0 \<le> dict_get (at_left (fill ks ?st)) i 0" using fill_ok[OF ok, of ks] unfolding allot_ok_def by blast
  ultimately have "dict_get (at_left (fill ks ?st)) i 0 = 0" by simp
  then show ?case using Cons.IH[OF ok] Cons.prems(2) unfolding f by simp
qed simp

lemma proposal_state:
  assumes ids: "distinct (map pp_id its)" and p: "propose its amount as_of ds = Inr p"
  obtains st where "allot_ok amount (open_amount its) st"
    "allot_ok amount (open_amount its) (fill (map pp_id (py_sorted (statutory_key as_of) its)) st)"
    "pl_allocations p = at_allocations (fill (map pp_id (py_sorted (statutory_key as_of) its)) st)"
    "pl_unallocated p = at_rest (fill (map pp_id (py_sorted (statutory_key as_of) its)) st)"
proof -
  obtain st where st: "foldr_res (determine its) (start_allot its amount) ds = Inr st"
    and pos: "0 < amount"
    and f: "pl_allocations p = at_allocations (fill (map pp_id (py_sorted (statutory_key as_of) its)) st)"
      "pl_unallocated p = at_rest (fill (map pp_id (py_sorted (statutory_key as_of) its)) st)"
    using p by (auto simp: propose_def bindr_eq_Inr Let_def split: if_splits)
  have ok0: "allot_ok amount (open_amount its) st" by (rule determine_ok[OF st start_ok[OF ids pos]])
  show thesis by (rule that[OF ok0 fill_ok[OF ok0] f])
qed

lemma proposal_exact_core:
  assumes ids: "distinct (map pp_id its)" and p: "propose its amount as_of ds = Inr p"
  shows "taken k (pl_allocations p) \<le> open_amount its k" and "\<forall>a \<in> set (pl_allocations p). 0 < al_amount a"
proof -
  obtain st where ok: "allot_ok amount (open_amount its) (fill (map pp_id (py_sorted (statutory_key as_of) its)) st)"
    and f: "pl_allocations p = at_allocations (fill (map pp_id (py_sorted (statutory_key as_of) its)) st)"
    by (rule proposal_state[OF ids p])
  have "dict_get (at_left (fill (map pp_id (py_sorted (statutory_key as_of) its)) st)) k 0 = open_amount its k - taken k (pl_allocations p)"
    "0 \<le> dict_get (at_left (fill (map pp_id (py_sorted (statutory_key as_of) its)) st)) k 0"
    using ok unfolding allot_ok_def f[symmetric] by blast+
  then show "taken k (pl_allocations p) \<le> open_amount its k" by linarith
  show "\<forall>a \<in> set (pl_allocations p). 0 < al_amount a" using ok unfolding allot_ok_def f[symmetric] by blast
qed

text \<open>C29: A settlement proposal allocates the payment exactly: the allocations, all positive and numbered in
  order, and the unallocated rest add up to the payment, no item receives more than is open on it, and a
  rest remains only when every item is settled in full.\<close>

theorem proposal_exact:
  assumes ids: "distinct (map pp_id its)" and p: "propose its amount as_of ds = Inr p"
  shows "sum_list (map al_amount (pl_allocations p)) + pl_unallocated p = amount \<and> 0 \<le> pl_unallocated p \<and>
    map al_rank (pl_allocations p) = map int [1..<Suc (length (pl_allocations p))] \<and>
    (\<forall>a \<in> set (pl_allocations p). 0 < al_amount a) \<and>
    (\<forall>k. taken k (pl_allocations p) \<le> open_amount its k) \<and>
    (0 < pl_unallocated p \<longrightarrow> (\<forall>i \<in> set its. taken (pp_id i) (pl_allocations p) = open_amount its (pp_id i)))"
proof -
  obtain st where ok0: "allot_ok amount (open_amount its) st"
    and ok: "allot_ok amount (open_amount its) (fill (map pp_id (py_sorted (statutory_key as_of) its)) st)"
    and f: "pl_allocations p = at_allocations (fill (map pp_id (py_sorted (statutory_key as_of) its)) st)"
      "pl_unallocated p = at_rest (fill (map pp_id (py_sorted (statutory_key as_of) its)) st)"
    by (rule proposal_state[OF ids p])
  let ?st = "fill (map pp_id (py_sorted (statutory_key as_of) its)) st"
  have left: "dict_get (at_left ?st) k 0 = open_amount its k - taken k (pl_allocations p)" "0 \<le> dict_get (at_left ?st) k 0" for k
    using ok unfolding allot_ok_def f(1)[symmetric] by blast+
  have "taken (pp_id i) (pl_allocations p) = open_amount its (pp_id i)" if "0 < pl_unallocated p" "i \<in> set its" for i
    using fill_complete[OF ok0, of "map pp_id (py_sorted (statutory_key as_of) its)"] that left(1)[of "pp_id i"] unfolding f(2) by auto
  moreover have "taken k (pl_allocations p) \<le> open_amount its k" for k using left[of k] by linarith
  moreover have "pl_unallocated p + sum_list (map al_amount (pl_allocations p)) = amount" "0 \<le> pl_unallocated p"
    "map al_rank (pl_allocations p) = map int [1..<Suc (length (pl_allocations p))]"
    "\<forall>a \<in> set (pl_allocations p). 0 < al_amount a"
    using ok unfolding allot_ok_def f[symmetric] by blast+
  ultimately show ?thesis by (simp only: add.commute) blast
qed

section \<open>The statutory order\<close>

text \<open>The abstract specification: pay the items one after the other, each in full as long as money is left.\<close>

fun pour :: "dec \<Rightarrow> (uid \<times> dec) list \<Rightarrow> (uid \<times> dec) list" where
  "pour rest [] = []"
| "pour rest ((k, open') # xs) = (if rest \<le> 0 then [] else if open' \<le> 0 then pour rest xs
     else (k, min rest open') # pour (rest - min rest open') xs)"

definition paid :: "allocation list \<Rightarrow> (uid \<times> dec) list" where
  "paid als = map (\<lambda>a. (al_item a, al_amount a)) als"

lemma fill_pour:
  assumes "distinct ks"
  shows "paid (at_allocations (fill ks st)) =
    paid (at_allocations st) @ pour (at_rest st) (map (\<lambda>k. (k, dict_get (at_left st) k 0)) ks)"
  using assms
proof (induction ks arbitrary: st)
  case (Cons k ks)
  show ?case
  proof (cases "at_rest st \<le> 0")
    case False
    let ?st = "take_item k None By_Order st" and ?open = "dict_get (at_left st) k 0"
    have rest: "map (\<lambda>k. (k, dict_get (at_left ?st) k 0)) ks = map (\<lambda>k. (k, dict_get (at_left st) k 0)) ks"
      using Cons.prems by (auto simp: take_item_def Let_def dict_get_update)
    have "paid (at_allocations (fill (k # ks) st)) = paid (at_allocations ?st) @
        pour (at_rest ?st) (map (\<lambda>k. (k, dict_get (at_left ?st) k 0)) ks)"
      using Cons.IH[of ?st] Cons.prems False by simp
    also have "\<dots> = paid (at_allocations st) @ pour (at_rest st) (map (\<lambda>k. (k, dict_get (at_left st) k 0)) (k # ks))"
      unfolding rest using False by (auto simp: take_item_def Let_def paid_def min_def)
    finally show ?thesis .
  qed simp
qed simp

lemma statutory_key_id: "statutory_key d i = statutory_key d j \<Longrightarrow> pp_id i = pp_id j"
  by (simp add: statutory_key_def)

lemma sorted_unique:
  assumes "mset xs = mset ys" and "distinct (map pp_id xs)"
  shows "py_sorted (statutory_key d) xs = py_sorted (statutory_key d) ys"
proof -
  have inj: "inj_on (statutory_key d) (set xs)"
    by (rule inj_onI) (use assms(2) statutory_key_id in \<open>meson distinct_map inj_onD\<close>)
  have eq: "mset (sort_key (statutory_key d) xs) = mset (sort_key (statutory_key d) ys)" using assms(1) by simp
  have "sort_key (statutory_key d) xs = sort_key (statutory_key d) ys"
  proof (rule properties_for_sort_key[symmetric])
    show "mset (sort_key (statutory_key d) xs) = mset ys" using eq by simp
    fix k assume "k \<in> set (sort_key (statutory_key d) xs)"
    then have k: "k \<in> set ys" using mset_eq_setD[OF assms(1)] by simp
    have d: "distinct xs" using assms(2) by (simp add: distinct_map)
    have key: "filter (\<lambda>x. statutory_key d k = statutory_key d x) zs = filter (\<lambda>x. x = k) zs" if "set zs = set xs" for zs
      using inj k that mset_eq_setD[OF assms(1)] by (intro filter_cong) (auto dest: inj_onD)
    have one: "filter (\<lambda>x. x = k) zs = replicate (count (mset zs) k) k" for zs
      by (induction zs) auto
    show "filter (\<lambda>x. statutory_key d k = statutory_key d x) (sort_key (statutory_key d) xs) =
        filter (\<lambda>x. statutory_key d k = statutory_key d x) ys"
      using key[of ys] key[of "sort_key (statutory_key d) xs"] mset_eq_setD[OF assms(1)] assms(1) one by simp
  qed simp
  then show ?thesis by (simp add: py_sorted_eq)
qed

text \<open>C30: Without a determination by the payer the proposal pays the items one after the other in the statutory
  order - due before not due, less secured, more burdensome, older, costs before interest before
  principal -, each in full as long as money is left, and the order in which the items are listed plays
  no role.\<close>

theorem proposal_statutory_order:
  assumes ids: "distinct (map pp_id its)" and perm: "mset its' = mset its"
    and p: "propose its' amount as_of [] = Inr p"
  shows "paid (pl_allocations p) =
    pour amount (map (\<lambda>i. (pp_id i, max 0 (pp_remaining i))) (py_sorted (statutory_key as_of) its))"
proof -
  have ids': "distinct (map pp_id its')" using ids perm by (metis mset_map mset_eq_imp_distinct_iff)
  have f: "pl_allocations p = at_allocations (fill (map pp_id (py_sorted (statutory_key as_of) its')) (start_allot its' amount))"
    using p by (auto simp: propose_def Let_def split: if_splits)
  have sorted: "py_sorted (statutory_key as_of) its' = py_sorted (statutory_key as_of) its"
    by (rule sorted_unique[OF perm ids'])
  have d: "distinct (map pp_id (py_sorted (statutory_key as_of) its))"
    using ids by (metis mset_map mset_py_sorted mset_eq_imp_distinct_iff)
  have open': "open_amount its' (pp_id i) = max 0 (pp_remaining i)" if "i \<in> set its" for i
  proof -
    have "i \<in> set its'" using that mset_eq_setD[OF perm] by simp
    then have "find (\<lambda>j. pp_id j = pp_id i) its' = Some i"
      using ids' by (induction its') (auto dest: image_eqI)
    then show ?thesis by (simp add: open_amount_def)
  qed
  have items': "map (\<lambda>i. (pp_id i, open_amount its' (pp_id i))) (py_sorted (statutory_key as_of) its) =
      map (\<lambda>i. (pp_id i, max 0 (pp_remaining i))) (py_sorted (statutory_key as_of) its)"
    using open' by (intro map_cong) simp_all
  show ?thesis
    unfolding f fill_pour[OF d[folded sorted]] start_left[OF ids'] items'[symmetric]
    by (simp add: sorted start_allot_def paid_def comp_def)
qed

section \<open>Proposals over the ledger\<close>

lemma items_for_rows:
  assumes inv: "ledger_inv db" and its: "items_for db pending dunned lid acc as_of = Inr its"
    and late: "\<forall>s \<in> set (settlements db). s_date s \<le> as_of"
  shows "distinct (map pp_id its)"
    and "\<And>x. x \<in> set its \<Longrightarrow> \<exists>i. map_of (items db) (pp_id x) = Some i \<and> i_account i = acc \<and>
      pp_remaining x = i_amount i - settled (settlements db) None (pp_id x) \<and> 0 < pp_remaining x"
proof -
  have dk: "distinct (map fst (items db))" using inv by (simp add: ledger_inv_def items_ok_def)
  define rows where "rows = filter (\<lambda>r. op_kind r = Item_Receivable \<and> 0 < op_remaining r) (open_items db lid as_of (Some acc))"
  have ids: "map pp_id its = map op_item rows"
    using its unfolding items_for_def rows_def by (auto split: option.splits if_splits)
  have rem: "map pp_remaining its = map op_remaining rows"
    using its unfolding items_for_def rows_def by (auto split: option.splits if_splits)
  have "distinct (map op_item (open_items db lid as_of (Some acc)))"
  proof -
    have sorted: "distinct (map fst (py_sorted k xs)) = distinct (map fst xs)" for k :: "uid \<times> open_item \<Rightarrow> string \<times> date \<times> uid" and xs
      by (metis mset_map mset_py_sorted mset_eq_imp_distinct_iff)
    have ids: "map op_item (map (\<lambda>(iid, i). \<lparr>op_item = iid, op_kind = f i, op_account_number = g i, op_amount = h i, op_remaining = v iid i\<rparr>) xs) = map fst xs"
      for f g h v and xs :: "(uid \<times> open_item) list" by (simp add: comp_def case_prod_beta')
    show ?thesis
      unfolding open_items_def Let_def
      by (rule distinct_map_filter) (simp only: ids sorted distinct_map_filter[OF dk])
  qed
  then show "distinct (map pp_id its)" unfolding ids rows_def by (rule distinct_map_filter)
  fix x assume x: "x \<in> set its"
  then obtain n where n: "n < length its" "its ! n = x" by (auto simp: in_set_conv_nth)
  have len: "length its = length rows" using ids by (metis length_map)
  define r where "r = rows ! n"
  have r: "pp_id x = op_item r" "pp_remaining x = op_remaining r" "r \<in> set rows"
    using n len nth_map[of n its pp_id] nth_map[of n rows op_item] nth_map[of n its pp_remaining] nth_map[of n rows op_remaining]
    by (simp_all add: ids rem r_def)
  have o: "r \<in> set (open_items db lid as_of (Some acc))" "0 < op_remaining r" using r(3) by (simp_all add: rows_def)
  then obtain iid i where i: "(iid, i) \<in> set (items db)" "i_account i = acc" "r = open_row_of db as_of (iid, i)"
    unfolding open_items_set by auto
  have "map_of (items db) iid = Some i" using dk i(1) by simp
  then show "\<exists>i. map_of (items db) (pp_id x) = Some i \<and> i_account i = acc \<and>
      pp_remaining x = i_amount i - settled (settlements db) None (pp_id x) \<and> 0 < pp_remaining x"
    using r o(2) i(2,3) by (auto simp: open_row_of_def settled_all[OF late])
qed

text \<open>C31: A proposal over the receivables of a debtor in a reachable ledger, for a day that no settlement lies
  after, never over-settles: every allocation goes to an open item of that debtor, and with what is
  settled already it stays within the amount of the item.\<close>

theorem proposal_within_ledger:
  assumes reach: "reachable db" and its: "items_for db pending dunned lid acc as_of = Inr its"
    and late: "\<forall>s \<in> set (settlements db). s_date s \<le> as_of"
    and p: "propose its amount as_of ds = Inr p" and a: "a \<in> set (pl_allocations p)"
  shows "\<exists>i. map_of (items db) (al_item a) = Some i \<and> i_account i = acc \<and>
    settled (settlements db) None (al_item a) + taken (al_item a) (pl_allocations p) \<le> i_amount i"
proof -
  note rows = items_for_rows[OF reachable_inv[OF reach] its late]
  note ex = proposal_exact_core[OF rows(1) p]
  have pos: "0 < taken (al_item a) (pl_allocations p)"
  proof -
    have "al_amount a \<le> taken (al_item a) (pl_allocations p)"
      unfolding taken_def by (rule member_le_sum_list) (use a ex(2) in auto)
    then show ?thesis using ex(2) a by fastforce
  qed
  then have "0 < open_amount its (al_item a)" using ex(1)[of "al_item a"] by simp
  then obtain x where x: "find (\<lambda>i. pp_id i = al_item a) its = Some x" by (auto simp: open_amount_def split: option.splits)
  then have mem: "x \<in> set its" "pp_id x = al_item a" by (auto simp: find_Some_iff)
  have "open_amount its (al_item a) = max 0 (pp_remaining x)" using x by (simp add: open_amount_def)
  then show ?thesis using rows(2)[OF mem(1)] mem(2) ex(1)[of "al_item a"] by fastforce
qed

section \<open>Examples\<close>

definition example_items :: "proposal_item list" where
  "example_items = [
     \<lparr>pp_id = 1, pp_remaining = 100, pp_booking = Date 2024 1 5, pp_due = Some (Date 2024 1 5), pp_class = Principal,
       pp_burdensome = False, pp_security = 0\<rparr>,
     \<lparr>pp_id = 2, pp_remaining = 5, pp_booking = Date 2024 2 20, pp_due = Some (Date 2024 1 5), pp_class = Costs,
       pp_burdensome = False, pp_security = 0\<rparr>,
     \<lparr>pp_id = 3, pp_remaining = 80, pp_booking = Date 2024 2 5, pp_due = Some (Date 2024 4 5), pp_class = Principal,
       pp_burdensome = False, pp_security = 0\<rparr>]"

text \<open>A payment of 120 of which the payer gives 10 to the item that is not yet due.\<close>

theorem proposal_exact_witness:
  "\<exists>p. propose example_items 120 (Date 2024 3 1) [\<lparr>dt_item = 3, dt_amount = Some 10\<rparr>] = Inr p \<and>
    sum_list (map al_amount (pl_allocations p)) + pl_unallocated p = 120 \<and> taken 3 (pl_allocations p) = 15"
proof -
  let ?r = "propose example_items 120 (Date 2024 3 1) [\<lparr>dt_item = 3, dt_amount = Some 10\<rparr>]"
  have "case ?r of Inl _ \<Rightarrow> False | Inr p \<Rightarrow> taken 3 (pl_allocations p) = 15" by code_simp
  then obtain p where p: "?r = Inr p" "taken 3 (pl_allocations p) = 15" by (auto split: sum.splits)
  have "distinct (map pp_id example_items)" by (simp add: example_items_def)
  from proposal_exact[OF this p(1)] show ?thesis using p by blast
qed

theorem proposal_statutory_order_witness:
  "\<exists>p. propose (List.rev example_items) 120 (Date 2024 3 1) [] = Inr p \<and> paid (pl_allocations p) = [(2, 5), (1, 100), (3, 15)]"
proof -
  have d: "distinct (map pp_id example_items)" by (simp add: example_items_def)
  have "case propose (List.rev example_items) 120 (Date 2024 3 1) [] of Inl _ \<Rightarrow> False | Inr p \<Rightarrow> True" by code_simp
  then obtain p where p: "propose (List.rev example_items) 120 (Date 2024 3 1) [] = Inr p" by (auto split: sum.splits)
  have "pour 120 (map (\<lambda>i. (pp_id i, max 0 (pp_remaining i))) (py_sorted (statutory_key (Date 2024 3 1)) example_items)) =
      [(2, 5), (1, 100), (3, 15)]" by code_simp
  then show ?thesis using proposal_statutory_order[OF d _ p] p by simp
qed

theorem proposal_within_ledger_witness:
  "\<exists>its p a. items_for ex5 [] [] 1 10 (Date 2024 12 31) = Inr its \<and> propose its 90 (Date 2024 12 31) [] = Inr p \<and>
    a \<in> set (pl_allocations p) \<and> (\<exists>i. map_of (items ex5) (al_item a) = Some i \<and>
      settled (settlements ex5) None (al_item a) + taken (al_item a) (pl_allocations p) \<le> i_amount i)"
proof -
  let ?r = "bindr (items_for ex5 [] [] 1 10 (Date 2024 12 31)) (\<lambda>its. bindr (propose its 90 (Date 2024 12 31) []) (\<lambda>p. Inr (its, p)))"
  have "case ?r of Inl _ \<Rightarrow> False | Inr (its, p) \<Rightarrow> pl_allocations p \<noteq> []" by code_simp
  then obtain its p where r: "?r = Inr (its, p)" "pl_allocations p \<noteq> []" by (auto split: sum.splits)
  then have p: "items_for ex5 [] [] 1 10 (Date 2024 12 31) = Inr its" "propose its 90 (Date 2024 12 31) [] = Inr p"
    by (auto simp: bindr_eq_Inr)
  have l: "\<forall>s \<in> set (settlements ex5). s_date s \<le> Date 2024 12 31" by code_simp
  have m: "hd (pl_allocations p) \<in> set (pl_allocations p)" using r(2) by simp
  show ?thesis using proposal_within_ledger[OF example_reachable(3) p(1) l p(2) m] p m by blast
qed

end
