(* ===== verification/Heating.thy ===== *)
theory Heating
  imports BillingCalc "HOL-Library.Sublist"
begin

text \<open>
  The draft distribution of heating and hot water costs (\<open>mhvp/billing/heating_calc.py\<close>): input checks,
  CO2 split by a configured step table, separation of hot water, consumption with gaps filled by time,
  the two cost components and the final check. Texts and traces are left out; every refusal is a
  \<open>HeatingCalcError\<close>, that is \<open>Value_Error\<close>, but for the final check (\<open>Sum_Check\<close>).
\<close>

section \<open>Inputs\<close>

record occupant =
  oc_key :: string
  oc_unit :: string
  oc_number :: string
  oc_start :: date
  oc_end :: date
  oc_area :: dec
  oc_heating :: "dec option"
  oc_hot_water :: "dec option"
  oc_heating_kind :: string
  oc_hot_water_kind :: string

definition is_vacancy :: "occupant \<Rightarrow> bool" where "is_vacancy o' = prefix ''vacancy:'' (oc_key o')"

record co2_input =
  co_mode :: string
  co_building :: string
  co_costs :: "dec option"
  co_emissions :: "dec option"
  co_area :: "dec option"
  co_reason :: "string option"
  co_steps :: "(dec \<times> int) list"

record heating_settings =
  hs_share :: int
  hs_method :: string
  hs_flat :: "dec option"
  hs_volume :: "dec option"
  hs_temperature :: "dec option"
  hs_factor :: dec
  hs_total_energy :: "dec option"
  hs_heating_energy :: "dec option"
  hs_hot_energy :: "dec option"
  hs_degree_days :: "(int, dec) dict"
  hs_negative_mode :: string

definition CONSUMPTION_SHARE_MIN :: int where "CONSUMPTION_SHARE_MIN = 50"
definition CONSUMPTION_SHARE_MAX :: int where "CONSUMPTION_SHARE_MAX = 70"
definition HOT_WATER_FORMULA_BASE_TEMPERATURE :: dec where "HOT_WATER_FORMULA_BASE_TEMPERATURE = 10"

definition validate_degree_days :: "(int, dec) dict \<Rightarrow> unit res" where
  "validate_degree_days rows =
     (if rows = [] then Inr ()
      else if \<not> (list_all (\<lambda>(m, _). 1 \<le> m \<and> m \<le> 12) rows \<and> list_all (\<lambda>m. map_of rows m \<noteq> None) [1..12]) then Inl Value_Error
      else if dsum (map snd rows) \<noteq> 1000 then Inl Value_Error
      else if list_ex (\<lambda>(_, v). v < 0) rows then Inl Value_Error
      else Inr ())"

definition validate_co2_steps :: "(dec \<times> int) list \<Rightarrow> unit res" where
  "validate_co2_steps steps =
     (if steps = [] then Inr ()
      else if fst (hd steps) \<noteq> 0 \<or> \<not> sorted (map fst steps) \<or> \<not> distinct (map fst steps) then Inl Value_Error
      else if list_ex (\<lambda>(_, p). p < 0 \<or> 100 < p) steps then Inl Value_Error
      else Inr ())"

section \<open>Time weights\<close>

text \<open>
  The months from \<open>cursor\<close> on; the loop ends with the month that holds the end. The month of a date is
  always between 1 and 12; the test for it only makes the recursion total.
\<close>

definition month_index :: "date \<Rightarrow> int" where "month_index d = year d * 12 + month d"

function weight_loop :: "(int, dec) dict \<Rightarrow> date \<Rightarrow> date \<Rightarrow> dec \<Rightarrow> dec res" where
  "weight_loop table cursor stop w =
     (if cursor \<le> stop \<and> 1 \<le> month cursor \<and> month cursor \<le> 12 then
        (let last_day = month_days (year cursor) (month cursor);
             s = min stop (Date (year cursor) (month cursor) last_day);
             covered = day_diff s cursor + 1
         in bindr (fetch table (month cursor) Key_Error) (\<lambda>v.
            (let w' = dadd w (ddiv (dmul v (of_int covered)) (of_int last_day))
             in if s = stop then Inr w' else weight_loop table (next_day s) stop w')))
      else Inr w)"
  by auto
termination
proof (relation "measure (\<lambda>(table, cursor, stop, w). nat ((year stop + 2) * 12 - month_index cursor))", goal_cases)
  case (2 table cursor stop w last_day s covered v w')
  then have s: "s = Date (year cursor) (month cursor) (month_days (year cursor) (month cursor))"
    by (auto simp: min_def split: if_splits)
  have "month_index (next_day s) = month_index cursor + 1"
    using 2(1) by (auto simp: s next_day_def month_index_def)
  moreover have "month_index cursor < (year stop + 2) * 12"
    using 2(1) by (auto simp: date_le_iff month_index_def)
  ultimately show ?case by simp
qed simp

declare weight_loop.simps [simp del]

text \<open>The method is days without a table and degree days with one.\<close>

definition time_weight :: "date \<Rightarrow> date \<Rightarrow> (int, dec) dict \<Rightarrow> dec res" where
  "time_weight start stop table =
     (if table = [] then Inr (of_int (day_diff stop start + 1)) else weight_loop table start stop 0)"

section \<open>CO2\<close>

datatype co2_status = Not_Applicable | To_Review | Computed

record co2_result =
  cr_status :: co2_status
  cr_percent :: "int option"
  cr_tenant :: "dec option"
  cr_landlord :: "dec option"

definition round_up_cents :: "dec \<Rightarrow> dec" where "round_up_cents v = quantize round_half_up CENT v"

definition heating_co2_split :: "co2_input \<Rightarrow> int \<Rightarrow> co2_result res" where
  "heating_co2_split co period_days =
     (let review = \<lparr>cr_status = To_Review, cr_percent = None, cr_tenant = None, cr_landlord = None\<rparr> in
      if co_mode co = ''not_applicable''
      then (if co_reason co = None \<or> co_reason co = Some [] then Inl Value_Error
            else Inr \<lparr>cr_status = Not_Applicable, cr_percent = None, cr_tenant = co_costs co, cr_landlord = Some 0\<rparr>)
      else case (co_costs co, co_emissions co, co_area co) of
        (Some costs, Some emissions, Some area) \<Rightarrow>
          if co_building co \<noteq> ''residential'' then Inr review
          else if co_steps co = [] then Inr review
          else if area \<le> 0 \<or> costs < 0 \<or> emissions < 0 then Inl Value_Error
          else
            (case find (\<lambda>(bound, _). bound \<le> ddiv emissions area) (List.rev (co_steps co)) of
               None \<Rightarrow> Inl Stop_Iteration
             | Some (_, p) \<Rightarrow>
                 (let tenant = round_up_cents (ddiv (dmul costs (of_int p)) 100)
                  in Inr \<lparr>cr_status = (if period_days \<in> {365, 366} then Computed else To_Review),
                       cr_percent = Some p, cr_tenant = Some tenant, cr_landlord = Some (dsub costs tenant)\<rparr>))
      | _ \<Rightarrow> Inr review)"

section \<open>Hot water\<close>

definition split_hot_water :: "dec \<Rightarrow> heating_settings \<Rightarrow> (dec \<times> dec) res" where
  "split_hot_water allocable s =
     bindr
      (if hs_method s = ''flat_percent'' then
         (case hs_flat s of None \<Rightarrow> Inl Value_Error
          | Some p \<Rightarrow> if \<not> (0 \<le> p \<and> p \<le> 100) then Inl Value_Error
              else Inr (round_up_cents (ddiv (dmul allocable p) 100)))
       else if hs_method s = ''measured'' then
         (case (hs_heating_energy s, hs_hot_energy s) of
            (Some h, Some w) \<Rightarrow>
              if dadd h w \<le> 0 then Inl Value_Error
              else Inr (round_up_cents (ddiv (dmul allocable w) (dadd h w)))
          | _ \<Rightarrow> Inl Value_Error)
       else if hs_method s = ''formula'' then
         (case (hs_volume s, hs_temperature s, hs_total_energy s) of
            (Some v, Some t, Some e) \<Rightarrow>
              if e \<le> 0 then Inl Value_Error
              else (let q = dmul (dmul (hs_factor s) v) (dsub t HOT_WATER_FORMULA_BASE_TEMPERATURE)
                    in if q < 0 \<or> e < q then Inl Value_Error
                       else Inr (round_up_cents (ddiv (dmul allocable q) e)))
          | _ \<Rightarrow> Inl Value_Error)
       else Inl Value_Error)
      (\<lambda>hot. Inr (dsub allocable hot, hot))"

section \<open>Consumption\<close>

type_synonym consumption = "(string, dec) dict \<times> string list"

definition group_by_unit :: "occupant list \<Rightarrow> (string, occupant list) dict" where
  "group_by_unit occs = foldl (\<lambda>d o'. AList.update (oc_unit o') (dict_get d (oc_unit o') [] @ [o']) d) [] occs"

definition resolve_unit ::
  "(string \<Rightarrow> dec option) \<Rightarrow> (int, dec) dict \<Rightarrow> (occupant \<Rightarrow> dec option) \<Rightarrow> (occupant \<Rightarrow> string) \<Rightarrow> consumption \<Rightarrow>
    string \<times> occupant list \<Rightarrow> consumption res" where
  "resolve_unit unit_total table own_of kind_of st x =
     (case (st, x) of ((vals, estimated), (unit_id, occs)) \<Rightarrow>
       (let own = dict_of (map (\<lambda>o'. (oc_key o', own_of o')) occs);
            kinds = dict_of (map (\<lambda>o'. (oc_key o', kind_of o')) occs);
            est1 = estimated @ map oc_key (filter (\<lambda>o'. dict_get kinds (oc_key o') [] = ''estimated'' \<and>
              dict_get own (oc_key o') None \<noteq> None) occs);
            put_known = (\<lambda>vs. foldl (\<lambda>d (k, v). case v of None \<Rightarrow> d | Some y \<Rightarrow> AList.update k y d) vs own)
        in if list_all (\<lambda>(_, v). v \<noteq> None) own then Inr (put_known vals, est1)
           else case unit_total unit_id of None \<Rightarrow> Inl Value_Error
           | Some tot \<Rightarrow>
               (let known = dsum (List.map_filter snd own); rest = dsub tot known
                in if rest < 0 then Inl Value_Error
                   else
                     (let open' = filter (\<lambda>o'. dict_get own (oc_key o') None = None) occs
                      in bindr (mapr (\<lambda>o'. bindr (time_weight (oc_start o') (oc_end o') table) (\<lambda>w. Inr (oc_key o', w))) open') (\<lambda>ws.
                           (let weights = dict_of ws; wsum = dsum (map snd weights);
                                vals1 = foldl (\<lambda>d o'. AList.update (oc_key o')
                                  (if 0 < wsum then ddiv (dmul rest (dict_get weights (oc_key o') 0)) wsum else 0) d) vals open'
                            in Inr (put_known vals1, est1 @ map oc_key open')))))))"

definition resolve_consumption ::
  "(string \<Rightarrow> dec option) \<Rightarrow> (int, dec) dict \<Rightarrow> (occupant \<Rightarrow> dec option) \<Rightarrow> (occupant \<Rightarrow> string) \<Rightarrow> occupant list \<Rightarrow> consumption res" where
  "resolve_consumption unit_total table own_of kind_of occs =
     foldr_res (resolve_unit unit_total table own_of kind_of) ([], []) (group_by_unit occs)"

section \<open>A cost component\<close>

record heat_component =
  hc_costs :: dec
  hc_consumption_part :: dec
  hc_basic_part :: dec
  hc_warning :: bool
  hc_rows :: "(string, dec \<times> dec \<times> dec) dict"

text \<open>The keys of the shares: unit number and occupancy, of the last occupant with the same occupancy key.\<close>

definition share_keys :: "occupant list \<Rightarrow> (string, string \<times> string) dict" where
  "share_keys occs = dict_of (map (\<lambda>o'. (oc_key o', (oc_number o', oc_key o'))) occs)"

definition share_key :: "occupant list \<Rightarrow> occupant \<Rightarrow> string \<times> string" where
  "share_key occs o' = dict_get (share_keys occs) (oc_key o') ([], [])"

text \<open>Only a positive part is distributed, or with the mode \<open>distribute\<close> any part but zero.\<close>

definition distributes :: "string \<Rightarrow> dec \<Rightarrow> bool" where
  "distributes mode v \<longleftrightarrow> 0 < v \<or> (mode = ''distribute'' \<and> v < 0)"

definition split_part :: "string \<Rightarrow> occupant list \<Rightarrow> dec \<Rightarrow> (string \<times> string) share list \<Rightarrow> (string \<times> string, dec) dict res" where
  "split_part mode occs v shares =
     (if distributes mode v then distribute v shares
      else Inr (dict_of (map (\<lambda>(_, k). (k, 0)) (share_keys occs))))"

definition component_row ::
  "occupant list \<Rightarrow> (string \<times> string, dec) dict \<Rightarrow> (string \<times> string, dec) dict \<Rightarrow> occupant \<Rightarrow> (string \<times> dec \<times> dec \<times> dec) res" where
  "component_row occs cons basic o' =
     bindr (fetch cons (share_key occs o') Key_Error) (\<lambda>c.
     bindr (fetch basic (share_key occs o') Key_Error) (\<lambda>b.
       Inr (oc_key o', (c, b, dadd c b))))"

definition heat_component ::
  "dec \<Rightarrow> int \<Rightarrow> string \<Rightarrow> occupant list \<Rightarrow> (string, dec) dict \<Rightarrow> (int, dec) dict \<Rightarrow> heat_component res" where
  "heat_component costs percent mode occs consumption table =
     (let cp = round_up_cents (ddiv (dmul costs (of_int percent)) 100);
          bp = dsub costs cp;
          warning = ((cp < 0 \<or> bp < 0) \<and> mode \<noteq> ''distribute'');
          cons_shares = map (\<lambda>o'. \<lparr>skey = share_key occs o', weight = dict_get consumption (oc_key o') 0\<rparr>) occs
      in if distributes mode cp \<and> dsum (map weight cons_shares) \<le> 0 then Inl Value_Error
         else
           bindr (split_part mode occs cp cons_shares) (\<lambda>cons.
           bindr (mapr (\<lambda>o'. bindr (time_weight (oc_start o') (oc_end o') table) (\<lambda>tw.
               Inr \<lparr>skey = share_key occs o', weight = dmul (oc_area o') tw\<rparr>)) occs) (\<lambda>basic_shares.
           bindr (split_part mode occs bp basic_shares) (\<lambda>basic.
           bindr (mapr (component_row occs cons basic) occs) (\<lambda>rows.
             Inr \<lparr>hc_costs = costs, hc_consumption_part = cp, hc_basic_part = bp, hc_warning = warning, hc_rows = dict_of rows\<rparr>)))))"

section \<open>The draft statement\<close>

record heat_row =
  hr_number :: string
  hr_heating :: dec
  hr_hot_water :: dec
  hr_sum :: dec
  hr_vacancy :: bool
  hr_estimated :: bool

record heat_result =
  ht_co2 :: co2_result
  ht_landlord_co2 :: dec
  ht_allocable :: dec
  ht_components :: "heat_component list"
  ht_rows :: "(string, heat_row) dict"
  ht_vacancy_share :: dec
  ht_estimated :: "string list"

definition row_sum :: "heat_component \<Rightarrow> string \<Rightarrow> dec res" where
  "row_sum c k = bindr (fetch (hc_rows c) k Key_Error) (\<lambda>(_, _, t). Inr t)"

definition heat_row_of :: "heat_component list \<Rightarrow> string list \<Rightarrow> occupant \<Rightarrow> (string \<times> heat_row) res" where
  "heat_row_of comps estimated o' =
     bindr (mapr (\<lambda>c. row_sum c (oc_key o')) comps) (\<lambda>ts.
       Inr (oc_key o', \<lparr>hr_number = oc_number o', hr_heating = hd ts,
         hr_hot_water = (if 1 < length comps then ts ! 1 else 0), hr_sum = dsum ts,
         hr_vacancy = is_vacancy o', hr_estimated = (oc_key o' \<in> set estimated)\<rparr>))"

type_synonym unit_totals = "(string, dec option \<times> dec option) dict"

definition check_inputs :: "date \<Rightarrow> date \<Rightarrow> dec \<Rightarrow> heating_settings \<Rightarrow> co2_input \<Rightarrow> occupant list \<Rightarrow> unit res" where
  "check_inputs period_from period_to total_costs s co occs =
     (if total_costs \<le> 0 then Inl Value_Error
      else if \<not> (CONSUMPTION_SHARE_MIN \<le> hs_share s \<and> hs_share s \<le> CONSUMPTION_SHARE_MAX) then Inl Value_Error
      else if occs = [] then Inl Value_Error
      else if list_ex (\<lambda>o'. oc_area o' \<le> 0) occs then Inl Value_Error
      else if list_ex (\<lambda>o'. overlap period_from period_to (oc_start o') (Some (oc_end o')) \<noteq> Some (oc_start o', oc_end o')) occs
      then Inl Value_Error
      else bindr (validate_degree_days (hs_degree_days s)) (\<lambda>_. validate_co2_steps (co_steps co)))"

definition one_component ::
  "heating_settings \<Rightarrow> occupant list \<Rightarrow> dec \<Rightarrow> (string \<Rightarrow> dec option) \<Rightarrow> (occupant \<Rightarrow> dec option) \<Rightarrow> (occupant \<Rightarrow> string) \<Rightarrow>
    (heat_component \<times> string list) res" where
  "one_component s occs costs unit_total own_of kind_of =
     bindr (resolve_consumption unit_total (hs_degree_days s) own_of kind_of occs) (\<lambda>(vals, est).
     bindr (heat_component costs (hs_share s) (hs_negative_mode s) occs vals (hs_degree_days s)) (\<lambda>c.
       Inr (c, est)))"

definition heat_totals :: "(string, heat_row) dict \<Rightarrow> dec" where
  "heat_totals rows = dsum (map (hr_sum \<circ> snd) rows)"

definition calculate ::
  "date \<Rightarrow> date \<Rightarrow> dec \<Rightarrow> heating_settings \<Rightarrow> co2_input \<Rightarrow> occupant list \<Rightarrow> unit_totals \<Rightarrow> heat_result res" where
  "calculate period_from period_to total_costs s co occs totals =
     bindr (check_inputs period_from period_to total_costs s co occs) (\<lambda>_.
     bindr (heating_co2_split co (day_diff period_to period_from + 1)) (\<lambda>cr.
       let landlord = (case cr_landlord cr of None \<Rightarrow> 0 | Some v \<Rightarrow> v);
           allocable = dsub total_costs landlord
       in bindr (split_hot_water allocable s) (\<lambda>(heating, hot).
          bindr (one_component s occs heating (\<lambda>u. fst (dict_get totals u (None, None))) oc_heating oc_heating_kind) (\<lambda>(c1, est1).
          bindr (if 0 < hot
              then bindr (one_component s occs hot (\<lambda>u. snd (dict_get totals u (None, None))) oc_hot_water oc_hot_water_kind)
                (\<lambda>(c2, est2). Inr ([c1, c2], est1 @ est2))
              else Inr ([c1], est1)) (\<lambda>(comps, est).
            let estimated = sort (remdups est)
            in bindr (mapr (heat_row_of comps estimated) occs) (\<lambda>rows.
              let per_occupant = dict_of rows
              in if heat_totals per_occupant \<noteq> allocable then Inl Sum_Check
                 else Inr \<lparr>ht_co2 = cr, ht_landlord_co2 = landlord, ht_allocable = allocable, ht_components = comps,
                   ht_rows = per_occupant,
                   ht_vacancy_share = heat_totals (filter (hr_vacancy \<circ> snd) per_occupant),
                   ht_estimated = estimated\<rparr>))))))"

section \<open>Rounding of the parts\<close>

lemma round_up_cents_eq: "round_up_cents v = round_cents v"
  by (simp add: round_up_cents_def round_cents_def)

lemma round_cents_le:
  assumes a: "is_cents a" and z: "z < a + 1 / 200"
  shows "round_cents z \<le> a"
proof -
  obtain k where k: "a = of_int k / 100" using a by (rule is_centsE)
  obtain j where j: "round_cents z = of_int j / 100" using is_cents_round_cents by (rule is_centsE)
  have "round_cents z < a + 1 / 100" using round_cents_error[of z] z by linarith
  then have "(of_int j :: rat) < of_int (k + 1)" unfolding k j by simp
  then show ?thesis unfolding k j by (simp only: of_int_less_iff)
qed

text \<open>A part of an amount computed by a product and a quotient, rounded to cents, stays within the amount,
  also when the divisor lost a little by rounding.\<close>

lemma scaled_part:
  assumes a: "is_cents a" "0 \<le> a" "a < 10 ^ 16" and x: "0 \<le> x" and y: "0 < y" "x * (1 - ulp28) \<le> y"
  shows "0 \<le> round_up_cents (ddiv (dmul a x) y)" and "round_up_cents (ddiv (dmul a x) y) \<le> a"
    and "is_cents (round_up_cents (ddiv (dmul a x) y))"
proof -
  have u: "0 < (1 - ulp28 :: rat)" by (simp add: ulp28_def)
  have m: "0 \<le> dmul a x" "dmul a x \<le> a * x * (1 + ulp28)"
    using fix28_nonneg[of "a * x"] fix28_bounds(2)[of "a * x"] a x by (simp_all add: dmul_def)
  have q0: "0 \<le> dmul a x / y" using m y by simp
  have "x \<le> y / (1 - ulp28)" using y(2) u by (simp add: pos_le_divide_eq)
  then have "a * x * (1 + ulp28) \<le> a * (y / (1 - ulp28)) * (1 + ulp28)"
    using a by (intro mult_right_mono mult_left_mono) (auto simp: ulp28_def)
  with m(2) have "dmul a x / y \<le> a * (y / (1 - ulp28)) * (1 + ulp28) / y" using y(1) by (intro divide_right_mono) auto
  also have "\<dots> = a * ((1 + ulp28) / (1 - ulp28))" using y(1) by simp
  finally have q: "dmul a x / y \<le> a * ((1 + ulp28) / (1 - ulp28))" .
  have "ddiv (dmul a x) y \<le> dmul a x / y * (1 + ulp28)" using fix28_bounds(2)[OF q0] by (simp add: ddiv_def)
  also have "\<dots> \<le> a * ((1 + ulp28) / (1 - ulp28)) * (1 + ulp28)" using q by (intro mult_right_mono) (auto simp: ulp28_def)
  also have "\<dots> \<le> a * (1 + 1 / 10 ^ 20)" unfolding mult.assoc using a(2) by (intro mult_left_mono) (auto simp: ulp28_def)
  also have "\<dots> < a + 1 / 200" using a(3) by (simp add: distrib_left)
  finally show "round_up_cents (ddiv (dmul a x) y) \<le> a" unfolding round_up_cents_eq by (rule round_cents_le[OF a(1)])
  show "0 \<le> round_up_cents (ddiv (dmul a x) y)"
    unfolding round_up_cents_eq using fix28_nonneg[OF q0] by (intro round_cents_nonneg) (simp add: ddiv_def)
  show "is_cents (round_up_cents (ddiv (dmul a x) y))" by (simp add: round_up_cents_eq)
qed

lemma part_minus: "round_up_cents (ddiv (dmul (- a) x) y) = - round_up_cents (ddiv (dmul a x) y)"
  by (simp add: round_up_cents_eq ddiv_def dmul_def fix28_minus round_cents_minus)

text \<open>The two parts of a component have the sign of its costs and add up to them.\<close>

lemma percent_parts:
  assumes a: "is_cents a" "\<bar>a\<bar> < 10 ^ 16" and p: "0 \<le> p" "p \<le> 100"
  defines "t \<equiv> round_up_cents (ddiv (dmul a (of_int p)) 100)"
  shows "is_cents t" and "dsub a t = a - t" and "0 \<le> a \<Longrightarrow> 0 \<le> t \<and> t \<le> a" and "a < 0 \<Longrightarrow> a \<le> t \<and> t \<le> 0"
proof -
  have pos: "0 \<le> t \<and> t \<le> a" if "0 \<le> a"
    unfolding t_def using scaled_part[of a "of_int p" 100] a p that by (auto simp: ulp28_def algebra_simps)
  then show "0 \<le> a \<Longrightarrow> 0 \<le> t \<and> t \<le> a" .
  have neg: "a \<le> t \<and> t \<le> 0" if "a < 0"
    using scaled_part[of "- a" "of_int p" 100] part_minus[of a "of_int p" 100] a p that is_cents_minus[of a]
    unfolding t_def by (auto simp: ulp28_def algebra_simps)
  then show "a < 0 \<Longrightarrow> a \<le> t \<and> t \<le> 0" .
  show c: "is_cents t" by (simp add: t_def round_up_cents_eq)
  have "\<bar>a - t\<bar> < 10 ^ 26" using pos neg a(2) by (cases "a < 0") auto
  then show "dsub a t = a - t" using a(1) c by (intro dsub_money)
qed

lemma hot_water_part:
  assumes a: "is_cents a" "0 \<le> a" "a < 10 ^ 16"
    and h: "hs_method s = ''measured'' \<Longrightarrow> (\<forall>h. hs_heating_energy s = Some h \<longrightarrow> 0 \<le> h) \<and> (\<forall>w. hs_hot_energy s = Some w \<longrightarrow> 0 \<le> w)"
    and r: "split_hot_water a s = Inr (heating, hot)"
  shows "is_cents hot" and "0 \<le> hot" and "is_cents heating" and "0 \<le> heating" and "heating + hot = a"
proof -
  have "\<exists>x y. hot = round_up_cents (ddiv (dmul a x) y) \<and> 0 \<le> x \<and> 0 < y \<and> x * (1 - ulp28) \<le> y"
  proof -
    have le: "x * (1 - ulp28) \<le> y" if "0 \<le> x" "x \<le> y" for x y :: rat
      using mult_left_mono[of "1 - ulp28" 1 x] that by (simp add: ulp28_def)
    consider (flat) "hs_method s = ''flat_percent''" | (meas) "hs_method s = ''measured''" | (formula) "hs_method s = ''formula''"
      using r by (auto simp: split_hot_water_def split: if_splits)
    then show ?thesis
    proof cases
      case flat
      then obtain p where "0 \<le> p" "p \<le> 100" "hot = round_up_cents (ddiv (dmul a p) 100)"
        using r by (auto simp: split_hot_water_def split: if_splits option.splits)
      then show ?thesis using le[of p 100] by (intro exI[of _ p] exI[of _ 100]) simp
    next
      case meas
      then obtain e w where e: "hs_heating_energy s = Some e" "hs_hot_energy s = Some w" "0 < dadd e w"
        "hot = round_up_cents (ddiv (dmul a w) (dadd e w))"
        using r by (auto simp: split_hot_water_def not_le split: if_splits option.splits)
      have nn: "0 \<le> e" "0 \<le> w" using h[OF meas] e by auto
      have "w * (1 - ulp28) \<le> (e + w) * (1 - ulp28)" using nn by (intro mult_right_mono) (auto simp: ulp28_def)
      also have "\<dots> \<le> dadd e w" using fix28_bounds(1)[of "e + w"] nn by (simp add: dadd_def)
      finally show ?thesis using e nn by (intro exI[of _ w] exI[of _ "dadd e w"]) simp
    next
      case formula
      then obtain q e where "0 \<le> q" "q \<le> e" "0 < e" "hot = round_up_cents (ddiv (dmul a q) e)"
        using r by (auto simp: split_hot_water_def Let_def not_le not_less split: if_splits option.splits)
      then show ?thesis using le[of q e] by (intro exI[of _ q] exI[of _ e]) simp
    qed
  qed
  then obtain x y where xy: "hot = round_up_cents (ddiv (dmul a x) y)" "0 \<le> x" "0 < y" "x * (1 - ulp28) \<le> y" by blast
  note part = scaled_part[OF a xy(2-4), folded xy(1)]
  show "is_cents hot" "0 \<le> hot" by (fact part)+
  have "heating = dsub a hot" using r by (auto simp: split_hot_water_def res_simps)
  moreover have "dsub a hot = a - hot" using part a by (intro dsub_money) auto
  ultimately have e: "heating = a - hot" by simp
  show "is_cents heating" unfolding e by (rule is_cents_diff[OF a(1) part(3)])
  show "0 \<le> heating" "heating + hot = a" unfolding e using part(2) by auto
qed

section \<open>Weights and consumption are never negative\<close>

lemma weight_loop_nonneg:
  assumes "weight_loop table cursor stop w = Inr v" and "valid_date cursor" "valid_date stop"
    and "0 \<le> w" and "\<forall>x \<in> set (map snd table). 0 \<le> x"
  shows "0 \<le> v"
  using assms
proof (induction table cursor stop w arbitrary: v rule: weight_loop.induct)
  case (1 table cursor stop w)
  let ?last = "month_days (year cursor) (month cursor)"
  let ?s = "min stop (Date (year cursor) (month cursor) ?last)"
  show ?case
  proof (cases "cursor \<le> stop \<and> 1 \<le> month cursor \<and> month cursor \<le> 12")
    case True
    then obtain x where x: "map_of table (month cursor) = Some x"
      and r: "(let w' = dadd w (ddiv (dmul x (of_int (day_diff ?s cursor + 1))) (of_int ?last))
        in if ?s = stop then Inr w' else weight_loop table (next_day ?s) stop w') = Inr v"
      using "1.prems"(1) unfolding weight_loop.simps[of table cursor stop w] Let_def if_P[OF True] by (auto simp: res_simps)
    have "x \<in> set (map snd table)" using map_of_SomeD[OF x] by force
    then have x0: "0 \<le> x" using "1.prems"(5) by blast
    have s: "valid_date ?s" using "1.prems"(2,3) by (auto simp: min_def valid_date_def)
    have "cursor \<le> Date (year cursor) (month cursor) ?last" using "1.prems"(2) by (auto simp: date_le_iff valid_date_def)
    then have "cursor \<le> ?s" using True by simp
    then have d: "0 \<le> day_diff ?s cursor" using toordinal_le_iff[OF "1.prems"(2) s] by (simp add: day_diff_def)
    have w': "0 \<le> dadd w (ddiv (dmul x (of_int (day_diff ?s cursor + 1))) (of_int ?last))"
      using "1.prems"(4) x0 d month_days_bounds(1)[of "year cursor" "month cursor"]
      by (auto simp: dadd_def ddiv_def dmul_def intro!: fix28_nonneg add_nonneg_nonneg divide_nonneg_nonneg mult_nonneg_nonneg)
    show ?thesis
    proof (cases "?s = stop")
      case True
      then show ?thesis using r w' by (simp add: Let_def)
    next
      case False
      then have "weight_loop table (next_day ?s) stop (dadd w (ddiv (dmul x (of_int (day_diff ?s cursor + 1))) (of_int ?last))) = Inr v"
        using r by (simp add: Let_def)
      then show ?thesis
        using "1.IH"[OF True refl refl refl, of x] x False s w' "1.prems"(3,5) next_day_valid[OF s] by simp
    qed
  next
    case False
    then show ?thesis using "1.prems" unfolding weight_loop.simps[of table cursor stop w] if_not_P[OF False] by simp
  qed
qed

definition table_ok :: "(int, dec) dict \<Rightarrow> bool" where
  "table_ok table \<longleftrightarrow> (\<forall>x \<in> set (map snd table). 0 \<le> x)"

lemma validate_degree_days_ok: "validate_degree_days table = Inr () \<Longrightarrow> table_ok table"
  by (fastforce simp: validate_degree_days_def table_ok_def list_ex_iff not_less split: if_splits)

lemma time_weight_nonneg:
  assumes "time_weight start stop table = Inr v" and "valid_date start" "valid_date stop" "start \<le> stop" and "table_ok table"
  shows "0 \<le> v"
proof (cases "table = []")
  case True
  then show ?thesis using assms(1) toordinal_le_iff[OF assms(2,3)] assms(4) by (auto simp: time_weight_def day_diff_def)
next
  case False
  then show ?thesis
    using weight_loop_nonneg[of table start stop 0 v] assms by (simp add: time_weight_def table_ok_def)
qed

text \<open>What the calculation needs of its occupants: valid dates, own keys, no negative consumption.\<close>

definition occupant_ok :: "occupant \<Rightarrow> bool" where
  "occupant_ok o' \<longleftrightarrow> valid_date (oc_start o') \<and> valid_date (oc_end o') \<and> oc_start o' \<le> oc_end o' \<and> 0 < oc_area o'"

definition values_nonneg :: "(string, dec) dict \<Rightarrow> bool" where
  "values_nonneg d \<longleftrightarrow> (\<forall>v \<in> set (map snd d). 0 \<le> v)"

lemma values_nonneg_get: "values_nonneg d \<Longrightarrow> 0 \<le> dict_get d k 0"
  by (cases "map_of d k") (force simp: values_nonneg_def dict_get_def dest: map_of_SomeD)+

lemma values_nonneg_update: "values_nonneg d \<Longrightarrow> 0 \<le> v \<Longrightarrow> values_nonneg (AList.update k v d)"
  using update_values[of k v d] by (fastforce simp: values_nonneg_def)

lemma foldl_values_nonneg:
  assumes "\<And>x d. x \<in> set xs \<Longrightarrow> values_nonneg d \<Longrightarrow> values_nonneg (f d x)" and "values_nonneg d"
  shows "values_nonneg (foldl f d xs)"
  using assms by (induction xs arbitrary: d) auto

lemma fold_update_values:
  "set (map snd (fold (\<lambda>(k, v) d. AList.update k v d) kvs d)) \<subseteq> set (map snd d) \<union> set (map snd kvs)"
proof (induction kvs arbitrary: d)
  case (Cons kv kvs)
  obtain k v where kv: "kv = (k, v)" by force
  define d' where "d' = AList.update k v d"
  have u: "set (map snd d') \<subseteq> insert v (set (map snd d))" unfolding d'_def by (rule update_values)
  have "set (map snd (fold (\<lambda>(k, v) d. AList.update k v d) (kv # kvs) d)) \<subseteq> set (map snd d') \<union> set (map snd kvs)"
    using Cons.IH[of d'] by (simp add: kv d'_def)
  also have "\<dots> \<subseteq> insert v (set (map snd d)) \<union> set (map snd kvs)" using u by (rule Un_mono) simp
  also have "\<dots> = set (map snd d) \<union> set (map snd (kv # kvs))" by (simp add: kv)
  finally show ?case .
qed simp

lemma dict_of_values: "set (map snd (dict_of kvs)) \<subseteq> set (map snd kvs)"
  using fold_update_values[of kvs "[]"] by (simp add: dict_of_def)

lemma group_by_unit_members:
  assumes "(u, occs') \<in> set (group_by_unit occs)"
  shows "set occs' \<subseteq> set occs"
proof -
  let ?f = "\<lambda>d o'. AList.update (oc_unit o') (dict_get d (oc_unit o') [] @ [o']) d"
  have step: "\<forall>v \<in> set (map snd (?f d x)). set v \<subseteq> set occs"
    if x: "x \<in> set occs" and d: "\<forall>v \<in> set (map snd d). set v \<subseteq> set occs" for d x
  proof
    fix v assume "v \<in> set (map snd (?f d x))"
    then have "v \<in> insert (dict_get d (oc_unit x) [] @ [x]) (set (map snd d))" by (rule subsetD[OF update_values])
    moreover have "set (dict_get d (oc_unit x) []) \<subseteq> set occs"
    proof (cases "map_of d (oc_unit x)")
      case (Some y)
      have "y \<in> set (map snd d)" using map_of_SomeD[OF Some] by force
      then have "set y \<subseteq> set occs" using d by blast
      then show ?thesis using Some by (simp add: dict_get_def)
    qed (simp add: dict_get_def)
    ultimately show "set v \<subseteq> set occs" using x d by auto
  qed
  have "\<forall>v \<in> set (map snd (foldl ?f d xs)). set v \<subseteq> set occs"
    if "set xs \<subseteq> set occs" "\<forall>v \<in> set (map snd d). set v \<subseteq> set occs" for d xs
    using that
  proof (induction xs arbitrary: d)
    case (Cons x xs)
    have x: "x \<in> set occs" "set xs \<subseteq> set occs" using Cons.prems(1) by auto
    show ?case unfolding foldl_Cons by (rule Cons.IH[OF x(2) step[OF x(1) Cons.prems(2)]])
  qed simp
  from this[of occs "[]"] have "\<forall>v \<in> set (map snd (group_by_unit occs)). set v \<subseteq> set occs"
    by (simp add: group_by_unit_def)
  moreover have "occs' \<in> set (map snd (group_by_unit occs))" using assms by force
  ultimately show ?thesis by blast
qed

lemma put_known_nonneg:
  assumes "\<forall>v \<in> set (map snd own). case v of None \<Rightarrow> True | Some y \<Rightarrow> 0 \<le> y" and "values_nonneg d"
  shows "values_nonneg (foldl (\<lambda>d (k, v). case v of None \<Rightarrow> d | Some y \<Rightarrow> AList.update k y d) d own)"
proof (rule foldl_values_nonneg[OF _ assms(2)])
  fix x :: "string \<times> dec option" and d'
  assume "x \<in> set own" "values_nonneg d'"
  then show "values_nonneg ((\<lambda>d (k, v). case v of None \<Rightarrow> d | Some y \<Rightarrow> AList.update k y d) d' x)"
  proof -
    obtain k v where x: "x = (k, v)" by force
    have "v \<in> set (map snd own)" using \<open>x \<in> set own\<close> x by force
    then have "case v of None \<Rightarrow> True | Some y \<Rightarrow> 0 \<le> y" using assms(1) by blast
    then show ?thesis using \<open>values_nonneg d'\<close> x by (cases v) (auto intro: values_nonneg_update)
  qed
qed

lemma resolve_unit_nonneg:
  assumes occs: "\<forall>o' \<in> set occs. occupant_ok o' \<and> (\<forall>v. own_of o' = Some v \<longrightarrow> 0 \<le> v)" and table: "table_ok table"
    and nn: "values_nonneg vals" and r: "resolve_unit unit_total table own_of kind_of (vals, est) (u, occs) = Inr (vals', est')"
  shows "values_nonneg vals'"
proof -
  define own where "own = dict_of (map (\<lambda>o'. (oc_key o', own_of o')) occs)"
  have own: "\<forall>v \<in> set (map snd own). case v of None \<Rightarrow> True | Some y \<Rightarrow> 0 \<le> y"
  proof
    fix v assume "v \<in> set (map snd own)"
    then have "v \<in> set (map snd (map (\<lambda>o'. (oc_key o', own_of o')) occs))"
      unfolding own_def by (rule subsetD[OF dict_of_values])
    then show "case v of None \<Rightarrow> True | Some y \<Rightarrow> 0 \<le> y" using occs by (auto split: option.splits)
  qed
  show ?thesis
  proof (cases "list_all (\<lambda>(_, v). v \<noteq> None) own")
    case True
    then have "vals' = foldl (\<lambda>d (k, v). case v of None \<Rightarrow> d | Some y \<Rightarrow> AList.update k y d) vals own"
      using r by (simp add: resolve_unit_def Let_def own_def[symmetric])
    then show ?thesis using put_known_nonneg[OF own nn] by simp
  next
    case False
    define open' where "open' = filter (\<lambda>o'. dict_get own (oc_key o') None = None) occs"
    from False r obtain tot ws where t: "unit_total u = Some tot" "0 \<le> dsub tot (dsum (List.map_filter snd own))"
      and ws: "mapr (\<lambda>o'. bindr (time_weight (oc_start o') (oc_end o') table) (\<lambda>w. Inr (oc_key o', w))) open' = Inr ws"
      and v: "vals' = foldl (\<lambda>d (k, v). case v of None \<Rightarrow> d | Some y \<Rightarrow> AList.update k y d)
        (foldl (\<lambda>d o'. AList.update (oc_key o')
          (if 0 < dsum (map snd (dict_of ws)) then ddiv (dmul (dsub tot (dsum (List.map_filter snd own))) (dict_get (dict_of ws) (oc_key o') 0))
             (dsum (map snd (dict_of ws))) else 0) d) vals open') own"
      by (auto simp: resolve_unit_def Let_def own_def[symmetric] open'_def[symmetric] res_simps split: option.splits if_splits)
    have wnn: "\<forall>w \<in> set (map snd ws). 0 \<le> w"
    proof
      fix w assume "w \<in> set (map snd ws)"
      then obtain k where "(k, w) \<in> set ws" by auto
      then obtain o' where o': "o' \<in> set open'" "time_weight (oc_start o') (oc_end o') table = Inr w"
        using ws unfolding mapr_eq_Inr by (auto dest!: list_all2_setD2 simp: res_simps)
      have "occupant_ok o'" using o'(1) occs by (simp add: open'_def)
      then show "0 \<le> w" using time_weight_nonneg[OF o'(2)] table by (simp add: occupant_ok_def)
    qed
    then have "values_nonneg (dict_of ws)"
      unfolding values_nonneg_def using subsetD[OF dict_of_values] by metis
    then have g: "0 \<le> dict_get (dict_of ws) k 0" for k by (rule values_nonneg_get)
    have "values_nonneg (foldl (\<lambda>d o'. AList.update (oc_key o')
        (if 0 < dsum (map snd (dict_of ws)) then ddiv (dmul (dsub tot (dsum (List.map_filter snd own))) (dict_get (dict_of ws) (oc_key o') 0))
           (dsum (map snd (dict_of ws))) else 0) d) vals open')"
      using t(2) g by (intro foldl_values_nonneg[OF _ nn] values_nonneg_update)
        (auto simp: ddiv_def dmul_def intro!: fix28_nonneg divide_nonneg_nonneg mult_nonneg_nonneg)
    then show ?thesis unfolding v by (rule put_known_nonneg[OF own])
  qed
qed

lemma resolve_consumption_nonneg:
  assumes occs: "\<forall>o' \<in> set occs. occupant_ok o' \<and> (\<forall>v. own_of o' = Some v \<longrightarrow> 0 \<le> v)" and table: "table_ok table"
    and r: "resolve_consumption unit_total table own_of kind_of occs = Inr (vals, est)"
  shows "0 \<le> dict_get vals k 0"
proof -
  have "values_nonneg (fst (vals, est))"
  proof (rule foldr_res_invariant[OF r[unfolded resolve_consumption_def], where P = "\<lambda>st. values_nonneg (fst st)"])
    show "values_nonneg (fst ([], []))" by (simp add: values_nonneg_def)
    fix st x st'
    assume x: "x \<in> set (group_by_unit occs)" and nn: "values_nonneg (fst st)"
      and s: "resolve_unit unit_total table own_of kind_of st x = Inr st'"
    have "\<forall>o' \<in> set (snd x). occupant_ok o' \<and> (\<forall>v. own_of o' = Some v \<longrightarrow> 0 \<le> v)"
      using group_by_unit_members[of "fst x" "snd x" occs] x occs by auto
    then show "values_nonneg (fst st')"
      using resolve_unit_nonneg[of "snd x" own_of table "fst st" unit_total kind_of "snd st" "fst x" "fst st'" "snd st'"] table nn s by simp
  qed
  then show ?thesis by (simp add: values_nonneg_get)
qed

section \<open>The parts of a component\<close>

lemma distribute_result:
  assumes d: "distribute tot shares = Inr d" and t: "is_cents tot" "0 < tot" "tot < 10 ^ 16"
    and n: "length shares \<le> 10 ^ 6" and keys: "distinct (map skey shares)" and w: "\<forall>s \<in> set shares. 0 \<le> weight s"
  shows "sum_list (map snd d) = tot" and "mset (map fst d) = mset (map skey shares)"
    and "\<forall>v \<in> set (map snd d). is_cents v \<and> 0 \<le> v"
proof -
  have nn: "distribute_nonneg tot shares = Inr d" using d t by (simp add: distribute_def)
  have "list_ex (\<lambda>s. weight s \<noteq> 0) shares"
  proof (rule ccontr)
    assume "\<not> ?thesis"
    then have "\<forall>x \<in> set (map weight (py_sorted skey shares)). x = 0" by (auto simp: list_ex_iff)
    then have "dsum (map weight (py_sorted skey shares)) = 0"
      by (intro dsum_pos_iff(1)[THEN iffD2]) (auto simp: list_ex_iff)
    then show False using nn by (simp add: distribute_nonneg_def)
  qed
  then have "shares_ok tot shares" using t n keys w by (simp add: shares_ok_def list_all_iff)
  then obtain d' where d': "distribute_nonneg tot shares = Inr d'" "sum_list (map snd d') = tot"
    "map fst d' = map skey (py_sorted skey shares)" "\<forall>v \<in> set (map snd d'). is_cents v \<and> 0 \<le> v"
    by (rule distribute_nonneg_exact) (use t in simp)
  then show "sum_list (map snd d) = tot" "\<forall>v \<in> set (map snd d). is_cents v \<and> 0 \<le> v" using nn by auto
  have "map fst d = map skey (py_sorted skey shares)" using d'(1,3) nn by simp
  then show "mset (map fst d) = mset (map skey shares)" by (simp only: mset_map mset_py_sorted)
qed

lemma share_keys_eq: "distinct (map oc_key occs) \<Longrightarrow> share_keys occs = map (\<lambda>o'. (oc_key o', (oc_number o', oc_key o'))) occs"
  by (simp add: share_keys_def dict_of_distinct comp_def)

lemma share_key_eq:
  assumes "distinct (map oc_key occs)" and "o' \<in> set occs"
  shows "share_key occs o' = (oc_number o', oc_key o')"
  unfolding share_key_def share_keys_eq[OF assms(1)] by (rule dict_get_map[OF assms])

lemma share_key_distinct:
  assumes "distinct (map oc_key occs)"
  shows "distinct (map (share_key occs) occs)"
proof -
  have e: "map (share_key occs) occs = map (\<lambda>o'. (oc_number o', oc_key o')) occs"
    using share_key_eq[OF assms] by simp
  have "distinct (map (\<lambda>o'. (oc_number o', oc_key o')) occs)"
    using assms by (auto simp: distinct_map inj_on_def)
  then show ?thesis unfolding e .
qed

text \<open>Reading a dictionary at each of its keys gives its values.\<close>

lemma sum_dict_get:
  fixes d :: "('k \<times> dec) list"
  assumes "mset (map fst d) = mset ks" and "distinct ks"
  shows "(\<Sum>k\<leftarrow>ks. dict_get d k 0) = sum_list (map snd d)"
proof -
  have dd: "distinct (map fst d)" using assms by (metis mset_eq_imp_distinct_iff)
  have "(\<Sum>k\<leftarrow>ks. dict_get d k 0) = (\<Sum>k\<leftarrow>map fst d. dict_get d k 0)"
    using assms(1) by (metis mset_map sum_mset_sum_list)
  also have "map (\<lambda>k. dict_get d k 0) (map fst d) = map snd d"
    using dd by (auto simp: dict_get_def)
  finally show ?thesis .
qed

definition part_ok :: "occupant list \<Rightarrow> dec \<Rightarrow> (string \<times> string, dec) dict \<Rightarrow> bool" where
  "part_ok occs v d \<longleftrightarrow>
     (\<Sum>o'\<leftarrow>occs. dict_get d (share_key occs o') 0) = v \<and>
     (\<forall>o' \<in> set occs. map_of d (share_key occs o') = Some (dict_get d (share_key occs o') 0) \<and>
       is_cents (dict_get d (share_key occs o') 0) \<and> 0 \<le> dict_get d (share_key occs o') 0)"

lemma part_okI:
  assumes keys: "distinct (map oc_key occs)" and m: "mset (map fst d) = mset (map (share_key occs) occs)"
    and v: "\<forall>v \<in> set (map snd d). is_cents v \<and> 0 \<le> v"
  shows "part_ok occs (sum_list (map snd d)) d"
proof -
  have s: "(\<Sum>o'\<leftarrow>occs. dict_get d (share_key occs o') 0) = sum_list (map snd d)"
    using sum_dict_get[OF m share_key_distinct[OF keys]] by (simp add: comp_def)
  have "map_of d (share_key occs o') = Some (dict_get d (share_key occs o') 0) \<and>
      is_cents (dict_get d (share_key occs o') 0) \<and> 0 \<le> dict_get d (share_key occs o') 0" if o': "o' \<in> set occs" for o'
  proof -
    have "share_key occs o' \<in> set (map fst d)" using o' mset_eq_setD[OF m] by auto
    then obtain x where x: "map_of d (share_key occs o') = Some x" by (metis map_of_eq_None_iff set_map not_None_eq)
    then have "x \<in> set (map snd d)" using map_of_SomeD[OF x] by force
    then have "is_cents x \<and> 0 \<le> x" using v by blast
    then show ?thesis using x by (simp add: dict_get_def)
  qed
  then show ?thesis using s by (simp add: part_ok_def)
qed

lemma split_part_ok:
  assumes keys: "distinct (map oc_key occs)" and n: "length occs \<le> 10 ^ 6"
    and v: "is_cents v" "v < 10 ^ 16" "0 \<le> v \<or> mode \<noteq> ''distribute''"
    and shares: "map skey shares = map (share_key occs) occs" "\<forall>s \<in> set shares. 0 \<le> weight s"
    and d: "split_part mode occs v shares = Inr d"
  shows "part_ok occs (max 0 v) d"
proof (cases "distributes mode v")
  case True
  then have pos: "0 < v" using v(3) by (auto simp: distributes_def)
  have "distribute v shares = Inr d" using d True by (simp add: split_part_def)
  moreover have "length shares \<le> 10 ^ 6" using n shares(1) by (metis length_map)
  ultimately have "sum_list (map snd d) = v" "mset (map fst d) = mset (map skey shares)"
    "\<forall>v \<in> set (map snd d). is_cents v \<and> 0 \<le> v"
    using distribute_result[OF _ v(1) pos v(2) _ _ shares(2)] share_key_distinct[OF keys] by (simp_all add: shares(1))
  then show ?thesis using part_okI[OF keys, of d] pos by (simp add: shares(1) max_def)
next
  case False
  have "dict_of (map (\<lambda>(_, k). (k, 0::dec)) (share_keys occs)) = map (\<lambda>o'. (share_key occs o', 0)) occs"
  proof -
    have "map (\<lambda>(_, k). (k, 0::dec)) (share_keys occs) = map (\<lambda>o'. (share_key occs o', 0)) occs"
      using share_key_eq[OF keys] by (simp add: share_keys_eq[OF keys] comp_def)
    then show ?thesis using share_key_distinct[OF keys] by (simp add: dict_of_distinct comp_def)
  qed
  then have e: "d = map (\<lambda>o'. (share_key occs o', 0)) occs" using d False by (simp add: split_part_def)
  have "part_ok occs (sum_list (map snd d)) d" by (rule part_okI[OF keys]) (auto simp: e comp_def is_cents_def)
  moreover have "sum_list (map snd d) = 0" by (simp add: e comp_def)
  moreover have "max 0 v = 0" using False v(3) by (auto simp: distributes_def)
  ultimately show ?thesis by simp
qed

text \<open>What the rows of a component say of its costs.\<close>

definition component_ok :: "occupant list \<Rightarrow> heat_component \<Rightarrow> bool" where
  "component_ok occs c \<longleftrightarrow> (\<exists>t. hc_rows c = map (\<lambda>o'. (oc_key o', t o')) occs \<and>
     (\<forall>o' \<in> set occs. is_cents (snd (snd (t o'))) \<and> 0 \<le> snd (snd (t o'))) \<and>
     (\<Sum>o'\<leftarrow>occs. snd (snd (t o'))) = max 0 (hc_costs c)) \<and>
     (hc_warning c \<longrightarrow> hc_costs c < 0)"

lemma dadd_parts:
  assumes "part_ok occs v a" "part_ok occs w b" "v < 10 ^ 16" "w < 10 ^ 16" and o': "o' \<in> set occs"
  shows "dadd (dict_get a (share_key occs o') 0) (dict_get b (share_key occs o') 0) =
    dict_get a (share_key occs o') 0 + dict_get b (share_key occs o') 0"
proof -
  have le: "dict_get d (share_key occs o') 0 \<le> v" if "part_ok occs v d" for v d
    using that o' elem_le_sum_list[of "map (\<lambda>o'. dict_get d (share_key occs o') 0) occs" "dict_get d (share_key occs o') 0"]
    by (auto simp: part_ok_def)
  show ?thesis using assms le[of v a] le[of w b] by (intro dadd_money) (auto simp: part_ok_def)
qed

lemma heat_component_ok:
  assumes keys: "distinct (map oc_key occs)" and n: "length occs \<le> 10 ^ 6" and occs: "\<forall>o' \<in> set occs. occupant_ok o'"
    and c: "is_cents costs" "\<bar>costs\<bar> < 10 ^ 16" "0 \<le> costs \<or> mode \<noteq> ''distribute''" and p: "0 \<le> p" "p \<le> 100"
    and con: "\<And>k. 0 \<le> dict_get consumption k 0" and table: "table_ok table"
    and r: "heat_component costs p mode occs consumption table = Inr comp'"
  shows "component_ok occs comp'" and "hc_costs comp' = costs"
proof -
  define cp where "cp = round_up_cents (ddiv (dmul costs (of_int p)) 100)"
  define bp where "bp = dsub costs cp"
  note parts = percent_parts[OF c(1,2) p, folded cp_def, folded bp_def]
  obtain cons bs basic rows where
    cons: "split_part mode occs cp (map (\<lambda>o'. \<lparr>skey = share_key occs o', weight = dict_get consumption (oc_key o') 0\<rparr>) occs) = Inr cons"
    and bs: "mapr (\<lambda>o'. bindr (time_weight (oc_start o') (oc_end o') table) (\<lambda>tw.
        Inr \<lparr>skey = share_key occs o', weight = dmul (oc_area o') tw\<rparr>)) occs = Inr bs"
    and basic: "split_part mode occs bp bs = Inr basic"
    and rows: "mapr (component_row occs cons basic) occs = Inr rows"
    and e: "comp' = \<lparr>hc_costs = costs, hc_consumption_part = cp, hc_basic_part = bp,
      hc_warning = ((cp < 0 \<or> bp < 0) \<and> mode \<noteq> ''distribute''), hc_rows = dict_of rows\<rparr>"
    using r unfolding heat_component_def Let_def cp_def[symmetric] bp_def[symmetric]
    by (auto simp: res_simps simp del: split_paired_Ex split: if_splits)
  have sign: "0 \<le> cp \<and> 0 \<le> bp \<or> mode \<noteq> ''distribute''" using parts c(3) by (auto simp: not_le)
  have b: "is_cents bp" "cp < 10 ^ 16" "bp < 10 ^ 16" using parts c is_cents_diff by (cases "costs < 0"; auto)+
  have bw: "\<forall>s \<in> set bs. 0 \<le> weight s" and bk: "map skey bs = map (share_key occs) occs"
  proof -
    have l: "list_all2 (\<lambda>o' s. \<exists>tw. time_weight (oc_start o') (oc_end o') table = Inr tw \<and>
        s = \<lparr>skey = share_key occs o', weight = dmul (oc_area o') tw\<rparr>) occs bs"
      using bs unfolding mapr_eq_Inr by (rule list_all2_mono) (auto simp: res_simps)
    show "\<forall>s \<in> set bs. 0 \<le> weight s"
    proof
      fix s assume "s \<in> set bs"
      from list_all2_setD2[OF l this] obtain o' tw where o': "o' \<in> set occs" "time_weight (oc_start o') (oc_end o') table = Inr tw" "weight s = dmul (oc_area o') tw"
        by auto
      then have "0 \<le> tw" "0 < oc_area o'" using time_weight_nonneg[OF o'(2)] occs table by (auto simp: occupant_ok_def)
      then show "0 \<le> weight s" using o'(3) by (simp add: dmul_def fix28_nonneg)
    qed
    show "map skey bs = map (share_key occs) occs" using l by (intro nth_equalityI) (auto simp: list_all2_conv_all_nth)
  qed
  have pc: "part_ok occs (max 0 cp) cons"
    by (rule split_part_ok[OF keys n parts(1) b(2) _ _ _ cons]) (use sign con in \<open>auto simp: comp_def\<close>)
  have pb: "part_ok occs (max 0 bp) basic"
    by (rule split_part_ok[OF keys n b(1,3) _ bk bw basic]) (use sign in auto)
  let ?c = "\<lambda>o'. dict_get cons (share_key occs o') 0" and ?b = "\<lambda>o'. dict_get basic (share_key occs o') 0"
  have "mapr (component_row occs cons basic) occs = Inr (map (\<lambda>o'. (oc_key o', (?c o', ?b o', dadd (?c o') (?b o')))) occs)"
    using pc pb unfolding mapr_eq_Inr list_all2_map2
    by (intro list.rel_refl_strong) (auto simp: part_ok_def component_row_def res_simps)
  then have rows': "hc_rows comp' = map (\<lambda>o'. (oc_key o', (?c o', ?b o', dadd (?c o') (?b o')))) occs"
    using rows keys by (simp add: e dict_of_distinct comp_def)
  have add: "dadd (?c o') (?b o') = ?c o' + ?b o'" if "o' \<in> set occs" for o'
    using dadd_parts[OF pc pb _ _ that] b by simp
  have "(\<Sum>o'\<leftarrow>occs. dadd (?c o') (?b o')) = (\<Sum>o'\<leftarrow>occs. ?c o' + ?b o')"
    by (rule arg_cong[where f = sum_list]) (simp add: add)
  also have "\<dots> = max 0 cp + max 0 bp" using pc pb by (simp add: part_ok_def sum_list_addf)
  also have "\<dots> = max 0 costs" using parts by (cases "costs < 0") (auto simp: max_def)
  finally have s: "(\<Sum>o'\<leftarrow>occs. dadd (?c o') (?b o')) = max 0 costs" .
  have ok: "is_cents (dadd (?c o') (?b o')) \<and> 0 \<le> dadd (?c o') (?b o')" if "o' \<in> set occs" for o'
    using pc pb that add[OF that] by (auto simp: part_ok_def intro: is_cents_add)
  show "hc_costs comp' = costs" by (simp add: e)
  have "hc_warning comp' \<longrightarrow> costs < 0" using parts by (cases "costs < 0") (auto simp: e)
  then show "component_ok occs comp'" unfolding component_ok_def
    using s ok rows' by (intro conjI exI[of _ "\<lambda>o'. (?c o', ?b o', dadd (?c o') (?b o'))"]) (simp_all add: e)
qed

section \<open>The statement adds up\<close>

definition row_value :: "heat_component \<Rightarrow> occupant \<Rightarrow> dec" where
  "row_value c o' = snd (snd (dict_get (hc_rows c) (oc_key o') (0, 0, 0)))"

lemma row_values:
  assumes keys: "distinct (map oc_key occs)" and c: "component_ok occs c"
  shows "o' \<in> set occs \<Longrightarrow> row_sum c (oc_key o') = Inr (row_value c o') \<and> is_cents (row_value c o') \<and> 0 \<le> row_value c o'"
    and "(\<Sum>o'\<leftarrow>occs. row_value c o') = max 0 (hc_costs c)"
proof -
  obtain t where t: "hc_rows c = map (\<lambda>o'. (oc_key o', t o')) occs"
    "\<forall>o' \<in> set occs. is_cents (snd (snd (t o'))) \<and> 0 \<le> snd (snd (t o'))"
    "(\<Sum>o'\<leftarrow>occs. snd (snd (t o'))) = max 0 (hc_costs c)"
    using c unfolding component_ok_def by blast
  have get: "map_of (hc_rows c) (oc_key o') = Some (t o')" if "o' \<in> set occs" for o'
    unfolding t(1) using keys that by (intro map_of_is_SomeI) (auto simp: comp_def)
  then have v: "row_value c o' = snd (snd (t o'))" if "o' \<in> set occs" for o'
    using that by (simp add: row_value_def dict_get_def)
  show "o' \<in> set occs \<Longrightarrow> row_sum c (oc_key o') = Inr (row_value c o') \<and> is_cents (row_value c o') \<and> 0 \<le> row_value c o'"
    using t(2) get v by (auto simp: row_sum_def fetch_def split: prod.splits)
  have e: "map (row_value c) occs = map (\<lambda>o'. snd (snd (t o'))) occs" by (simp add: v)
  show "(\<Sum>o'\<leftarrow>occs. row_value c o') = max 0 (hc_costs c)" unfolding e by (rule t(3))
qed

lemma sum_list_swap:
  fixes f :: "'a \<Rightarrow> 'b \<Rightarrow> dec"
  shows "(\<Sum>x\<leftarrow>xs. \<Sum>y\<leftarrow>ys. f x y) = (\<Sum>y\<leftarrow>ys. \<Sum>x\<leftarrow>xs. f x y)"
  by (induction xs) (simp_all add: sum_list_addf)

lemma heat_rows_sum:
  assumes keys: "distinct (map oc_key occs)" and comps: "\<forall>c \<in> set comps. component_ok occs c"
    and small: "(\<Sum>c\<leftarrow>comps. max 0 (hc_costs c)) < 10 ^ 26"
    and rows: "mapr (heat_row_of comps est) occs = Inr rows"
  shows "map fst rows = map oc_key occs" and "\<forall>x \<in> set rows. is_cents (hr_sum (snd x)) \<and> 0 \<le> hr_sum (snd x)"
    and "sum_list (map (hr_sum \<circ> snd) rows) = (\<Sum>c\<leftarrow>comps. max 0 (hc_costs c))"
    and "heat_totals (dict_of rows) = (\<Sum>c\<leftarrow>comps. max 0 (hc_costs c))" and "dict_of rows = rows"
proof -
  let ?s = "\<lambda>o'. \<Sum>c\<leftarrow>comps. row_value c o'"
  note rv = row_values[OF keys]
  have tot: "(\<Sum>o'\<leftarrow>occs. ?s o') = (\<Sum>c\<leftarrow>comps. max 0 (hc_costs c))"
    unfolding sum_list_swap[of _ comps occs] by (rule arg_cong[where f = sum_list]) (use rv(2) comps in simp)
  have nn: "is_cents (?s o') \<and> 0 \<le> ?s o'" if "o' \<in> set occs" for o'
    using rv(1)[OF _ that] comps by (auto intro!: is_cents_sum_list sum_list_nonneg)
  have le: "?s o' \<le> (\<Sum>c\<leftarrow>comps. max 0 (hc_costs c))" if "o' \<in> set occs" for o'
    using elem_le_sum_list[of "map ?s occs" "?s o'"] nn that unfolding tot by auto
  have row: "fst x = oc_key o' \<and> hr_sum (snd x) = ?s o'" if "o' \<in> set occs" "heat_row_of comps est o' = Inr x" for o' x
  proof -
    have "mapr (\<lambda>c. row_sum c (oc_key o')) comps = Inr (map (\<lambda>c. row_value c o') comps)"
      unfolding mapr_eq_Inr list_all2_map2 using rv(1)[OF _ that(1)] comps by (intro list.rel_refl_strong) blast
    moreover have "dsum (map (\<lambda>c. row_value c o') comps) = ?s o'"
      using rv(1)[OF _ that(1)] comps le[OF that(1)] small by (intro dsum_money) auto
    ultimately show ?thesis using that(2) by (auto simp: heat_row_of_def)
  qed
  have l: "list_all2 (\<lambda>o' x. o' \<in> set occs \<and> fst x = oc_key o' \<and> hr_sum (snd x) = ?s o') occs rows"
    by (rule list.rel_mono_strong[OF rows[unfolded mapr_eq_Inr]]) (use row in blast)
  show k: "map fst rows = map oc_key occs"
    using l by (intro nth_equalityI) (auto simp: list_all2_conv_all_nth)
  have m: "map (hr_sum \<circ> snd) rows = map ?s occs"
    using l by (intro nth_equalityI) (auto simp: list_all2_conv_all_nth)
  show s: "sum_list (map (hr_sum \<circ> snd) rows) = (\<Sum>c\<leftarrow>comps. max 0 (hc_costs c))" unfolding m tot ..
  show r: "\<forall>x \<in> set rows. is_cents (hr_sum (snd x)) \<and> 0 \<le> hr_sum (snd x)"
    using list_all2_setD2[OF l] nn by fastforce
  show d: "dict_of rows = rows" using keys k by (intro dict_of_distinct) simp
  have "dsum (map (hr_sum \<circ> snd) rows) = sum_list (map (hr_sum \<circ> snd) rows)"
    using r small s by (intro dsum_money) auto
  then show "heat_totals (dict_of rows) = (\<Sum>c\<leftarrow>comps. max 0 (hc_costs c))" unfolding d heat_totals_def using s by simp
qed

text \<open>
  The inputs as the service passes them: cent amounts, CO2 costs that are part of the fuel costs, one
  occupancy key per occupant, valid dates and no negative reading.
\<close>

definition heat_inputs_ok :: "dec \<Rightarrow> co2_input \<Rightarrow> occupant list \<Rightarrow> bool" where
  "heat_inputs_ok total_costs co occs \<longleftrightarrow> is_cents total_costs \<and> total_costs < 10 ^ 16 \<and>
     (case co_costs co of None \<Rightarrow> True | Some c \<Rightarrow> is_cents c \<and> c \<le> total_costs) \<and>
     distinct (map oc_key occs) \<and> length occs \<le> 10 ^ 6 \<and>
     list_all (\<lambda>o'. valid_date (oc_start o') \<and> valid_date (oc_end o') \<and>
       (case oc_heating o' of None \<Rightarrow> True | Some v \<Rightarrow> 0 \<le> v) \<and> (case oc_hot_water o' of None \<Rightarrow> True | Some v \<Rightarrow> 0 \<le> v)) occs"

lemma find_mem: "find p xs = Some x \<Longrightarrow> x \<in> set xs"
  by (auto simp: find_Some_iff)

lemma co2_landlord:
  assumes inp: "heat_inputs_ok total_costs co occs" "0 < total_costs" and steps: "validate_co2_steps (co_steps co) = Inr ()"
    and r: "heating_co2_split co n = Inr cr"
  defines "l \<equiv> (case cr_landlord cr of None \<Rightarrow> 0 | Some v \<Rightarrow> v)"
  shows "is_cents l" and "0 \<le> l" and "l \<le> total_costs"
proof -
  have "is_cents l \<and> 0 \<le> l \<and> l \<le> total_costs"
  proof (cases "cr_status cr = Not_Applicable \<or> cr_landlord cr = None")
    case True
    then have "l = 0" using r unfolding l_def heating_co2_split_def
      by (auto simp: Let_def split: if_splits option.splits)
    then show ?thesis using inp(2) by (simp add: is_cents_def)
  next
    case False
    obtain costs b p where c: "co_costs co = Some costs" "0 \<le> costs" and b: "(b, p) \<in> set (co_steps co)"
      and l: "l = dsub costs (round_up_cents (ddiv (dmul costs (of_int p)) 100))"
    proof -
      have "co_mode co \<noteq> ''not_applicable''" using False r unfolding heating_co2_split_def
        by (auto simp: Let_def split: if_splits)
      then show ?thesis using that False r unfolding heating_co2_split_def l_def
        by (auto simp: Let_def not_less not_le dest!: find_mem split: if_splits option.splits)
    qed
    have "0 \<le> p" "p \<le> 100"
      using steps b by (auto simp: validate_co2_steps_def list_ex_iff not_less split: if_splits)
    moreover have "is_cents costs" "costs \<le> total_costs" "total_costs < 10 ^ 16" using inp(1) c(1) by (auto simp: heat_inputs_ok_def)
    ultimately show ?thesis
      using percent_parts[of costs p] c(2) is_cents_diff by (auto simp: l)
  qed
  then show "is_cents l" "0 \<le> l" "l \<le> total_costs" by auto
qed

text \<open>No operation but the final check reports \<open>Sum_Check\<close>.\<close>

definition no_check :: "'a res \<Rightarrow> bool" where "no_check x \<longleftrightarrow> x \<noteq> Inl Sum_Check"

lemma no_check_bindr: "no_check x \<Longrightarrow> (\<And>a. x = Inr a \<Longrightarrow> no_check (f a)) \<Longrightarrow> no_check (bindr x f)"
  by (cases x) (auto simp: no_check_def)

lemma no_check_simps [simp]: "no_check (Inr a)" "no_check (Inl e) \<longleftrightarrow> e \<noteq> Sum_Check"
  by (auto simp: no_check_def)

lemma no_check_mapr: "(\<And>x. no_check (f x)) \<Longrightarrow> no_check (mapr f xs)"
  by (induction xs) (auto intro!: no_check_bindr)

lemma no_check_foldr: "(\<And>s x. no_check (f s x)) \<Longrightarrow> no_check (foldr_res f s xs)"
  by (induction xs arbitrary: s) (auto intro!: no_check_bindr)

lemma no_check_fetch: "no_check (fetch t k Key_Error)"
  by (simp add: fetch_def split: option.split)

lemma no_check_weights: "no_check (time_weight start stop table)"
proof -
  have "no_check (weight_loop table cursor stop w)" for cursor stop w
  proof (induction table cursor stop w rule: weight_loop.induct)
    case (1 table cursor stop w)
    show ?case
    proof (cases "cursor \<le> stop \<and> 1 \<le> month cursor \<and> month cursor \<le> 12")
      case True
      show ?thesis unfolding weight_loop.simps[of table cursor stop w] Let_def if_P[OF True]
        by (rule no_check_bindr[OF no_check_fetch]) (use "1.IH"[OF True refl refl refl] in auto)
    next
      case False
      then show ?thesis unfolding weight_loop.simps[of table cursor stop w] if_not_P[OF False] by simp
    qed
  qed
  then show ?thesis by (simp add: time_weight_def)
qed

lemma no_check_distribute: "no_check (distribute v shares)"
  unfolding distribute_def distribute_nonneg_def Let_def by (auto intro!: no_check_bindr)

lemma no_check_component: "no_check (one_component s occs costs unit_total own_of kind_of)"
proof -
  have u: "no_check (resolve_unit unit_total table own_of kind_of st x)" for table st x
    by (cases st; cases x) (auto simp: resolve_unit_def Let_def split: option.split
      intro!: no_check_bindr no_check_mapr no_check_weights)
  have "no_check (heat_component costs p mode occs vals table)" for p mode vals table
    unfolding heat_component_def Let_def split_part_def component_row_def
    by (auto intro!: no_check_bindr no_check_mapr no_check_weights no_check_distribute no_check_fetch)
  then show ?thesis
    unfolding one_component_def resolve_consumption_def
    by (auto intro!: no_check_bindr no_check_foldr u)
qed

lemma no_check_rows: "no_check (mapr (heat_row_of comps est) occs)"
  unfolding heat_row_of_def row_sum_def by (auto intro!: no_check_bindr no_check_mapr no_check_fetch)

lemma no_check_inputs: "no_check (check_inputs pf pt total_costs s co occs)"
  unfolding check_inputs_def validate_degree_days_def validate_co2_steps_def by (auto intro!: no_check_bindr)

lemma no_check_co2: "no_check (heating_co2_split co n)"
  unfolding heating_co2_split_def Let_def by (auto split: option.split)

lemma no_check_hot: "no_check (split_hot_water a s)"
  unfolding split_hot_water_def Let_def by (rule no_check_bindr) (auto split: option.split)

text \<open>Both components of one statement.\<close>

lemma checked_occupants:
  assumes inp: "heat_inputs_ok total_costs co occs" and chk: "check_inputs pf pt total_costs s co occs = Inr ()"
  shows "\<forall>o' \<in> set occs. occupant_ok o'" and "table_ok (hs_degree_days s)" and "0 < total_costs"
    and "validate_co2_steps (co_steps co) = Inr ()" and "0 \<le> hs_share s" "hs_share s \<le> 100"
proof -
  have c: "0 < total_costs" "50 \<le> hs_share s" "hs_share s \<le> 70" "\<forall>o' \<in> set occs. 0 < oc_area o'"
    "\<forall>o' \<in> set occs. overlap pf pt (oc_start o') (Some (oc_end o')) = Some (oc_start o', oc_end o')"
    "validate_degree_days (hs_degree_days s) = Inr ()" "validate_co2_steps (co_steps co) = Inr ()"
    using chk by (auto simp: check_inputs_def CONSUMPTION_SHARE_MIN_def CONSUMPTION_SHARE_MAX_def list_ex_iff not_le res_simps
        split: if_splits)
  show "\<forall>o' \<in> set occs. occupant_ok o'"
    using c(4,5) inp overlap_SomeD by (fastforce simp: occupant_ok_def heat_inputs_ok_def list_all_iff)
  show "table_ok (hs_degree_days s)" using validate_degree_days_ok[OF c(6)] .
  show "0 < total_costs" "validate_co2_steps (co_steps co) = Inr ()" "0 \<le> hs_share s" "hs_share s \<le> 100" using c by auto
qed

lemma one_component_ok:
  assumes inp: "heat_inputs_ok total_costs co occs" and chk: "check_inputs pf pt total_costs s co occs = Inr ()"
    and c: "is_cents costs" "\<bar>costs\<bar> < 10 ^ 16" "0 \<le> costs \<or> hs_negative_mode s \<noteq> ''distribute''"
    and own: "own_of = oc_heating \<or> own_of = oc_hot_water"
    and r: "one_component s occs costs unit_total own_of kind_of = Inr (k, est)"
  shows "component_ok occs k" and "hc_costs k = costs"
proof -
  obtain vals est' where v: "resolve_consumption unit_total (hs_degree_days s) own_of kind_of occs = Inr (vals, est')"
    and k: "heat_component costs (hs_share s) (hs_negative_mode s) occs vals (hs_degree_days s) = Inr k"
    using r by (auto simp: one_component_def res_simps)
  note ch = checked_occupants[OF inp chk]
  have "\<forall>o' \<in> set occs. occupant_ok o' \<and> (\<forall>v. own_of o' = Some v \<longrightarrow> 0 \<le> v)"
    using ch(1) own inp by (auto simp: heat_inputs_ok_def list_all_iff)
  note con = resolve_consumption_nonneg[OF this ch(2) v]
  have i: "distinct (map oc_key occs)" "length occs \<le> 10 ^ 6" using inp by (auto simp: heat_inputs_ok_def)
  show "component_ok occs k" "hc_costs k = costs"
    using heat_component_ok[OF i ch(1) c ch(5,6) con ch(2) k] by auto
qed

definition both_components ::
  "heating_settings \<Rightarrow> occupant list \<Rightarrow> unit_totals \<Rightarrow> dec \<Rightarrow> dec \<Rightarrow> (heat_component list \<times> string list) res" where
  "both_components s occs totals heating hot =
     bindr (one_component s occs heating (\<lambda>u. fst (dict_get totals u (None, None))) oc_heating oc_heating_kind) (\<lambda>(c1, est1).
       if 0 < hot
       then bindr (one_component s occs hot (\<lambda>u. snd (dict_get totals u (None, None))) oc_hot_water oc_hot_water_kind)
         (\<lambda>(c2, est2). Inr ([c1, c2], est1 @ est2))
       else Inr ([c1], est1))"

lemma both_components_ok:
  assumes inp: "heat_inputs_ok total_costs co occs" and chk: "check_inputs pf pt total_costs s co occs = Inr ()"
    and h: "is_cents heating" "\<bar>heating\<bar> < 10 ^ 16" "0 \<le> heating \<or> hs_negative_mode s \<noteq> ''distribute''"
    and w: "is_cents hot" "hot < 10 ^ 16"
    and r: "both_components s occs totals heating hot = Inr (comps, est)"
  shows "\<forall>c \<in> set comps. component_ok occs c" and "(\<Sum>c\<leftarrow>comps. max 0 (hc_costs c)) = max 0 heating + max 0 hot"
    and "(\<exists>c \<in> set comps. hc_warning c) \<Longrightarrow> heating < 0"
proof -
  obtain c1 est1 where c1: "one_component s occs heating (\<lambda>u. fst (dict_get totals u (None, None))) oc_heating oc_heating_kind = Inr (c1, est1)"
    and rest: "(if 0 < hot
       then bindr (one_component s occs hot (\<lambda>u. snd (dict_get totals u (None, None))) oc_hot_water oc_hot_water_kind)
         (\<lambda>(c2, est2). Inr ([c1, c2], est1 @ est2))
       else Inr ([c1], est1)) = Inr (comps, est)"
    using r by (auto simp: both_components_def res_simps)
  have k1: "component_ok occs c1" "hc_costs c1 = heating"
    using one_component_ok[OF inp chk h _ c1] by auto
  have "(\<forall>c \<in> set comps. component_ok occs c) \<and> (\<Sum>c\<leftarrow>comps. max 0 (hc_costs c)) = max 0 heating + max 0 hot \<and>
    ((\<exists>c \<in> set comps. hc_warning c) \<longrightarrow> heating < 0)"
  proof (cases "0 < hot")
    case True
    then obtain c2 est2 where c2: "one_component s occs hot (\<lambda>u. snd (dict_get totals u (None, None))) oc_hot_water oc_hot_water_kind = Inr (c2, est2)"
      and e: "comps = [c1, c2]" using rest by (auto simp: res_simps)
    have k2: "component_ok occs c2" "hc_costs c2 = hot"
      using one_component_ok[OF inp chk w(1) _ _ _ c2] w(2) True by auto
    then show ?thesis using k1 True by (auto simp: e component_ok_def)
  next
    case False
    then have "comps = [c1]" using rest by simp
    then show ?thesis using k1 False by (auto simp: component_ok_def)
  qed
  then show "\<forall>c \<in> set comps. component_ok occs c" "(\<Sum>c\<leftarrow>comps. max 0 (hc_costs c)) = max 0 heating + max 0 hot"
    "(\<exists>c \<in> set comps. hc_warning c) \<Longrightarrow> heating < 0" by blast+
qed

definition landlord_part :: "co2_result \<Rightarrow> dec" where
  "landlord_part cr = (case cr_landlord cr of None \<Rightarrow> 0 | Some v \<Rightarrow> v)"

text \<open>The stages of the calculation, one after the other.\<close>

definition finish ::
  "heating_settings \<Rightarrow> occupant list \<Rightarrow> co2_result \<Rightarrow> dec \<Rightarrow> heat_component list \<times> string list \<Rightarrow> heat_result res" where
  "finish s occs cr allocable x =
     (case x of (comps, est) \<Rightarrow>
       bindr (mapr (heat_row_of comps (sort (remdups est))) occs) (\<lambda>rows.
         if heat_totals (dict_of rows) \<noteq> allocable then Inl Sum_Check
         else Inr \<lparr>ht_co2 = cr, ht_landlord_co2 = landlord_part cr, ht_allocable = allocable, ht_components = comps,
           ht_rows = dict_of rows, ht_vacancy_share = heat_totals (filter (hr_vacancy \<circ> snd) (dict_of rows)),
           ht_estimated = sort (remdups est)\<rparr>))"

lemma calculate_eq:
  "calculate pf pt total_costs s co occs totals =
     bindr (check_inputs pf pt total_costs s co occs) (\<lambda>_.
     bindr (heating_co2_split co (day_diff pt pf + 1)) (\<lambda>cr.
     bindr (split_hot_water (dsub total_costs (landlord_part cr)) s) (\<lambda>(heating, hot).
     bindr (both_components s occs totals heating hot) (finish s occs cr (dsub total_costs (landlord_part cr))))))"
  unfolding calculate_def both_components_def finish_def landlord_part_def Let_def
  by (auto simp: bindr_def fun_eq_iff split: sum.splits prod.splits intro!: arg_cong2[where f = bindr])

lemma no_check_both: "no_check (both_components s occs totals heating hot)"
  unfolding both_components_def by (auto intro!: no_check_bindr no_check_component)

lemma finish_result:
  assumes inp: "heat_inputs_ok total_costs co occs" and chk: "check_inputs pf pt total_costs s co occs = Inr ()"
    and h: "is_cents heating" "\<bar>heating\<bar> < 10 ^ 16" "0 \<le> heating \<or> hs_negative_mode s \<noteq> ''distribute''"
    and w: "is_cents hot" "hot < 10 ^ 16"
    and c: "both_components s occs totals heating hot = Inr (comps, est)"
  shows "max 0 heating + max 0 hot = a \<Longrightarrow> no_check (finish s occs cr a (comps, est))"
    and "finish s occs cr a (comps, est) = Inr r \<Longrightarrow> max 0 heating + max 0 hot = a \<and>
      map fst (ht_rows r) = map oc_key occs \<and> (\<forall>x \<in> set (ht_rows r). 0 \<le> hr_sum (snd x)) \<and>
      sum_list (map (hr_sum \<circ> snd) (ht_rows r)) = a \<and> ht_landlord_co2 r = landlord_part cr \<and> ht_components r = comps \<and> ht_allocable r = a"
proof -
  note b = both_components_ok[OF inp chk h w c]
  have keys: "distinct (map oc_key occs)" using inp by (simp add: heat_inputs_ok_def)
  have small: "(\<Sum>c\<leftarrow>comps. max 0 (hc_costs c)) < 10 ^ 26" unfolding b(2) using h(2) w(2) by (auto simp: max_def abs_less_iff)
  note rs = heat_rows_sum[OF keys b(1) small, unfolded b(2)]
  show "max 0 heating + max 0 hot = a \<Longrightarrow> no_check (finish s occs cr a (comps, est))"
    unfolding finish_def prod.case by (rule no_check_bindr[OF no_check_rows]) (use rs(4) in auto)
  assume "finish s occs cr a (comps, est) = Inr r"
  then obtain rows where rows: "mapr (heat_row_of comps (sort (remdups est))) occs = Inr rows" "heat_totals (dict_of rows) = a"
    and r: "ht_rows r = dict_of rows" "ht_landlord_co2 r = landlord_part cr" "ht_components r = comps" "ht_allocable r = a"
    by (auto simp: finish_def res_simps split: if_splits)
  show "max 0 heating + max 0 hot = a \<and> map fst (ht_rows r) = map oc_key occs \<and> (\<forall>x \<in> set (ht_rows r). 0 \<le> hr_sum (snd x)) \<and>
      sum_list (map (hr_sum \<circ> snd) (ht_rows r)) = a \<and> ht_landlord_co2 r = landlord_part cr \<and> ht_components r = comps \<and> ht_allocable r = a"
    using rs[OF rows(1)] rows(2) r by auto
qed

text \<open>C27: A heating statement adds up: for cent amounts, own occupancy keys and readings that are not negative
  the final check never fails, and in a result every occupant has a row, no row is negative, and the rows
  together with the landlord's part of the CO2 costs are exactly the total costs.\<close>

theorem heating_statement_adds_up:
  assumes inp: "heat_inputs_ok total_costs co occs"
    and energy: "hs_method s = ''measured'' \<Longrightarrow> (\<forall>h. hs_heating_energy s = Some h \<longrightarrow> 0 \<le> h) \<and> (\<forall>w. hs_hot_energy s = Some w \<longrightarrow> 0 \<le> w)"
  shows "calculate pf pt total_costs s co occs totals \<noteq> Inl Sum_Check \<and>
    (\<forall>r. calculate pf pt total_costs s co occs totals = Inr r \<longrightarrow>
      map fst (ht_rows r) = map oc_key occs \<and> (\<forall>x \<in> set (ht_rows r). 0 \<le> hr_sum (snd x)) \<and>
      sum_list (map (hr_sum \<circ> snd) (ht_rows r)) + ht_landlord_co2 r = total_costs \<and> 0 \<le> ht_landlord_co2 r)"
proof -
  have stage: "is_cents heating \<and> is_cents hot \<and> \<bar>heating\<bar> < 10 ^ 16 \<and> hot < 10 ^ 16 \<and> 0 \<le> heating \<and>
      max 0 heating + max 0 hot = dsub total_costs (landlord_part cr) \<and>
      dsub total_costs (landlord_part cr) = total_costs - landlord_part cr \<and> 0 \<le> landlord_part cr"
    if chk: "check_inputs pf pt total_costs s co occs = Inr ()" and co2: "heating_co2_split co (day_diff pt pf + 1) = Inr cr"
      and hot: "split_hot_water (dsub total_costs (landlord_part cr)) s = Inr (heating, hot)" for cr heating hot
  proof -
    note ch = checked_occupants[OF inp chk]
    note l = co2_landlord[OF inp ch(3,4) co2, folded landlord_part_def]
    have t: "is_cents total_costs" "total_costs < 10 ^ 16" using inp by (auto simp: heat_inputs_ok_def)
    have e: "dsub total_costs (landlord_part cr) = total_costs - landlord_part cr" using t l ch(3) by (intro dsub_money) auto
    have "is_cents (total_costs - landlord_part cr)" "0 \<le> total_costs - landlord_part cr" "total_costs - landlord_part cr < 10 ^ 16"
      using t l is_cents_diff by auto
    from hot_water_part[OF this energy hot[unfolded e]] show ?thesis using e l t by auto
  qed
  have "no_check (calculate pf pt total_costs s co occs totals)" unfolding calculate_eq
  proof (rule no_check_bindr[OF no_check_inputs], rule no_check_bindr[OF no_check_co2], rule no_check_bindr[OF no_check_hot])
    fix u cr x
    assume chk: "check_inputs pf pt total_costs s co occs = Inr u" and co2: "heating_co2_split co (day_diff pt pf + 1) = Inr cr"
      and x: "split_hot_water (dsub total_costs (landlord_part cr)) s = Inr x"
    obtain heating hot where hot: "x = (heating, hot)" by force
    note st = stage[OF chk[simplified] co2 x[unfolded hot]]
    show "no_check (case x of (heating, hot) \<Rightarrow> bindr (both_components s occs totals heating hot)
        (finish s occs cr (dsub total_costs (landlord_part cr))))"
      unfolding hot prod.case
    proof (rule no_check_bindr[OF no_check_both])
      fix y assume y: "both_components s occs totals heating hot = Inr y"
      then show "no_check (finish s occs cr (dsub total_costs (landlord_part cr)) y)"
        using finish_result(1)[OF inp chk[simplified], of heating hot totals "fst y" "snd y"] st by (cases y) auto
    qed
  qed
  moreover have "map fst (ht_rows r) = map oc_key occs \<and> (\<forall>x \<in> set (ht_rows r). 0 \<le> hr_sum (snd x)) \<and>
      sum_list (map (hr_sum \<circ> snd) (ht_rows r)) + ht_landlord_co2 r = total_costs \<and> 0 \<le> ht_landlord_co2 r"
    if r: "calculate pf pt total_costs s co occs totals = Inr r" for r
  proof -
    obtain cr heating hot comps est where st: "check_inputs pf pt total_costs s co occs = Inr ()"
      "heating_co2_split co (day_diff pt pf + 1) = Inr cr" "split_hot_water (dsub total_costs (landlord_part cr)) s = Inr (heating, hot)"
      and b: "both_components s occs totals heating hot = Inr (comps, est)"
      and f: "finish s occs cr (dsub total_costs (landlord_part cr)) (comps, est) = Inr r"
      using r unfolding calculate_eq by (auto simp: res_simps)
    note s = stage[OF st]
    have fr: "map fst (ht_rows r) = map oc_key occs \<and> (\<forall>x \<in> set (ht_rows r). 0 \<le> hr_sum (snd x)) \<and>
      sum_list (map (hr_sum \<circ> snd) (ht_rows r)) = dsub total_costs (landlord_part cr) \<and> ht_landlord_co2 r = landlord_part cr"
      using finish_result(2)[OF inp st(1) _ _ _ _ _ b f] s by blast
    then show ?thesis using s by simp
  qed
  ultimately show ?thesis by (auto simp: no_check_def)
qed

lemma both_warning:
  assumes "both_components s occs totals heating hot = Inr (comps, est)" and "c \<in> set comps" and "hc_warning c"
  shows "hs_negative_mode s \<noteq> ''distribute''"
proof -
  have "hs_negative_mode s \<noteq> ''distribute''" if "one_component s occs costs ut own kind = Inr (c, e)" for costs ut own kind e
    using that assms(3) unfolding one_component_def heat_component_def Let_def
    by (auto simp: res_simps simp del: split_paired_Ex split: if_splits)
  then show ?thesis using assms(1,2) unfolding both_components_def by (auto simp: res_simps split: if_splits)
qed

lemma split_hot_cents:
  assumes "split_hot_water a s = Inr (heating, hot)"
  shows "is_cents hot" and "heating = dsub a hot"
  using assms by (auto simp: split_hot_water_def round_up_cents_eq res_simps Let_def split: if_splits option.splits)

text \<open>C28: The mode that keeps negative cost parts back with a warning never comes to its warning: whatever the
  settings, a returned statement holds no component with a warning, because the final check refuses the
  result that the kept back part leaves short.\<close>

theorem heating_warning_unreachable:
  assumes inp: "heat_inputs_ok total_costs co occs"
    and r: "calculate pf pt total_costs s co occs totals = Inr r"
    and small: "split_hot_water (ht_allocable r) s = Inr (heating, hot)" "\<bar>hot\<bar> < 10 ^ 15"
    and total: "total_costs < 10 ^ 15"
  shows "\<not> (\<exists>c \<in> set (ht_components r). hc_warning c)"
proof
  assume warn: "\<exists>c \<in> set (ht_components r). hc_warning c"
  obtain cr h w comps est where chk: "check_inputs pf pt total_costs s co occs = Inr ()"
    and co2: "heating_co2_split co (day_diff pt pf + 1) = Inr cr"
    and hw: "split_hot_water (dsub total_costs (landlord_part cr)) s = Inr (h, w)"
    and b: "both_components s occs totals h w = Inr (comps, est)"
    and f: "finish s occs cr (dsub total_costs (landlord_part cr)) (comps, est) = Inr r"
    using r unfolding calculate_eq by (auto simp: res_simps)
  have fa: "ht_allocable r = dsub total_costs (landlord_part cr)" "ht_components r = comps"
    using f by (auto simp: finish_def res_simps split: if_splits)
  have w: "heating = h" "hot = w" using hw small(1) by (auto simp: fa)
  note ch = checked_occupants[OF inp chk]
  note l = co2_landlord[OF inp ch(3,4) co2, folded landlord_part_def]
  have t: "is_cents total_costs" using inp by (auto simp: heat_inputs_ok_def)
  have e: "dsub total_costs (landlord_part cr) = total_costs - landlord_part cr" using t l ch(3) total by (intro dsub_money) auto
  have a: "is_cents (total_costs - landlord_part cr)" "0 \<le> total_costs - landlord_part cr" "total_costs - landlord_part cr < 10 ^ 15"
    using t l total is_cents_diff by auto
  note sh = split_hot_cents[OF hw, unfolded e]
  have h: "h = total_costs - landlord_part cr - w"
    unfolding sh(2) using sh(1) a small(2) w by (intro dsub_money) (auto simp: abs_less_iff)
  have hc: "is_cents h" unfolding h by (rule is_cents_diff[OF a(1) sh(1)])
  have hb: "\<bar>h\<bar> < 10 ^ 16" "w < 10 ^ 16" using a small(2) w by (auto simp: h abs_less_iff)
  have mode: "hs_negative_mode s \<noteq> ''distribute''" using both_warning[OF b] warn fa(2) by blast
  have sum: "max 0 h + max 0 w = total_costs - landlord_part cr"
    using finish_result(2)[OF inp chk hc hb(1) _ sh(1) hb(2) b f] mode e by simp
  have "h < 0" using both_components_ok(3)[OF inp chk hc hb(1) _ sh(1) hb(2) b] mode warn fa(2) by blast
  then show False using sum h by (auto simp: max_def split: if_splits)
qed
section \<open>A building with a change of tenants\<close>

text \<open>Flat 1 is let all year, flat 2 is let until the end of June and vacant afterwards, without a reading in
  between: the consumption of flat 2 is split by days.\<close>

definition example_occupant :: "string \<Rightarrow> string \<Rightarrow> date \<Rightarrow> date \<Rightarrow> dec \<Rightarrow> dec option \<Rightarrow> occupant" where
  "example_occupant k u a b area v = \<lparr>oc_key = k, oc_unit = u, oc_number = u, oc_start = a, oc_end = b, oc_area = area,
     oc_heating = v, oc_hot_water = v, oc_heating_kind = ''actual'', oc_hot_water_kind = ''actual''\<rparr>"

definition example_occupants :: "occupant list" where
  "example_occupants = [example_occupant ''contract:1'' ''1'' (Date 2024 1 1) (Date 2024 12 31) 60 (Some 400),
     example_occupant ''contract:2'' ''2'' (Date 2024 1 1) (Date 2024 6 30) 40 None,
     example_occupant ''vacancy:2'' ''2'' (Date 2024 7 1) (Date 2024 12 31) 40 None]"

definition example_heating :: heating_settings where
  "example_heating = \<lparr>hs_share = 70, hs_method = ''flat_percent'', hs_flat = Some 18, hs_volume = None,
     hs_temperature = None, hs_factor = 5 / 2, hs_total_energy = None, hs_heating_energy = None, hs_hot_energy = None,
     hs_degree_days = [], hs_negative_mode = ''legacy_warn''\<rparr>"

definition example_co2 :: co2_input where
  "example_co2 = \<lparr>co_mode = ''apply'', co_building = ''residential'', co_costs = Some 100, co_emissions = Some 1500,
     co_area = Some 100, co_reason = None, co_steps = CO2_RESIDENTIAL_STEPS\<rparr>"

definition example_heating_result :: heat_result where
  "example_heating_result = projr (calculate (Date 2024 1 1) (Date 2024 12 31) 1000 example_heating example_co2 example_occupants
     [(''2'', (Some 300, Some 300))])"

lemma example_heating_inputs: "heat_inputs_ok 1000 example_co2 example_occupants"
  by (simp add: heat_inputs_ok_def example_co2_def example_occupants_def example_occupant_def is_cents_def valid_date_def month_days_def)

text \<open>One tenant in one flat: every stage can be followed by hand.\<close>

definition sole_tenant :: occupant where
  "sole_tenant = example_occupant ''a'' ''1'' (Date 2024 1 1) (Date 2024 1 1) 1 (Some 1)"

definition sole_occupant :: "occupant list" where "sole_occupant = [sole_tenant]"

lemma sole_fields:
  "oc_key sole_tenant = ''a''" "oc_number sole_tenant = ''1''" "oc_unit sole_tenant = ''1''" "oc_area sole_tenant = 1"
  "oc_start sole_tenant = Date 2024 1 1" "oc_end sole_tenant = Date 2024 1 1" "oc_heating sole_tenant = Some 1"
  "oc_hot_water sole_tenant = Some 1" "oc_heating_kind sole_tenant = ''actual''"
  by (simp_all add: sole_tenant_def example_occupant_def)

definition sole_settings :: heating_settings where
  "sole_settings = example_heating\<lparr>hs_share := 50, hs_flat := Some 0\<rparr>"

definition sole_co2 :: co2_input where
  "sole_co2 = example_co2\<lparr>co_mode := ''not_applicable'', co_reason := Some ''district heating''\<rparr>"

lemma sole_stages:
  "heat_inputs_ok 100 sole_co2 sole_occupant"
  "check_inputs (Date 2024 1 1) (Date 2024 1 1) 100 sole_settings sole_co2 sole_occupant = Inr ()"
  "heating_co2_split sole_co2 n =
     Inr \<lparr>cr_status = Not_Applicable, cr_percent = None, cr_tenant = Some 100, cr_landlord = Some 0\<rparr>"
  "split_hot_water 100 sole_settings = Inr (100, 0)"
  "resolve_consumption f (hs_degree_days sole_settings) oc_heating oc_heating_kind sole_occupant = Inr ([(''a'', 1)], [])"
proof -
  show "heat_inputs_ok 100 sole_co2 sole_occupant"
    by (simp add: heat_inputs_ok_def sole_co2_def example_co2_def sole_occupant_def sole_fields is_cents_def
      valid_date_def month_days_def)
  show "check_inputs (Date 2024 1 1) (Date 2024 1 1) 100 sole_settings sole_co2 sole_occupant = Inr ()" by code_simp
  show "heating_co2_split sole_co2 n =
     Inr \<lparr>cr_status = Not_Applicable, cr_percent = None, cr_tenant = Some 100, cr_landlord = Some 0\<rparr>"
    by (simp add: heating_co2_split_def sole_co2_def example_co2_def)
  show "split_hot_water 100 sole_settings = Inr (100, 0)"
    by (simp add: split_hot_water_def sole_settings_def example_heating_def round_up_cents_eq dmul_def ddiv_def
      round_cents_id is_cents_def dsub_money)
  show "resolve_consumption f (hs_degree_days sole_settings) oc_heating oc_heating_kind sole_occupant = Inr ([(''a'', 1)], [])"
    by (simp add: resolve_consumption_def group_by_unit_def sole_settings_def sole_occupant_def sole_fields
      example_heating_def dict_get_def resolve_unit_def dict_of_def Let_def)
qed

lemma single_share: "is_cents v \<Longrightarrow> 0 \<le> v \<Longrightarrow> v < 10 ^ 16 \<Longrightarrow> distribute v [\<lparr>skey = k, weight = 1\<rparr>] = Inr [(k, v)]"
  using distribute_exact[of v "[\<lparr>skey = k, weight = 1\<rparr>]"] by (auto simp: shares_ok_def)

lemma sole_component:
  "\<exists>c. heat_component 100 50 ''legacy_warn'' sole_occupant [(''a'', 1)] [] = Inr c"
proof -
  have cp: "round_up_cents (ddiv (dmul 100 (of_int 50)) 100) = 50"
    using percent_exact[of 100 50] by (simp add: round_up_cents_eq round_cents_id is_cents_def)
  have bp: "dsub 100 50 = 50" by (simp add: dsub_money is_cents_def)
  have k: "share_key sole_occupant sole_tenant = (''1'', ''a'')"
    by (simp add: share_key_def share_keys_def dict_of_def sole_occupant_def sole_fields dict_get_def)
  have w: "dsum [1] = 1" "dmul 1 1 = 1" using dsum_money[of "[1]"] by (simp_all add: is_cents_def dmul_def fix28_money)
  have d: "split_part ''legacy_warn'' [sole_tenant] 50 [\<lparr>skey = x, weight = 1\<rparr>] = Inr [(x, 50)]" for x
    using single_share[of 50 x] by (simp add: split_part_def distributes_def is_cents_def)
  have t: "time_weight (Date 2024 1 1) (Date 2024 1 1) [] = Inr 1" by (simp add: time_weight_def day_diff_def)
  show ?thesis
    unfolding heat_component_def Let_def cp bp
    using d k by (simp add: sole_occupant_def sole_fields dict_get_def t w component_row_def fetch_def)
qed

lemma sole_result:
  "\<exists>r. calculate (Date 2024 1 1) (Date 2024 1 1) 100 sole_settings sole_co2 sole_occupant [] = Inr r \<and> ht_allocable r = 100"
proof -
  obtain c where c: "heat_component 100 50 ''legacy_warn'' sole_occupant [(''a'', 1)] [] = Inr c" using sole_component by blast
  have s: "hs_share sole_settings = 50" "hs_negative_mode sole_settings = ''legacy_warn''" "hs_degree_days sole_settings = []"
    by (simp_all add: sole_settings_def example_heating_def)
  have one: "one_component sole_settings sole_occupant 100 f oc_heating oc_heating_kind = Inr (c, [])" for f
    using sole_stages(5)[of f] c by (simp add: one_component_def s)
  have both: "both_components sole_settings sole_occupant [] 100 0 = Inr ([c], [])"
    by (simp add: both_components_def one)
  let ?cr = "\<lparr>cr_status = Not_Applicable, cr_percent = None, cr_tenant = Some 100, cr_landlord = Some (0::dec)\<rparr>"
  have a: "dsub 100 (landlord_part ?cr) = 100" by (simp add: landlord_part_def dsub_money is_cents_def)
  have "calculate (Date 2024 1 1) (Date 2024 1 1) 100 sole_settings sole_co2 sole_occupant [] = finish sole_settings sole_occupant ?cr 100 ([c], [])"
    by (simp add: calculate_eq sole_stages(2-4) a both)
  moreover have "\<exists>r. finish sole_settings sole_occupant ?cr 100 ([c], []) = Inr r \<and> ht_allocable r = 100"
  proof -
    note b = both_components_ok[OF sole_stages(1,2) _ _ _ _ _ both]
    have ok: "component_ok sole_occupant c" "max 0 (hc_costs c) = 100" using b by (simp_all add: is_cents_def)
    have "row_sum c ''a'' = Inr (row_value c sole_tenant)"
      using row_values(1)[OF _ ok(1), of sole_tenant] by (simp add: sole_occupant_def sole_fields)
    then obtain rows where rows: "mapr (heat_row_of [c] []) sole_occupant = Inr rows"
      by (simp add: sole_occupant_def heat_row_of_def sole_fields)
    have "heat_totals (dict_of rows) = 100"
      using heat_rows_sum(4)[OF _ _ _ rows] ok by (simp add: sole_occupant_def)
    then show ?thesis using rows by (simp add: finish_def)
  qed
  ultimately show ?thesis by simp
qed

theorem heating_statement_adds_up_witness:
  "\<exists>r. calculate (Date 2024 1 1) (Date 2024 1 1) 100 sole_settings sole_co2 sole_occupant [] = Inr r \<and>
    sum_list (map (hr_sum \<circ> snd) (ht_rows r)) + ht_landlord_co2 r = 100"
proof -
  obtain r where r: "calculate (Date 2024 1 1) (Date 2024 1 1) 100 sole_settings sole_co2 sole_occupant [] = Inr r"
    using sole_result by blast
  with heating_statement_adds_up[OF sole_stages(1), of sole_settings "Date 2024 1 1" "Date 2024 1 1" "[]"]
  show ?thesis by (simp add: sole_settings_def example_heating_def)
qed

theorem heating_warning_unreachable_witness:
  "\<exists>r. calculate (Date 2024 1 1) (Date 2024 1 1) 100 sole_settings sole_co2 sole_occupant [] = Inr r \<and>
     \<not> (\<exists>c \<in> set (ht_components r). hc_warning c)"
proof -
  obtain r where r: "calculate (Date 2024 1 1) (Date 2024 1 1) 100 sole_settings sole_co2 sole_occupant [] = Inr r" "ht_allocable r = 100"
    using sole_result by blast
  have "\<not> (\<exists>c \<in> set (ht_components r). hc_warning c)"
  proof -
    have "split_hot_water (ht_allocable r) sole_settings = Inr (100, 0)" using r(2) sole_stages(4) by simp
    from heating_warning_unreachable[OF sole_stages(1) r(1) this] show ?thesis by simp
  qed
  with r(1) show ?thesis by blast
qed

end
