(* ===== verification/Banking.thy ===== *)
theory Banking
  imports LedgerProps
begin

text \<open>
  Bank transactions and their posting (\<open>mhvp/banking/models.py\<close> and \<open>mhvp/banking/matching.py\<close>):
  \<open>book_payment\<close> posts a statement line once, against open items or a counter account, and
  the two halves of a recognised transfer with one entry. The state adds to the ledger database the bank
  transactions and the column \<open>bank_transaction_id\<close> of the journal entries. The columns of ledgers,
  accounts and invoices that only banking reads (legal entity, linked bank account, discount terms) and the
  clearing account of the tenant and the bank accounts are master data that no modelled operation changes: the
  record \<open>bank_env\<close>. It also holds the two keyed digests of the code as parameters: the fingerprint of an IBAN
  and the content hash of a transaction.
\<close>

datatype tx_status = Tx_New | Tx_Needs_Review | Tx_Proposed | Tx_Booked | Tx_Ignored | Tx_Split

record bank_tx =
  y_tenant :: uid
  y_bank :: uid
  y_entity :: uid
  y_statement :: "uid option"
  y_reference :: "string option"
  y_booking_date :: date
  y_value_date :: "date option"
  y_amount :: dec
  y_counterpart :: "string option"
  y_e2e :: "string option"
  y_hash :: string
  y_duplicate :: "uid option"
  y_pair :: "uid option"
  y_status :: tx_status
  y_entry :: "uid option"

record batch =
  h_bank :: uid
  h_message :: string
  h_format :: string
  h_status :: string
  h_count :: nat
  h_control_sum :: dec
  h_sha :: string
  h_downloads :: "uid option list"
  h_channel :: "string option"
  h_reference :: "string option"
  h_submitted :: bool

record bank_statement =
  w_bank :: uid
  w_ref :: string
  w_from :: "date option"
  w_to :: "date option"
  w_opening :: "dec option"
  w_closing :: "dec option"
  w_closing_date :: "date option"

text \<open>An account of a legal entity at a bank, and a transaction as the parser of a statement file delivers it.\<close>

record bank_account =
  c_entity :: uid
  c_fingerprint :: string
  c_holder :: string
  c_iban :: string
  c_bic :: "string option"
  c_segregated :: bool

record raw_tx =
  f_reference :: "string option"
  f_booking_date :: date
  f_value_date :: "date option"
  f_amount :: dec
  f_iban :: "string option"
  f_purpose :: "string option"
  f_e2e :: "string option"

record raw_statement =
  r_ref :: string
  r_iban :: string
  r_from :: "date option"
  r_to :: "date option"
  r_opening :: "dec option"
  r_closing :: "dec option"
  r_closing_date :: "date option"
  r_txs :: "raw_tx list"

record bank_env =
  x_entity :: "(uid, uid) dict"
  x_linked :: "(uid, uid) dict"
  x_terms :: "(uid, dec) dict"
  x_clearing :: "string option"
  x_banks :: "(uid, bank_account) dict"
  x_fingerprint :: "string \<Rightarrow> string"
  x_content :: "string \<Rightarrow> raw_tx \<Rightarrow> string"

record pay =
  book :: db
  txs :: "(uid, bank_tx) dict"
  entry_tx :: "(uid, uid) dict"
  statements :: "(uid, bank_statement) dict"
  batches :: "(uid, batch) dict"

definition put_tx :: "pay \<Rightarrow> uid \<Rightarrow> bank_tx \<Rightarrow> pay" where
  "put_tx s k t = s\<lparr>txs := AList.update k t (txs s)\<rparr>"

section \<open>The accounts of a transaction\<close>

definition ledger_for :: "bank_env \<Rightarrow> db \<Rightarrow> bank_tx \<Rightarrow> (uid \<times> ledger \<times> uid) res" where
  "ledger_for E db t =
     (case find (\<lambda>(lid, _). map_of (x_entity E) lid = Some (y_entity t)) (ledgers db) of
        None \<Rightarrow> Inl Conflict
      | Some (lid, g) \<Rightarrow>
          (case filter (\<lambda>(a, r). a_ledger r = lid \<and> map_of (x_linked E) a = Some (y_bank t)) (accounts db) of
             [] \<Rightarrow> Inl Conflict
           | [(a, _)] \<Rightarrow> Inr (lid, g, a)
           | _ \<Rightarrow> Inl Bank_Recon_Account_Ambiguous))"

text \<open>The posting still in force: posted and not reversed.\<close>

definition effective_entry :: "db \<Rightarrow> uid option \<Rightarrow> (uid \<times> entry) option" where
  "effective_entry db eid =
     (case eid of None \<Rightarrow> None
      | Some i \<Rightarrow> (case map_of (entries db) i of None \<Rightarrow> None
          | Some e \<Rightarrow> if e_status e \<noteq> Posted \<or> e_reversed_by e \<noteq> None then None else Some (i, e)))"

definition moves_account :: "entry \<Rightarrow> uid \<Rightarrow> bool" where
  "moves_account e a = list_ex (\<lambda>row. l_account row = a) (e_lines e)"

section \<open>Transfer pairs\<close>

text \<open>The other half, its bank account, and whether it is booked against another account.\<close>

record pair_info =
  q_id :: uid
  q_partner :: bank_tx
  q_bank :: uid
  q_elsewhere :: bool

definition transfer_partner :: "bank_env \<Rightarrow> pay \<Rightarrow> uid \<Rightarrow> bank_tx \<Rightarrow> uid \<Rightarrow> pair_info res" where
  "transfer_partner E s k t p =
     (case map_of (txs s) p of
        None \<Rightarrow> Inl Conflict
      | Some r \<Rightarrow>
          if y_pair r \<noteq> Some k \<or> y_tenant r \<noteq> y_tenant t \<or> y_entity r \<noteq> y_entity t then Inl Conflict
          else
            (case effective_entry (book s) (y_entry t) of
               Some (i, _) \<Rightarrow> if map_of (entry_tx s) i = Some k then Inl Conflict else Inl Bank_Transfer_Pair_Settled
             | None \<Rightarrow>
                 bindr (ledger_for E (book s) t) (\<lambda>(_, _, bank).
                 bindr (ledger_for E (book s) r) (\<lambda>(_, _, partner_bank).
                   case effective_entry (book s) (y_entry r) of
                     Some (_, e) \<Rightarrow>
                       if moves_account e bank then Inl Bank_Transfer_Pair_Settled
                       else Inr \<lparr>q_id = p, q_partner = r, q_bank = partner_bank, q_elsewhere = True\<rparr>
                   | None \<Rightarrow>
                       if y_status r = Tx_Needs_Review then Inl Conflict
                       else Inr \<lparr>q_id = p, q_partner = r, q_bank = partner_bank, q_elsewhere = False\<rparr>))))"

section \<open>Counter accounts\<close>

definition REMAINDER_CATEGORIES :: "account_category list" where
  "REMAINDER_CATEGORIES = [Cat_Debtor, Cat_Creditor, Cat_Technical, Cat_Transit]"

definition DISCOUNT_CATEGORIES :: "account_category list" where
  "DISCOUNT_CATEGORIES = [Cat_Revenue, Cat_Cost]"

definition DISCOUNT_HOLDING_ACCOUNT_NUMBER :: string where
  "DISCOUNT_HOLDING_ACCOUNT_NUMBER = ''027000''"

definition CLEARING_CATEGORIES :: "account_category list" where
  "CLEARING_CATEGORIES = [Cat_Transit, Cat_Technical]"

definition account_by_number :: "db \<Rightarrow> uid \<Rightarrow> string \<Rightarrow> (uid \<times> account) option" where
  "account_by_number db lid n = find (\<lambda>(_, a). a_ledger a = lid \<and> a_number a = n) (accounts db)"

definition tenant_clearing_account :: "bank_env \<Rightarrow> db \<Rightarrow> uid \<Rightarrow> uid option" where
  "tenant_clearing_account E db lid =
     (case x_clearing E of None \<Rightarrow> None
      | Some n \<Rightarrow> (case account_by_number db lid n of None \<Rightarrow> None
          | Some (a, r) \<Rightarrow> if a_category r \<in> set CLEARING_CATEGORIES then Some a else None))"

text \<open>The invoice of an item allows a discount up to its percentage.\<close>

definition has_terms :: "bank_env \<Rightarrow> db \<Rightarrow> dec \<Rightarrow> uid \<times> dec \<Rightarrow> bool" where
  "has_terms E db discount s =
     (case map_of (items db) (fst s) of None \<Rightarrow> False
      | Some i \<Rightarrow> (case map_of (x_terms E) (i_entry i) of None \<Rightarrow> False
          | Some percent \<Rightarrow> discount \<le> round_cents (ddiv (dmul \<bar>i_amount i\<bar> percent) 100)))"

definition check_counter_account ::
  "bank_env \<Rightarrow> db \<Rightarrow> uid \<Rightarrow> uid \<Rightarrow> dec \<Rightarrow> dec \<Rightarrow> (uid \<times> dec) list \<Rightarrow> string option \<Rightarrow> unit res" where
  "check_counter_account E db lid counter rest discount setts note =
     (case map_of (accounts db) counter of
        None \<Rightarrow> Inl Bank_Counter_Account_Not_Allowed
      | Some a \<Rightarrow>
          if a_ledger a \<noteq> lid then Inl Bank_Counter_Account_Not_Allowed
          else if 0 < rest \<and> a_category a \<notin> set REMAINDER_CATEGORIES then Inl Bank_Counter_Account_Not_Allowed
          else if 0 < discount then
            (if a_category a \<notin> set DISCOUNT_CATEGORIES \<and> a_number a \<noteq> DISCOUNT_HOLDING_ACCOUNT_NUMBER
             then Inl Bank_Counter_Account_Not_Allowed
             else if \<not> list_ex (has_terms E db discount) setts \<and>
               (case note of None \<Rightarrow> True | Some t \<Rightarrow> is_blank t) then Inl Bank_Counter_Account_Not_Allowed
             else Inr ())
          else Inr ())"

section \<open>Posting a transaction\<close>

text \<open>A new entry, drafted and posted.\<close>

definition post_new :: "db \<Rightarrow> uid \<Rightarrow> ledger \<Rightarrow> entry \<Rightarrow> line list \<Rightarrow> plan list \<Rightarrow> uid option \<Rightarrow> (db \<times> uid) res" where
  "post_new db lid g e lns ps user =
     (let eid = next_id db in
      bindr (write_draft (db\<lparr>next_id := eid + 1\<rparr>) lid eid e lns ps) (\<lambda>db1.
      bindr (fetch (entries db1) eid Resource_Not_Found) (\<lambda>e1.
      bindr (post db1 lid g eid e1 user) (\<lambda>db2. Inr (db2, eid)))))"

definition payment_entry :: "uid \<Rightarrow> bank_tx \<Rightarrow> entry_kind \<Rightarrow> uid option \<Rightarrow> entry" where
  "payment_entry lid t kind user =
     \<lparr>e_ledger = lid, e_status = Draft, e_year = None, e_number = None, e_booking_date = y_booking_date t,
      e_value_date = y_value_date t, e_due_date = None, e_accrual_date = None, e_kind = kind, e_contract = None,
      e_reverses = None, e_reversed_by = None, e_reason = None, e_key = None, e_plan = [], e_created_by = user,
      e_posted_by = None, e_approved_by = None, e_lines = []\<rparr>"

definition money_line :: "uid \<Rightarrow> bool \<Rightarrow> dec \<Rightarrow> line" where
  "money_line a debit v =
     \<lparr>l_account = a, l_debit = (if debit then v else 0), l_credit = (if debit then 0 else v), l_unit = None, l_property = None\<rparr>"

text \<open>The accounts of the settled items with the amounts they get, and the settlement plan.\<close>

definition take_settlement ::
  "db \<Rightarrow> uid \<Rightarrow> (uid, dec) dict \<times> plan list \<times> dec \<Rightarrow> uid \<times> dec \<Rightarrow> ((uid, dec) dict \<times> plan list \<times> dec) res" where
  "take_settlement db lid st sv =
     (case st of (per, ps, assigned) \<Rightarrow>
       bindr (fetch (items db) (fst sv) Resource_Not_Found) (\<lambda>i.
         if i_ledger i \<noteq> lid then Inl Acc_Wrong_Entity
         else Inr (AList.update (i_account i) (dict_get per (i_account i) 0 + snd sv) per,
           ps @ [\<lparr>p_item = fst sv, p_amount = snd sv\<rparr>], assigned + snd sv)))"

text \<open>The guards before any amount is looked at: the transaction is free to be posted.\<close>

definition bookable :: "pay \<Rightarrow> bank_tx \<Rightarrow> pair_info option \<Rightarrow> uid option \<Rightarrow> unit res" where
  "bookable s t pair counter =
     (let reopened = y_entry t \<noteq> None \<and> (pair \<noteq> None \<or> effective_entry (book s) (y_entry t) = None)
      in if \<not> reopened \<and> (y_status t \<in> {Tx_Booked, Tx_Ignored} \<or> y_entry t \<noteq> None) then Inl Conflict
         else if y_status t = Tx_Needs_Review then Inl Conflict
         else if y_pair t \<noteq> None \<and> counter = None then Inl Validation
         else Inr ())"

definition check_pair :: "pair_info option \<Rightarrow> uid \<Rightarrow> (uid \<times> dec) list \<Rightarrow> dec \<Rightarrow> uid option \<Rightarrow> unit res" where
  "check_pair pair bank setts discount counter =
     (case pair of None \<Rightarrow> Inr ()
      | Some q \<Rightarrow>
          if q_elsewhere q then
            (if setts \<noteq> [] \<or> discount \<noteq> 0 \<or> counter = Some bank then Inl Validation
             else if counter = Some (q_bank q) then Inl Bank_Transfer_Partner_Booked_Elsewhere
             else Inr ())
          else if setts \<noteq> [] \<or> discount \<noteq> 0 \<or> counter \<noteq> Some (q_bank q) then Inl Validation
          else Inr ())"

text \<open>Where the rest goes: the counter account, or as credit the only account of the settled items. The result
  is the counter account, the amounts per account and the rest.\<close>

definition place_rest ::
  "bank_env \<Rightarrow> db \<Rightarrow> uid \<Rightarrow> (uid, dec) dict \<Rightarrow> dec \<Rightarrow> dec \<Rightarrow> (uid \<times> dec) list \<Rightarrow> uid option \<Rightarrow> string option \<Rightarrow>
   (uid option \<times> (uid, dec) dict \<times> dec) res" where
  "place_rest E db lid per rest discount setts counter0 note =
     (let counter = (if 0 < rest \<and> counter0 = None \<and> 1 < length per
            then tenant_clearing_account E db lid else counter0)
      in bindr (case counter of None \<Rightarrow> Inr ()
             | Some c \<Rightarrow> if per \<noteq> [] \<and> (0 < rest \<or> 0 < discount)
                 then check_counter_account E db lid c rest discount setts note else Inr ()) (\<lambda>_.
           if 0 < rest \<and> counter = None then
             (case per of [(a, v)] \<Rightarrow> Inr (counter, [(a, v + rest)], 0) | _ \<Rightarrow> Inl Validation)
           else Inr (counter, per, rest)))"

definition payment_lines :: "uid \<Rightarrow> bank_tx \<Rightarrow> (uid, dec) dict \<Rightarrow> uid option \<Rightarrow> dec \<Rightarrow> dec \<Rightarrow> line list" where
  "payment_lines bank t per counter discount rest =
     (let incoming = 0 < y_amount t
      in money_line bank incoming \<bar>y_amount t\<bar> #
         map (\<lambda>(a, v). money_line a (\<not> incoming) v) per @
         (case counter of None \<Rightarrow> []
          | Some c \<Rightarrow> (if 0 < discount then [money_line c incoming discount] else []) @
              (if 0 < rest then [money_line c (\<not> incoming) rest] else [])))"

definition personal_accounts :: "db \<Rightarrow> (uid, dec) dict \<Rightarrow> unit res" where
  "personal_accounts db per =
     guardr (list_all (\<lambda>(a, _). case map_of (accounts db) a of None \<Rightarrow> True
        | Some r \<Rightarrow> a_category r \<in> {Cat_Debtor, Cat_Creditor}) per) Validation"

definition payment_kind :: "bank_tx \<Rightarrow> bool \<Rightarrow> entry_kind" where
  "payment_kind t transfer =
     (if transfer then K_Bank_Transfer else if 0 < y_amount t then K_Debtor_Payment else K_Creditor_Payment)"

text \<open>The transaction, and the other half of a transfer, carry the entry.\<close>

definition mark_booked :: "pay \<Rightarrow> uid \<Rightarrow> bank_tx \<Rightarrow> pair_info option \<Rightarrow> bool \<Rightarrow> uid \<Rightarrow> pay" where
  "mark_booked s k t pair transfer eid =
     (let s1 = put_tx s k (t\<lparr>y_status := Tx_Booked, y_entry := Some eid\<rparr>)
      in case pair of None \<Rightarrow> s1
         | Some q \<Rightarrow> if transfer \<and> y_status (q_partner q) \<noteq> Tx_Ignored
             then put_tx s1 (q_id q) ((q_partner q)\<lparr>y_status := Tx_Booked, y_entry := Some eid\<rparr>) else s1)"

definition book_payment ::
  "bank_env \<Rightarrow> pay \<Rightarrow> uid \<Rightarrow> bank_tx \<Rightarrow> (uid \<times> dec) list \<Rightarrow> uid option \<Rightarrow> uid option \<Rightarrow> string option \<Rightarrow> dec \<Rightarrow>
   (pay \<times> uid) res" where
  "book_payment E s k t setts counter user note discount =
     bindr (case y_pair t of None \<Rightarrow> Inr None
        | Some p \<Rightarrow> bindr (transfer_partner E s k t p) (\<lambda>q. Inr (Some q))) (\<lambda>pair.
     bindr (bookable s t pair counter) (\<lambda>_.
     bindr (ledger_for E (book s) t) (\<lambda>(lid, g, bank).
     let transfer = (case pair of None \<Rightarrow> False | Some q \<Rightarrow> \<not> q_elsewhere q); amount = \<bar>y_amount t\<bar> in
     bindr (check_pair pair bank setts discount counter) (\<lambda>_.
     bindr (foldr_res (take_settlement (book s) lid) ([], [], 0) setts) (\<lambda>(per, ps, assigned).
     if amount + discount < assigned then Inl Validation
     else if 0 < discount \<and> counter = None then Inl Validation
     else
       bindr (place_rest E (book s) lid per (amount + discount - assigned) discount setts counter note) (\<lambda>(counter', per', rest).
       bindr (personal_accounts (book s) per') (\<lambda>_.
       bindr (post_new (book s) lid g (payment_entry lid t (payment_kind t transfer) user)
           (payment_lines bank t per' counter' discount rest) ps user) (\<lambda>(db', eid).
         Inr (mark_booked (s\<lparr>book := db', entry_tx := AList.update eid k (entry_tx s)\<rparr>) k t pair transfer eid, eid)))))))))"

section \<open>What a posted transaction does to the ledger\<close>

text \<open>The settlements are the plan, entry by entry.\<close>

definition plan_settlements :: "uid \<Rightarrow> date \<Rightarrow> plan list \<Rightarrow> settlement list" where
  "plan_settlements eid d ps = map (\<lambda>p. \<lparr>s_item = p_item p, s_entry = eid, s_amount = p_amount p, s_date = d\<rparr>) ps"

lemma apply_plans_exact:
  "foldr_res (apply_plan lid eid e moved) (db, used) ps = Inr (db', used') \<Longrightarrow>
   settlements db' = settlements db @ plan_settlements eid (e_booking_date e) ps"
proof (induction ps arbitrary: db used)
  case (Cons p ps)
  then obtain db1 used1 where one: "apply_plan lid eid e moved (db, used) p = Inr (db1, used1)"
    and rest: "foldr_res (apply_plan lid eid e moved) (db1, used1) ps = Inr (db', used')"
    by (auto simp: res_simps)
  have "settlements db1 = settlements db @ plan_settlements eid (e_booking_date e) [p]"
    using apply_plan_effect[OF one] by (auto simp: plan_settlements_def)
  then show ?case using Cons.IH[OF rest] by (simp add: plan_settlements_def)
qed (simp add: plan_settlements_def)

lemma create_items_settlements:
  "settlements (foldl (create_item lid eid e) db moved) = settlements db"
proof (induction moved arbitrary: db)
  case (Cons m ms)
  have "settlements (create_item lid eid e db m) = settlements db"
    by (cases m) (auto simp: create_item_def split: option.split)
  with Cons show ?case by simp
qed simp

lemma post_settlements:
  assumes "post db lid g eid e user = Inr db'" and "e_status e = Draft"
  shows "settlements db' = settlements db @ plan_settlements eid (e_booking_date e) (e_plan e)"
proof -
  from assms obtain db1 e' where "apply_open_items db1 lid eid e' = Inr db'" "settlements db1 = settlements db"
    "e_plan e' = e_plan e" "e_booking_date e' = e_booking_date e"
    by (auto simp: post_def res_simps next_number_def Let_def put_entry_def split: if_splits)
  moreover from this(1) obtain st where "foldr_res (apply_plan lid eid e' (by_account (e_lines e')))
      (foldl (create_item lid eid e') db1 (by_account (e_lines e')), []) (e_plan e') = Inr st" "db' = fst st"
    by (auto simp: apply_open_items_def res_simps Let_def)
  moreover from this obtain used where "st = (db', used)" by (cases st) auto
  ultimately show ?thesis using apply_plans_exact create_items_settlements by metis
qed

lemma check_plans_same: "mapr check_plan ps = Inr ps' \<Longrightarrow> ps' = ps"
  by (induction ps arbitrary: ps') (auto simp: res_simps check_plan_def money_ok_iff)

lemma fresh_entry: "ledger_inv db \<Longrightarrow> map_of (entries db) (next_id db) = None"
  unfolding ledger_inv_def entries_ok_def by (metis less_irrefl option.exhaust)

text \<open>The ledger of a payment: one draft and its posting.\<close>

lemma post_new_effect:
  assumes new: "post_new db lid g e lns ps user = Inr (db', eid)" and inv: "ledger_inv db"
    and e: "e_ledger e = lid" "draft_ok e"
  obtains e' where "eid = next_id db" and "map_of (entries db') eid = Some e'" and "e_status e' = Posted"
    and "e_ledger e' = lid" and "e_kind e' = e_kind e" and "e_reversed_by e' = None"
    and "map core (e_lines e') = map core lns" and "balanced lns" and "ledger_inv db'"
    and "settlements db' = settlements db @ plan_settlements eid (e_booking_date e) ps"
    and "\<And>k. k \<noteq> eid \<Longrightarrow> map_of (entries db') k = map_of (entries db) k"
    and "\<And>iid i. map_of (items db) iid = Some i \<Longrightarrow> map_of (items db') iid = Some i"
    and "\<And>a. posted_balance db' a = posted_balance db a + (debit_on lns a - credit_on lns a)"
    and "orders db' = orders db" and "approvals db' = approvals db" and "eid < next_id db'"
    and "accounts db' = accounts db" and "ledgers db' = ledgers db" and "invoice_entry db' = invoice_entry db"
proof -
  define db0 where "db0 = db\<lparr>next_id := next_id db + 1\<rparr>"
  from new obtain db1 e1 where wd: "write_draft db0 lid (next_id db) e lns ps = Inr db1"
    and e1: "map_of (entries db1) (next_id db) = Some e1" and po: "post db1 lid g (next_id db) e1 user = Inr db'"
    and eid: "eid = next_id db"
    by (auto simp: post_new_def Let_def res_simps db0_def)
  from wd obtain ps' lns' where db1: "db1 = db0\<lparr>entries := AList.update (next_id db) (e\<lparr>e_plan := ps', e_lines := lns'\<rparr>) (entries db0)\<rparr>"
    and l: "balanced lns'" "accounts_of db0 lid lns'" "map core lns' = map core lns"
    by (rule write_draft_effect) blast
  have e1': "e1 = e\<lparr>e_plan := ps', e_lines := lns'\<rparr>" using e1 by (simp add: db1 dict_simps)
  from wd obtain ps2 where ps2: "mapr check_plan ps = Inr ps2" and "e_plan e1 = ps2"
    using e1 by (auto simp: write_draft_def res_simps dict_simps)
  then have ps': "ps' = ps" using check_plans_same[OF ps2] by (simp add: e1')
  have inv1: "ledger_inv db1"
  proof (rule same_posted_inv[OF inv], rule same_posted_update[OF inv])
    show "draft_ok e1" using e(2) by (simp add: draft_ok_def e1')
    show "entries db1 = AList.update (next_id db) e1 (entries db)" by (simp add: db1 e1' db0_def)
  qed (use fresh_entry[OF inv] in \<open>simp_all add: db1 db0_def\<close>)
  have items_fresh: "\<forall>k \<in> fst ` set (items db1). k < next_id db1"
    using inv1 unfolding ledger_inv_def items_ok_def by (metis map_of_eq_None_iff option.exhaust)
  have st: "e_status e1 = Draft" using e(2) by (simp add: draft_ok_def e1')
  note pe = post_effect[OF po st items_fresh]
  from pe(6) obtain e' its ss where p: "posts db1 lid g (next_id db) e1 e' its ss db'" by blast
  then obtain y n u where e': "e' = e1\<lparr>e_year := Some y, e_number := Some n, e_status := Posted, e_posted_by := u\<rparr>"
    and db': "db' = db1\<lparr>counters := AList.update (lid, y) n (counters db1), entries := AList.update (next_id db) e' (entries db1),
        items := items db1 @ its, settlements := settlements db1 @ ss, next_id := next_id db1 + length its\<rparr>"
    by (auto simp: posts_def Let_def)
  have acc1: "accounts_of db1 lid (e_lines e1)" using l(2) by (simp add: accounts_of_def e1' db1 db0_def)
  have inv': "ledger_inv db'"
    by (rule posts_inv[OF inv1 _ st _ pe(1) acc1 p]) (use e1 e in \<open>simp_all add: e1'\<close>)
  have ent: "entries db' = AList.update (next_id db) e' (entries db)" by (simp add: db' db1 db0_def update_last)
  have bal: "posted_balance db' a = posted_balance db a + (debit_on lns a - credit_on lns a)" for a
    using table_sum_new[OF fresh_entry[OF inv], of "\<lambda>_ e. if e_status e = Posted then debit_on (e_lines e) a - credit_on (e_lines e) a else 0" e']
      credit_on_core[OF l(3), of a]
    by (simp add: posted_balance_def ent e' e1')
  show thesis
  proof (rule that)
    show "eid = next_id db" by (rule eid)
    show "map_of (entries db') eid = Some e'" by (simp add: ent eid dict_simps)
    show "map core (e_lines e') = map core lns" using l(3) by (simp add: e' e1')
    show "balanced lns" using l(1) balanced_core[OF l(3)] by simp
    show "settlements db' = settlements db @ plan_settlements eid (e_booking_date e) ps"
      using post_settlements[OF po st] by (simp add: eid e1' ps' db1 db0_def)
    show "map_of (items db') iid = Some i" if "map_of (items db) iid = Some i" for iid i
      using that by (simp add: db' db1 db0_def map_add_def)
    show "e_reversed_by e' = None" using e(2) by (simp add: draft_ok_def e' e1')
  qed (use e inv' bal in \<open>simp_all add: e' e1' ent eid dict_simps db' db1 db0_def\<close>)
qed

text \<open>The stages of a successful booking.\<close>

definition is_transfer :: "pair_info option \<Rightarrow> bool" where
  "is_transfer pair = (case pair of None \<Rightarrow> False | Some q \<Rightarrow> \<not> q_elsewhere q)"

lemma book_payment_stages:
  assumes "book_payment E s k t setts counter user note discount = Inr (s', eid)"
  obtains pair lid g bank per ps assigned counter' per' rest db'
  where "case y_pair t of None \<Rightarrow> pair = None | Some p \<Rightarrow> \<exists>q. transfer_partner E s k t p = Inr q \<and> pair = Some q"
    and "bookable s t pair counter = Inr ()" and "ledger_for E (book s) t = Inr (lid, g, bank)"
    and "check_pair pair bank setts discount counter = Inr ()"
    and "foldr_res (take_settlement (book s) lid) ([], [], 0) setts = Inr (per, ps, assigned)"
    and "assigned \<le> \<bar>y_amount t\<bar> + discount" and "0 < discount \<Longrightarrow> counter \<noteq> None"
    and "place_rest E (book s) lid per (\<bar>y_amount t\<bar> + discount - assigned) discount setts counter note = Inr (counter', per', rest)"
    and "personal_accounts (book s) per' = Inr ()"
    and "post_new (book s) lid g (payment_entry lid t (payment_kind t (is_transfer pair)) user)
           (payment_lines bank t per' counter' discount rest) ps user = Inr (db', eid)"
    and "s' = mark_booked (s\<lparr>book := db', entry_tx := AList.update eid k (entry_tx s)\<rparr>) k t pair (is_transfer pair) eid"
  using assms unfolding book_payment_def Let_def is_transfer_def
  by (cases "y_pair t") (force simp: res_simps not_less split: if_splits)+

lemma take_settlement_iff:
  "take_settlement db lid (per, ps, n) (i, v) = Inr st \<longleftrightarrow>
   (\<exists>r. map_of (items db) i = Some r \<and> i_ledger r = lid \<and>
      st = (AList.update (i_account r) (dict_get per (i_account r) 0 + v) per, ps @ [\<lparr>p_item = i, p_amount = v\<rparr>], n + v))"
  by (auto simp: take_settlement_def res_simps)

lemma take_settlements:
  "foldr_res (take_settlement db lid) (per, ps, n) setts = Inr (per', ps', n') \<Longrightarrow>
   ps' = ps @ map (\<lambda>(i, v). \<lparr>p_item = i, p_amount = v\<rparr>) setts \<and>
   (\<forall>(i, v) \<in> set setts. \<exists>r. map_of (items db) i = Some r \<and> i_ledger r = lid) \<and>
   (\<forall>a \<in> fst ` set per'. a \<in> fst ` set per \<or> (\<exists>(i, v) \<in> set setts. \<exists>r. map_of (items db) i = Some r \<and> i_account r = a))"
proof (induction setts arbitrary: per ps n)
  case (Cons x setts)
  obtain i v where x: "x = (i, v)" by force
  from Cons.prems obtain r where r: "map_of (items db) i = Some r" "i_ledger r = lid"
    and rest: "foldr_res (take_settlement db lid) (AList.update (i_account r) (dict_get per (i_account r) 0 + v) per,
      ps @ [\<lparr>p_item = i, p_amount = v\<rparr>], n + v) setts = Inr (per', ps', n')"
    by (auto simp: x take_settlement_iff bindr_eq_Inr)
  show ?case using Cons.IH[OF rest] r by (auto simp: x fst_update)
qed auto

lemma place_rest_keys:
  assumes "place_rest E db lid per rest discount setts counter note = Inr (counter', per', rest')"
  shows "map fst per' = map fst per"
    and "counter' \<noteq> counter \<Longrightarrow> counter = None \<and> counter' = tenant_clearing_account E db lid"
  using assms unfolding place_rest_def Let_def
  by (auto simp: res_simps split: if_splits list.splits option.splits)

text \<open>What the lines of a payment move on an account: the bank account by the amount of the transaction, the
  accounts of the settled items by what they get, the counter account by discount and rest.\<close>

definition direction :: "bank_tx \<Rightarrow> dec" where
  "direction t = (if 0 < y_amount t then 1 else - 1)"

definition moved_on :: "line list \<Rightarrow> uid \<Rightarrow> dec" where
  "moved_on lns a = debit_on lns a - credit_on lns a"

lemma moved_on_simps [simp]:
  "moved_on [] a = 0"
  "moved_on (row # lns) a = (if l_account row = a then l_debit row - l_credit row else 0) + moved_on lns a"
  "moved_on (lns @ lns') a = moved_on lns a + moved_on lns' a"
  by (simp_all add: moved_on_def debit_on_def credit_on_def)

lemma moved_on_money: "moved_on (money_line b d v # lns) a = (if b = a then if d then v else - v else 0) + moved_on lns a"
  by (simp add: money_line_def)

definition part_of :: "(uid, dec) dict \<Rightarrow> uid \<Rightarrow> dec" where
  "part_of per a = sum_list (map snd (filter (\<lambda>p. fst p = a) per))"

lemma part_of_none: "a \<notin> fst ` set per \<Longrightarrow> part_of per a = 0"
  by (induction per) (auto simp: part_of_def)

lemma payment_lines_moved:
  "moved_on (payment_lines bank t per counter discount rest) a =
     (if a = bank then y_amount t else 0) - direction t * part_of per a +
     (if counter = Some a then direction t * (max 0 discount - max 0 rest) else 0)"
proof -
  have per: "moved_on (map (\<lambda>(a, v). money_line a (\<not> 0 < y_amount t) v) per) a = - direction t * part_of per a"
    by (induction per) (auto simp: moved_on_money part_of_def direction_def algebra_simps simp del: moved_on_simps(2))
  show ?thesis
    by (cases counter)
      (auto simp: payment_lines_def Let_def moved_on_money per direction_def max_def simp del: moved_on_simps(2))
qed

text \<open>The booked transaction carries the new entry, and so does the other half of a transfer that is not
  ignored; every other transaction stays as it was.\<close>

lemma mark_booked_txs:
  "map_of (txs (mark_booked s k t pair transfer eid)) j =
     (case pair of
        Some q \<Rightarrow> if transfer \<and> y_status (q_partner q) \<noteq> Tx_Ignored \<and> j = q_id q
          then Some ((q_partner q)\<lparr>y_status := Tx_Booked, y_entry := Some eid\<rparr>)
          else if j = k then Some (t\<lparr>y_status := Tx_Booked, y_entry := Some eid\<rparr>) else map_of (txs s) j
      | None \<Rightarrow> if j = k then Some (t\<lparr>y_status := Tx_Booked, y_entry := Some eid\<rparr>) else map_of (txs s) j)"
  by (auto simp: mark_booked_def put_tx_def Let_def dict_simps split: option.split)

lemma mark_booked_other [simp]:
  "book (mark_booked s k t pair transfer eid) = book s"
  "entry_tx (mark_booked s k t pair transfer eid) = entry_tx s"
  "batches (mark_booked s k t pair transfer eid) = batches s"
  "statements (mark_booked s k t pair transfer eid) = statements s"
  by (auto simp: mark_booked_def put_tx_def Let_def split: option.split)

lemma book_payment_effect:
  assumes bp: "book_payment E s k t setts counter user note discount = Inr (s', eid)" and inv: "ledger_inv (book s)"
  obtains pair lid g bank per counter' rest e'
  where "case y_pair t of None \<Rightarrow> pair = None | Some p \<Rightarrow> \<exists>q. transfer_partner E s k t p = Inr q \<and> pair = Some q"
    and "bookable s t pair counter = Inr ()" and "ledger_for E (book s) t = Inr (lid, g, bank)"
    and "\<forall>(i, v) \<in> set setts. \<exists>r. map_of (items (book s)) i = Some r \<and> i_ledger r = lid"
    and "\<forall>a \<in> fst ` set per. (\<exists>(i, v) \<in> set setts. \<exists>r. map_of (items (book s)) i = Some r \<and> i_account r = a) \<and>
      (\<forall>r. map_of (accounts (book s)) a = Some r \<longrightarrow> a_category r \<in> {Cat_Debtor, Cat_Creditor})"
    and "counter' = counter \<or> counter = None \<and> counter' = tenant_clearing_account E (book s) lid"
    and "eid = next_id (book s)" and "map_of (entries (book s')) eid = Some e'" and "e_status e' = Posted"
    and "e_ledger e' = lid" and "e_kind e' = payment_kind t (is_transfer pair)" and "e_reversed_by e' = None"
    and "map core (e_lines e') = map core (payment_lines bank t per counter' discount rest)"
    and "ledger_inv (book s')"
    and "settlements (book s') = settlements (book s) @
      plan_settlements eid (y_booking_date t) (map (\<lambda>(i, v). \<lparr>p_item = i, p_amount = v\<rparr>) setts)"
    and "\<And>j. j \<noteq> eid \<Longrightarrow> map_of (entries (book s')) j = map_of (entries (book s)) j"
    and "\<And>iid i. map_of (items (book s)) iid = Some i \<Longrightarrow> map_of (items (book s')) iid = Some i"
    and "\<And>a. posted_balance (book s') a = posted_balance (book s) a + moved_on (payment_lines bank t per counter' discount rest) a"
    and "orders (book s') = orders (book s)" and "approvals (book s') = approvals (book s)"
    and "entry_tx s' = AList.update eid k (entry_tx s)" and "batches s' = batches s" and "statements s' = statements s"
    and "txs s' = txs (mark_booked s k t pair (is_transfer pair) eid)"
proof -
  from bp obtain pair lid g bank per ps assigned counter' per' rest db'
    where st: "case y_pair t of None \<Rightarrow> pair = None | Some p \<Rightarrow> \<exists>q. transfer_partner E s k t p = Inr q \<and> pair = Some q"
      "bookable s t pair counter = Inr ()" "ledger_for E (book s) t = Inr (lid, g, bank)"
      and per: "foldr_res (take_settlement (book s) lid) ([], [], 0) setts = Inr (per, ps, assigned)"
      and rest: "place_rest E (book s) lid per (\<bar>y_amount t\<bar> + discount - assigned) discount setts counter note = Inr (counter', per', rest)"
      and pa: "personal_accounts (book s) per' = Inr ()"
      and new: "post_new (book s) lid g (payment_entry lid t (payment_kind t (is_transfer pair)) user)
           (payment_lines bank t per' counter' discount rest) ps user = Inr (db', eid)"
      and s': "s' = mark_booked (s\<lparr>book := db', entry_tx := AList.update eid k (entry_tx s)\<rparr>) k t pair (is_transfer pair) eid"
    by (rule book_payment_stages) blast
  note ts = take_settlements[OF per] and pr = place_rest_keys[OF rest]
  have keys: "fst ` set per' = fst ` set per" using pr(1) by (metis image_set)
  have d: "e_ledger (payment_entry lid t kd user) = lid" "draft_ok (payment_entry lid t kd user)" if "kd \<noteq> K_Reversal" for kd
    using that by (simp_all add: payment_entry_def draft_ok_def)
  have kd: "payment_kind t (is_transfer pair) \<noteq> K_Reversal" by (simp add: payment_kind_def)
  have book: "book s' = db'" by (simp add: s')
  have txs: "txs s' = txs (mark_booked s k t pair (is_transfer pair) eid)"
    by (auto simp: s' mark_booked_def put_tx_def Let_def split: option.split)
  have other: "entry_tx s' = AList.update eid k (entry_tx s)" "batches s' = batches s" "statements s' = statements s" by (simp_all add: s')
  have pers: "\<forall>a \<in> fst ` set per'. (\<exists>(i, v) \<in> set setts. \<exists>r. map_of (items (book s)) i = Some r \<and> i_account r = a) \<and>
      (\<forall>r. map_of (accounts (book s)) a = Some r \<longrightarrow> a_category r \<in> {Cat_Debtor, Cat_Creditor})"
  proof (intro ballI conjI allI impI)
    fix a assume a: "a \<in> fst ` set per'"
    then show "\<exists>(i, v) \<in> set setts. \<exists>r. map_of (items (book s)) i = Some r \<and> i_account r = a"
      using ts keys by auto
    fix r assume "map_of (accounts (book s)) a = Some r"
    with a pa show "a_category r \<in> {Cat_Debtor, Cat_Creditor}"
      by (force simp: personal_accounts_def list_all_iff)
  qed
  have ps: "ps = map (\<lambda>(i, v). \<lparr>p_item = i, p_amount = v\<rparr>) setts"
    and its: "\<forall>(i, v) \<in> set setts. \<exists>r. map_of (items (book s)) i = Some r \<and> i_ledger r = lid" using ts by auto
  have ctr: "counter' = counter \<or> counter = None \<and> counter' = tenant_clearing_account E (book s) lid" using pr(2) by blast
  have pe: "e_booking_date (payment_entry lid t kd user) = y_booking_date t" "e_kind (payment_entry lid t kd user) = kd" for kd
    by (simp_all add: payment_entry_def)
  from new inv d[OF kd] obtain e' where "eid = next_id (book s)" "map_of (entries db') eid = Some e'" "e_status e' = Posted"
    "e_ledger e' = lid" "e_kind e' = payment_kind t (is_transfer pair)" "e_reversed_by e' = None"
    "map core (e_lines e') = map core (payment_lines bank t per' counter' discount rest)" "ledger_inv db'"
    "settlements db' = settlements (book s) @ plan_settlements eid (y_booking_date t) ps"
    "\<And>j. j \<noteq> eid \<Longrightarrow> map_of (entries db') j = map_of (entries (book s)) j"
    "\<And>iid i. map_of (items (book s)) iid = Some i \<Longrightarrow> map_of (items db') iid = Some i"
    "\<And>a. posted_balance db' a = posted_balance (book s) a + moved_on (payment_lines bank t per' counter' discount rest) a"
    "orders db' = orders (book s)" "approvals db' = approvals (book s)"
    by (rule post_new_effect) (auto simp: pe moved_on_def)
  then show thesis
    by (intro that[OF st its pers ctr]) (auto simp: book ps txs other)
qed

end
