(* ===== verification/BankImport.thy ===== *)
theory BankImport
  imports Banking
begin

text \<open>
  The import of bank statements and their reconciliation (\<open>mhvp/banking/services.py\<close>). The parsed file is
  the input; the account is found by its IBAN, a transaction with a known bank reference is skipped, one with
  the content of a stored one and no reference goes to review, and the two halves of a transfer between own
  accounts are linked.
\<close>

definition TRANSFER_WINDOW_DAYS :: int where "TRANSFER_WINDOW_DAYS = 5"

section \<open>Linking transfers\<close>

definition is_partner :: "bank_tx \<Rightarrow> uid \<Rightarrow> string \<Rightarrow> bank_tx \<Rightarrow> bool" where
  "is_partner t other own_fp r \<longleftrightarrow>
     y_bank r = other \<and> y_amount r = - y_amount t \<and> y_pair r = None \<and> y_counterpart r = Some own_fp \<and>
     \<bar>day_diff (y_booking_date r) (y_booking_date t)\<bar> \<le> TRANSFER_WINDOW_DAYS"

definition pair_transfer :: "bank_env \<Rightarrow> pay \<Rightarrow> uid \<Rightarrow> bank_tx \<Rightarrow> pay \<times> bool" where
  "pair_transfer E s k t =
     (case y_counterpart t of None \<Rightarrow> (s, False)
      | Some fp \<Rightarrow>
          (case find (\<lambda>(b, a). c_fingerprint a = fp \<and> c_entity a = y_entity t \<and> b \<noteq> y_bank t) (x_banks E) of
             None \<Rightarrow> (s, False)
           | Some (other, _) \<Rightarrow>
               (case map_of (x_banks E) (y_bank t) of None \<Rightarrow> (s, False)
                | Some own \<Rightarrow>
                    (case py_sorted (\<lambda>(_, r). y_booking_date r)
                        (filter (\<lambda>(_, r). is_partner t other (c_fingerprint own) r) (txs s)) of
                       [] \<Rightarrow> (s, False)
                     | (p, r) # _ \<Rightarrow>
                         (put_tx (put_tx s k (t\<lparr>y_pair := Some p\<rparr>)) p (r\<lparr>y_pair := Some k\<rparr>), True)))))"

section \<open>Import\<close>

record import_counts =
  n_new :: nat
  n_duplicates :: nat
  n_possible :: nat
  n_transfers :: nat
  n_statements :: nat

definition known_reference :: "pay \<Rightarrow> uid \<Rightarrow> string option \<Rightarrow> bool" where
  "known_reference s bank ref \<longleftrightarrow>
     ref \<noteq> None \<and> ref \<noteq> Some [] \<and> list_ex (\<lambda>(_, t). y_bank t = bank \<and> y_reference t = ref) (txs s)"

definition tx_of :: "bank_env \<Rightarrow> uid \<Rightarrow> uid \<Rightarrow> bank_account \<Rightarrow> uid \<Rightarrow> uid option \<Rightarrow> raw_tx \<Rightarrow> bank_tx" where
  "tx_of E tenant bank a st same raw =
     \<lparr>y_tenant = tenant, y_bank = bank, y_entity = c_entity a, y_statement = Some st, y_reference = f_reference raw,
      y_booking_date = f_booking_date raw, y_value_date = f_value_date raw, y_amount = f_amount raw,
      y_counterpart = (case f_iban raw of None \<Rightarrow> None | Some i \<Rightarrow> if i = [] then None else Some (x_fingerprint E i)),
      y_e2e = f_e2e raw, y_hash = x_content E (c_fingerprint a) raw, y_duplicate = same, y_pair = None,
      y_status = (if same \<noteq> None \<and> f_reference raw = None then Tx_Needs_Review else Tx_New), y_entry = None\<rparr>"

definition import_tx ::
  "bank_env \<Rightarrow> uid \<Rightarrow> uid \<Rightarrow> bank_account \<Rightarrow> uid \<Rightarrow> pay \<times> import_counts \<Rightarrow> raw_tx \<Rightarrow> pay \<times> import_counts" where
  "import_tx E tenant bank a st = (\<lambda>(s, n) raw.
     if known_reference s bank (f_reference raw) then (s, n\<lparr>n_duplicates := n_duplicates n + 1\<rparr>)
     else
       let same = map_option fst (find (\<lambda>(_, t). y_bank t = bank \<and> y_hash t = x_content E (c_fingerprint a) raw) (txs s));
           k = next_id (book s); t = tx_of E tenant bank a st same raw;
           (s', paired) = pair_transfer E (put_tx (s\<lparr>book := (book s)\<lparr>next_id := k + 1\<rparr>\<rparr>) k t) k t
       in (s', n\<lparr>n_new := n_new n + 1, n_possible := n_possible n + (if same \<noteq> None then 1 else 0),
             n_transfers := n_transfers n + (if paired then 1 else 0)\<rparr>))"

text \<open>The statement row of a file: the stored one with this reference, or a new one. \<open>run\<close> is the text
  form of the id of the import run.\<close>

definition find_statement ::
  "pay \<Rightarrow> uid \<Rightarrow> string \<Rightarrow> raw_statement \<Rightarrow> import_counts \<Rightarrow> (pay \<times> import_counts) \<times> uid" where
  "find_statement s bank run st n =
     (case (if r_ref st = [] then None
            else find (\<lambda>(_, w). w_bank w = bank \<and> w_ref w = r_ref st) (statements s)) of
        Some (w, _) \<Rightarrow> ((s, n), w)
      | None \<Rightarrow>
          (let k = next_id (book s) in
           ((s\<lparr>book := (book s)\<lparr>next_id := k + 1\<rparr>, statements := AList.update k
               \<lparr>w_bank = bank, w_ref = (if r_ref st = [] then ''run-'' @ run else r_ref st), w_from = r_from st, w_to = r_to st,
                w_opening = r_opening st, w_closing = r_closing st,
                w_closing_date = (case r_closing_date st of None \<Rightarrow> r_to st | Some d \<Rightarrow> Some d)\<rparr> (statements s)\<rparr>,
             n\<lparr>n_statements := n_statements n + 1\<rparr>), k)))"

definition import_statement ::
  "bank_env \<Rightarrow> uid \<Rightarrow> string \<Rightarrow> pay \<times> import_counts \<Rightarrow> raw_statement \<Rightarrow> (pay \<times> import_counts) res" where
  "import_statement E tenant run = (\<lambda>(s, n) st.
     case find (\<lambda>(_, a). c_fingerprint a = x_fingerprint E (r_iban st)) (x_banks E) of
       None \<Rightarrow> Inl Validation
     | Some (bank, a) \<Rightarrow>
         (case find_statement s bank run st n of (sn, w) \<Rightarrow>
            Inr (foldl (import_tx E tenant bank a w) sn (r_txs st))))"

definition import_file :: "bank_env \<Rightarrow> pay \<Rightarrow> uid \<Rightarrow> string \<Rightarrow> raw_statement list \<Rightarrow> (pay \<times> import_counts) res" where
  "import_file E s tenant run parsed =
     foldr_res (import_statement E tenant run)
       (s, \<lparr>n_new = 0, n_duplicates = 0, n_possible = 0, n_transfers = 0, n_statements = 0\<rparr>) parsed"

section \<open>What an import changes\<close>

text \<open>Ids of rows are drawn from the counter.\<close>

definition tx_ids :: "pay \<Rightarrow> bool" where
  "tx_ids s \<longleftrightarrow> distinct (map fst (txs s)) \<and> (\<forall>k \<in> fst ` set (txs s). k < next_id (book s)) \<and>
     distinct (map fst (statements s)) \<and> (\<forall>k \<in> fst ` set (statements s). k < next_id (book s))"

text \<open>Stored transactions keep everything but their partner, stored statements everything.\<close>

definition same_tx :: "bank_tx \<Rightarrow> bank_tx \<Rightarrow> bool" where
  "same_tx t t' \<longleftrightarrow> (\<exists>p. t' = t\<lparr>y_pair := p\<rparr>)"

lemma same_tx_refl: "same_tx t t"
  unfolding same_tx_def by (rule exI[of _ "y_pair t"]) simp

lemma same_tx_trans: "same_tx a b \<Longrightarrow> same_tx b c \<Longrightarrow> same_tx a c"
  by (auto simp: same_tx_def)

lemma same_tx_pair [simp]: "same_tx t (t\<lparr>y_pair := p\<rparr>)"
  by (auto simp: same_tx_def)

lemma same_tx_fields:
  assumes "same_tx t t'"
  shows "y_bank t' = y_bank t" "y_reference t' = y_reference t" "y_amount t' = y_amount t" "y_entity t' = y_entity t"
    "y_entry t' = y_entry t" "y_status t' = y_status t" "y_tenant t' = y_tenant t"
  using assms by (auto simp: same_tx_def)

definition keeps :: "pay \<Rightarrow> pay \<Rightarrow> bool" where
  "keeps s s' \<longleftrightarrow>
     (\<forall>j t. map_of (txs s) j = Some t \<longrightarrow> (\<exists>t'. map_of (txs s') j = Some t' \<and> same_tx t t')) \<and>
     (\<forall>j w. map_of (statements s) j = Some w \<longrightarrow> map_of (statements s') j = Some w)"

lemma keeps_refl: "keeps s s"
  unfolding keeps_def using same_tx_refl by blast

lemma keeps_trans: "keeps a b \<Longrightarrow> keeps b c \<Longrightarrow> keeps a c"
  unfolding keeps_def by (meson same_tx_trans)

lemma known_reference_iff:
  assumes "distinct (map fst (txs s))"
  shows "known_reference s bank ref \<longleftrightarrow>
    ref \<noteq> None \<and> ref \<noteq> Some [] \<and> (\<exists>k t. map_of (txs s) k = Some t \<and> y_bank t = bank \<and> y_reference t = ref)"
  using assms by (auto simp: known_reference_def list_ex_iff)

lemma keeps_known:
  assumes "keeps s s'" and "distinct (map fst (txs s))" and "distinct (map fst (txs s'))" and "known_reference s bank ref"
  shows "known_reference s' bank ref"
  using assms unfolding known_reference_iff[OF assms(2)] known_reference_iff[OF assms(3)] keeps_def
  by (metis same_tx_fields(1,2))

text \<open>A transfer is linked with a free transaction of the opposite amount on another account.\<close>

lemma pair_transfer_effect:
  assumes pt: "pair_transfer E s k t = (s', b)" and d: "distinct (map fst (txs s))" and banks: "distinct (map fst (x_banks E))"
  shows "(\<not> b \<and> s' = s) \<or> (b \<and> (\<exists>p r a. map_of (txs s) p = Some r \<and> y_pair r = None \<and> y_amount r = - y_amount t \<and>
      y_bank r \<noteq> y_bank t \<and> map_of (x_banks E) (y_bank r) = Some a \<and> c_entity a = y_entity t \<and>
      s' = put_tx (put_tx s k (t\<lparr>y_pair := Some p\<rparr>)) p (r\<lparr>y_pair := Some k\<rparr>)))"
proof (cases b)
  case False
  then show ?thesis using pt by (auto simp: pair_transfer_def split: option.splits list.splits)
next
  case True
  obtain fp where fp: "y_counterpart t = Some fp" using pt True by (cases "y_counterpart t") (auto simp: pair_transfer_def)
  let ?o = "find (\<lambda>(b, a). c_fingerprint a = fp \<and> c_entity a = y_entity t \<and> b \<noteq> y_bank t) (x_banks E)"
  obtain other a where o': "?o = Some (other, a)" using pt True fp by (cases ?o) (auto simp: pair_transfer_def)
  obtain own where own: "map_of (x_banks E) (y_bank t) = Some own"
    using pt True fp o' by (cases "map_of (x_banks E) (y_bank t)") (auto simp: pair_transfer_def)
  let ?l = "py_sorted (\<lambda>(_, r). y_booking_date r) (filter (\<lambda>(_, r). is_partner t other (c_fingerprint own) r) (txs s))"
  obtain p r rest where l: "?l = (p, r) # rest"
    using pt True fp o' own by (cases ?l) (auto simp: pair_transfer_def)
  have s': "s' = put_tx (put_tx s k (t\<lparr>y_pair := Some p\<rparr>)) p (r\<lparr>y_pair := Some k\<rparr>)"
    using pt fp o' own l by (auto simp: pair_transfer_def)
  from o' have oth: "(other, a) \<in> set (x_banks E)" "c_entity a = y_entity t" "other \<noteq> y_bank t"
    by (auto simp: find_Some_iff in_set_conv_nth)
  have "(p, r) \<in> set (py_sorted (\<lambda>(_, r). y_booking_date r) (filter (\<lambda>(_, r). is_partner t other (c_fingerprint own) r) (txs s)))"
    unfolding l by simp
  then have "map_of (txs s) p = Some r" "is_partner t other (c_fingerprint own) r" using d by auto
  then show ?thesis using True oth banks s' by (auto simp: is_partner_def)
qed

text \<open>One imported transaction: skipped without effect, or stored under a fresh id.\<close>

definition env_ok :: "bank_env \<Rightarrow> bool" where
  "env_ok E \<longleftrightarrow> distinct (map fst (x_banks E))"

lemma import_tx_effect:
  assumes im: "import_tx E tenant bank a st (s, n) raw = (s', n')" and ids: "tx_ids s" and env: "env_ok E"
  shows "tx_ids s'" and "keeps s s'"
    and "f_reference raw \<notin> {None, Some []} \<Longrightarrow> known_reference s' bank (f_reference raw)"
    and "statements s' = statements s"
proof -
  have all: "tx_ids s' \<and> keeps s s' \<and> (f_reference raw \<notin> {None, Some []} \<longrightarrow> known_reference s' bank (f_reference raw)) \<and>
      statements s' = statements s"
  proof (cases "known_reference s bank (f_reference raw)")
    case True
    then show ?thesis using im ids keeps_refl by (auto simp: import_tx_def)
  next
    case False
    define k where "k = next_id (book s)"
    define same where "same = map_option fst (find (\<lambda>(_, t). y_bank t = bank \<and> y_hash t = x_content E (c_fingerprint a) raw) (txs s))"
    define t where "t = tx_of E tenant bank a st same raw"
    have im2: "fst (pair_transfer E (put_tx (s\<lparr>book := (book s)\<lparr>next_id := k + 1\<rparr>\<rparr>) k t) k t) = s'"
      using im False by (auto simp: import_tx_def Let_def same_def k_def t_def split: prod.splits)
    define s1 where "s1 = put_tx (s\<lparr>book := (book s)\<lparr>next_id := k + 1\<rparr>\<rparr>) k t"
    have fresh: "k \<notin> fst ` set (txs s)" using ids by (auto simp: tx_ids_def k_def)
    have t_fields: "y_bank t = bank" "y_reference t = f_reference raw" by (simp_all add: t_def tx_of_def)
    have d1: "distinct (map fst (txs s1))" using ids by (simp add: s1_def put_tx_def tx_ids_def)
    have m1: "map_of (txs s1) j = (if j = k then Some t else map_of (txs s) j)" for j
      by (simp add: s1_def put_tx_def dict_simps)
    have old: "map_of (txs s1) j = Some r" if "map_of (txs s) j = Some r" for j r
      using that fresh m1 by (metis map_of_SomeD fst_conv image_eqI)
    have ids1: "tx_ids s1"
      using ids by (auto simp: tx_ids_def s1_def put_tx_def fst_update k_def less_Suc_eq)
    have k1: "keeps s s1" unfolding keeps_def using old same_tx_refl by (auto simp: s1_def put_tx_def)
    have step: "tx_ids s' \<and> keeps s1 s' \<and> statements s' = statements s1"
    proof -
      obtain b where pt: "pair_transfer E s1 k t = (s', b)" using im2 by (cases "pair_transfer E s1 k t") (simp add: s1_def)
      from pair_transfer_effect[OF pt d1 env[unfolded env_ok_def]] show ?thesis
      proof (elim disjE conjE exE)
        fix p r a'
        assume r: "map_of (txs s1) p = Some r" and s': "s' = put_tx (put_tx s1 k (t\<lparr>y_pair := Some p\<rparr>)) p (r\<lparr>y_pair := Some k\<rparr>)"
        have "tx_ids s'"
          using ids1 r m1[of k] by (auto simp: s' put_tx_def tx_ids_def fst_update dest!: map_of_SomeD)
        moreover have "keeps s1 s'" unfolding keeps_def
          using r same_tx_refl by (auto simp: s' put_tx_def dict_simps m1)
        ultimately show ?thesis by (simp add: s' put_tx_def)
      qed (use ids1 keeps_refl in auto)
    qed
    have "known_reference s' bank (f_reference raw)" if "f_reference raw \<notin> {None, Some []}"
    proof (rule keeps_known[of s1 s'])
      show "known_reference s1 bank (f_reference raw)"
        unfolding known_reference_iff[OF d1] using that m1[of k] t_fields by auto
    qed (use step d1 in \<open>simp_all add: tx_ids_def\<close>)
    moreover have "statements s1 = statements s" by (simp add: s1_def put_tx_def)
    ultimately show ?thesis using step keeps_trans[OF k1] by auto
  qed
  then show "tx_ids s'" "keeps s s'" "f_reference raw \<notin> {None, Some []} \<Longrightarrow> known_reference s' bank (f_reference raw)"
    "statements s' = statements s" by blast+
qed

lemma import_txs_effect:
  assumes "foldl (import_tx E tenant bank a st) (s, n) raws = (s', n')" and "tx_ids s" and "env_ok E"
  shows "tx_ids s' \<and> keeps s s' \<and> statements s' = statements s \<and>
    (\<forall>raw \<in> set raws. f_reference raw \<notin> {None, Some []} \<longrightarrow> known_reference s' bank (f_reference raw))"
  using assms(1,2)
proof (induction raws arbitrary: s n)
  case Nil
  then show ?case using keeps_refl by simp
next
  case (Cons raw raws)
  obtain s1 n1 where one: "import_tx E tenant bank a st (s, n) raw = (s1, n1)" by fastforce
  note e = import_tx_effect[OF one Cons.prems(2) assms(3)]
  have IH: "tx_ids s' \<and> keeps s1 s' \<and> statements s' = statements s1 \<and>
    (\<forall>raw \<in> set raws. f_reference raw \<notin> {None, Some []} \<longrightarrow> known_reference s' bank (f_reference raw))"
    using Cons.IH[OF _ e(1)] Cons.prems(1) one by simp
  moreover have "known_reference s' bank (f_reference raw)" if "f_reference raw \<notin> {None, Some []}"
    by (rule keeps_known[OF _ _ _ e(3)[OF that]]) (use IH e(1) in \<open>simp_all add: tx_ids_def\<close>)
  ultimately show ?case using e(2,4) keeps_trans by auto
qed

text \<open>Nothing of a list with known references is imported again.\<close>

lemma import_txs_known:
  assumes "\<forall>raw \<in> set raws. known_reference s bank (f_reference raw)"
  shows "foldl (import_tx E tenant bank a st) (s, n) raws = (s, n\<lparr>n_duplicates := n_duplicates n + length raws\<rparr>)"
  using assms by (induction raws arbitrary: n) (simp_all add: import_tx_def)

definition statement_of :: "pay \<Rightarrow> uid \<Rightarrow> string \<Rightarrow> (uid \<times> bank_statement) option" where
  "statement_of s bank ref = find (\<lambda>(_, w). w_bank w = bank \<and> w_ref w = ref) (statements s)"

text \<open>All of a statement is known: its row and the reference of every transaction.\<close>

definition imported :: "bank_env \<Rightarrow> pay \<Rightarrow> raw_statement \<Rightarrow> bool" where
  "imported E s st \<longleftrightarrow>
     (\<exists>bank a. find (\<lambda>(_, a). c_fingerprint a = x_fingerprint E (r_iban st)) (x_banks E) = Some (bank, a) \<and>
        (\<exists>k w. map_of (statements s) k = Some w \<and> w_bank w = bank \<and> w_ref w = r_ref st) \<and>
        (\<forall>raw \<in> set (r_txs st). known_reference s bank (f_reference raw)))"

lemma keeps_imported:
  assumes "imported E s st" and "keeps s s'" and "tx_ids s" and "tx_ids s'"
  shows "imported E s' st"
  using assms keeps_known[OF assms(2)] unfolding imported_def tx_ids_def keeps_def by metis

definition referenced :: "raw_statement \<Rightarrow> bool" where
  "referenced st \<longleftrightarrow> r_ref st \<noteq> [] \<and> (\<forall>raw \<in> set (r_txs st). f_reference raw \<notin> {None, Some []})"

lemma import_statement_effect:
  assumes im: "import_statement E tenant run (s, n) st = Inr (s', n')" and ids: "tx_ids s" and env: "env_ok E"
  shows "tx_ids s'" and "keeps s s'" and "referenced st \<Longrightarrow> imported E s' st"
proof -
  from im obtain bank a where f: "find (\<lambda>(_, a). c_fingerprint a = x_fingerprint E (r_iban st)) (x_banks E) = Some (bank, a)"
    by (auto simp: import_statement_def split: option.splits)
  obtain s1 n1 w where fs: "find_statement s bank run st n = ((s1, n1), w)" by (metis prod.collapse)
  with im f have fold: "foldl (import_tx E tenant bank a w) (s1, n1) (r_txs st) = (s', n')"
    by (simp add: import_statement_def)
  have 1: "tx_ids s1 \<and> keeps s s1 \<and> (r_ref st \<noteq> [] \<longrightarrow> (\<exists>k w. map_of (statements s1) k = Some w \<and> w_bank w = bank \<and> w_ref w = r_ref st))"
  proof (cases "if r_ref st = [] then None else find (\<lambda>(_, w). w_bank w = bank \<and> w_ref w = r_ref st) (statements s)")
    case None
    then have s1: "\<exists>r. s1 = s\<lparr>book := (book s)\<lparr>next_id := next_id (book s) + 1\<rparr>,
        statements := AList.update (next_id (book s)) r (statements s)\<rparr> \<and> w_bank r = bank \<and> (r_ref st \<noteq> [] \<longrightarrow> w_ref r = r_ref st)"
      using fs by (auto simp: find_statement_def Let_def)
    then obtain r where s1: "s1 = s\<lparr>book := (book s)\<lparr>next_id := next_id (book s) + 1\<rparr>,
        statements := AList.update (next_id (book s)) r (statements s)\<rparr>" and r: "w_bank r = bank" "r_ref st \<noteq> [] \<longrightarrow> w_ref r = r_ref st"
      by blast
    have "next_id (book s) \<notin> fst ` set (statements s)" using ids by (auto simp: tx_ids_def)
    then have "map_of (statements s1) j = Some v" if "map_of (statements s) j = Some v" for j v
      using that by (auto simp: s1 dict_simps dest: map_of_SomeD) (metis fst_conv image_eqI map_of_SomeD)
    then have "keeps s s1" using same_tx_refl by (auto simp: keeps_def s1)
    moreover have "tx_ids s1" using ids by (auto simp: tx_ids_def s1 fst_update less_Suc_eq)
    ultimately show ?thesis using r by (auto simp: s1 dict_simps)
  next
    case (Some x)
    then have ref: "r_ref st \<noteq> []" and x: "find (\<lambda>(_, w). w_bank w = bank \<and> w_ref w = r_ref st) (statements s) = Some x"
      by (auto split: if_splits)
    have s1: "s1 = s" using fs ref x by (cases x) (auto simp: find_statement_def)
    obtain k v where kv: "x = (k, v)" by (cases x)
    from x have "(k, v) \<in> set (statements s)" "w_bank v = bank" "w_ref v = r_ref st"
      by (auto simp: kv find_Some_iff in_set_conv_nth)
    then have "map_of (statements s) k = Some v" using ids by (simp add: tx_ids_def)
    then show ?thesis using ids keeps_refl \<open>w_bank v = bank\<close> \<open>w_ref v = r_ref st\<close> by (auto simp: s1)
  qed
  note e = import_txs_effect[OF fold _ env]
  show "tx_ids s'" using e 1 by blast
  show "keeps s s'" using e 1 keeps_trans by blast
  show "imported E s' st" if "referenced st"
    using e 1 f that unfolding imported_def referenced_def by metis
qed

lemma import_statement_known:
  assumes "imported E s st" and "tx_ids s" and "r_ref st \<noteq> []"
  shows "import_statement E tenant run (s, n) st = Inr (s, n\<lparr>n_duplicates := n_duplicates n + length (r_txs st)\<rparr>)"
proof -
  from assms(1) obtain bank a k w where f: "find (\<lambda>(_, a). c_fingerprint a = x_fingerprint E (r_iban st)) (x_banks E) = Some (bank, a)"
    and w: "map_of (statements s) k = Some w" "w_bank w = bank" "w_ref w = r_ref st"
    and all: "\<forall>raw \<in> set (r_txs st). known_reference s bank (f_reference raw)"
    unfolding imported_def by blast
  have "find (\<lambda>(_, w). w_bank w = bank \<and> w_ref w = r_ref st) (statements s) \<noteq> None"
    unfolding find_None_iff not_not using w(2,3) map_of_SomeD[OF w(1)] by (auto intro!: bexI[of _ "(k, w)"])
  then obtain k' w' where "find (\<lambda>(_, w). w_bank w = bank \<and> w_ref w = r_ref st) (statements s) = Some (k', w')" by auto
  then have "find_statement s bank run st n = ((s, n), k')" using assms(3) by (simp add: find_statement_def)
  then show ?thesis using f import_txs_known[OF all] by (simp add: import_statement_def)
qed

lemma import_file_effect:
  assumes "foldr_res (import_statement E tenant run) (s, n) parsed = Inr (s', n')" and "tx_ids s" and "env_ok E"
  shows "tx_ids s' \<and> keeps s s' \<and> (\<forall>st \<in> set parsed. referenced st \<longrightarrow> imported E s' st)"
  using assms(1,2)
proof (induction parsed arbitrary: s n)
  case Nil
  then show ?case using keeps_refl by simp
next
  case (Cons st parsed)
  then obtain s1 n1 where one: "import_statement E tenant run (s, n) st = Inr (s1, n1)"
    and rest: "foldr_res (import_statement E tenant run) (s1, n1) parsed = Inr (s', n')" by (auto simp: res_simps)
  note e = import_statement_effect[OF one Cons.prems(2) assms(3)]
  note IH = Cons.IH[OF rest e(1)]
  have "imported E s' st" if "referenced st" using keeps_imported[OF e(3)[OF that]] IH e(1) by blast
  then show ?case using IH keeps_trans[OF e(2)] by auto
qed

lemma import_file_known:
  assumes "\<forall>st \<in> set parsed. imported E s st \<and> r_ref st \<noteq> []" and "tx_ids s"
  shows "foldr_res (import_statement E tenant run) (s, n) parsed =
    Inr (s, n\<lparr>n_duplicates := n_duplicates n + sum_list (map (length \<circ> r_txs) parsed)\<rparr>)"
  using assms by (induction parsed arbitrary: n) (simp_all add: import_statement_known add.assoc)

text \<open>C10: Importing a statement file again has no effect (B08): when the bank gave every statement and every
  transaction a reference, the second import leaves all data as it is and only counts duplicates.\<close>

theorem reimport_no_effect:
  assumes "env_ok E" and "tx_ids s" and "import_file E s tenant run parsed = Inr (s1, n1)"
    and "\<forall>st \<in> set parsed. referenced st"
  shows "import_file E s1 tenant' run' parsed =
    Inr (s1, \<lparr>n_new = 0, n_duplicates = sum_list (map (length \<circ> r_txs) parsed), n_possible = 0, n_transfers = 0, n_statements = 0\<rparr>)"
proof -
  from assms(3) have e: "tx_ids s1 \<and> keeps s s1 \<and> (\<forall>st \<in> set parsed. referenced st \<longrightarrow> imported E s1 st)"
    unfolding import_file_def by (rule import_file_effect[OF _ assms(2,1)])
  then show ?thesis
    unfolding import_file_def using assms(4) by (subst import_file_known) (auto simp: referenced_def)
qed

section \<open>A file to import\<close>

definition bank_world :: bank_env where
  "bank_world = \<lparr>x_entity = [(1, 70)], x_linked = [(12, 50)], x_terms = [], x_clearing = None,
     x_banks = [(50, \<lparr>c_entity = 70, c_fingerprint = ''DE1'', c_holder = ''Estate'', c_iban = ''DE1'', c_bic = None, c_segregated = False\<rparr>)],
     x_fingerprint = (\<lambda>i. i), x_content = (\<lambda>fp raw. fp)\<rparr>"

definition receipt_file :: "raw_statement list" where
  "receipt_file = [\<lparr>r_ref = ''1/2024'', r_iban = ''DE1'', r_from = Some (Date 2024 2 1), r_to = Some (Date 2024 2 29),
     r_opening = Some 0, r_closing = Some 40, r_closing_date = None,
     r_txs = [\<lparr>f_reference = Some ''r1'', f_booking_date = Date 2024 2 7, f_value_date = None, f_amount = 40, f_iban = None,
       f_purpose = None, f_e2e = None\<rparr>]\<rparr>]"

definition bank0 :: pay where
  "bank0 = \<lparr>book = start_db, txs = [], entry_tx = [], statements = [], batches = []\<rparr>"

text \<open>Two statements in a row.\<close>

definition chain_file :: "raw_statement list" where
  "chain_file = receipt_file @ [\<lparr>r_ref = ''2/2024'', r_iban = ''DE1'', r_from = Some (Date 2024 3 1), r_to = Some (Date 2024 3 31),
     r_opening = Some 40, r_closing = Some 15, r_closing_date = Some (Date 2024 3 31),
     r_txs = [\<lparr>f_reference = Some ''r2'', f_booking_date = Date 2024 3 8, f_value_date = None, f_amount = -25, f_iban = None,
       f_purpose = None, f_e2e = None\<rparr>]\<rparr>]"

definition chain_result :: "pay \<times> import_counts" where
  "chain_result = projr (import_file bank_world bank0 9 ''x'' chain_file)"

lemma chain_run: "import_file bank_world bank0 9 ''x'' chain_file = Inr (fst chain_result, snd chain_result)"
proof -
  have "\<not> isl (import_file bank_world bank0 9 ''x'' chain_file)" by code_simp
  then show ?thesis unfolding chain_result_def by (rule projr_pair_step)
qed

theorem reimport_no_effect_witness:
  "import_file bank_world (fst chain_result) 7 ''y'' chain_file =
    Inr (fst chain_result, \<lparr>n_new = 0, n_duplicates = 2, n_possible = 0, n_transfers = 0, n_statements = 0\<rparr>)"
proof -
  have "env_ok bank_world" by (simp add: env_ok_def bank_world_def)
  moreover have "tx_ids bank0" by (simp add: tx_ids_def bank0_def)
  moreover have "\<forall>st \<in> set chain_file. referenced st" by (simp add: chain_file_def receipt_file_def referenced_def)
  moreover have "sum_list (map (length \<circ> r_txs) chain_file) = 2" by (simp add: chain_file_def receipt_file_def)
  ultimately show ?thesis using reimport_no_effect[OF _ _ chain_run, of 7 "''y''"] by metis
qed

end
