(* ===== verification/Reconcile.thy ===== *)
theory Reconcile
  imports BankImport
begin

text \<open>
  The reconciliation of bank statements (\<open>reconcile\<close>, \<open>_chain_check\<close> and
  \<open>_statement_status\<close> in \<open>mhvp/banking/services.py\<close>): per statement opening plus movements
  against closing, the ledger balance of the linked account on the closing day by either date, and the chain from
  statement to statement. \<open>created_at\<close>, the last sort key, is the order of the table.
\<close>

record chain_check =
  z_chain_status :: string
  z_chain_difference :: "dec option"
  z_period_status :: string
  z_gap_from :: "date option"
  z_gap_to :: "date option"

record recon_row = chain_check +
  z_statement :: uid
  z_opening :: "dec option"
  z_movements :: dec
  z_closing :: "dec option"
  z_difference :: "dec option"
  z_ledger_balance :: "dec option"
  z_ledger_difference :: "dec option"
  z_ledger_status :: string
  z_timing :: "dec option"
  z_status :: string

definition first_set :: "'a option \<Rightarrow> 'a option \<Rightarrow> 'a option" where
  "first_set a b = (case a of None \<Rightarrow> b | Some x \<Rightarrow> Some x)"

definition chain_of :: "bank_statement option \<Rightarrow> bank_statement \<Rightarrow> chain_check" where
  "chain_of prev st =
     (case prev of
        None \<Rightarrow> \<lparr>z_chain_status = ''first'', z_chain_difference = None, z_period_status = ''first'', z_gap_from = None, z_gap_to = None\<rparr>
      | Some p \<Rightarrow>
          let diff = (case (w_closing p, w_opening st) of (Some c, Some v) \<Rightarrow> Some (v - c) | _ \<Rightarrow> None);
              prev_end = first_set (w_to p) (w_closing_date p)
          in \<lparr>z_chain_status = (case diff of None \<Rightarrow> ''not_checkable'' | Some d \<Rightarrow> if d = 0 then ''ok'' else ''break''),
              z_chain_difference = diff,
              z_period_status = (case (prev_end, w_from st) of
                  (Some e, Some f) \<Rightarrow> if next_day e < f then ''gap'' else if f \<le> e then ''overlap'' else ''ok''
                | _ \<Rightarrow> ''not_checkable''),
              z_gap_from = (case (prev_end, w_from st) of
                  (Some e, Some f) \<Rightarrow> if next_day e < f then Some (next_day e) else None | _ \<Rightarrow> None),
              z_gap_to = (case (prev_end, w_from st) of
                  (Some e, Some f) \<Rightarrow> if next_day e < f then Some (prev_day f) else None | _ \<Rightarrow> None)\<rparr>)"

definition statement_status :: "dec option \<Rightarrow> dec option \<Rightarrow> string" where
  "statement_status difference ledger_difference =
     (case difference of
        None \<Rightarrow> ''not_checkable''
      | Some d \<Rightarrow> if d \<noteq> 0 \<or> (ledger_difference \<noteq> None \<and> ledger_difference \<noteq> Some 0) then ''difference'' else ''ok'')"

text \<open>The day of an entry on the statement: the first booking date of the transactions that carry it.\<close>

definition bank_day :: "pay \<Rightarrow> uid \<Rightarrow> date option" where
  "bank_day s eid =
     (case map (y_booking_date \<circ> snd) (filter (\<lambda>(_, t). y_entry t = Some eid) (txs s)) of
        [] \<Rightarrow> None | d # ds \<Rightarrow> Some (foldl min d ds))"

definition ledger_balance :: "pay \<Rightarrow> uid \<Rightarrow> date \<Rightarrow> bool \<Rightarrow> dec" where
  "ledger_balance s account cutoff by_bank =
     sum_list (map (\<lambda>(i, e). sum_list (map (\<lambda>row. if l_account row = account then l_debit row - l_credit row else 0) (e_lines e)))
       (filter (\<lambda>(i, e). e_status e = Posted \<and>
          (if by_bank then case bank_day s i of None \<Rightarrow> e_booking_date e | Some d \<Rightarrow> d else e_booking_date e) \<le> cutoff)
        (entries (book s))))"

definition nulls_last :: "date option \<Rightarrow> bool \<times> date" where
  "nulls_last d = (case d of None \<Rightarrow> (True, Date 1 1 1) | Some x \<Rightarrow> (False, x))"

definition RECONCILIATION_BASES :: "string list" where
  "RECONCILIATION_BASES = [''booking_date'', ''bank_date'']"

definition movements :: "pay \<Rightarrow> uid \<Rightarrow> dec" where
  "movements s st = sum_list (map (y_amount \<circ> snd) (filter (\<lambda>(_, t). y_statement t = Some st) (txs s)))"

definition recon_row_of ::
  "pay \<Rightarrow> uid list \<Rightarrow> string \<Rightarrow> bank_statement option \<Rightarrow> uid \<times> bank_statement \<Rightarrow> recon_row" where
  "recon_row_of s linked basis prev kst =
     (case kst of (k, st) \<Rightarrow>
       let chain = chain_of prev st; moved = movements s k;
           difference = (case (w_opening st, w_closing st) of (Some v, Some c) \<Rightarrow> Some (c - (v + moved)) | _ \<Rightarrow> None);
           ledger = (case (linked, w_closing_date st, w_closing st) of
               ([a], Some d, Some c) \<Rightarrow>
                 let by_booking = ledger_balance s a d False; by_bank = ledger_balance s a d True;
                     bal = (if basis = ''bank_date'' then by_bank else by_booking)
                 in (Some bal, Some (c - bal), Some (by_bank - by_booking))
             | _ \<Rightarrow> (None, None, None))
       in \<lparr>z_chain_status = z_chain_status chain, z_chain_difference = z_chain_difference chain,
           z_period_status = z_period_status chain, z_gap_from = z_gap_from chain, z_gap_to = z_gap_to chain,
           z_statement = k, z_opening = w_opening st, z_movements = moved, z_closing = w_closing st,
           z_difference = difference, z_ledger_balance = fst ledger, z_ledger_difference = fst (snd ledger),
           z_ledger_status = (case linked of [] \<Rightarrow> ''unlinked'' | [_] \<Rightarrow> ''linked'' | _ \<Rightarrow> ''ambiguous''),
           z_timing = snd (snd ledger), z_status = statement_status difference (fst (snd ledger))\<rparr>)"

fun recon_rows :: "pay \<Rightarrow> uid list \<Rightarrow> string \<Rightarrow> bank_statement option \<Rightarrow> (uid \<times> bank_statement) list \<Rightarrow> recon_row list" where
  "recon_rows s linked basis prev [] = []"
| "recon_rows s linked basis prev (x # xs) = recon_row_of s linked basis prev x # recon_rows s linked basis (Some (snd x)) xs"

definition account_statements :: "pay \<Rightarrow> uid \<Rightarrow> (uid \<times> bank_statement) list" where
  "account_statements s bank =
     py_sorted (\<lambda>(_, w). (nulls_last (first_set (w_closing_date w) (w_to w)), nulls_last (w_from w)))
       (filter (\<lambda>(_, w). w_bank w = bank) (statements s))"

definition reconcile :: "bank_env \<Rightarrow> pay \<Rightarrow> uid \<Rightarrow> string \<Rightarrow> bool \<Rightarrow> recon_row list res" where
  "reconcile E s bank basis strict =
     (if basis \<notin> set RECONCILIATION_BASES then Inl Validation
      else
        let linked = map fst (filter (\<lambda>(a, _). map_of (x_linked E) a = Some bank) (accounts (book s)))
        in if 1 < length linked \<and> strict then Inl Bank_Recon_Account_Ambiguous
           else Inr (recon_rows s linked basis None (account_statements s bank)))"

section \<open>A clean chain\<close>

lemma movements_sum:
  assumes "distinct ks"
  shows "sum_list (map (movements s) ks) =
    sum_list (map (y_amount \<circ> snd) (filter (\<lambda>(_, t). \<exists>k \<in> set ks. y_statement t = Some k) (txs s)))"
  using assms
proof (induction ks)
  case (Cons k ks)
  have "sum_list (map (y_amount \<circ> snd) (filter (\<lambda>(_, t). \<exists>k \<in> set (k # ks). y_statement t = Some k) ts)) =
    sum_list (map (y_amount \<circ> snd) (filter (\<lambda>(_, t). y_statement t = Some k) ts)) +
    sum_list (map (y_amount \<circ> snd) (filter (\<lambda>(_, t). \<exists>k \<in> set ks. y_statement t = Some k) ts))" for ts
    using Cons.prems by (induction ts) auto
  note split = this[of "txs s"]
  have rest: "sum_list (map (movements s) ks) =
      sum_list (map (y_amount \<circ> snd) (filter (\<lambda>(_, t). \<exists>k \<in> set ks. y_statement t = Some k) (txs s)))"
    by (rule Cons.IH) (use Cons.prems in simp)
  show ?case unfolding split list.map sum_list.Cons rest by (simp only: movements_def)
qed simp

lemma recon_row_fields:
  "z_statement (recon_row_of s linked basis prev (k, st)) = k"
  "z_opening (recon_row_of s linked basis prev (k, st)) = w_opening st"
  "z_closing (recon_row_of s linked basis prev (k, st)) = w_closing st"
  "z_movements (recon_row_of s linked basis prev (k, st)) = movements s k"
  "z_chain_status (recon_row_of s linked basis prev (k, st)) = z_chain_status (chain_of prev st)"
  "z_difference (recon_row_of s linked basis prev (k, st)) = Some 0 \<Longrightarrow>
     \<exists>v c. w_opening st = Some v \<and> w_closing st = Some c \<and> c = v + movements s k"
  by (auto simp: recon_row_of_def Let_def split: option.splits)

lemma recon_rows_statements: "map z_statement (recon_rows s linked basis prev xs) = map fst xs"
  by (induction xs arbitrary: prev) (auto simp: recon_row_fields)

lemma chain_ok: "z_chain_status (chain_of (Some p) st) = ''ok'' \<Longrightarrow> w_closing p \<noteq> None \<and> w_opening st = w_closing p"
  by (auto simp: chain_of_def Let_def split: option.splits if_splits)

lemma chain_telescopes:
  assumes "\<forall>r \<in> set (recon_rows s linked basis prev (x # xs)). z_difference r = Some 0"
    and "\<forall>r \<in> set (recon_rows s linked basis (Some (snd x)) xs). z_chain_status r = ''ok''"
  shows "\<exists>v c. w_opening (snd x) = Some v \<and> w_closing (snd (last (x # xs))) = Some c \<and>
    c = v + sum_list (map (movements s) (map fst (x # xs)))"
  using assms
proof (induction xs arbitrary: x prev)
  case Nil
  then show ?case using recon_row_fields(6)[of s linked basis prev "fst x" "snd x"] by simp
next
  case (Cons y ys)
  from Cons.prems(1) obtain v c where x: "w_opening (snd x) = Some v" "w_closing (snd x) = Some c" "c = v + movements s (fst x)"
    using recon_row_fields(6)[of s linked basis prev "fst x" "snd x"] by auto
  have "z_chain_status (chain_of (Some (snd x)) (snd y)) = ''ok''"
    using Cons.prems(2) recon_row_fields(5)[of s linked basis "Some (snd x)" "fst y" "snd y"] by simp
  then have y: "w_opening (snd y) = Some c" using chain_ok x(2) by metis
  have "\<exists>v c. w_opening (snd y) = Some v \<and> w_closing (snd (last (y # ys))) = Some c \<and>
    c = v + sum_list (map (movements s) (map fst (y # ys)))"
    by (rule Cons.IH[of "Some (snd x)"]) (use Cons.prems in simp_all)
  then show ?case using x y by auto
qed

text \<open>C11: A reconciliation without differences accounts for every cent: when every statement of an account closes
  and each opens with the closing balance of the one before, the last closing balance is the first opening balance
  plus all transactions imported with these statements.\<close>

theorem reconciled_chain:
  assumes "reconcile E s bank basis strict = Inr (r # rs)" and "distinct (map fst (statements s))"
    and "\<forall>x \<in> set (r # rs). z_difference x = Some 0" and "\<forall>x \<in> set rs. z_chain_status x = ''ok''"
  shows "\<exists>v c. z_opening r = Some v \<and> z_closing (last (r # rs)) = Some c \<and>
    c = v + sum_list (map (y_amount \<circ> snd)
      (filter (\<lambda>(_, t). \<exists>x \<in> set (r # rs). y_statement t = Some (z_statement x)) (txs s)))"
proof -
  from assms(1) obtain linked where rr: "recon_rows s linked basis None (account_statements s bank) = r # rs"
    by (auto simp: reconcile_def Let_def split: if_splits)
  then obtain x xs where xs: "account_statements s bank = x # xs" by (cases "account_statements s bank") auto
  have parts: "r = recon_row_of s linked basis None x" "rs = recon_rows s linked basis (Some (snd x)) xs"
    using rr by (auto simp: xs)
  have "\<exists>v c. w_opening (snd x) = Some v \<and> w_closing (snd (last (x # xs))) = Some c \<and>
    c = v + sum_list (map (movements s) (map fst (x # xs)))"
    by (rule chain_telescopes[of s linked basis None]) (use assms(3,4) rr in \<open>simp_all add: xs parts\<close>)
  then obtain v c where vc: "w_opening (snd x) = Some v" "w_closing (snd (last (x # xs))) = Some c"
    "c = v + sum_list (map (movements s) (map fst (x # xs)))" by blast
  have dist: "distinct (map fst (x # xs))"
    using assms(2) unfolding xs[symmetric] account_statements_def
    by (simp add: distinct_map inj_on_def)
  have ids: "map fst (x # xs) = map z_statement (r # rs)"
    using recon_rows_statements[of s linked basis None "x # xs"] rr by (simp add: xs)
  have sum: "sum_list (map (movements s) (map fst (x # xs))) = sum_list (map (y_amount \<circ> snd)
      (filter (\<lambda>(_, t). \<exists>x \<in> set (r # rs). y_statement t = Some (z_statement x)) (txs s)))"
    using movements_sum[OF dist, of s] unfolding ids set_map bex_simps .
  have "map z_closing (recon_rows s linked basis p ys) = map (w_closing \<circ> snd) ys" for p ys
    by (induction ys arbitrary: p) (auto simp: recon_row_fields)
  then have "map z_closing (r # rs) = map (w_closing \<circ> snd) (x # xs)" using rr by (metis xs)
  then have "last (map z_closing (r # rs)) = last (map (w_closing \<circ> snd) (x # xs))" by simp
  then have close: "z_closing (last (r # rs)) = w_closing (snd (last (x # xs)))"
    by (simp only: last_map list.distinct not_False_eq_True o_apply)
  have first: "z_opening r = w_opening (snd x)"
    using recon_row_fields(2)[of s linked basis None "fst x" "snd x"] parts by simp
  show ?thesis unfolding close first using vc unfolding sum by blast
qed

definition chain_rows :: "recon_row list" where
  "chain_rows = projr (reconcile bank_world (fst chain_result) 50 ''booking_date'' True)"

theorem reconciled_chain_witness:
  "\<exists>c. z_closing (last chain_rows) = Some c \<and>
    c = 0 + sum_list (map (y_amount \<circ> snd)
      (filter (\<lambda>(_, t). \<exists>x \<in> set chain_rows. y_statement t = Some (z_statement x)) (txs (fst chain_result))))"
proof -
  have ok: "\<not> isl (reconcile bank_world (fst chain_result) 50 ''booking_date'' True)" by code_simp
  have two: "chain_rows \<noteq> []" "z_opening (hd chain_rows) = Some 0" by code_simp+
  have clean: "list_all (\<lambda>x. z_difference x = Some 0) chain_rows" "list_all (\<lambda>x. z_chain_status x = ''ok'') (tl chain_rows)"
    by code_simp+
  have d: "distinct (map fst (statements (fst chain_result)))" by code_simp
  have split: "hd chain_rows # tl chain_rows = chain_rows" using two(1) by simp
  have "reconcile bank_world (fst chain_result) 50 ''booking_date'' True = Inr chain_rows"
    using ok by (cases "reconcile bank_world (fst chain_result) 50 ''booking_date'' True") (simp_all add: chain_rows_def)
  then have r: "reconcile bank_world (fst chain_result) 50 ''booking_date'' True = Inr (hd chain_rows # tl chain_rows)"
    by (simp only: split)
  have c: "\<forall>x \<in> set (hd chain_rows # tl chain_rows). z_difference x = Some 0" "\<forall>x \<in> set (tl chain_rows). z_chain_status x = ''ok''"
    using clean unfolding split by (simp_all add: list_all_iff)
  from reconciled_chain[OF r d c] show ?thesis using two(2) unfolding split by auto
qed

end
