(* ===== verification/BankSteps.thy ===== *)
theory BankSteps
  imports Reconcile Majority
begin

text \<open>
  The life of a bank transaction: import, review of a possible duplicate, ignoring and reopening, booking, and the
  reopening after its posting was reversed (\<open>mhvp/banking/routers.py\<close>,
  \<open>_on_entry_reversed\<close> in \<open>mhvp/banking/events_consumer.py\<close>), between arbitrary steps of the
  ledger. No transaction ever has two postings in force, and the two halves of a transfer stay linked to each
  other.
\<close>

section \<open>Operations\<close>

definition review_tx :: "pay \<Rightarrow> uid \<Rightarrow> bool \<Rightarrow> pay res" where
  "review_tx s k keep =
     bindr (fetch (txs s) k Resource_Not_Found) (\<lambda>t.
       if y_status t \<noteq> Tx_Needs_Review then Inl Conflict
       else Inr (put_tx s k (t\<lparr>y_status := (if keep then Tx_New else Tx_Ignored)\<rparr>)))"

definition ignore_tx :: "pay \<Rightarrow> uid \<Rightarrow> pay res" where
  "ignore_tx s k =
     bindr (fetch (txs s) k Resource_Not_Found) (\<lambda>t.
       if y_entry t \<noteq> None then Inl Conflict else Inr (put_tx s k (t\<lparr>y_status := Tx_Ignored\<rparr>)))"

definition reopen_tx :: "principal \<Rightarrow> pay \<Rightarrow> uid \<Rightarrow> pay res" where
  "reopen_tx p s k =
     bindr (fetch (txs s) k Resource_Not_Found) (\<lambda>t.
     bindr (ensure_legal_entity_allowed (Some p) (y_entity t)) (\<lambda>_.
       if y_status t \<noteq> Tx_Ignored then Inl Conflict
       else if effective_entry (book s) (y_entry t) \<noteq> None then Inl Conflict
       else Inr (put_tx s k (t\<lparr>y_status := Tx_New\<rparr>))))"

text \<open>Every booked transaction that carries a reversed entry is open again.\<close>

definition on_entry_reversed :: "pay \<Rightarrow> uid \<Rightarrow> pay" where
  "on_entry_reversed s eid =
     (case map_of (entries (book s)) eid of
        None \<Rightarrow> s
      | Some e \<Rightarrow>
          if e_status e \<noteq> Posted \<or> e_reversed_by e = None then s
          else s\<lparr>txs := map (\<lambda>(k, t). (k, if y_entry t = Some eid \<and> y_status t = Tx_Booked
             then t\<lparr>y_status := Tx_New\<rparr> else t)) (txs s)\<rparr>)"

text \<open>A movement with a clarification row waits for its evidence (B05): \<open>evidence\<close> is what the row says, if there
  is one.\<close>

definition ensure_booking_allowed :: "bool option \<Rightarrow> unit res" where
  "ensure_booking_allowed evidence = guardr (evidence \<noteq> Some False) Bank_Receipt_Missing"

definition book_route ::
  "bank_env \<Rightarrow> pay \<Rightarrow> bool option \<Rightarrow> uid \<Rightarrow> (uid \<times> dec) list \<Rightarrow> uid option \<Rightarrow> uid option \<Rightarrow> string option \<Rightarrow> dec \<Rightarrow>
   (pay \<times> uid) res" where
  "book_route E s evidence k setts counter user note discount =
     bindr (fetch (txs s) k Resource_Not_Found) (\<lambda>t.
     bindr (ensure_booking_allowed evidence) (\<lambda>_.
       book_payment E s k t setts counter user note discount))"

inductive bank_step :: "bank_env \<Rightarrow> pay \<Rightarrow> pay \<Rightarrow> bool" for E where
  ledger: "ledger_step (book s) db \<Longrightarrow> bank_step E s (s\<lparr>book := db\<rparr>)"
| statement: "import_file E s tenant run parsed = Inr (s', n) \<Longrightarrow> bank_step E s s'"
| review: "review_tx s k keep = Inr s' \<Longrightarrow> bank_step E s s'"
| ignore: "ignore_tx s k = Inr s' \<Longrightarrow> bank_step E s s'"
| reopen: "reopen_tx p s k = Inr s' \<Longrightarrow> bank_step E s s'"
| reversed: "bank_step E s (on_entry_reversed s eid)"
| book: "book_route E s evidence k setts counter user note discount = Inr (s', eid) \<Longrightarrow> bank_step E s s'"

inductive_cases bank_stepE: "bank_step E s s'"

section \<open>The invariant\<close>

text \<open>The posting of a transaction that is in force is the one it carries, the entry of a booked transaction is
  posted, and only a booked transaction carries a posting in force.\<close>

definition in_force :: "db \<Rightarrow> uid \<Rightarrow> bool" where
  "in_force db i \<longleftrightarrow> (\<exists>e. map_of (entries db) i = Some e \<and> e_status e = Posted \<and> e_reversed_by e = None)"

lemma effective_entry_iff: "effective_entry db eid = Some (i, e) \<longleftrightarrow>
    eid = Some i \<and> map_of (entries db) i = Some e \<and> e_status e = Posted \<and> e_reversed_by e = None"
  by (auto simp: effective_entry_def split: option.splits)

lemma effective_entry_None: "effective_entry db eid = None \<longleftrightarrow> (\<forall>i. eid = Some i \<longrightarrow> \<not> in_force db i)"
  by (auto simp: effective_entry_def in_force_def split: option.splits)

definition postings_ok :: "pay \<Rightarrow> bool" where
  "postings_ok s \<longleftrightarrow>
     (\<forall>i k. map_of (entry_tx s) i = Some k \<longrightarrow>
        (\<exists>e. map_of (entries (book s)) i = Some e \<and> e_status e = Posted) \<and>
        (in_force (book s) i \<longrightarrow> (\<exists>t. map_of (txs s) k = Some t \<and> y_entry t = Some i))) \<and>
     (\<forall>k t i. map_of (txs s) k = Some t \<and> y_entry t = Some i \<longrightarrow>
        (\<exists>e. map_of (entries (book s)) i = Some e \<and> e_status e = Posted) \<and>
        (in_force (book s) i \<longrightarrow> y_status t = Tx_Booked))"

lemma postings_okI:
  assumes "\<And>i k. map_of (entry_tx s) i = Some k \<Longrightarrow> \<exists>e. map_of (entries (book s)) i = Some e \<and> e_status e = Posted"
    and "\<And>i k. map_of (entry_tx s) i = Some k \<Longrightarrow> in_force (book s) i \<Longrightarrow> \<exists>t. map_of (txs s) k = Some t \<and> y_entry t = Some i"
    and "\<And>k t i. map_of (txs s) k = Some t \<Longrightarrow> y_entry t = Some i \<Longrightarrow> \<exists>e. map_of (entries (book s)) i = Some e \<and> e_status e = Posted"
    and "\<And>k t i. map_of (txs s) k = Some t \<Longrightarrow> y_entry t = Some i \<Longrightarrow> in_force (book s) i \<Longrightarrow> y_status t = Tx_Booked"
  shows "postings_ok s"
  unfolding postings_ok_def using assms by blast

lemma postings_okD:
  assumes "postings_ok s"
  shows "map_of (entry_tx s) i = Some k \<Longrightarrow> \<exists>e. map_of (entries (book s)) i = Some e \<and> e_status e = Posted"
    and "map_of (entry_tx s) i = Some k \<Longrightarrow> in_force (book s) i \<Longrightarrow> \<exists>t. map_of (txs s) k = Some t \<and> y_entry t = Some i"
    and "map_of (txs s) k = Some t \<Longrightarrow> y_entry t = Some i \<Longrightarrow> \<exists>e. map_of (entries (book s)) i = Some e \<and> e_status e = Posted"
    and "map_of (txs s) k = Some t \<Longrightarrow> y_entry t = Some i \<Longrightarrow> in_force (book s) i \<Longrightarrow> y_status t = Tx_Booked"
  using assms unfolding postings_ok_def by blast+

text \<open>Linked transactions are linked to each other, with opposite amounts on different accounts.\<close>

definition pairs_ok :: "pay \<Rightarrow> bool" where
  "pairs_ok s \<longleftrightarrow>
     (\<forall>k t p. map_of (txs s) k = Some t \<and> y_pair t = Some p \<longrightarrow>
        (\<exists>r. map_of (txs s) p = Some r \<and> y_pair r = Some k \<and> y_amount r = - y_amount t \<and>
           y_bank r \<noteq> y_bank t))"

definition bank_inv :: "pay \<Rightarrow> bool" where
  "bank_inv s \<longleftrightarrow> ledger_inv (book s) \<and> tx_ids s \<and> postings_ok s \<and> pairs_ok s"

lemma pairs_okI:
  assumes "\<And>k t p. map_of (txs s) k = Some t \<Longrightarrow> y_pair t = Some p \<Longrightarrow>
    \<exists>r. map_of (txs s) p = Some r \<and> y_pair r = Some k \<and> y_amount r = - y_amount t \<and> y_bank r \<noteq> y_bank t"
  shows "pairs_ok s"
  using assms unfolding pairs_ok_def by blast

lemma pairs_okD:
  assumes "pairs_ok s" and "map_of (txs s) k = Some t" and "y_pair t = Some p"
  obtains r where "map_of (txs s) p = Some r" and "y_pair r = Some k" and "y_amount r = - y_amount t" and "y_bank r \<noteq> y_bank t"
  using assms unfolding pairs_ok_def by blast

lemma ledger_step_force:
  assumes inv: "ledger_inv db" and step: "ledger_step db db'" and e: "map_of (entries db) i = Some e" "e_status e = Posted"
  shows "\<exists>e'. map_of (entries db') i = Some e' \<and> e_status e' = Posted" and "in_force db' i \<Longrightarrow> in_force db i"
proof -
  from step_keeps_posted[OF inv step e] obtain e' where e': "map_of (entries db') i = Some e'" "only_reversed e e'" by blast
  then show "\<exists>e'. map_of (entries db') i = Some e' \<and> e_status e' = Posted" using e only_reversed_fields by auto
  show "in_force db i" if "in_force db' i"
    using that e e' by (auto simp: in_force_def only_reversed_def)
qed

lemma ledger_step_next: "ledger_inv db \<Longrightarrow> ledger_step db db' \<Longrightarrow> next_id db \<le> next_id db'"
  by (erule ledger_step_kinds, assumption) (auto simp: same_posted_def posts_def reverses_def Let_def)

lemma ledger_step_bank:
  assumes inv: "bank_inv s" and step: "ledger_step (book s) db"
  shows "bank_inv (s\<lparr>book := db\<rparr>)"
proof -
  have l: "ledger_inv (book s)" using inv by (simp add: bank_inv_def)
  note f = ledger_step_force[OF l step]
  have "postings_ok (s\<lparr>book := db\<rparr>)"
    using inv f unfolding bank_inv_def postings_ok_def by simp blast
  moreover have "tx_ids (s\<lparr>book := db\<rparr>)"
    using inv ledger_step_next[OF l step] by (force simp: bank_inv_def tx_ids_def)
  ultimately show ?thesis using inv ledger_step_inv[OF l step] by (simp add: bank_inv_def pairs_ok_def)
qed

text \<open>Changes that leave the ledger alone.\<close>

lemma bank_invD:
  assumes "bank_inv s"
  shows "ledger_inv (book s)" "tx_ids s" "postings_ok s" "pairs_ok s"
  using assms by (simp_all add: bank_inv_def)

lemma draw_id:
  assumes "bank_inv s"
  shows "bank_inv (s\<lparr>book := (book s)\<lparr>next_id := next_id (book s) + 1\<rparr>\<rparr>)"
proof -
  note i = bank_invD[OF assms]
  have "ledger_inv ((book s)\<lparr>next_id := next_id (book s) + 1\<rparr>)"
    by (rule same_posted_inv[OF i(1)], rule same_posted_refl[OF i(1)]) simp_all
  moreover have "tx_ids (s\<lparr>book := (book s)\<lparr>next_id := next_id (book s) + 1\<rparr>\<rparr>)"
    using i(2) by (auto simp: tx_ids_def less_Suc_eq)
  moreover have "in_force ((book s)\<lparr>next_id := next_id (book s) + 1\<rparr>) = in_force (book s)"
    by (simp add: fun_eq_iff in_force_def)
  ultimately show ?thesis
    using i(3,4) unfolding bank_inv_def postings_ok_def pairs_ok_def by (simp del: One_nat_def add_Suc_right; blast)
qed

lemma put_tx_ids:
  "tx_ids s \<Longrightarrow> k \<in> fst ` set (txs s) \<or> k < next_id (book s) \<Longrightarrow> tx_ids (put_tx s k t)"
  by (auto simp: tx_ids_def put_tx_def fst_update)

lemma tx_key: "map_of (txs s) k = Some t \<Longrightarrow> k \<in> fst ` set (txs s)"
  by (force dest: map_of_SomeD)

lemma put_tx_fields [simp]:
  "book (put_tx s k t) = book s" "entry_tx (put_tx s k t) = entry_tx s" "statements (put_tx s k t) = statements s"
  "batches (put_tx s k t) = batches s" "map_of (txs (put_tx s k t)) j = (if j = k then Some t else map_of (txs s) j)"
  by (simp_all add: put_tx_def dict_simps)

lemma put_status:
  assumes inv: "bank_inv s" and t: "map_of (txs s) k = Some t"
    and free: "\<And>i. y_entry t = Some i \<Longrightarrow> \<not> in_force (book s) i"
  shows "bank_inv (put_tx s k (t\<lparr>y_status := st\<rparr>))"
proof -
  note i = bank_invD[OF inv]
  note p = postings_okD[OF i(3)]
  have "postings_ok (put_tx s k (t\<lparr>y_status := st\<rparr>))"
  proof (rule postings_okI)
    fix j l assume "map_of (entry_tx (put_tx s k (t\<lparr>y_status := st\<rparr>))) j = Some l" "in_force (book (put_tx s k (t\<lparr>y_status := st\<rparr>))) j"
    then obtain u where "map_of (txs s) l = Some u" "y_entry u = Some j" using p(2) by auto
    then show "\<exists>u. map_of (txs (put_tx s k (t\<lparr>y_status := st\<rparr>))) l = Some u \<and> y_entry u = Some j" using t by auto
  qed (use p(1,3,4) t free in \<open>auto split: if_splits\<close>)
  moreover have "pairs_ok (put_tx s k (t\<lparr>y_status := st\<rparr>))"
  proof (rule pairs_okI)
    fix j u q assume "map_of (txs (put_tx s k (t\<lparr>y_status := st\<rparr>))) j = Some u" "y_pair u = Some q"
    then obtain u' where u: "map_of (txs s) j = Some u'" "y_pair u' = Some q" "y_amount u' = y_amount u" "y_bank u' = y_bank u"
      using t by (auto split: if_splits)
    from pairs_okD[OF i(4) u(1,2)] obtain r where "map_of (txs s) q = Some r" "y_pair r = Some j" "y_amount r = - y_amount u"
      "y_bank r \<noteq> y_bank u" using u(3,4) by metis
    then show "\<exists>r. map_of (txs (put_tx s k (t\<lparr>y_status := st\<rparr>))) q = Some r \<and>
        y_pair r = Some j \<and> y_amount r = - y_amount u \<and> y_bank r \<noteq> y_bank u"
      using t by (cases "q = k") auto
  qed
  ultimately show ?thesis
    using i put_tx_ids[OF i(2)] tx_key[OF t] by (simp add: bank_inv_def)
qed

lemma on_entry_reversed_inv:
  assumes inv: "bank_inv s"
  shows "bank_inv (on_entry_reversed s eid)"
proof (cases "on_entry_reversed s eid = s")
  case False
  define f :: "bank_tx \<Rightarrow> bank_tx" where
    "f = (\<lambda>t. if y_entry t = Some eid \<and> y_status t = Tx_Booked then t\<lparr>y_status := Tx_New\<rparr> else t)"
  from False have s': "on_entry_reversed s eid = s\<lparr>txs := map (\<lambda>(k, t). (k, f t)) (txs s)\<rparr>"
    and gone: "\<not> in_force (book s) eid"
    by (auto simp: on_entry_reversed_def f_def in_force_def split: option.splits if_splits)
  have m: "map_of (map (\<lambda>(k, t). (k, f t)) ts) j = map_option f (map_of ts j)" for ts :: "(uid, bank_tx) dict" and j
    by (induction ts) auto
  have keys: "map fst (map (\<lambda>(k, t). (k, f t)) ts) = map fst ts" for ts :: "(uid, bank_tx) dict" by (induction ts) auto
  have f: "y_entry (f t) = y_entry t" "y_pair (f t) = y_pair t" "y_amount (f t) = y_amount t" "y_bank (f t) = y_bank t"
    "y_entry t \<noteq> Some eid \<Longrightarrow> y_status (f t) = y_status t" for t
    by (simp_all add: f_def)
  note i = bank_invD[OF inv] and p = postings_okD[OF bank_invD(3)[OF inv]]
  have fields: "book (on_entry_reversed s eid) = book s" "entry_tx (on_entry_reversed s eid) = entry_tx s"
    "map_of (txs (on_entry_reversed s eid)) j = map_option f (map_of (txs s) j)" for j
    unfolding s' by (simp_all add: m)
  have "postings_ok (on_entry_reversed s eid)"
  proof (rule postings_okI, unfold fields)
    fix k t j assume "map_option f (map_of (txs s) k) = Some t" "y_entry t = Some j" and force: "in_force (book s) j"
    then obtain u where "map_of (txs s) k = Some u" "t = f u" "y_entry u = Some j" by (auto simp: f)
    then show "y_status t = Tx_Booked" using p(4) force gone f(5)[of u] by auto
  qed (use p(1-3) f(1) in fastforce)+
  moreover have "pairs_ok (on_entry_reversed s eid)"
  proof (rule pairs_okI, unfold fields)
    fix k t q assume "map_option f (map_of (txs s) k) = Some t" "y_pair t = Some q"
    then obtain u where u: "map_of (txs s) k = Some u" "y_pair u = Some q" "t = f u" by (auto simp: f)
    from pairs_okD[OF i(4) u(1,2)] show "\<exists>r. map_option f (map_of (txs s) q) = Some r \<and> y_pair r = Some k \<and>
        y_amount r = - y_amount t \<and> y_bank r \<noteq> y_bank t"
      using f(2-4) u(3) by fastforce
  qed
  moreover have "tx_ids (on_entry_reversed s eid)"
  proof -
    have k: "map fst (txs (on_entry_reversed s eid)) = map fst (txs s)" unfolding s' by (simp add: keys[simplified])
    have im: "fst ` set (txs (on_entry_reversed s eid)) = fst ` set (txs s)" using k by (metis list.set_map)
    have st: "statements (on_entry_reversed s eid) = statements s" unfolding s' by simp
    show ?thesis unfolding tx_ids_def k im fields st by (rule i(2)[unfolded tx_ids_def])
  qed
  ultimately show ?thesis using i(1) by (simp add: bank_inv_def s')
qed (use inv in simp)

lemma bank_inv_statements:
  assumes "bank_inv s" and "book s' = book s" "entry_tx s' = entry_tx s" "txs s' = txs s" and "tx_ids s'"
  shows "bank_inv s'"
  using assms(1,5) unfolding bank_inv_def postings_ok_def pairs_ok_def assms(2-4) by blast

text \<open>An imported transaction carries no entry yet; linking it with a free one keeps the links mutual.\<close>

lemma store_tx:
  assumes inv: "bank_inv s" and k: "k \<notin> fst ` set (txs s)" "k < next_id (book s)" and t: "y_entry t = None" "y_pair t = None"
  shows "bank_inv (put_tx s k t)"
proof -
  note i = bank_invD[OF inv] and p = postings_okD[OF bank_invD(3)[OF inv]]
  have n: "map_of (txs s) k = None" using k(1) by (simp add: map_of_eq_None_iff)
  have "postings_ok (put_tx s k t)"
    by (rule postings_okI) (use p n t in \<open>fastforce split: if_splits\<close>)+
  moreover have "pairs_ok (put_tx s k t)"
  proof (rule pairs_okI)
    fix j u q assume "map_of (txs (put_tx s k t)) j = Some u" "y_pair u = Some q"
    then have u: "map_of (txs s) j = Some u" "y_pair u = Some q" using t by (auto split: if_splits)
    from pairs_okD[OF i(4) u] obtain r where "map_of (txs s) q = Some r" "y_pair r = Some j" "y_amount r = - y_amount u"
      "y_bank r \<noteq> y_bank u" by metis
    then show "\<exists>r. map_of (txs (put_tx s k t)) q = Some r \<and> y_pair r = Some j \<and> y_amount r = - y_amount u \<and> y_bank r \<noteq> y_bank u"
      using n by (cases "q = k") auto
  qed
  ultimately show ?thesis using i put_tx_ids[OF i(2)] k(2) by (simp add: bank_inv_def)
qed

lemma link_txs:
  assumes inv: "bank_inv s" and t: "map_of (txs s) k = Some t" "y_pair t = None"
    and r: "map_of (txs s) p = Some r" "y_pair r = None" "y_amount r = - y_amount t" "y_bank r \<noteq> y_bank t"
  shows "bank_inv (put_tx (put_tx s k (t\<lparr>y_pair := Some p\<rparr>)) p (r\<lparr>y_pair := Some k\<rparr>))" (is "bank_inv ?s")
proof -
  note i = bank_invD[OF inv] and po = postings_okD[OF bank_invD(3)[OF inv]]
  have pk: "p \<noteq> k" using t r by auto
  have m: "map_of (txs ?s) j = (if j = p then Some (r\<lparr>y_pair := Some k\<rparr>) else if j = k then Some (t\<lparr>y_pair := Some p\<rparr>) else map_of (txs s) j)" for j
    by simp
  have same: "\<exists>u'. map_of (txs s) j = Some u' \<and> y_entry u' = y_entry u \<and> y_status u' = y_status u" if "map_of (txs ?s) j = Some u" for j u
    using that t r pk by (auto split: if_splits)
  have stay: "\<exists>u'. map_of (txs ?s) j = Some u' \<and> y_entry u' = y_entry u" if "map_of (txs s) j = Some u" for j u
    using that t r pk by auto
  have f: "book ?s = book s" "entry_tx ?s = entry_tx s" by simp_all
  have "postings_ok ?s"
  proof (rule postings_okI, unfold f)
    fix j l assume "map_of (entry_tx s) j = Some l" "in_force (book s) j"
    then show "\<exists>u. map_of (txs ?s) l = Some u \<and> y_entry u = Some j" using po(2) stay by metis
  next
    fix l u j assume "map_of (txs ?s) l = Some u" "y_entry u = Some j"
    then show "\<exists>e. map_of (entries (book s)) j = Some e \<and> e_status e = Posted" using same po(3) by metis
  next
    fix l u j assume "map_of (txs ?s) l = Some u" "y_entry u = Some j" "in_force (book s) j"
    then show "y_status u = Tx_Booked" using same po(4) by metis
  qed (rule po(1))
  moreover have "pairs_ok ?s"
  proof (rule pairs_okI)
    fix j u q assume u: "map_of (txs ?s) j = Some u" "y_pair u = Some q"
    show "\<exists>r. map_of (txs ?s) q = Some r \<and> y_pair r = Some j \<and> y_amount r = - y_amount u \<and> y_bank r \<noteq> y_bank u"
    proof (cases "j = p \<or> j = k")
      case True
      then show ?thesis
      proof
        assume "j = p"
        then have "q = k" "y_amount u = y_amount r" "y_bank u = y_bank r" using u unfolding m by auto
        then show ?thesis using r pk \<open>j = p\<close> unfolding m by (intro exI[of _ "t\<lparr>y_pair := Some p\<rparr>"]) simp
      next
        assume "j = k"
        then have "q = p" "y_amount u = y_amount t" "y_bank u = y_bank t" using u pk unfolding m by auto
        then show ?thesis using r pk \<open>j = k\<close> unfolding m by (intro exI[of _ "r\<lparr>y_pair := Some k\<rparr>"]) simp
      qed
    next
      case False
      then have "map_of (txs s) j = Some u" using u unfolding m by simp
      from pairs_okD[OF i(4) this u(2)] obtain v where v: "map_of (txs s) q = Some v" "y_pair v = Some j"
        "y_amount v = - y_amount u" "y_bank v \<noteq> y_bank u" by metis
      then have "q \<noteq> p" "q \<noteq> k" using r t by auto
      then show ?thesis using v unfolding m by simp
    qed
  qed
  moreover have "tx_ids ?s"
    by (intro put_tx_ids i(2) disjI1) (use t r tx_key in \<open>auto simp: put_tx_def fst_update\<close>)
  ultimately show ?thesis using i(1) by (simp add: bank_inv_def)
qed

lemma import_tx_inv:
  assumes inv: "bank_inv s" and env: "env_ok E" and im: "import_tx E tenant bank a st (s, n) raw = (s', n')"
  shows "bank_inv s'"
proof (cases "known_reference s bank (f_reference raw)")
  case True
  then show ?thesis using im inv by (simp add: import_tx_def)
next
  case False
  define k where "k = next_id (book s)"
  define t where "t = tx_of E tenant bank a st (map_option fst (find (\<lambda>(_, t). y_bank t = bank \<and> y_hash t = x_content E (c_fingerprint a) raw) (txs s))) raw"
  define s1 where "s1 = put_tx (s\<lparr>book := (book s)\<lparr>next_id := next_id (book s) + 1\<rparr>\<rparr>) k t"
  obtain b where pt: "pair_transfer E s1 k t = (s', b)"
    using im False by (auto simp: import_tx_def Let_def s1_def k_def t_def split: prod.splits)
  have t: "y_entry t = None" "y_pair t = None" by (simp_all add: t_def tx_of_def)
  have fresh: "k \<notin> fst ` set (txs s)" using bank_invD(2)[OF inv] by (auto simp: tx_ids_def k_def)
  have inv1: "bank_inv s1" unfolding s1_def by (rule store_tx[OF draw_id[OF inv]]) (use fresh t in \<open>simp_all add: k_def\<close>)
  have tk: "map_of (txs s1) k = Some t" by (simp add: s1_def)
  have d: "distinct (map fst (txs s1))" using bank_invD(2)[OF inv1] by (simp add: tx_ids_def)
  from pair_transfer_effect[OF pt d env[unfolded env_ok_def]] show ?thesis
    using inv1 link_txs[OF inv1 tk t(2)] by auto
qed

lemma import_txs_inv:
  "bank_inv s \<Longrightarrow> env_ok E \<Longrightarrow> foldl (import_tx E tenant bank a st) (s, n) raws = (s', n') \<Longrightarrow> bank_inv s'"
proof (induction raws arbitrary: s n)
  case (Cons raw raws)
  obtain s1 n1 where one: "import_tx E tenant bank a st (s, n) raw = (s1, n1)" by fastforce
  then show ?case using Cons import_tx_inv[OF Cons.prems(1,2) one] by simp
qed simp

lemma import_statement_inv:
  assumes inv: "bank_inv s" and env: "env_ok E" and im: "import_statement E tenant run (s, n) st = Inr (s', n')"
  shows "bank_inv s'"
proof -
  from im obtain bank a s1 n1 w where fs: "find_statement s bank run st n = ((s1, n1), w)"
    and fold: "foldl (import_tx E tenant bank a w) (s1, n1) (r_txs st) = (s', n')"
    by (auto simp: import_statement_def split: option.splits prod.splits)
  have "bank_inv s1"
  proof (cases "s1 = s")
    case False
    with fs obtain r where s1: "s1 = s\<lparr>book := (book s)\<lparr>next_id := next_id (book s) + 1\<rparr>,
        statements := AList.update (next_id (book s)) r (statements s)\<rparr>"
      by (auto simp: find_statement_def Let_def split: option.splits)
    have "tx_ids s1" using bank_invD(2)[OF inv] by (auto simp: s1 tx_ids_def fst_update less_Suc_eq)
    then show ?thesis by (intro bank_inv_statements[OF draw_id[OF inv]]) (simp_all add: s1)
  qed (use inv in simp)
  then show ?thesis using import_txs_inv[OF _ env fold] by blast
qed

lemma import_file_inv:
  assumes "bank_inv s" and "env_ok E" and "import_file E s tenant run parsed = Inr (s', n)"
  shows "bank_inv s'"
  using foldr_res_invariant[of "import_statement E tenant run" _ parsed "(s', n)" "\<lambda>(s, n). bank_inv s"] assms
    import_statement_inv[OF _ assms(2)]
  unfolding import_file_def by (auto split: prod.splits)

section \<open>Booking\<close>

text \<open>A transaction that can be booked has no posting in force, and neither has the other half of a transfer.\<close>

lemma bookable_free:
  assumes "case y_pair t of None \<Rightarrow> pair = None | Some p \<Rightarrow> \<exists>q. transfer_partner E s k t p = Inr q \<and> pair = Some q"
    and "bookable s t pair counter = Inr ()" and "y_entry t = Some i"
  shows "\<not> in_force (book s) i"
proof (cases "y_pair t")
  case None
  then show ?thesis
    using assms effective_entry_None[of "book s" "Some i"] by (auto simp: bookable_def Let_def split: if_splits)
next
  case (Some p)
  with assms(1) obtain q where "transfer_partner E s k t p = Inr q" by auto
  then have "effective_entry (book s) (y_entry t) = None"
    by (auto simp: transfer_partner_def split: option.splits if_splits)
  then show ?thesis using assms(3) effective_entry_None by blast
qed

lemma transfer_partner_result:
  assumes tp: "transfer_partner E s k t p = Inr q"
  obtains r lid g bank lid' g' bank' where "map_of (txs s) p = Some r" and "y_pair r = Some k" and "y_entity r = y_entity t"
    and "effective_entry (book s) (y_entry t) = None" and "ledger_for E (book s) t = Inr (lid, g, bank)"
    and "ledger_for E (book s) r = Inr (lid', g', bank')"
    and "q = \<lparr>q_id = p, q_partner = r, q_bank = bank', q_elsewhere = (effective_entry (book s) (y_entry r) \<noteq> None)\<rparr>"
    and "\<And>i e. effective_entry (book s) (y_entry r) = Some (i, e) \<Longrightarrow> \<not> moves_account e bank"
proof -
  obtain r where r: "map_of (txs s) p = Some r" "y_pair r = Some k" "y_tenant r = y_tenant t" "y_entity r = y_entity t"
    using tp by (auto simp: transfer_partner_def split: option.splits if_splits)
  have own: "effective_entry (book s) (y_entry t) = None"
    using tp r by (auto simp: transfer_partner_def split: option.splits if_splits)
  obtain lid g bank where lt: "ledger_for E (book s) t = Inr (lid, g, bank)"
    using tp r own by (cases "ledger_for E (book s) t") (auto simp: transfer_partner_def)
  obtain lid' g' bank' where lr: "ledger_for E (book s) r = Inr (lid', g', bank')"
    using tp r own lt by (cases "ledger_for E (book s) r") (auto simp: transfer_partner_def)
  show thesis
    using tp r own lt lr
    by (intro that[OF r(1,2,4) own lt lr])
      (cases "effective_entry (book s) (y_entry r)"; auto simp: transfer_partner_def split: if_splits)+
qed

lemma partner_free:
  assumes "transfer_partner E s k t p = Inr q"
  shows "q_id q = p" and "map_of (txs s) p = Some (q_partner q)" and "y_pair (q_partner q) = Some k"
    and "\<not> q_elsewhere q \<Longrightarrow> y_entry (q_partner q) = Some i \<Longrightarrow> \<not> in_force (book s) i"
  by (rule transfer_partner_result[OF assms]; use effective_entry_None[of "book s" "y_entry (q_partner q)"] in force)+

lemma booked_txs:
  assumes t: "map_of (txs s) k = Some t"
    and pair: "case y_pair t of None \<Rightarrow> pair = None | Some p \<Rightarrow> \<exists>q. transfer_partner E s k t p = Inr q \<and> pair = Some q"
    and bk: "bookable s t pair counter = Inr ()"
    and s': "txs s' = txs (mark_booked s k t pair (is_transfer pair) eid)"
  obtains M where "k \<in> M" and "\<And>j. j \<in> M \<Longrightarrow> \<exists>u. map_of (txs s) j = Some u \<and> (\<forall>i. y_entry u = Some i \<longrightarrow> \<not> in_force (book s) i) \<and>
      map_of (txs s') j = Some (u\<lparr>y_status := Tx_Booked, y_entry := Some eid\<rparr>)"
    and "\<And>j. j \<notin> M \<Longrightarrow> map_of (txs s') j = map_of (txs s) j"
proof -
  have free: "\<forall>i. y_entry t = Some i \<longrightarrow> \<not> in_force (book s) i" using bookable_free[OF pair bk] by blast
  show thesis
  proof (cases "\<exists>q. pair = Some q \<and> \<not> q_elsewhere q \<and> y_status (q_partner q) \<noteq> Tx_Ignored")
    case True
    then obtain q where q: "pair = Some q" "\<not> q_elsewhere q" "y_status (q_partner q) \<noteq> Tx_Ignored" by blast
    with pair obtain p where p: "transfer_partner E s k t p = Inr q" by (auto split: option.splits)
    note f = partner_free[OF p]
    show thesis
    proof (rule that[of "{k, p}"])
      fix j assume "j \<in> {k, p}"
      then show "\<exists>u. map_of (txs s) j = Some u \<and> (\<forall>i. y_entry u = Some i \<longrightarrow> \<not> in_force (book s) i) \<and>
          map_of (txs s') j = Some (u\<lparr>y_status := Tx_Booked, y_entry := Some eid\<rparr>)"
        using f(1,2,4) t free q by (cases "j = p") (auto simp: s' mark_booked_txs is_transfer_def)
    qed (use q f(1) in \<open>auto simp: s' mark_booked_txs is_transfer_def\<close>)
  next
    case False
    then show thesis
      by (intro that[of "{k}"]) (use t free in \<open>auto simp: s' mark_booked_txs is_transfer_def split: option.splits\<close>)
  qed
qed

lemma book_payment_inv:
  assumes inv: "bank_inv s" and t: "map_of (txs s) k = Some t"
    and bp: "book_payment E s k t setts counter user note discount = Inr (s', eid)"
  shows "bank_inv s'"
proof -
  note i = bank_invD[OF inv] and po = postings_okD[OF bank_invD(3)[OF inv]]
  from bp i(1) obtain pair e' where pair: "case y_pair t of None \<Rightarrow> pair = None | Some p \<Rightarrow> \<exists>q. transfer_partner E s k t p = Inr q \<and> pair = Some q"
    and bk: "bookable s t pair counter = Inr ()" and eid: "eid = next_id (book s)"
    and e': "map_of (entries (book s')) eid = Some e'" "e_status e' = Posted" and l: "ledger_inv (book s')"
    and old: "\<And>j. j \<noteq> eid \<Longrightarrow> map_of (entries (book s')) j = map_of (entries (book s)) j"
    and et: "entry_tx s' = AList.update eid k (entry_tx s)" and st: "statements s' = statements s"
    and tx: "txs s' = txs (mark_booked s k t pair (is_transfer pair) eid)"
    by (rule book_payment_effect) blast
  obtain M where kM: "k \<in> M" and M: "\<And>j. j \<in> M \<Longrightarrow> \<exists>u. map_of (txs s) j = Some u \<and> (\<forall>i. y_entry u = Some i \<longrightarrow> \<not> in_force (book s) i) \<and>
      map_of (txs s') j = Some (u\<lparr>y_status := Tx_Booked, y_entry := Some eid\<rparr>)"
    and oM: "\<And>j. j \<notin> M \<Longrightarrow> map_of (txs s') j = map_of (txs s) j"
    using booked_txs[OF t pair bk tx] by metis
  have fresh: "map_of (entries (book s)) eid = None" using fresh_entry[OF i(1)] eid by simp
  have force: "in_force (book s') j \<longleftrightarrow> in_force (book s) j" if "j \<noteq> eid" for j using old[OF that] by (simp add: in_force_def)
  have posted: "\<exists>e. map_of (entries (book s')) j = Some e \<and> e_status e = Posted"
    if "\<exists>e. map_of (entries (book s)) j = Some e \<and> e_status e = Posted" for j
    using that old[of j] fresh by (cases "j = eid") auto
  have ne: "j \<noteq> eid" if "\<exists>e. map_of (entries (book s)) j = Some e \<and> e_status e = Posted" for j using that fresh by auto
  have "postings_ok s'"
  proof (rule postings_okI)
    fix j l assume "map_of (entry_tx s') j = Some l"
    then show "\<exists>e. map_of (entries (book s')) j = Some e \<and> e_status e = Posted"
      using e' posted po(1) by (auto simp: et dict_simps split: if_splits)
  next
    fix j l assume jl: "map_of (entry_tx s') j = Some l" and force': "in_force (book s') j"
    show "\<exists>u. map_of (txs s') l = Some u \<and> y_entry u = Some j"
    proof (cases "j = eid")
      case True
      then show ?thesis using jl M[OF kM] by (auto simp: et dict_simps)
    next
      case False
      then have "map_of (entry_tx s) j = Some l" "in_force (book s) j" using jl force' force by (simp_all add: et dict_simps)
      then obtain u where u: "map_of (txs s) l = Some u" "y_entry u = Some j" using po(2) by blast
      then have "l \<notin> M" using M \<open>in_force (book s) j\<close> by fastforce
      then show ?thesis using u oM by simp
    qed
  next
    fix l u j assume u: "map_of (txs s') l = Some u" "y_entry u = Some j"
    show "\<exists>e. map_of (entries (book s')) j = Some e \<and> e_status e = Posted"
    proof (cases "l \<in> M")
      case True
      then show ?thesis using u M[OF True] e' by auto
    qed (use u oM po(3) posted in metis)
  next
    fix l u j assume u: "map_of (txs s') l = Some u" "y_entry u = Some j" and force': "in_force (book s') j"
    show "y_status u = Tx_Booked"
    proof (cases "l \<in> M")
      case True
      then show ?thesis using u M[OF True] by auto
    next
      case False
      then have u': "map_of (txs s) l = Some u" using u oM by simp
      then show ?thesis using po(3,4)[OF u' u(2)] ne force force' by blast
    qed
  qed
  moreover have "pairs_ok s'"
  proof (rule pairs_okI)
    fix l u q assume u: "map_of (txs s') l = Some u" "y_pair u = Some q"
    have fwd: "\<exists>v'. map_of (txs s') j = Some v' \<and> y_pair v' = y_pair v \<and> y_amount v' = y_amount v \<and> y_bank v' = y_bank v"
      if "map_of (txs s) j = Some v" for j v
      using that M[of j] oM[of j] by (cases "j \<in> M") auto
    obtain v where v: "map_of (txs s) l = Some v" "y_pair v = Some q" "y_amount v = y_amount u" "y_bank v = y_bank u"
      using u M[of l] oM[of l] by (cases "l \<in> M") auto
    from pairs_okD[OF i(4) v(1,2)] obtain r where r: "map_of (txs s) q = Some r" "y_pair r = Some l" "y_amount r = - y_amount u"
      "y_bank r \<noteq> y_bank u" using v(3,4) by metis
    then show "\<exists>r. map_of (txs s') q = Some r \<and> y_pair r = Some l \<and> y_amount r = - y_amount u \<and> y_bank r \<noteq> y_bank u"
      using fwd[OF r(1)] by auto
  qed
  moreover have "tx_ids s'"
  proof -
    have n: "next_id (book s) \<le> next_id (book s')" using l e' eid unfolding ledger_inv_def entries_ok_def by (meson less_imp_le)
    have "k \<in> fst ` set (txs s)" using tx_key[OF t] .
    moreover have "q_id q \<in> fst ` set (txs s)" if "pair = Some q" for q
    proof -
      from pair that obtain p where "transfer_partner E s k t p = Inr q" by (auto split: option.splits)
      from partner_free(1,2)[OF this] show ?thesis using tx_key by simp
    qed
    ultimately have "tx_ids (mark_booked s k t pair (is_transfer pair) eid)"
      using put_tx_ids[OF put_tx_ids[OF i(2)]] put_tx_ids[OF i(2)]
      by (auto simp: mark_booked_def Let_def put_tx_def fst_update split: option.split)
    then show ?thesis using n by (force simp: tx_ids_def tx st)
  qed
  ultimately show ?thesis using l by (simp add: bank_inv_def)
qed

section \<open>Reachable states\<close>

definition fresh_pay :: "pay \<Rightarrow> bool" where
  "fresh_pay s \<longleftrightarrow> fresh_db (book s) \<and> txs s = [] \<and> entry_tx s = [] \<and> statements s = []"

lemma bank_step_inv:
  assumes env: "env_ok E" and step: "bank_step E s s'" and inv: "bank_inv s"
  shows "bank_inv s'"
  using step
proof (cases rule: bank_step.cases)
  case (ledger db)
  then show ?thesis using ledger_step_bank[OF inv] by simp
next
  case (statement tenant run parsed n)
  then show ?thesis using import_file_inv[OF inv env] by blast
next
  case (review k keep)
  then obtain t where t: "map_of (txs s) k = Some t" "y_status t = Tx_Needs_Review"
    and s': "s' = put_tx s k (t\<lparr>y_status := (if keep then Tx_New else Tx_Ignored)\<rparr>)"
    by (auto simp: review_tx_def res_simps split: if_splits)
  show ?thesis unfolding s'
    by (rule put_status[OF inv t(1)]) (use postings_okD(4)[OF bank_invD(3)[OF inv] t(1)] t(2) in auto)
next
  case (ignore k)
  then obtain t where "map_of (txs s) k = Some t" "y_entry t = None" "s' = put_tx s k (t\<lparr>y_status := Tx_Ignored\<rparr>)"
    by (auto simp: ignore_tx_def res_simps split: if_splits)
  then show ?thesis using put_status[OF inv, of k t Tx_Ignored] by simp
next
  case (reopen p k)
  then obtain t where "map_of (txs s) k = Some t" "effective_entry (book s) (y_entry t) = None" "s' = put_tx s k (t\<lparr>y_status := Tx_New\<rparr>)"
    by (auto simp: reopen_tx_def res_simps simp del: not_None_eq split: if_splits)
  then show ?thesis using put_status[OF inv] effective_entry_None by blast
next
  case (reversed eid)
  then show ?thesis using on_entry_reversed_inv[OF inv] by simp
next
  case (book k setts counter user memo discount eid)
  then show ?thesis using book_payment_inv[OF inv] by (auto simp: book_route_def res_simps)
qed

lemma bank_inv_fresh: "fresh_pay s \<Longrightarrow> bank_inv s"
  using ledger_inv_fresh by (simp add: fresh_pay_def bank_inv_def tx_ids_def postings_ok_def pairs_ok_def)

interpretation desk_of_bank: machine "\<lambda>s. fresh_pay s \<and> env_ok E" "\<lambda>s s'. bank_step E s s' \<and> env_ok E" bank_inv for E
  by unfold_locales (auto intro: bank_inv_fresh bank_step_inv)

lemma bank_reach:
  assumes "env_ok E" and "fresh_pay s0" and "(bank_step E)\<^sup>*\<^sup>* s0 s"
  shows "bank_inv s"
proof -
  have "(\<lambda>s s'. bank_step E s s' \<and> env_ok E)\<^sup>*\<^sup>* s0 s"
    using assms(3) by (rule rtranclp_mono[THEN predicate2D, rotated]) (use assms(1) in auto)
  then show ?thesis using desk_of_bank.inv_reach assms(1,2) by blast
qed

text \<open>C8: A bank transaction never has two postings in force (B02, B03): whatever is imported, reviewed, booked,
  reversed and booked again, two unreversed entries of one transaction are the same entry, and the transaction
  is booked and carries it. Linked halves of a transfer stay linked to each other, with opposite amounts on
  different accounts.\<close>

theorem one_posting_in_force:
  assumes "env_ok E" and "fresh_pay s0" and "(bank_step E)\<^sup>*\<^sup>* s0 s"
    and "map_of (entry_tx s) i = Some k" and "in_force (book s) i"
  shows "(\<forall>j. map_of (entry_tx s) j = Some k \<and> in_force (book s) j \<longrightarrow> j = i) \<and>
    (\<exists>t. map_of (txs s) k = Some t \<and> y_entry t = Some i \<and> y_status t = Tx_Booked \<and>
      (\<forall>p. y_pair t = Some p \<longrightarrow> (\<exists>r. map_of (txs s) p = Some r \<and> y_pair r = Some k \<and> y_amount r = - y_amount t \<and>
        y_bank r \<noteq> y_bank t)))"
proof -
  note inv = bank_invD[OF bank_reach[OF assms(1-3)]] and p = postings_okD[OF bank_invD(3)[OF bank_reach[OF assms(1-3)]]]
  from p(2)[OF assms(4,5)] obtain t where t: "map_of (txs s) k = Some t" "y_entry t = Some i" by blast
  have "j = i" if "map_of (entry_tx s) j = Some k" "in_force (book s) j" for j
    using p(2)[OF that] t by auto
  moreover have "y_status t = Tx_Booked" by (rule p(4)[OF t assms(5)])
  ultimately show ?thesis using t pairs_okD[OF inv(4) t(1)] by metis
qed

section \<open>What a booking moves\<close>

definition assigned_to :: "(uid \<times> dec) list \<Rightarrow> uid \<Rightarrow> dec" where
  "assigned_to setts iid = sum_list (map snd (filter (\<lambda>(i, _). i = iid) setts))"

lemma settled_plan:
  "settled (plan_settlements eid d (map (\<lambda>(i, v). \<lparr>p_item = i, p_amount = v\<rparr>) setts)) None iid = assigned_to setts iid"
  by (induction setts) (auto simp: plan_settlements_def settled_def assigned_to_def)

lemma found_mem: "find P xs = Some x \<Longrightarrow> x \<in> set xs \<and> P x"
  by (induction xs) (auto split: if_splits)

lemma clearing_category:
  assumes "tenant_clearing_account E db lid = Some a" and "distinct (map fst (accounts db))"
  shows "\<exists>r. map_of (accounts db) a = Some r \<and> a_category r \<in> set CLEARING_CATEGORIES"
proof -
  from assms(1) obtain n r where f: "account_by_number db lid n = Some (a, r)" and c: "a_category r \<in> set CLEARING_CATEGORIES"
    by (auto simp: tenant_clearing_account_def split: option.splits if_splits)
  then show ?thesis using found_mem[OF f[unfolded account_by_number_def]] assms(2) by auto
qed

text \<open>C9: Booking a bank transaction moves the linked ledger account by exactly the amount of the statement line,
  settles each open item by exactly what was assigned to it, and marks the transaction booked, provided the counter
  account is not the bank account itself (\<open>own_account_booking_moves_nothing\<close> below).\<close>

theorem booking_moves_statement_amount:
  assumes "env_ok E" and "fresh_pay s0" and "(bank_step E)\<^sup>*\<^sup>* s0 s"
    and route: "book_route E s evidence k setts counter user note discount = Inr (s', eid)"
    and t: "map_of (txs s) k = Some t" and bank: "ledger_for E (book s) t = Inr (lid, g, bank)"
    and cat: "map_of (accounts (book s)) bank = Some r" "a_category r = Cat_Bank" "distinct (map fst (accounts (book s)))"
    and ctr: "counter \<noteq> Some bank"
  shows "posted_balance (book s') bank = posted_balance (book s) bank + y_amount t \<and>
    (\<forall>iid i rest. map_of (items (book s)) iid = Some i \<and> remaining (book s) iid None = Inr rest \<longrightarrow>
       remaining (book s') iid None = Inr (rest - assigned_to setts iid)) \<and>
    (\<exists>t'. map_of (txs s') k = Some t' \<and> y_status t' = Tx_Booked \<and> y_entry t' = Some eid)"
proof -
  note reach = bank_reach[OF assms(1-3)]
  have bp: "book_payment E s k t setts counter user note discount = Inr (s', eid)"
    using route t by (auto simp: book_route_def fetch_def res_simps)
  from bp bank_invD(1)[OF reach] obtain pair lid' g' bank' per counter' rest where
    pair: "case y_pair t of None \<Rightarrow> pair = None | Some p \<Rightarrow> \<exists>q. transfer_partner E s k t p = Inr q \<and> pair = Some q"
    and bk: "bookable s t pair counter = Inr ()" and bank': "ledger_for E (book s) t = Inr (lid', g', bank')"
    and per: "\<forall>a \<in> fst ` set per. (\<exists>(i, v) \<in> set setts. \<exists>r. map_of (items (book s)) i = Some r \<and> i_account r = a) \<and> (\<forall>r. map_of (accounts (book s)) a = Some r \<longrightarrow> a_category r \<in> {Cat_Debtor, Cat_Creditor})"
    and c': "counter' = counter \<or> counter = None \<and> counter' = tenant_clearing_account E (book s) lid'"
    and ss: "settlements (book s') = settlements (book s) @
      plan_settlements eid (y_booking_date t) (map (\<lambda>(i, v). \<lparr>p_item = i, p_amount = v\<rparr>) setts)"
    and its: "\<And>iid i. map_of (items (book s)) iid = Some i \<Longrightarrow> map_of (items (book s')) iid = Some i"
    and bal: "\<And>a. posted_balance (book s') a = posted_balance (book s) a + moved_on (payment_lines bank' t per counter' discount rest) a"
    and tx: "txs s' = txs (mark_booked s k t pair (is_transfer pair) eid)"
    by (rule book_payment_effect) blast
  have same: "lid' = lid" "bank' = bank" using bank bank' by auto
  have "bank \<notin> fst ` set per"
  proof
    assume "bank \<in> fst ` set per"
    then have "a_category r \<in> {Cat_Debtor, Cat_Creditor}" using per cat(1) by blast
    then show False using cat(2) by simp
  qed
  moreover have "counter' \<noteq> Some bank"
    using c' ctr same clearing_category[of E "book s" lid bank] cat by (auto simp: CLEARING_CATEGORIES_def)
  ultimately have "posted_balance (book s') bank = posted_balance (book s) bank + y_amount t"
    by (simp add: bal same payment_lines_moved part_of_none)
  moreover have "remaining (book s') iid None = Inr (rest - assigned_to setts iid)"
    if "map_of (items (book s)) iid = Some i" "remaining (book s) iid None = Inr rest" for iid i rest
    using that its[OF that(1)] by (auto simp: remaining_def fetch_def ss settled_plan)
  moreover have "\<exists>t'. map_of (txs s') k = Some t' \<and> y_status t' = Tx_Booked \<and> y_entry t' = Some eid"
  proof -
    obtain M where "k \<in> M" and "\<And>j. j \<in> M \<Longrightarrow> \<exists>u. map_of (txs s) j = Some u \<and> (\<forall>i. y_entry u = Some i \<longrightarrow> \<not> in_force (book s) i) \<and>
        map_of (txs s') j = Some (u\<lparr>y_status := Tx_Booked, y_entry := Some eid\<rparr>)"
      using booked_txs[OF t pair bk tx] by metis
    from this(2)[OF this(1)] show ?thesis by auto
  qed
  ultimately show ?thesis by blast
qed

section \<open>A receipt is imported and booked\<close>

definition bank1 :: pay where "bank1 = bank0\<lparr>book := ex2\<rparr>"
definition bank2 :: pay where "bank2 = fst (projr (import_file bank_world bank1 9 ''x'' receipt_file))"
definition bank3 :: pay where "bank3 = fst (projr (book_route bank_world bank2 None 103 [(101, 40)] None (Some 5) None 0))"

lemma bank_runs:
  "\<not> isl (import_file bank_world bank1 9 ''x'' receipt_file)"
  "\<not> isl (book_route bank_world bank2 None 103 [(101, 40)] None (Some 5) None 0)"
  by code_simp+

lemma bank_reached: "(bank_step bank_world)\<^sup>*\<^sup>* bank0 bank2" "(bank_step bank_world)\<^sup>*\<^sup>* bank0 bank3"
proof -
  have 1: "bank_step bank_world bank0 (bank0\<lparr>book := ex1\<rparr>)"
    by (rule bank_step.ledger) (use example_steps(1) in \<open>simp add: bank0_def\<close>)
  have 2: "bank_step bank_world (bank0\<lparr>book := ex1\<rparr>) bank1"
    using bank_step.ledger[of "bank0\<lparr>book := ex1\<rparr>" ex2 bank_world] example_steps(2) by (simp add: bank1_def)
  have 3: "bank_step bank_world bank1 bank2"
    unfolding bank2_def by (rule bank_step.statement[OF projr_pair_step[OF bank_runs(1)]])
  have 4: "bank_step bank_world bank2 bank3"
    unfolding bank3_def by (rule bank_step.book[OF projr_pair_step[OF bank_runs(2)]])
  note into = rtranclp.rtrancl_into_rtrancl[of "bank_step bank_world" bank0]
  show 5: "(bank_step bank_world)\<^sup>*\<^sup>* bank0 bank2"
    by (rule into[OF into[OF r_into_rtranclp[of "bank_step bank_world", OF 1] 2] 3])
  show "(bank_step bank_world)\<^sup>*\<^sup>* bank0 bank3" by (rule into[OF 5 4])
qed

lemma bank_world_ok: "env_ok bank_world" "fresh_pay bank0"
  by (simp_all add: env_ok_def bank_world_def fresh_pay_def bank0_def fresh_db_def start_db_def)

theorem one_posting_in_force_witness:
  "\<exists>t. map_of (txs bank3) 103 = Some t \<and> y_entry t = Some 104 \<and> y_status t = Tx_Booked"
proof -
  have "map_of (entry_tx bank3) 104 = Some 103" by code_simp
  moreover have "in_force (book bank3) 104"
  proof -
    have "effective_entry (book bank3) (Some 104) \<noteq> None" by code_simp
    then show ?thesis using effective_entry_None[of "book bank3" "Some 104"] by auto
  qed
  ultimately show ?thesis using one_posting_in_force[OF bank_world_ok bank_reached(2)] by blast
qed

theorem booking_moves_statement_amount_witness:
  "posted_balance (book bank3) 12 = posted_balance (book bank2) 12 + 40"
proof -
  have t: "map_of (txs bank2) 103 = Some (the (map_of (txs bank2) 103))" "y_amount (the (map_of (txs bank2) 103)) = 40" by code_simp+
  have l: "ledger_for bank_world (book bank2) (the (map_of (txs bank2) 103)) = Inr (projr (ledger_for bank_world (book bank2) (the (map_of (txs bank2) 103))))"
    "snd (snd (projr (ledger_for bank_world (book bank2) (the (map_of (txs bank2) 103))))) = 12" by code_simp+
  have a: "map_of (accounts (book bank2)) 12 = Some (the (map_of (accounts (book bank2)) 12))"
    "a_category (the (map_of (accounts (book bank2)) 12)) = Cat_Bank" "distinct (map fst (accounts (book bank2)))" by code_simp+
  have l': "ledger_for bank_world (book bank2) (the (map_of (txs bank2) 103)) =
      Inr (fst (projr (ledger_for bank_world (book bank2) (the (map_of (txs bank2) 103)))),
        fst (snd (projr (ledger_for bank_world (book bank2) (the (map_of (txs bank2) 103))))), 12)"
    using l by (metis prod.collapse)
  have "book_route bank_world bank2 None 103 [(101, 40)] None (Some 5) None 0 =
      Inr (bank3, snd (projr (book_route bank_world bank2 None 103 [(101, 40)] None (Some 5) None 0)))"
    unfolding bank3_def by (rule projr_pair_step[OF bank_runs(2)])
  from booking_moves_statement_amount[OF bank_world_ok bank_reached(1) this t(1) l' a] t(2) show ?thesis by simp
qed

section \<open>A transaction booked against its own account\<close>

text \<open>The guard against the own bank account stands only in the branch of a linked transfer whose other half is
  booked elsewhere. Everywhere else the bank account is accepted as counter account: the entry debits and
  credits it with the same amount, so the transaction counts as booked while the ledger has not moved.\<close>

lemma own_account_booking_moves_nothing:
  assumes inv: "bank_inv s" and t: "map_of (txs s) k = Some t" "y_pair t = None"
    and bank: "ledger_for E (book s) t = Inr (lid, g, bank)"
    and route: "book_route E s evidence k [] (Some bank) user note 0 = Inr (s', eid)"
  shows "posted_balance (book s') a = posted_balance (book s) a" and "\<exists>t'. map_of (txs s') k = Some t' \<and> y_status t' = Tx_Booked"
proof -
  have bp: "book_payment E s k t [] (Some bank) user note 0 = Inr (s', eid)"
    using route t by (auto simp: book_route_def fetch_def res_simps)
  define kind where "kind = payment_kind t False"
  from bp bank t obtain db' where new: "post_new (book s) lid g (payment_entry lid t kind user)
      (payment_lines bank t [] (Some bank) 0 \<bar>y_amount t\<bar>) [] user = Inr (db', eid)"
    and s': "s' = mark_booked (s\<lparr>book := db', entry_tx := AList.update eid k (entry_tx s)\<rparr>) k t None False eid"
    unfolding book_payment_def by (auto simp: res_simps Let_def place_rest_def kind_def split: if_splits prod.splits)
  have "e_ledger (payment_entry lid t kind user) = lid" "draft_ok (payment_entry lid t kind user)"
    by (simp_all add: payment_entry_def draft_ok_def kind_def payment_kind_def)
  with new bank_invD(1)[OF inv] have "posted_balance db' a = posted_balance (book s) a +
      moved_on (payment_lines bank t [] (Some bank) 0 \<bar>y_amount t\<bar>) a"
    by (rule post_new_effect) (simp add: moved_on_def)
  then show "posted_balance (book s') a = posted_balance (book s) a"
    by (auto simp: s' payment_lines_moved part_of_def direction_def max_def)
  show "\<exists>t'. map_of (txs s') k = Some t' \<and> y_status t' = Tx_Booked" by (auto simp: s' mark_booked_txs)
qed

lemma own_account_booking_accepted: "\<not> isl (book_route bank_world bank2 None 103 [] (Some 12) (Some 5) None 0)"
  by code_simp

end
