(* ===== verification/Texts.thy ===== *)
theory Texts
  imports Money PyDate
begin

text \<open>
  Numbers and dates as texts: \<open>str\<close> of a count, \<open>f"{v:.2f}"\<close> of an amount, \<open>isoformat\<close> of a date, and the way
  back through \<open>Decimal(text)\<close>. Texts to read are in plain decimal notation, which is all the program writes.
\<close>

section \<open>Writing and reading\<close>

fun digits :: "nat \<Rightarrow> string" where
  "digits n = (if n < 10 then [char_of (48 + n)] else digits (n div 10) @ [char_of (48 + n mod 10)])"

declare digits.simps [simp del]

text \<open>A number with two decimals, as \<open>f"{v:.2f}"\<close>.\<close>

definition two_decimals :: "dec \<Rightarrow> string" where
  "two_decimals v =
     (let n = nat \<bar>round_half_even (v * 100)\<bar>
      in (if v < 0 then ''-'' else []) @ digits (n div 100) @ ''.'' @ [char_of (48 + n mod 100 div 10), char_of (48 + n mod 10)])"

definition is_digit :: "char \<Rightarrow> bool" where
  "is_digit c \<longleftrightarrow> 48 \<le> (of_char c :: nat) \<and> (of_char c :: nat) \<le> 57"

definition digits_value :: "string \<Rightarrow> nat" where
  "digits_value = foldl (\<lambda>n c. 10 * n + (of_char c - 48)) 0"

definition unsigned_decimal :: "string \<Rightarrow> dec option" where
  "unsigned_decimal t =
     (let whole = takeWhile is_digit t; rest = dropWhile is_digit t
      in case rest of
           [] \<Rightarrow> if whole = [] then None else Some (of_nat (digits_value whole))
         | c # fr \<Rightarrow>
             if c = CHR ''.'' \<and> list_all is_digit fr \<and> whole @ fr \<noteq> []
             then Some (of_nat (digits_value (whole @ fr)) / 10 ^ length fr) else None)"

definition parse_decimal :: "string \<Rightarrow> dec option" where
  "parse_decimal t =
     (case t of
        [] \<Rightarrow> None
      | c # r \<Rightarrow> if c = CHR ''-'' then map_option uminus (unsigned_decimal r)
          else if c = CHR ''+'' then unsigned_decimal r else unsigned_decimal t)"

definition pad :: "nat \<Rightarrow> string \<Rightarrow> string" where
  "pad n t = replicate (n - length t) (CHR ''0'') @ t"

definition isoformat :: "date \<Rightarrow> string" where
  "isoformat d = pad 4 (digits (nat (year d))) @ ''-'' @ pad 2 (digits (nat (month d))) @ ''-'' @ pad 2 (digits (nat (day d)))"

section \<open>Numbers survive\<close>

lemma digit_char: "n < 10 \<Longrightarrow> is_digit (char_of (48 + n)) \<and> of_char (char_of (48 + n) :: char) = 48 + (n :: nat)"
  by (simp add: is_digit_def of_char_of)

lemma digits_value_append: "digits_value (t @ [c]) = 10 * digits_value t + (of_char c - 48)"
  by (simp add: digits_value_def)

lemma digits_ok: "digits n \<noteq> [] \<and> list_all is_digit (digits n) \<and> digits_value (digits n) = n"
proof (induction n rule: digits.induct)
  case (1 n)
  show ?case
  proof (cases "n < 10")
    case True
    then show ?thesis using digit_char[of n] by (simp add: digits.simps[of n] digits_value_def)
  next
    case False
    then show ?thesis using 1 digit_char[of "n mod 10"]
      by (simp add: digits.simps[of n] digits_value_append)
  qed
qed

lemma digits_inj: "digits m = digits n \<longleftrightarrow> m = n"
  using digits_ok by metis

lemma digit_run:
  "list_all is_digit t \<Longrightarrow> \<not> is_digit c \<Longrightarrow> takeWhile is_digit (t @ c # r) = t \<and> dropWhile is_digit (t @ c # r) = c # r"
  by (induction t) auto

lemma unsigned_two:
  "unsigned_decimal (digits (n div 100) @ ''.'' @ [char_of (48 + n mod 100 div 10), char_of (48 + n mod 10)]) = Some (of_nat n / 100)"
proof -
  let ?w = "digits (n div 100)" and ?a = "char_of (48 + n mod 100 div 10) :: char" and ?b = "char_of (48 + n mod 10) :: char"
  have d: "is_digit ?a \<and> of_char ?a = 48 + n mod 100 div 10" "is_digit ?b \<and> of_char ?b = 48 + n mod 10"
    by (rule digit_char; simp add: less_mult_imp_div_less)+
  have dot: "\<not> is_digit (CHR ''.'')" by (simp add: is_digit_def)
  note r = digit_run[OF digits_ok[THEN conjunct2, THEN conjunct1] dot, of "n div 100" "[?a, ?b]"]
  have v: "digits_value (?w @ [?a, ?b]) = n"
  proof -
    have "digits_value (?w @ [?a, ?b]) = 10 * (10 * (n div 100) + n mod 100 div 10) + n mod 10"
      using digits_value_append[of "?w @ [?a]" ?b] digits_value_append[of ?w ?a] d digits_ok[of "n div 100"] by simp
    also have "\<dots> = 100 * (n div 100) + (10 * (n mod 100 div 10) + n mod 10)" by simp
    also have "10 * (n mod 100 div 10) + n mod 10 = n mod 100"
      using mult_div_mod_eq[of 10 "n mod 100"] by (simp add: mod_mod_cancel)
    also have "100 * (n div 100) + n mod 100 = n" by (rule mult_div_mod_eq)
    finally show ?thesis .
  qed
  show ?thesis using r v d by (simp add: unsigned_decimal_def Let_def)
qed

text \<open>Cent amounts are read back as they were written.\<close>

lemma two_decimals_read:
  assumes "is_cents v"
  shows "parse_decimal (two_decimals v) = Some v"
proof -
  obtain k where k: "v = of_int k / 100" using assms by (rule is_centsE)
  define m where "m = nat \<bar>k\<bar>"
  have r: "round_half_even (v * 100) = k" by (simp add: k round_half_even_def)
  have t: "two_decimals v = (if v < 0 then ''-'' else []) @ digits (m div 100) @ ''.'' @
      [char_of (48 + m mod 100 div 10), char_of (48 + m mod 10)]"
    unfolding two_decimals_def r m_def Let_def ..
  note u = unsigned_two[of m]
  have vm: "v = (if v < 0 then - (of_nat m / 100) else of_nat m / 100)" by (simp add: k m_def)
  show ?thesis
  proof (cases "v < 0")
    case True
    then show ?thesis using u vm unfolding t by (simp add: parse_decimal_def)
  next
    case False
    obtain c r where c: "digits (m div 100) = c # r" "is_digit c"
      using digits_ok[of "m div 100"] by (cases "digits (m div 100)") auto
    have "c \<noteq> CHR ''-''" "c \<noteq> CHR ''+''" using c(2) by (auto simp: is_digit_def)
    then show ?thesis using u vm False unfolding t by (simp add: parse_decimal_def c(1))
  qed
qed

section \<open>Number texts are never blank\<close>

lemma is_blank_append [simp]: "is_blank (s @ t) \<longleftrightarrow> is_blank s \<and> is_blank t"
  by (simp add: is_blank_def)

lemma not_blank_digit: "is_digit c \<Longrightarrow> c \<notin> set py_space"
proof -
  have "list_all (\<lambda>c. \<not> is_digit c) py_space" by code_simp
  then show "is_digit c \<Longrightarrow> c \<notin> set py_space" by (auto simp: list_all_iff)
qed

lemma digits_visible: "\<not> is_blank (digits n)"
  using digits_ok[of n] not_blank_digit by (cases "digits n") (auto simp: is_blank_def)

lemma two_decimals_visible: "\<not> is_blank (two_decimals v)"
  using digits_visible by (simp add: two_decimals_def Let_def)

lemma isoformat_visible: "\<not> is_blank (isoformat d)"
  using digits_visible by (simp add: isoformat_def pad_def)

end
