(* ===== verification/Pain001.thy ===== *)
theory Pain001
  imports LedgerState Texts
begin

text \<open>
  The payment file (\<open>pain001\<close>, \<open>validate_pain001\<close> and \<open>control_sum\<close> in
  \<open>mhvp/banking/payments.py\<close>, \<open>sepa_text\<close> in \<open>mhvp/accounting/direct_debit.py\<close>): an ISO 20022
  credit transfer initiation as a tree, and the check it passes before it is stored and handed out. Writing the tree
  as XML text and reading it back is the work of the XML library and the identity here; the namespace of the
  document stands beside its root element.
\<close>

datatype xml = Elem (xtag: string) (xattrs: "(string \<times> string) list") (xtext: "string option") (xkids: "xml list")

definition leaf :: "string \<Rightarrow> string \<Rightarrow> xml" where "leaf tag t = Elem tag [] (Some t) []"
definition node :: "string \<Rightarrow> xml list \<Rightarrow> xml" where "node tag kids = Elem tag [] None kids"

section \<open>Texts\<close>

definition SEPA_CHARS :: "char list" where
  "SEPA_CHARS = ''abcdefghijklmnopqrstuvwxyzABCDEFGHIJKLMNOPQRSTUVWXYZ0123456789/-?:().,'+ ''"

definition SEPA_REPLACE :: "(char, string) dict" where
  "SEPA_REPLACE = [(char_of (228::nat), ''ae''), (char_of (246::nat), ''oe''), (char_of (252::nat), ''ue''),
     (char_of (196::nat), ''Ae''), (char_of (214::nat), ''Oe''), (char_of (220::nat), ''Ue''),
     (char_of (223::nat), ''ss''), (CHR ''&'', ''+'')]"

definition sepa_char :: "char \<Rightarrow> string" where
  "sepa_char c = (case map_of SEPA_REPLACE c of Some t \<Rightarrow> t | None \<Rightarrow> if c \<in> set SEPA_CHARS then [c] else ''.'')"

text \<open>The words of a text and the words joined by single blanks.\<close>

fun words_loop :: "string \<Rightarrow> string \<Rightarrow> string list" where
  "words_loop w [] = (if w = [] then [] else [w])"
| "words_loop w (c # cs) =
     (if c = CHR '' '' then (if w = [] then words_loop [] cs else w # words_loop [] cs) else words_loop (w @ [c]) cs)"

fun join_words :: "string list \<Rightarrow> string" where
  "join_words [] = []"
| "join_words [w] = w"
| "join_words (w # ws) = w @ '' '' @ join_words ws"

definition sepa_text :: "string \<Rightarrow> nat \<Rightarrow> string" where
  "sepa_text v limit =
     (let t = take limit (join_words (words_loop [] (concat (map sepa_char v)))) in if t = [] then ''.'' else t)"

section \<open>The file\<close>

definition PAIN001_VERSIONS :: "string list" where
  "PAIN001_VERSIONS = [''pain.001.001.03'', ''pain.001.001.09'']"

definition pain_namespace :: "string \<Rightarrow> string" where
  "pain_namespace version = ''urn:iso:std:iso:20022:tech:xsd:'' @ version"

definition control_sum :: "payment_order list \<Rightarrow> dec" where
  "control_sum os = sum_list (map o_amount os)"

definition transfer_elem :: "payment_order \<Rightarrow> xml" where
  "transfer_elem o' = node ''CdtTrfTxInf''
     [node ''PmtId'' [leaf ''EndToEndId'' (take 35 (o_e2e o'))],
      node ''Amt'' [Elem ''InstdAmt'' [(''Ccy'', ''EUR'')] (Some (two_decimals (o_amount o'))) []],
      node ''Cdtr'' [leaf ''Nm'' (sepa_text (o_name o') 70)],
      node ''CdtrAcct'' [node ''Id'' [leaf ''IBAN'' (o_iban o')]],
      node ''RmtInf'' [leaf ''Ustrd'' (sepa_text (o_purpose o') 140)]]"

definition info_elem ::
  "string \<Rightarrow> string \<Rightarrow> string \<Rightarrow> string option \<Rightarrow> bool \<Rightarrow> nat \<Rightarrow> date \<Rightarrow> payment_order list \<Rightarrow> xml" where
  "info_elem batch_id holder iban bic modern index execution os = node ''PmtInf''
     ([leaf ''PmtInfId'' (take 35 (batch_id @ ''-'' @ digits index)),
       leaf ''PmtMtd'' ''TRF'', leaf ''BtchBookg'' ''true'',
       leaf ''NbOfTxs'' (digits (length os)), leaf ''CtrlSum'' (two_decimals (control_sum os)),
       node ''PmtTpInf'' [node ''SvcLvl'' [leaf ''Cd'' ''SEPA'']],
       (if modern then node ''ReqdExctnDt'' [leaf ''Dt'' (isoformat execution)] else leaf ''ReqdExctnDt'' (isoformat execution)),
       node ''Dbtr'' [leaf ''Nm'' (sepa_text holder 70)],
       node ''DbtrAcct'' [node ''Id'' [leaf ''IBAN'' iban]],
       node ''DbtrAgt'' [node ''FinInstnId''
         [case bic of Some b \<Rightarrow> if b = [] then node ''Othr'' [leaf ''Id'' ''NOTPROVIDED'']
             else leaf (if modern then ''BICFI'' else ''BIC'') b
           | None \<Rightarrow> node ''Othr'' [leaf ''Id'' ''NOTPROVIDED'']]],
       leaf ''ChrgBr'' ''SLEV''] @ map transfer_elem os)"

definition by_execution :: "payment_order list \<Rightarrow> (date, payment_order list) dict" where
  "by_execution os = foldl (\<lambda>g o'. AList.update (o_execution_date o') (dict_get g (o_execution_date o') [] @ [o']) g) [] os"

definition pain001 ::
  "string \<Rightarrow> string \<Rightarrow> string \<Rightarrow> string option \<Rightarrow> string \<Rightarrow> string \<Rightarrow> payment_order list \<Rightarrow> (string \<times> xml) res" where
  "pain001 batch_id holder iban bic version created os =
     (if version \<notin> set PAIN001_VERSIONS then Inl Validation
      else if os = [] then Inl Validation
      else
        let groups = by_execution os; days = sort (map fst groups); modern = (version = ''pain.001.001.09'')
        in Inr (pain_namespace version, node ''Document'' [node ''CstmrCdtTrfInitn''
             (node ''GrpHdr'' [leaf ''MsgId'' (take 35 batch_id), leaf ''CreDtTm'' created,
                leaf ''NbOfTxs'' (digits (length os)), leaf ''CtrlSum'' (two_decimals (control_sum os)),
                node ''InitgPty'' [leaf ''Nm'' (sepa_text holder 70)]] #
              map (\<lambda>(index, d). info_elem batch_id holder iban bic modern index d (dict_get groups d []))
                (zip [1..<length days + 1] days))]))"

section \<open>The check\<close>

fun find_all :: "string list \<Rightarrow> xml \<Rightarrow> xml list" where
  "find_all [] t = [t]"
| "find_all (p # ps) t = concat (map (find_all ps) (filter (\<lambda>c. xtag c = p) (xkids t)))"

definition find_text :: "string list \<Rightarrow> xml \<Rightarrow> string option" where
  "find_text path t =
     (case find_all path t of [] \<Rightarrow> None | x # _ \<Rightarrow> Some (case xtext x of None \<Rightarrow> [] | Some v \<Rightarrow> v))"

definition blank_text :: "string option \<Rightarrow> bool" where
  "blank_text t \<longleftrightarrow> (case t of None \<Rightarrow> True | Some v \<Rightarrow> is_blank v)"

datatype pain_error =
    Unreadable | Unknown_Root | No_Initiation | No_Header | Header_Missing "string list" | No_Info
  | Info_Missing "string list" | Wrong_Method | No_Date | No_Debtor_Account | No_Debtor_Agent | Info_Count
  | Tx_Missing "string list" | Not_Eur | No_Amount | Amount_Not_Positive | Info_Sum | Header_Count | Header_Sum | Duplicate_Reference

definition check_transfer :: "xml \<Rightarrow> pain_error list \<times> dec" where
  "check_transfer tx =
     (let missing = map Tx_Missing (filter (\<lambda>p. blank_text (find_text p tx))
            [[''PmtId'', ''EndToEndId''], [''Cdtr'', ''Nm''], [''CdtrAcct'', ''Id'', ''IBAN'']])
      in case find_all [''Amt'', ''InstdAmt''] tx of
           [] \<Rightarrow> (missing @ [Not_Eur], 0)
         | a # _ \<Rightarrow>
             if map_of (xattrs a) ''Ccy'' \<noteq> Some ''EUR'' then (missing @ [Not_Eur], 0)
             else (case parse_decimal (case xtext a of None \<Rightarrow> [] | Some v \<Rightarrow> v) of
                 None \<Rightarrow> (missing @ [No_Amount], 0)
               | Some v \<Rightarrow> (missing @ (if v \<le> 0 then [Amount_Not_Positive] else []), v)))"

definition check_info :: "xml \<Rightarrow> pain_error list \<times> xml list \<times> dec" where
  "check_info info =
     (let txs = find_all [''CdtTrfTxInf''] info;
          checked = map check_transfer txs; total = sum_list (map snd checked)
      in (map Info_Missing (filter (\<lambda>p. blank_text (find_text p info))
             [[''PmtInfId''], [''PmtMtd''], [''NbOfTxs''], [''CtrlSum''], [''Dbtr'', ''Nm'']]) @
          (if find_text [''PmtMtd''] info \<noteq> Some ''TRF'' then [Wrong_Method] else []) @
          (if blank_text (case find_text [''ReqdExctnDt'', ''Dt''] info of
               Some v \<Rightarrow> if v = [] then find_text [''ReqdExctnDt''] info else Some v
             | None \<Rightarrow> find_text [''ReqdExctnDt''] info) then [No_Date] else []) @
          (if blank_text (find_text [''DbtrAcct'', ''Id'', ''IBAN''] info) then [No_Debtor_Account] else []) @
          (if find_all [''DbtrAgt'', ''FinInstnId''] info = [] then [No_Debtor_Agent] else []) @
          (if find_text [''NbOfTxs''] info \<noteq> Some (digits (length txs)) then [Info_Count] else []) @
          concat (map fst checked) @
          (if find_text [''CtrlSum''] info \<noteq> Some (two_decimals total) then [Info_Sum] else []), txs, total))"

definition validate_pain001 :: "(string \<times> xml) option \<Rightarrow> pain_error list" where
  "validate_pain001 doc =
     (case doc of
        None \<Rightarrow> [Unreadable]
      | Some (ns, rt) \<Rightarrow>
          if xtag rt \<noteq> ''Document'' \<or> ns \<notin> set (map pain_namespace PAIN001_VERSIONS) then [Unknown_Root]
          else (case find_all [''CstmrCdtTrfInitn''] rt of
              [] \<Rightarrow> [No_Initiation]
            | init # _ \<Rightarrow>
                (case find_all [''GrpHdr''] init of
                   [] \<Rightarrow> [No_Header]
                 | header # _ \<Rightarrow>
                     (let infos = find_all [''PmtInf''] init; parts = map check_info infos;
                          all_tx = concat (map (fst \<circ> snd) parts); total = sum_list (map (snd \<circ> snd) parts)
                      in map Header_Missing (filter (\<lambda>p. blank_text (find_text p header))
                           [[''MsgId''], [''CreDtTm''], [''NbOfTxs''], [''CtrlSum''], [''InitgPty'', ''Nm'']]) @
                         (if infos = [] then [No_Info] else []) @ concat (map fst parts) @
                         (if find_text [''NbOfTxs''] header \<noteq> Some (digits (length all_tx)) then [Header_Count] else []) @
                         (if find_text [''CtrlSum''] header \<noteq> Some (two_decimals total) then [Header_Sum] else []) @
                         (if distinct (map (find_text [''PmtId'', ''EndToEndId'']) all_tx) then [] else [Duplicate_Reference])))))"

section \<open>Texts of the file are never blank\<close>

lemma words_loop_words: "[] \<notin> set (words_loop w t)"
  by (induction w t rule: words_loop.induct) auto

lemma words_loop_chars:
  "w' \<in> set (words_loop w t) \<Longrightarrow> c \<in> set w' \<Longrightarrow> c \<in> set w \<or> (c \<noteq> CHR '' '' \<and> c \<in> set t)"
proof (induction w t rule: words_loop.induct)
  case (2 w d cs)
  show ?case
  proof (cases "d = CHR '' ''")
    case blank: True
    show ?thesis
    proof (cases "w = []")
      case True
      with blank 2(1)[OF blank True] 2(4,5) show ?thesis by simp
    next
      case False
      with blank 2(2)[OF blank False] 2(4,5) show ?thesis by auto
    qed
  next
    case False
    with 2(3)[OF False] 2(4,5) show ?thesis by auto
  qed
qed (auto split: if_splits)

lemma sepa_chars_visible: "c' \<in> set (sepa_char c) \<Longrightarrow> c' = CHR '' '' \<or> c' \<notin> set py_space"
proof -
  assume c': "c' \<in> set (sepa_char c)"
  have a: "list_all (\<lambda>x. x = CHR '' '' \<or> x \<notin> set py_space) SEPA_CHARS" by code_simp
  have b: "list_all (\<lambda>(_, t). list_all (\<lambda>x. x \<notin> set py_space) t) SEPA_REPLACE" by code_simp
  have d: "CHR ''.'' \<notin> set py_space" by code_simp
  show ?thesis
  proof (cases "map_of SEPA_REPLACE c")
    case None
    then show ?thesis using c' a d by (auto simp: sepa_char_def list_all_iff split: if_splits)
  next
    case (Some t)
    then have "(c, t) \<in> set SEPA_REPLACE" by (rule map_of_SomeD)
    then show ?thesis using c' b Some by (auto simp: sepa_char_def list_all_iff)
  qed
qed

lemma sepa_text_visible:
  assumes "0 < limit"
  shows "\<not> is_blank (sepa_text v limit)"
proof -
  define t where "t = concat (map sepa_char v)"
  define ws where "ws = words_loop [] t"
  have dot: "\<not> is_blank ''.''" by code_simp
  show ?thesis
  proof (cases ws)
    case Nil
    then show ?thesis using dot by (simp add: sepa_text_def t_def[symmetric] ws_def[symmetric])
  next
    case (Cons w ws')
    have "w \<noteq> []" using words_loop_words[of "[]" t] Cons by (auto simp: ws_def)
    then obtain c r where c: "w = c # r" by (cases w) auto
    have w: "c \<noteq> CHR '' ''" "c \<in> set t"
      using words_loop_chars[of w "[]" t c] Cons c by (auto simp: ws_def)
    have "c \<notin> set py_space" using w sepa_chars_visible by (auto simp: t_def)
    moreover obtain r' where "join_words ws = c # r'" using c Cons by (cases ws') auto
    ultimately show ?thesis using assms
      by (cases limit) (auto simp: sepa_text_def t_def[symmetric] ws_def[symmetric] is_blank_def)
  qed
qed

section \<open>The generated file passes its check\<close>

declare find_all.simps [simp del]

lemma find_text_leaf [simp]: "find_text [] (leaf tag t) = Some t"
  by (simp add: find_text_def leaf_def find_all.simps)

lemma take_visible: "\<not> is_blank (take n t) \<Longrightarrow> \<not> is_blank (take n (t @ r))"
  by simp

definition writable :: "payment_order \<Rightarrow> bool" where
  "writable o' \<longleftrightarrow> is_cents (o_amount o') \<and> \<not> is_blank (take 35 (o_e2e o')) \<and> \<not> is_blank (o_iban o')"

lemma check_transfer_elem:
  assumes "writable o'"
  shows "check_transfer (transfer_elem o') = (if o_amount o' \<le> 0 then [Amount_Not_Positive] else [], o_amount o')"
proof -
  have f: "find_text [''PmtId'', ''EndToEndId''] (transfer_elem o') = Some (take 35 (o_e2e o'))"
    "find_text [''Cdtr'', ''Nm''] (transfer_elem o') = Some (sepa_text (o_name o') 70)"
    "find_text [''CdtrAcct'', ''Id'', ''IBAN''] (transfer_elem o') = Some (o_iban o')"
    "find_all [''Amt'', ''InstdAmt''] (transfer_elem o') = [Elem ''InstdAmt'' [(''Ccy'', ''EUR'')] (Some (two_decimals (o_amount o'))) []]"
    by (simp_all add: find_text_def transfer_elem_def node_def leaf_def find_all.simps)
  show ?thesis
    using assms sepa_text_visible[of 70 "o_name o'"] two_decimals_read
    by (simp add: check_transfer_def f blank_text_def writable_def)
qed

lemma filter_transfers:
  "filter (\<lambda>c. xtag c = tag) (map transfer_elem os) = (if tag = ''CdtTrfTxInf'' then map transfer_elem os else [])"
  by (induction os) (auto simp: transfer_elem_def node_def)

lemma concat_single: "concat (map (find_all [] \<circ> f) xs) = map f xs"
  by (induction xs) (auto simp: find_all.simps)

lemma check_info_elem:
  assumes w: "\<forall>o' \<in> set os. writable o'" and id: "\<not> is_blank (take 35 batch_id)" and iban: "\<not> is_blank iban"
  shows "check_info (info_elem batch_id holder iban bic modern index execution os) =
    (concat (map (\<lambda>o'. if o_amount o' \<le> 0 then [Amount_Not_Positive] else []) os), map transfer_elem os, control_sum os)"
proof -
  let ?i = "info_elem batch_id holder iban bic modern index execution os"
  have f: "find_text [''PmtInfId''] ?i = Some (take 35 (batch_id @ ''-'' @ digits index))"
    "find_text [''PmtMtd''] ?i = Some ''TRF''" "find_text [''NbOfTxs''] ?i = Some (digits (length os))"
    "find_text [''CtrlSum''] ?i = Some (two_decimals (control_sum os))"
    "find_text [''Dbtr'', ''Nm''] ?i = Some (sepa_text holder 70)"
    "find_text [''ReqdExctnDt''] ?i = Some (if modern then [] else isoformat execution)"
    "find_text [''ReqdExctnDt'', ''Dt''] ?i = (if modern then Some (isoformat execution) else None)"
    "find_text [''DbtrAcct'', ''Id'', ''IBAN''] ?i = Some iban"
    "find_all [''DbtrAgt'', ''FinInstnId''] ?i \<noteq> []"
    "find_all [''CdtTrfTxInf''] ?i = map transfer_elem os"
    by (simp_all add: find_text_def info_elem_def node_def leaf_def filter_transfers concat_single find_all.simps)
  have c: "map check_transfer (map transfer_elem os) =
      map (\<lambda>o'. (if o_amount o' \<le> 0 then [Amount_Not_Positive] else [], o_amount o')) os"
    using w check_transfer_elem by simp
  have iso: "isoformat execution \<noteq> []" using isoformat_visible[of execution] by (auto simp: is_blank_def)
  have tot: "sum_list (map snd (map (\<lambda>o'. (if o_amount o' \<le> 0 then [Amount_Not_Positive] else [], o_amount o')) os)) = control_sum os"
    by (simp add: control_sum_def comp_def)
  have vis: "\<not> is_blank ''TRF''" by code_simp
  note v = sepa_text_visible[of 70 holder] digits_visible[of "length os"] two_decimals_visible[of "control_sum os"]
    isoformat_visible[of execution] take_visible[OF id] vis iban
  have miss: "filter (\<lambda>p. blank_text (find_text p ?i)) [[''PmtInfId''], [''PmtMtd''], [''NbOfTxs''], [''CtrlSum''], [''Dbtr'', ''Nm'']] = []"
    using v by (simp add: f(1-5) blank_text_def)
  have day: "\<not> blank_text (case find_text [''ReqdExctnDt'', ''Dt''] ?i of Some v \<Rightarrow> if v = [] then find_text [''ReqdExctnDt''] ?i else Some v
      | None \<Rightarrow> find_text [''ReqdExctnDt''] ?i)"
    unfolding f(6,7) using v iso by (cases modern) (simp_all add: blank_text_def)
  show ?thesis
    unfolding check_info_def Let_def miss f(2,3,4,8,10) c tot
    using v f(9) day by (simp add: blank_text_def comp_def)
qed

text \<open>Grouping by day keeps every order.\<close>

lemma group_step:
  "distinct (map fst g) \<Longrightarrow> mset (concat (map snd (AList.update k (dict_get g k [] @ [x]) g))) = mset (concat (map snd g)) + {#x#}"
proof (induction g)
  case (Cons a g)
  obtain k' os where a: "a = (k', os)" by force
  show ?case
  proof (cases "k' = k")
    case True
    then show ?thesis by (simp add: a dict_get_def)
  next
    case False
    then show ?thesis using Cons by (simp add: a dict_get_def)
  qed
qed (simp add: dict_get_def)

lemma by_execution_groups: "distinct (map fst (by_execution os)) \<and> mset (concat (map snd (by_execution os))) = mset os"
proof (induction os rule: rev_induct)
  case (snoc o' os)
  then show ?case using group_step[of "by_execution os" "o_execution_date o'" o'] by (simp add: by_execution_def)
qed (simp add: by_execution_def)

lemma groups_in_days:
  "mset (concat (map (\<lambda>d. dict_get (by_execution os) d []) (sort (map fst (by_execution os))))) = mset os"
proof -
  let ?g = "by_execution os"
  note g = by_execution_groups[of os]
  have "map (\<lambda>d. dict_get ?g d []) (map fst ?g) = map snd ?g"
    using g by (auto simp: dict_get_def intro!: map_cong)
  then have "mset (concat (map snd ?g)) = \<Sum>\<^sub># (mset (map mset (map (\<lambda>d. dict_get ?g d []) (map fst ?g))))"
    by (simp only: mset_concat sum_mset_sum_list)
  also have "\<dots> = \<Sum>\<^sub># (mset (map mset (map (\<lambda>d. dict_get ?g d []) (sort (map fst ?g)))))"
    by (simp only: mset_map mset_sort)
  finally show ?thesis using g by (simp only: mset_concat sum_mset_sum_list)
qed

text \<open>C12: A generated payment file passes the check before it is stored exactly when every order has a positive amount
  and no two orders share their end to end reference: counts, control sums, names, dates and accounts are always
  right.\<close>

theorem pain_file_check:
  assumes "version \<in> set PAIN001_VERSIONS" and "os \<noteq> []" and w: "\<forall>o' \<in> set os. writable o'"
    and "\<not> is_blank (take 35 batch_id)" and "\<not> is_blank created" and "\<not> is_blank iban"
  shows "\<exists>doc. pain001 batch_id holder iban bic version created os = Inr doc \<and>
    (validate_pain001 (Some doc) = [] \<longleftrightarrow> (\<forall>o' \<in> set os. 0 < o_amount o') \<and> distinct (map (take 35 \<circ> o_e2e) os))"
proof -
  define days where "days = sort (map fst (by_execution os))"
  define orders_on where "orders_on = (\<lambda>d. dict_get (by_execution os) d [])"
  define modern where "modern = (version = ''pain.001.001.09'')"
  define header where "header = node ''GrpHdr'' [leaf ''MsgId'' (take 35 batch_id), leaf ''CreDtTm'' created,
    leaf ''NbOfTxs'' (digits (length os)), leaf ''CtrlSum'' (two_decimals (control_sum os)), node ''InitgPty'' [leaf ''Nm'' (sepa_text holder 70)]]"
  define infos where "infos = map (\<lambda>(index, d). info_elem batch_id holder iban bic modern index d (orders_on d)) (zip [1..<length days + 1] days)"
  define init where "init = node ''CstmrCdtTrfInitn'' (header # infos)"
  define doc where "doc = (pain_namespace version, node ''Document'' [init])"
  have p: "pain001 batch_id holder iban bic version created os = Inr doc"
    using assms(1,2) by (simp add: pain001_def Let_def doc_def init_def header_def infos_def days_def orders_on_def modern_def)
  have perm: "mset (concat (map orders_on days)) = mset os"
    using groups_in_days[of os] by (simp only: orders_on_def days_def)
  have len: "length (zip [1..<length days + 1] days) = length days" by (simp del: upt_Suc)
  have snds: "map snd (zip [1..<length days + 1] days) = days" by (rule map_snd_zip) (simp del: upt_Suc)
  have on_day: "set (orders_on d) \<subseteq> set os" if "d \<in> set days" for d
  proof -
    have "set (orders_on d) \<subseteq> set (concat (map orders_on days))" using that by auto
    then show ?thesis using perm by (metis set_mset_mset)
  qed
  have info: "check_info (info_elem batch_id holder iban bic modern index d (orders_on d)) =
      (concat (map (\<lambda>o'. if o_amount o' \<le> 0 then [Amount_Not_Positive] else []) (orders_on d)), map transfer_elem (orders_on d), control_sum (orders_on d))"
    if "d \<in> set days" for index d
    by (rule check_info_elem) (use assms on_day[OF that] in auto)
  have parts: "map check_info infos = map (\<lambda>d. (concat (map (\<lambda>o'. if o_amount o' \<le> 0 then [Amount_Not_Positive] else []) (orders_on d)),
      map transfer_elem (orders_on d), control_sum (orders_on d))) days" (is "_ = map ?part days")
  proof -
    have "map check_info infos = map (?part \<circ> snd) (zip [1..<length days + 1] days)"
      unfolding infos_def by (auto dest!: set_zip_rightD simp: info)
    then show ?thesis using snds by (metis map_map)
  qed
  let ?all = "concat (map orders_on days)"
  have all_tx: "concat (map (fst \<circ> snd) (map check_info infos)) = map transfer_elem ?all"
    unfolding parts by (simp add: map_concat comp_def)
  have errs: "concat (map fst (map check_info infos)) = concat (map (\<lambda>o'. if o_amount o' \<le> 0 then [Amount_Not_Positive] else []) ?all)"
    unfolding parts by (simp add: map_concat comp_def) (induction days; simp)
  have total: "sum_list (map (snd \<circ> snd) (map check_info infos)) = control_sum os"
  proof -
    have "sum_list (map (snd \<circ> snd) (map check_info infos)) = control_sum ?all"
      unfolding parts control_sum_def by (simp add: comp_def) (induction days; simp)
    also have "\<dots> = control_sum os"
      unfolding control_sum_def using perm by (metis mset_map sum_mset_sum_list)
    finally show ?thesis .
  qed
  have count: "length ?all = length os" using perm by (metis size_mset)
  have set_all: "set ?all = set os" using perm by (metis set_mset_mset)
  have refs: "map (find_text [''PmtId'', ''EndToEndId'']) (map transfer_elem ?all) = map (Some \<circ> (take 35 \<circ> o_e2e)) ?all"
    by (simp add: find_text_def transfer_elem_def node_def leaf_def find_all.simps)
  have dist: "distinct (map (Some \<circ> (take 35 \<circ> o_e2e)) ?all) = distinct (map (take 35 \<circ> o_e2e) os)"
  proof -
    have "mset (map (take 35 \<circ> o_e2e) ?all) = mset (map (take 35 \<circ> o_e2e) os)" using perm by simp
    then have "distinct (map (take 35 \<circ> o_e2e) ?all) = distinct (map (take 35 \<circ> o_e2e) os)" by (rule mset_eq_imp_distinct_iff)
    moreover have "distinct (map (Some \<circ> (take 35 \<circ> o_e2e)) ?all) = distinct (map (take 35 \<circ> o_e2e) ?all)"
      by (simp add: distinct_map inj_on_def del: map_concat)
    ultimately show ?thesis by simp
  qed
  have info_tag: "filter (\<lambda>c. xtag c = tag) infos = (if tag = ''PmtInf'' then infos else [])" for tag
    unfolding infos_def by (auto simp: info_elem_def node_def filter_map comp_def case_prod_unfold)
  have days_ne: "infos \<noteq> []"
    using count assms(2) len unfolding infos_def by (cases days) auto
  have trivial: "concat (map (find_all []) ts) = ts" for ts
    by (induction ts) (auto simp: find_all.simps)
  have f: "find_all [''CstmrCdtTrfInitn''] (node ''Document'' [init]) = [init]" "find_all [''GrpHdr''] init = [header]"
    "find_all [''PmtInf''] init = infos"
    using trivial[of infos]
    by (simp_all add: find_all.simps init_def node_def info_tag header_def comp_def)
  have h: "find_text [''MsgId''] header = Some (take 35 batch_id)" "find_text [''CreDtTm''] header = Some created"
    "find_text [''NbOfTxs''] header = Some (digits (length os))" "find_text [''CtrlSum''] header = Some (two_decimals (control_sum os))"
    "find_text [''InitgPty'', ''Nm''] header = Some (sepa_text holder 70)"
    by (simp_all add: find_text_def header_def node_def leaf_def find_all.simps)
  have ns: "pain_namespace version \<in> set (map pain_namespace PAIN001_VERSIONS)" using assms(1) by auto
  have tag: "xtag (node ''Document'' [init]) = ''Document''" by (simp add: node_def)
  note vis = sepa_text_visible[of 70 holder] digits_visible[of "length os"] two_decimals_visible[of "control_sum os"] assms(4,5)
  have "validate_pain001 (Some doc) = concat (map (\<lambda>o'. if o_amount o' \<le> 0 then [Amount_Not_Positive] else []) ?all) @
      (if distinct (map (take 35 \<circ> o_e2e) os) then [] else [Duplicate_Reference])"
    unfolding validate_pain001_def doc_def option.case prod.case tag f list.case Let_def all_tx errs total refs dist
    using ns vis days_ne count by (simp add: h blank_text_def del: map_concat)
  moreover have "concat (map (\<lambda>o'. if o_amount o' \<le> 0 then [Amount_Not_Positive] else []) ?all) = [] \<longleftrightarrow> (\<forall>o' \<in> set os. 0 < o_amount o')"
  proof -
    have "concat (map (\<lambda>o'. if o_amount o' \<le> 0 then [Amount_Not_Positive] else []) xs) = [] \<longleftrightarrow> (\<forall>o' \<in> set xs. 0 < o_amount o')" for xs
      by (induction xs) (auto simp: not_le)
    from this[of ?all] show ?thesis unfolding set_all .
  qed
  ultimately show ?thesis using p by auto
qed

text \<open>Two orders, one of them over nothing.\<close>

definition sample_order :: "dec \<Rightarrow> string \<Rightarrow> payment_order" where
  "sample_order amount ref = \<lparr>o_ledger = 1, o_bank = 50, o_item = None, o_invoice = None, o_amount = amount, o_discount = 0,
     o_name = ''Muster'', o_iban = ''DE1'', o_fingerprint = ''f'', o_purpose = ''Rechnung 7'', o_e2e = ref,
     o_execution_date = Date 2024 5 2, o_status = Ord_Approved, o_executed = None, o_batch = None, o_transaction = None,
     o_entry = None, o_payee = None, o_reason = None\<rparr>"

theorem pain_file_check_witness:
  "\<exists>doc. pain001 ''MHVP1'' ''Estate'' ''DE2'' None ''pain.001.001.09'' ''2024-05-01T08:00:00'' [sample_order 5 ''E2E1'', sample_order 0 ''E2E2''] = Inr doc \<and>
    validate_pain001 (Some doc) \<noteq> []"
proof -
  have b: "\<not> is_blank (take 35 ''MHVP1'')" "\<not> is_blank ''2024-05-01T08:00:00''" "\<not> is_blank ''DE2''"
    "\<not> is_blank ''E2E1''" "\<not> is_blank ''E2E2''" "\<not> is_blank ''DE1''" by code_simp+
  show ?thesis
    using pain_file_check[of "''pain.001.001.09''" "[sample_order 5 ''E2E1'', sample_order 0 ''E2E2'']" "''MHVP1''"
        "''2024-05-01T08:00:00''" "''DE2''" "''Estate''" None] b
    by (auto simp: PAIN001_VERSIONS_def writable_def sample_order_def is_cents_def)
qed

end
