(* ===== verification/Iban.thy ===== *)
theory Iban
  imports Texts
begin

text \<open>
  The check of an IBAN (\<open>normalise_iban\<close> and \<open>mask_iban\<close> in \<open>mhvp/contacts/validation.py\<close>): white space goes,
  letters become capitals, shape and length of the country, check digits modulo 97. Characters are those of
  Latin-1.
\<close>

definition IBAN_LENGTHS :: "(string, nat) dict" where
  "IBAN_LENGTHS = [(''DE'', 22), (''AT'', 20), (''CH'', 21), (''NL'', 18), (''BE'', 16), (''FR'', 27), (''LU'', 20),
     (''IT'', 27), (''ES'', 24)]"

definition is_capital :: "char \<Rightarrow> bool" where
  "is_capital c \<longleftrightarrow> 65 \<le> (of_char c :: nat) \<and> (of_char c :: nat) \<le> 90"

text \<open>\<open>upper\<close>, as far as it yields letters or digits of ASCII.\<close>

definition upper_char :: "char \<Rightarrow> string" where
  "upper_char c =
     (let n = of_char c :: nat
      in if 97 \<le> n \<and> n \<le> 122 then [char_of (n - 32)] else if n = 223 then ''SS'' else [c])"

definition iban_shape :: "string \<Rightarrow> bool" where
  "iban_shape t \<longleftrightarrow> 15 \<le> length t \<and> length t \<le> 34 \<and> list_all is_capital (take 2 t) \<and>
     list_all is_digit (take 2 (drop 2 t)) \<and> list_all (\<lambda>c. is_capital c \<or> is_digit c) (drop 4 t)"

definition base36 :: "char \<Rightarrow> nat" where
  "base36 c = (if is_digit c then of_char c - 48 else of_char c - 55)"

definition iban_digits :: "string \<Rightarrow> string" where
  "iban_digits t = concat (map (digits \<circ> base36) t)"

definition normalise_iban :: "string \<Rightarrow> string res" where
  "normalise_iban v =
     (let iban = concat (map upper_char (filter (\<lambda>c. c \<notin> set py_space) v))
      in if \<not> iban_shape iban then Inl Value_Error
         else if (case map_of IBAN_LENGTHS (take 2 iban) of None \<Rightarrow> False | Some n \<Rightarrow> length iban \<noteq> n) then Inl Value_Error
         else if digits_value (iban_digits (drop 4 iban @ take 4 iban)) mod 97 \<noteq> 1 then Inl Value_Error
         else Inr iban)"

definition mask_iban :: "string \<Rightarrow> string" where
  "mask_iban iban = take 4 iban @ '' **** **** '' @ drop (length iban - 4) iban"

lemma normalise_iban_eq:
  "normalise_iban v = Inr t \<longleftrightarrow> t = concat (map upper_char (filter (\<lambda>c. c \<notin> set py_space) v)) \<and> iban_shape t \<and>
     (\<forall>n. map_of IBAN_LENGTHS (take 2 t) = Some n \<longrightarrow> length t = n) \<and>
     digits_value (iban_digits (drop 4 t @ take 4 t)) mod 97 = 1"
  by (auto simp: normalise_iban_def Let_def split: option.splits if_splits)

text \<open>A normal form is left as it is.\<close>

lemma plain_char:
  assumes "is_capital c \<or> is_digit c"
  shows "c \<notin> set py_space" "upper_char c = [c]"
proof -
  have "list_all (\<lambda>c. \<not> is_capital c) py_space" by code_simp
  then show "c \<notin> set py_space" using assms not_blank_digit by (auto simp: list_all_iff)
  show "upper_char c = [c]" using assms by (auto simp: upper_char_def is_capital_def is_digit_def Let_def)
qed

lemma shape_chars: "iban_shape t \<Longrightarrow> c \<in> set t \<Longrightarrow> is_capital c \<or> is_digit c"
proof -
  assume s: "iban_shape t" and c: "c \<in> set t"
  have "t = take 2 t @ take 2 (drop 2 t) @ drop 4 t" by (metis append_assoc append_take_drop_id drop_drop one_add_one numeral_Bit0)
  then have "c \<in> set (take 2 t) \<union> set (take 2 (drop 2 t)) \<union> set (drop 4 t)" using c by (metis Un_assoc set_append)
  then show ?thesis using s by (auto simp: iban_shape_def list_all_iff)
qed

lemma plain_text:
  assumes "\<forall>c \<in> set t. is_capital c \<or> is_digit c"
  shows "concat (map upper_char (filter (\<lambda>c. c \<notin> set py_space) t)) = t"
  using assms plain_char by (induction t) auto

text \<open>What a single character contributes.\<close>

lemma digits_value_join: "digits_value (a @ b) = digits_value a * 10 ^ length b + digits_value b"
  by (induction b rule: rev_induct) (auto simp: digits_value_append digits_value_def algebra_simps simp flip: append_assoc)

lemma digits_length: "n < 10 \<Longrightarrow> length (digits n) = 1" "10 \<le> n \<Longrightarrow> n < 100 \<Longrightarrow> length (digits n) = 2"
  by (simp_all add: digits.simps)

lemma base36_bounds:
  "is_digit c \<Longrightarrow> base36 c < 10" "is_capital c \<Longrightarrow> 10 \<le> base36 c \<and> base36 c < 36"
  by (auto simp: base36_def is_digit_def is_capital_def)

lemma base36_inj:
  assumes "is_digit c \<and> is_digit d \<or> is_capital c \<and> is_capital d" and "base36 c = base36 d"
  shows "c = d"
proof -
  have nd: "is_capital x \<Longrightarrow> \<not> is_digit x" for x by (simp add: is_digit_def is_capital_def)
  have "(of_char c :: nat) = of_char d"
    using assms(1)
  proof
    assume k: "is_digit c \<and> is_digit d"
    then have "(of_char c :: nat) - 48 = of_char d - 48" using assms(2) by (simp add: base36_def)
    then show ?thesis using k unfolding is_digit_def by linarith
  next
    assume k: "is_capital c \<and> is_capital d"
    then have "(of_char c :: nat) - 55 = of_char d - 55" using assms(2) nd by (simp add: base36_def)
    then show ?thesis using k unfolding is_capital_def by linarith
  qed
  then show ?thesis by simp
qed

lemma prime_97: "(97 :: int) dvd k * 10 ^ n \<Longrightarrow> 97 dvd k"
proof -
  assume d: "(97 :: int) dvd k * 10 ^ n"
  have "gcd (97 :: int) 10 = 1" by code_simp
  then have "coprime (97 :: int) (10 ^ n)" by (simp add: coprime_iff_gcd_eq_1[of 97 10, symmetric])
  then show ?thesis using d coprime_dvd_mult_left_iff by blast
qed

lemma base36_length:
  assumes "is_digit c \<and> is_digit d \<or> is_capital c \<and> is_capital d"
  shows "length (digits (base36 d)) = length (digits (base36 c))"
proof -
  have two: "10 \<le> n \<Longrightarrow> n < 36 \<Longrightarrow> length (digits n) = 2" for n using digits_length(2)[of n] by simp
  from assms show ?thesis
  proof
    assume "is_digit c \<and> is_digit d"
    then show ?thesis by (simp add: digits_length(1) base36_bounds(1))
  next
    assume "is_capital c \<and> is_capital d"
    then show ?thesis by (simp add: two base36_bounds(2))
  qed
qed

lemma one_character:
  assumes kind: "is_digit c \<and> is_digit d \<or> is_capital c \<and> is_capital d" and ne: "c \<noteq> d"
    and one: "digits_value (iban_digits (a @ c # b)) mod 97 = 1"
  shows "digits_value (iban_digits (a @ d # b)) mod 97 \<noteq> 1"
proof
  assume two: "digits_value (iban_digits (a @ d # b)) mod 97 = 1"
  let ?B = "iban_digits b" and ?A = "digits_value (iban_digits a)"
  let ?L = "length (digits (base36 c)) + length ?B" and ?M = "10 ^ length ?B :: nat" and ?V = "digits_value ?B"
  note len = base36_length[OF kind]
  have val: "digits_value (iban_digits (a @ x # b)) =
      ?A * 10 ^ (length (digits (base36 x)) + length ?B) + base36 x * 10 ^ length ?B + digits_value ?B" for x
    using digits_ok[of "base36 x"] by (simp add: iban_digits_def digits_value_join power_add algebra_simps)
  have c: "(?A * 10 ^ ?L + base36 c * ?M + ?V) mod 97 = 1" using one unfolding val .
  have d: "(?A * 10 ^ ?L + base36 d * ?M + ?V) mod 97 = 1" using two unfolding val len .
  have "int (?A * 10 ^ ?L + base36 c * ?M + ?V) mod 97 = int (?A * 10 ^ ?L + base36 d * ?M + ?V) mod 97"
    unfolding zmod_int[symmetric, of _ 97, simplified] using c d by (metis of_nat_mod of_nat_numeral)
  then have "(97 :: int) dvd int (?A * 10 ^ ?L + base36 c * ?M + ?V) - int (?A * 10 ^ ?L + base36 d * ?M + ?V)"
    by (simp only: mod_eq_dvd_iff)
  moreover have "int (?A * 10 ^ ?L + base36 c * ?M + ?V) - int (?A * 10 ^ ?L + base36 d * ?M + ?V) =
      (int (base36 c) - int (base36 d)) * 10 ^ length ?B"
    by (simp add: algebra_simps)
  ultimately have dv: "(97 :: int) dvd int (base36 c) - int (base36 d)" using prime_97 by metis
  have "base36 c < 97 \<and> base36 d < 97" using kind base36_bounds[of c] base36_bounds[of d] by auto
  then have "\<bar>int (base36 c) - int (base36 d)\<bar> < 97" by linarith
  then have "int (base36 c) - int (base36 d) = 0" using dv dvd_imp_le_int[of "int (base36 c) - int (base36 d)" 97] by fastforce
  then show False using base36_inj[OF kind] ne by simp
qed

text \<open>C13: The check of an IBAN keeps its result and catches a single typing error within a class of characters: an
  accepted IBAN is accepted again unchanged, and putting another digit for a digit or another capital for a
  capital at any place makes it refused. A digit put for a letter or a letter for a digit is not covered; it can
  go unnoticed (iban_class_change_accepted).\<close>

theorem iban_single_error:
  assumes "normalise_iban v = Inr t"
  shows "normalise_iban t = Inr t \<and>
    (\<forall>i < length t. \<forall>d. d \<noteq> t ! i \<and> (is_digit d \<and> is_digit (t ! i) \<or> is_capital d \<and> is_capital (t ! i)) \<longrightarrow>
       normalise_iban (t[i := d]) = Inl Value_Error)"
proof (intro conjI allI impI)
  note t = assms[unfolded normalise_iban_eq]
  have plain: "\<forall>c \<in> set t. is_capital c \<or> is_digit c" using t shape_chars by blast
  show "normalise_iban t = Inr t"
    unfolding normalise_iban_eq plain_text[OF plain] by (intro conjI refl) (use t in blast)+
  fix i d assume i: "i < length t" and d: "d \<noteq> t ! i \<and> (is_digit d \<and> is_digit (t ! i) \<or> is_capital d \<and> is_capital (t ! i))"
  let ?u = "t[i := d]"
  have "\<forall>c \<in> set ?u. is_capital c \<or> is_digit c" using plain d set_update_subset_insert[of t i d] by auto
  note p = plain_text[OF this]
  have four: "4 \<le> length t" using t unfolding iban_shape_def by linarith
  have "\<exists>a b. drop 4 t @ take 4 t = a @ t ! i # b \<and> drop 4 ?u @ take 4 ?u = a @ d # b"
  proof (cases "i < 4")
    case True
    then have j: "i < length (take 4 t)" using four by simp
    have "drop 4 t @ take 4 t = (drop 4 t @ take i (take 4 t)) @ t ! i # drop (Suc i) (take 4 t)"
      using id_take_nth_drop[OF j] True by simp
    moreover have "drop 4 ?u @ take 4 ?u = (drop 4 t @ take i (take 4 t)) @ d # drop (Suc i) (take 4 t)"
      using upd_conv_take_nth_drop[OF j, of d] True by (simp add: take_update_swap)
    ultimately show ?thesis by blast
  next
    case False
    then have j: "i - 4 < length (drop 4 t)" using i by simp
    have "drop 4 t @ take 4 t = take (i - 4) (drop 4 t) @ t ! i # drop (Suc (i - 4)) (drop 4 t) @ take 4 t"
      using id_take_nth_drop[OF j] False i by simp
    moreover have "drop 4 ?u @ take 4 ?u = take (i - 4) (drop 4 t) @ d # drop (Suc (i - 4)) (drop 4 t) @ take 4 t"
      using upd_conv_take_nth_drop[OF j, of d] False by (simp add: drop_update_swap)
    ultimately show ?thesis by blast
  qed
  then obtain a b where ab: "drop 4 t @ take 4 t = a @ t ! i # b" "drop 4 ?u @ take 4 ?u = a @ d # b" by blast
  have "digits_value (iban_digits (a @ d # b)) mod 97 \<noteq> 1"
    by (rule one_character[of "t ! i"]) (use d t ab in auto)
  then show "normalise_iban ?u = Inl Value_Error" unfolding normalise_iban_def Let_def p ab(2) by simp
qed

theorem iban_single_error_witness:
  "normalise_iban ''DE89370400440532013000'' = Inr ''DE89370400440532013000'' \<and>
   normalise_iban (''DE89370400440532013000''[21 := CHR ''1'']) = Inl Value_Error"
proof -
  let ?t = "''DE89370400440532013000''"
  have c: "concat (map upper_char (filter (\<lambda>c. c \<notin> set py_space) ''de89 3704 0044 0532 0130 00'')) = ?t" by code_simp
  have s: "iban_shape ?t" by code_simp
  have n: "map_of IBAN_LENGTHS (take 2 ?t) = Some (length ?t)" by code_simp
  have g: "iban_digits (drop 4 ?t @ take 4 ?t) = ''370400440532013000131489''" by code_simp
  have r: "digits_value ''370400440532013000131489'' mod 97 = 1" by (simp add: digits_value_def)
  have a: "normalise_iban ''de89 3704 0044 0532 0130 00'' = Inr ?t"
    unfolding normalise_iban_eq g using c s n r by simp
  have l: "21 < length ?t" by code_simp
  have d: "CHR ''1'' \<noteq> ?t ! 21 \<and> (is_digit CHR ''1'' \<and> is_digit (?t ! 21) \<or> is_capital CHR ''1'' \<and> is_capital (?t ! 21))"
    by code_simp
  note both = iban_single_error[OF a]
  show ?thesis by (rule conjI[OF both[THEN conjunct1] both[THEN conjunct2, rule_format, OF l d]])
qed

text \<open>A letter put for a digit: both numbers are accepted.\<close>

lemma iban_class_change_accepted:
  "normalise_iban ''DE89370400440532013000'' = Inr ''DE89370400440532013000'' \<and>
   normalise_iban ''DE893704T0440532013000'' = Inr ''DE893704T0440532013000''"
proof -
  have accepted: "normalise_iban t = Inr t"
    if "concat (map upper_char (filter (\<lambda>c. c \<notin> set py_space) t)) = t" "iban_shape t"
      "map_of IBAN_LENGTHS (take 2 t) = Some (length t)" "digits_value (iban_digits (drop 4 t @ take 4 t)) mod 97 = 1" for t
    unfolding normalise_iban_eq using that by simp
  have g: "iban_digits (drop 4 ''DE89370400440532013000'' @ take 4 ''DE89370400440532013000'') = ''370400440532013000131489''"
    "iban_digits (drop 4 ''DE893704T0440532013000'' @ take 4 ''DE893704T0440532013000'') = ''3704290440532013000131489''"
    by code_simp+
  have r: "digits_value ''370400440532013000131489'' mod 97 = 1" "digits_value ''3704290440532013000131489'' mod 97 = 1"
    by (simp_all add: digits_value_def)
  have "normalise_iban ''DE89370400440532013000'' = Inr ''DE89370400440532013000''"
    by (rule accepted, code_simp, code_simp, code_simp) (simp only: g r)
  moreover have "normalise_iban ''DE893704T0440532013000'' = Inr ''DE893704T0440532013000''"
    by (rule accepted, code_simp, code_simp, code_simp) (simp only: g r)
  ultimately show ?thesis by blast
qed

end
