(* ===== verification/Spec2Isabelle.thy ===== *)
theory Spec2Isabelle
  imports BillingCalc Distribution Proration PeriodLock LedgerHistory LedgerSubledger LedgerTrial HoaBlocks HoaLoanYear
    CashFlow Majority BusinessTime TicketDesk Settlement Heating BankSteps Pain001 Iban
begin

text \<open>
  The core of the Python back end of a property management system: \<open>src/apps/api/src/mhvp\<close>, called
  \<open>mhvp\<close> here. The back end is a FastAPI application over a PostgreSQL database; its packages share one
  ledger per owner or community. The development models the packages that decide about money, deadlines
  and release by a second person, and proves that they do what they promise.

  \<^bold>\<open>Foundations.\<close> \<open>Prelude\<close>: results \<open>'a res\<close> (\<open>Inl\<close> is the problem or exception that is raised), loops that
  may fail (\<open>foldr_res\<close>, \<open>mapr\<close>), Python dictionaries as association lists in insertion order, sorting by
  a key, and the generic step systems. \<open>PyDecimal\<close>: \<open>decimal.Decimal\<close> under the default context, every
  operation rounded to 28 digits, with the rounding modes as interpretations of one locale. \<open>PyDate\<close>: the
  proleptic calendar of \<open>datetime.date\<close>. \<open>Money\<close> (\<open>mhvp/core/money.py\<close>): cents, and the distribution of an
  amount by weights.

  \<^bold>\<open>Billing.\<close> \<open>Distribution\<close> and \<open>BillingCalc\<close> (\<open>mhvp/billing/calc.py\<close>): the largest remainder distribution,
  periods, CO2 steps; the locale \<open>splitter\<close> states what both distributions of the program promise (the
  parts sum to the amount) and is interpreted on each. \<open>Proration\<close> (\<open>mhvp/accounting/proration.py\<close>).
  \<open>Heating\<close> (\<open>mhvp/billing/heating_calc.py\<close>): the statement of heating costs, from the input checks to the
  final sum check.

  \<^bold>\<open>Ledger.\<close> \<open>LedgerState\<close> is the database: the tables of ledgers, accounts, entries, open items,
  settlements, locks and payment orders (\<open>mhvp/accounting/models.py\<close>, \<open>mhvp/banking/models.py\<close>). \<open>PeriodLock\<close>
  (\<open>accounting/period_lock.py\<close>) and \<open>Ledger\<close> (\<open>accounting/services.py\<close>, \<open>accounting/line_property.py\<close>, the entry
  routes of \<open>accounting/routers.py\<close>, \<open>banking/payments.py\<close>) are its operations; \<open>ledger_step\<close> and \<open>lock_step\<close>
  are the transactions a user can run. \<open>LedgerEffects\<close> says what each operation changes, \<open>LedgerInvariant\<close>
  proves the invariant of the reachable databases by rule induction, \<open>LedgerProps\<close> draws the properties.
  \<open>LedgerReports\<close>, \<open>LedgerTrial\<close>, \<open>LedgerHistory\<close>, \<open>LedgerChecks\<close> and \<open>LedgerSubledger\<close> are the account sheet, the
  trial balance, the list of open items and the consistency checks, all over the same database: on a
  database that \<open>ledger_step\<close> reaches every check is silent. \<open>Settlement\<close> (\<open>accounting/settlement.py\<close>) proposes how a payment
  settles open items; its proposals for a reachable ledger stay within the open rests.

  \<^bold>\<open>Homeowner associations.\<close> \<open>HoaPlan\<close>, \<open>HoaLoan\<close>, \<open>HoaLoanYear\<close>, \<open>HoaStatement\<close>, \<open>HoaBlocks\<close> and \<open>CashFlow\<close> are
  \<open>mhvp/hoa/calc.py\<close>: economic plan, loan schedules, annual statement, reserves, labour shares, cash flow.
  They distribute with \<open>Distribution.distribute\<close> and read the ledger database. \<open>Majority\<close> (\<open>hoa/majority.py\<close>,
  \<open>core/auth/scope.py\<close>): the rules for resolutions, the routes that change them and the check of a tally.

  \<^bold>\<open>Tickets.\<close> \<open>BusinessTime\<close> (\<open>sla/business_time.py\<close>) counts office minutes; an instant is the number of
  microseconds since the day before 0001-01-01, in UTC or in local time, and the conversion between both is a
  parameter. \<open>Tickets\<close> (\<open>sla/service.py\<close>, \<open>sla/escalation.py\<close>, \<open>tickets/status.py\<close>,
  \<open>tickets/resolution_kinds.py\<close>, \<open>communication/assignment.py\<close>, \<open>communication/gmail_done.py\<close>): the SLA clock, the
  status flow, resolution kinds, assignment, the automatic close from Gmail and its revert, with \<open>ticket_step\<close> as
  the interleaving of the operations on one ticket; those that do not ask whether it was merged are
  \<open>upkeep_step\<close>. \<open>TicketDesk\<close> (\<open>tickets/merge.py\<close>, \<open>tickets/follow_up.py\<close>, \<open>merge_tickets\<close> in \<open>tickets/routers.py\<close>,
  \<open>attach_to_ticket\<close> in \<open>communication/services.py\<close>, \<open>reopen_from_gmail\<close>) holds what involves several tickets: the
  merge, the end of a case along merges and follow-ups, the target of a new mail, the reopening. \<open>desk_step\<close>
  interleaves all of it; every place that writes the status of a ticket is one of its rules. A history row moves
  with its ticket's merge; nothing is ever removed from the history.

  \<^bold>\<open>Banking.\<close> \<open>Banking\<close> holds the tables of statements, transactions and bank accounts (\<open>banking/models.py\<close>) around
  the ledger database, and the posting of a transaction (\<open>book_payment\<close> in \<open>banking/matching.py\<close>): settled
  items, rest, discount, transfer pairs. \<open>BankImport\<close> and \<open>Reconcile\<close> (\<open>banking/services.py\<close>) import statement files
  and compare statements with each other and with the ledger. \<open>BankSteps\<close> (\<open>banking/routers.py\<close>,
  \<open>banking/events_consumer.py\<close>): review, ignoring, reopening, booking and the answer to a reversal as
  \<open>bank_step\<close>, interleaved with every \<open>ledger_step\<close>; the invariant of both holds in every reachable state.
  Key fingerprints, content hashes and the links between bank accounts and ledger accounts are the parameter
  \<open>bank_env\<close>. \<open>Texts\<close> and \<open>Pain001\<close> (\<open>banking/payments.py\<close>, \<open>accounting/direct_debit.py\<close>): the payment file as a tree
  and its check. \<open>Iban\<close> (\<open>contacts/validation.py\<close>): the check digits of an IBAN.

  \<^bold>\<open>Lemmas.\<close> For each component: the invariant and its preservation by each step, the functional result
  with the error branches, bounds of the rounding, and where a loop could run on, that it ends
  (\<open>linear_plan_closes\<close>, \<open>business_minutes_end\<close>). Refinement: the rule table implements a map
  (\<open>rules_refine_map\<close>), a proposal pours the payment into the sorted items (\<open>proposal_statutory_order\<close>).

  \<^bold>\<open>Bounds.\<close> The only fuel is the program's own limit of 50 tickets for a walk along a case (\<open>MAX_CHAIN\<close>); what
  holds below it is stated with \<open>short_cases\<close>. Other loops are structural recursion or end by a measure: the months of a
  period, the days up to the end of the year 9999 (Python raises \<open>OverflowError\<close> there), the limit of a
  loan schedule (600 months without a term). Sums of money columns are exact below 28 digits, a bound the
  theorems name (\<open>is_cents\<close> amounts below \<open>10 ^ 20\<close> or the like).

  \<^bold>\<open>Interfaces.\<close> \<open>rounding\<close> and \<open>nearest_rounding\<close> (rounding modes), \<open>splitter\<close> (distributions), \<open>side\<close>
  (debtor and creditor side of the sub ledger), \<open>machine\<close> (an invariant that every step keeps).

  \<^bold>\<open>Not modelled.\<close> Texts, translations, PDF and XML rendering, JSON layout and hashes; HTTP, sessions,
  authentication and row level security, events; the packages whose work is input and output or plain
  create, read, update, delete over rows: AI, communication, documents, imports, letting, metering, portal,
  handover, object files, privacy, platform, integrations, and of banking the file readers and adapters (CAMT,
  MT940, EBICS, FinTS, finAPI), proposals, learning, automatic posting and direct debits. In the ledger package: chart
  templates, receivable runs, dunning, tax, assets and exports. Properties of \<open>ledger_step\<close> are about the modelled
  operations: the opening balance posted by a migration (\<open>imports/migration.py\<close>, approver and releaser are the
  same person) and the payable released on a debtor account (\<open>release_payable\<close>, which makes the sub ledger check
  report) are outside. Of the tickets: the refusals of the automatic close that look at mails, orders and
  invoices, and the mail completed by a user, which is an ordinary status change. Concurrent transactions are serial: the rows
  are locked with \<open>FOR UPDATE\<close> and every request is one transaction. The web applications are TypeScript.
\<close>

end
